(* ===== verification/Prelude.thy ===== *)
theory Prelude
  imports "HOL-Library.Word" "HOL-Library.Signed_Division"
begin

text \<open>
  Shared vocabulary of the development: the machine integer types of the Rust source as
  type synonyms over \<open>HOL-Library.Word\<close>, the packing of two bytes into one code word, the
  contract of a byte-encoded enumeration (a locale interpreted by every \<open>repr(u8)\<close>
  enumeration of the code), list lemmas, and the collections that carry the component
  proofs.
\<close>

unbundle bit_operations_syntax

named_theorems numeric_defs "unfolding rules of the checked integer operations"
named_theorems bytecode_defs "unfolding rules of the operand readers and constructors"
named_theorems ssa_defs "unfolding rules of the SSA helpers"
named_theorems gc_defs "unfolding rules of the collector's header operations"

type_synonym u8 = "8 word"
type_synonym u16 = "16 word"
type_synonym u64 = "64 word"
type_synonym i64 = "64 word"
type_synonym f64 = "64 word"

text \<open>A \<open>usize\<close> cut to \<open>u32\<close> by an \<open>as\<close> cast.\<close>

definition as_u32 :: "nat \<Rightarrow> nat" where
  "as_u32 n = n mod 2 ^ 32"

lemma as_u32_le [simp]: "as_u32 n \<le> n"
  by (simp add: as_u32_def)

lemma as_u32_small: "n < 2 ^ 32 \<Longrightarrow> as_u32 n = n"
  by (simp add: as_u32_def)

section \<open>Option and list lemmas\<close>

text \<open>Rust's \<open>slice::get\<close>: a read that reports an index out of range.\<close>

definition list_get :: "'a list \<Rightarrow> nat \<Rightarrow> 'a option" where
  "list_get xs i = (if i < length xs then Some (xs ! i) else None)"

lemma list_get_simps [simp]:
  "list_get [] i = None"
  "list_get (x # xs) 0 = Some x"
  "list_get (x # xs) (Suc i) = list_get xs i"
  by (auto simp: list_get_def)

lemma list_get_numeral [simp]:
  "list_get (x # xs) (numeral k) = list_get xs (pred_numeral k)"
  by (simp add: numeral_eq_Suc)

lemma list_get_Some_iff: "list_get xs i = Some x \<longleftrightarrow> i < length xs \<and> xs ! i = x"
  by (auto simp: list_get_def)

lemma list_get_None_iff: "list_get xs i = None \<longleftrightarrow> length xs \<le> i"
  by (auto simp: list_get_def)

lemma list_get_in_set: "list_get xs i = Some x \<Longrightarrow> x \<in> set xs"
  by (auto simp: list_get_Some_iff)

lemma list_get_append:
  "list_get (xs @ ys) i = (if i < length xs then list_get xs i else list_get ys (i - length xs))"
  by (auto simp: list_get_def nth_append)

text \<open>\<open>Iterator::position\<close>: the first index whose element satisfies the predicate.\<close>

fun position :: "('a \<Rightarrow> bool) \<Rightarrow> 'a list \<Rightarrow> nat option" where
  "position P [] = None"
| "position P (x # xs) = (if P x then Some 0 else map_option Suc (position P xs))"

lemma position_Some: "position P xs = Some i \<Longrightarrow> i < length xs \<and> P (xs ! i)"
  by (induction xs arbitrary: i) (auto split: if_splits)

lemma position_first: "position P xs = Some i \<Longrightarrow> j < i \<Longrightarrow> \<not> P (xs ! j)"
proof (induction xs arbitrary: i j)
  case (Cons x xs)
  then show ?case by (cases j) (auto split: if_splits)
qed simp

lemma position_None: "position P xs = None \<longleftrightarrow> (\<forall>x \<in> set xs. \<not> P x)"
  by (induction xs) auto

text \<open>\<open>Vec::remove\<close> at an index in range.\<close>

definition list_remove :: "nat \<Rightarrow> 'a list \<Rightarrow> 'a list" where
  "list_remove i xs = take i xs @ drop (Suc i) xs"

lemma list_remove_simps [simp]:
  "list_remove i [] = []"
  "list_remove 0 (x # xs) = xs"
  "list_remove (Suc i) (x # xs) = x # list_remove i xs"
  by (simp_all add: list_remove_def)

lemma length_list_remove [simp]: "i < length xs \<Longrightarrow> length (list_remove i xs) = length xs - 1"
  by (simp add: list_remove_def)

lemma set_list_remove: "set (list_remove i xs) \<subseteq> set xs"
  by (auto simp: list_remove_def dest: in_set_takeD in_set_dropD)

section \<open>Two bytes in a code word\<close>

definition hi_byte :: "u16 \<Rightarrow> u8" where
  "hi_byte w = ucast (drop_bit 8 w)"

definition lo_byte :: "u16 \<Rightarrow> u8" where
  "lo_byte w = ucast w"

definition pack_bytes :: "u8 \<Rightarrow> u8 \<Rightarrow> u16" where
  "pack_bytes h l = push_bit 8 (ucast h) OR ucast l"

lemma hi_byte_pack [simp]: "hi_byte (pack_bytes h l) = h"
  unfolding hi_byte_def pack_bytes_def
  by (rule bit_word_eqI) (auto simp: bit_simps dest: bit_imp_le_length)

lemma lo_byte_pack [simp]: "lo_byte (pack_bytes h l) = l"
  unfolding lo_byte_def pack_bytes_def
  by (rule bit_word_eqI) (auto simp: bit_simps)

lemma pack_hi_lo [simp]: "pack_bytes (hi_byte w) (lo_byte w) = w"
  unfolding lo_byte_def hi_byte_def pack_bytes_def
  by (rule bit_word_eqI) (auto simp: bit_simps)

lemma pack_bytes_eq_iff: "pack_bytes a b = pack_bytes c d \<longleftrightarrow> a = c \<and> b = d"
  by (metis hi_byte_pack lo_byte_pack)

section \<open>Byte-encoded enumerations\<close>

text \<open>
  A \<open>repr(u8)\<close> enumeration has an \<open>as u8\<close> cast and a decoder that answers for exactly the
  bytes below the number of variants. The clients (instruction decoding, operand tables,
  field access tags) rely on these two laws only.
\<close>

locale byte_enum =
  fixes enc :: "'e \<Rightarrow> u8"
    and dec :: "u8 \<Rightarrow> 'e option"
    and count :: nat
  assumes dec_enc: "dec (enc e) = Some e"
    and dec_dom: "dec b = None \<longleftrightarrow> count \<le> unat b"
begin

lemma enc_inj: "enc a = enc b \<longleftrightarrow> a = b"
  by (metis dec_enc option.inject)

lemma enc_bound: "unat (enc e) < count"
  using dec_dom [of "enc e"] dec_enc [of e] by (simp add: not_le)

end

end
