(* ===== verification/Numeric.thy ===== *)
theory Numeric
  imports Prelude
begin

text \<open>
  The integer semantics of the language, \<open>crates/varn-core/src/numeric.rs\<close>: an \<open>int\<close> is a
  64-bit two's complement word, every operation that would leave the range answers \<open>None\<close>
  (or a division fault), and the compiler's constant folder and the interpreter both call
  these functions. Floats are their IEEE-754 bit patterns; comparison and the conversion to
  \<open>int\<close> are defined on the bits (\<open>numeric_conv.rs\<close>).
\<close>

section \<open>Integers: checked operations\<close>

definition INT_MAX :: int where "INT_MAX = 2 ^ 63 - 1"
definition INT_MIN :: int where "INT_MIN = - (2 ^ 63)"

definition in_i64 :: "int \<Rightarrow> bool" where
  "in_i64 x \<longleftrightarrow> INT_MIN \<le> x \<and> x \<le> INT_MAX"

text \<open>
  The standard library's \<open>checked_*\<close> operations on \<open>i64\<close>: the exact result when it is
  representable, \<open>None\<close> otherwise.
\<close>

definition i64_checked :: "int \<Rightarrow> i64 option" where
  "i64_checked x = (if in_i64 x then Some (word_of_int x) else None)"

definition checked_int :: "i64 \<Rightarrow> i64 option" where
  "checked_int v = Some v"

definition add_int :: "i64 \<Rightarrow> i64 \<Rightarrow> i64 option" where
  "add_int a b = i64_checked (sint a + sint b)"

definition sub_int :: "i64 \<Rightarrow> i64 \<Rightarrow> i64 option" where
  "sub_int a b = i64_checked (sint a - sint b)"

definition mul_int :: "i64 \<Rightarrow> i64 \<Rightarrow> i64 option" where
  "mul_int a b = i64_checked (sint a * sint b)"

definition neg_int :: "i64 \<Rightarrow> i64 option" where
  "neg_int a = i64_checked (- sint a)"

definition pow_int :: "i64 \<Rightarrow> u64 \<Rightarrow> i64 option" where
  "pow_int a e =
     (if a = 0 then Some (if e = 0 then 1 else 0)
      else if a = 1 then Some 1
      else if a = -1 then Some (if even (unat e) then 1 else -1)
      else if unat e < 2 ^ 32 then i64_checked (sint a ^ unat e) else None)"

definition SHIFT_MAX :: int where "SHIFT_MAX = 63"

text \<open>\<open>u32::try_from(n)\<close> followed by \<open>checked_shl\<close>/\<open>checked_shr\<close>, which refuse 64 and above.\<close>

definition shift_amount :: "i64 \<Rightarrow> nat option" where
  "shift_amount n =
     (if 0 \<le> sint n \<and> sint n < 2 ^ 32 \<and> nat (sint n) < 64 then Some (nat (sint n)) else None)"

definition shl_int :: "i64 \<Rightarrow> i64 \<Rightarrow> i64 option" where
  "shl_int a n = map_option (\<lambda>k. push_bit k a) (shift_amount n)"

definition shr_int :: "i64 \<Rightarrow> i64 \<Rightarrow> i64 option" where
  "shr_int a n = map_option (\<lambda>k. signed_drop_bit k a) (shift_amount n)"

definition ushr_int :: "i64 \<Rightarrow> i64 \<Rightarrow> i64 option" where
  "ushr_int a n = map_option (\<lambda>k. drop_bit k a) (shift_amount n)"

section \<open>Integers: division\<close>

datatype int_div_fault = DivisionByZero | Overflow

definition div_int :: "i64 \<Rightarrow> i64 \<Rightarrow> int_div_fault + i64" where
  "div_int a b =
     (if b = 0 then Inl DivisionByZero
      else case i64_checked (sint a sdiv sint b) of Some q \<Rightarrow> Inr q | None \<Rightarrow> Inl Overflow)"

text \<open>\<open>wrapping_rem\<close>: the remainder of the truncating division.\<close>

definition wrapping_rem :: "i64 \<Rightarrow> i64 \<Rightarrow> i64" where
  "wrapping_rem a b = word_of_int (sint a smod sint b)"

definition rem_int :: "i64 \<Rightarrow> i64 \<Rightarrow> int_div_fault + i64" where
  "rem_int a b = (if b = 0 then Inl DivisionByZero else Inr (wrapping_rem a b))"

definition floor_div_int :: "i64 \<Rightarrow> i64 \<Rightarrow> int_div_fault + i64" where
  "floor_div_int a b =
     (case div_int a b of
        Inl f \<Rightarrow> Inl f
      | Inr q \<Rightarrow>
          Inr (if wrapping_rem a b \<noteq> 0 \<and> (sint a < 0) \<noteq> (sint b < 0) then q - 1 else q))"

definition ceil_div_int :: "i64 \<Rightarrow> i64 \<Rightarrow> int_div_fault + i64" where
  "ceil_div_int a b =
     (case div_int a b of
        Inl f \<Rightarrow> Inl f
      | Inr q \<Rightarrow>
          Inr (if wrapping_rem a b \<noteq> 0 \<and> (sint a < 0) = (sint b < 0) then q + 1 else q))"

text \<open>\<open>wrapping_rem_euclid\<close>: the remainder that is never negative.\<close>

definition mod_int :: "i64 \<Rightarrow> i64 \<Rightarrow> int_div_fault + i64" where
  "mod_int a b =
     (if b = 0 then Inl DivisionByZero else Inr (word_of_int (sint a mod \<bar>sint b\<bar>)))"

lemmas [numeric_defs] =
  checked_int_def add_int_def sub_int_def mul_int_def neg_int_def pow_int_def shl_int_def
  shr_int_def ushr_int_def div_int_def rem_int_def mod_int_def

section \<open>Facts about the range\<close>

lemma in_i64_sint [simp]: "in_i64 (sint (a::i64))"
  using sint_range_size [of a] by (simp add: in_i64_def INT_MIN_def INT_MAX_def word_size)

lemma sint_of_in_range: "in_i64 x \<Longrightarrow> sint (word_of_int x :: i64) = x"
  by (simp add: in_i64_def INT_MIN_def INT_MAX_def sint_sbintrunc'
        signed_take_bit_int_eq_self)

lemma i64_checked_Some_iff:
  "i64_checked x = Some r \<longleftrightarrow> in_i64 x \<and> sint r = x"
  by (auto simp: i64_checked_def sint_of_in_range)

lemma i64_checked_None_iff: "i64_checked x = None \<longleftrightarrow> \<not> in_i64 x"
  by (simp add: i64_checked_def)

lemma i64_checked_sint [simp]: "i64_checked (sint a) = Some a"
  by (simp add: i64_checked_def)

lemma sint_eq_iff: "(a::i64) = b \<longleftrightarrow> sint a = sint b"
  by (auto simp: signed_word_eqI)

section \<open>The contract of a checked binary operation\<close>

locale checked_binop =
  fixes op :: "i64 \<Rightarrow> i64 \<Rightarrow> i64 option"
    and exact :: "int \<Rightarrow> int \<Rightarrow> int"
  assumes op_checked: "op a b = i64_checked (exact (sint a) (sint b))"
begin

lemma Some_iff: "op a b = Some r \<longleftrightarrow> in_i64 (exact (sint a) (sint b)) \<and> sint r = exact (sint a) (sint b)"
  by (simp add: op_checked i64_checked_Some_iff)

lemma None_iff: "op a b = None \<longleftrightarrow> \<not> in_i64 (exact (sint a) (sint b))"
  by (simp add: op_checked i64_checked_None_iff)

end

interpretation add_op: checked_binop add_int "(+)"
  by unfold_locales (simp add: add_int_def)

interpretation sub_op: checked_binop sub_int "(-)"
  by unfold_locales (simp add: sub_int_def)

interpretation mul_op: checked_binop mul_int "(*)"
  by unfold_locales (simp add: mul_int_def)

lemma in_i64_small: "\<bar>x\<bar> \<le> 2 \<Longrightarrow> in_i64 x"
  by (auto simp: in_i64_def INT_MIN_def INT_MAX_def)

lemma pow_out_of_range: "2 \<le> \<bar>x::int\<bar> \<Longrightarrow> 64 \<le> n \<Longrightarrow> \<not> in_i64 (x ^ n)"
proof -
  assume x: "2 \<le> \<bar>x\<bar>" and n: "64 \<le> n"
  have "(2::int) ^ 64 \<le> 2 ^ n" using n by (intro power_increasing) auto
  also have "\<dots> \<le> \<bar>x\<bar> ^ n" using x by (intro power_mono) auto
  finally have "2 ^ 64 \<le> \<bar>x ^ n\<bar>" by (simp add: power_abs)
  then show ?thesis by (auto simp: in_i64_def INT_MIN_def INT_MAX_def)
qed

lemma sint_small [simp]: "sint (0::i64) = 0" "sint (1::i64) = 1" "sint (-1::i64) = -1"
  by simp_all

text \<open>
  C23: \<open>pow_int\<close> answers the exact power exactly when it is an \<open>int\<close>, for every base and every
  64-bit exponent, although the code special-cases 0, 1 and -1 and refuses an exponent that
  does not fit 32 bits before multiplying.
\<close>

theorem pow_int_exact: "pow_int a e = i64_checked (sint a ^ unat e)"
proof -
  consider "a = 0" | "a = 1" | "a = -1" | "2 \<le> \<bar>sint a\<bar>"
  proof -
    have "\<bar>sint a\<bar> < 2 \<Longrightarrow> sint a = 0 \<or> sint a = 1 \<or> sint a = -1" by auto
    then show ?thesis using that by (metis not_le sint_eq_iff sint_small)
  qed
  then show ?thesis
  proof cases
    case 1
    then show ?thesis
      by (auto simp: pow_int_def i64_checked_def in_i64_small power_0_left unat_eq_zero)
  next
    case 2
    then show ?thesis by (auto simp: pow_int_def i64_checked_def in_i64_small)
  next
    case 3
    then show ?thesis
      by (auto simp: pow_int_def i64_checked_def in_i64_small minus_one_power_iff)
  next
    case 4
    then have "a \<noteq> 0" "a \<noteq> 1" "a \<noteq> -1" by auto
    with 4 show ?thesis
      by (auto simp: pow_int_def i64_checked_None_iff pow_out_of_range
          intro!: sym [OF iffD2 [OF i64_checked_None_iff]])
  qed
qed

section \<open>Division\<close>

lemma sdiv_half_range:
  assumes "2 \<le> \<bar>sint (b::i64)\<bar>"
  shows "\<bar>sint (a::i64) sdiv sint b\<bar> \<le> 2 ^ 62"
proof -
  have ra: "INT_MIN \<le> sint a" "sint a \<le> INT_MAX"
    using in_i64_sint [of a] by (auto simp: in_i64_def)
  have "0 \<le> \<bar>sint a\<bar> div \<bar>sint b\<bar>" using assms by (simp add: pos_imp_zdiv_nonneg_iff)
  then have "\<bar>sint a sdiv sint b\<bar> \<le> \<bar>sint a\<bar> div \<bar>sint b\<bar>"
    by (simp add: signed_divide_int_def abs_mult abs_sgn_eq)
  also have "\<dots> \<le> \<bar>sint a\<bar> div 2"
    using assms by (intro zdiv_mono2) auto
  also have "\<dots> \<le> 2 ^ 62"
    using ra by (auto simp: INT_MIN_def INT_MAX_def)
  finally show ?thesis .
qed

lemma sdiv_in_range:
  "sint b \<noteq> 0 \<Longrightarrow> in_i64 (sint (a::i64) sdiv sint (b::i64)) \<longleftrightarrow> \<not> (sint a = INT_MIN \<and> sint b = -1)"
proof
  assume "sint b \<noteq> 0" and r: "in_i64 (sint a sdiv sint b)"
  show "\<not> (sint a = INT_MIN \<and> sint b = -1)"
    using r by (auto simp: in_i64_def INT_MIN_def INT_MAX_def)
next
  assume b: "sint b \<noteq> 0" and n: "\<not> (sint a = INT_MIN \<and> sint b = -1)"
  have ra: "INT_MIN \<le> sint a" "sint a \<le> INT_MAX"
    using in_i64_sint [of a] by (auto simp: in_i64_def)
  show "in_i64 (sint a sdiv sint b)"
  proof (cases "sint b = -1")
    case True
    with n ra show ?thesis by (auto simp: in_i64_def INT_MIN_def INT_MAX_def)
  next
    case False
    show ?thesis
    proof (cases "sint b = 1")
      case True
      with ra show ?thesis by (auto simp: in_i64_def)
    next
      case b1: False
      with b False have "2 \<le> \<bar>sint b\<bar>" by auto
      from sdiv_half_range [OF this, of a] show ?thesis
        by (auto simp: in_i64_def INT_MIN_def INT_MAX_def)
    qed
  qed
qed

lemma div_int_Inr_iff:
  "div_int a b = Inr q \<longleftrightarrow>
     b \<noteq> 0 \<and> \<not> (sint a = INT_MIN \<and> sint b = -1) \<and> sint q = sint a sdiv sint b"
proof (cases "b = 0")
  case False
  then have "sint b \<noteq> 0" by (metis sint_eq_iff sint_small(1))
  with False show ?thesis
    by (auto simp: div_int_def i64_checked_Some_iff i64_checked_None_iff sdiv_in_range
        sint_eq_iff split: option.splits)
qed (simp add: div_int_def)

lemma div_int_Inl_iff:
  "div_int a b = Inl f \<longleftrightarrow>
     (if b = 0 then f = DivisionByZero
      else f = Overflow \<and> sint a = INT_MIN \<and> sint b = -1)"
proof (cases "b = 0")
  case False
  then have "sint b \<noteq> 0" by (metis sint_eq_iff sint_small(1))
  with False show ?thesis
    by (auto simp: div_int_def i64_checked_None_iff sdiv_in_range i64_checked_Some_iff
        split: option.splits)
qed (auto simp: div_int_def)

lemma smod_in_range: "in_i64 (sint (a::i64) smod sint (b::i64))"
proof -
  have ra: "INT_MIN \<le> sint a" "sint a \<le> INT_MAX"
    using in_i64_sint [of a] by (auto simp: in_i64_def)
  have pos: "0 \<le> \<bar>sint a\<bar> mod \<bar>sint b\<bar>"
    by (cases "sint b = 0") auto
  then have "\<bar>sint a smod sint b\<bar> \<le> \<bar>sint a\<bar>"
    by (simp add: signed_modulo_int_def abs_mult abs_sgn_eq zmod_le_nonneg_dividend)
  moreover have "0 \<le> sint a \<Longrightarrow> 0 \<le> sint a smod sint b"
    using pos by (simp add: signed_modulo_int_def sgn_if)
  moreover have "sint a < 0 \<Longrightarrow> sint a smod sint b \<le> 0"
    using pos by (simp add: signed_modulo_int_def sgn_if)
  ultimately show ?thesis
    using ra by (cases "0 \<le> sint a") (auto simp: in_i64_def INT_MIN_def INT_MAX_def)
qed

lemma sint_wrapping_rem [simp]: "sint (wrapping_rem a b) = sint a smod sint b"
  by (simp add: wrapping_rem_def sint_of_in_range smod_in_range)

lemma wrapping_rem_eq_0_iff: "wrapping_rem a b = 0 \<longleftrightarrow> sint b dvd sint a"
  by (auto simp: sint_eq_iff [of _ 0] signed_modulo_int_def dvd_eq_mod_eq_0 [symmetric] sgn_0_0)


lemma sint_add_small:
  assumes "\<bar>sint (q::i64)\<bar> \<le> 2 ^ 62" "\<bar>k\<bar> \<le> 1"
  shows "sint (q + word_of_int k) = sint q + k"
proof -
  have "q + word_of_int k = word_of_int (sint q + k)" by simp
  moreover have "in_i64 (sint q + k)"
    using assms by (auto simp: in_i64_def INT_MIN_def INT_MAX_def)
  ultimately show ?thesis by (simp only: sint_of_in_range)
qed

lemma not_dvd_ge2: "\<not> (b::int) dvd a \<Longrightarrow> b \<noteq> 0 \<Longrightarrow> 2 \<le> \<bar>b\<bar>"
proof (rule ccontr)
  assume nd: "\<not> b dvd a" and "b \<noteq> 0" "\<not> 2 \<le> \<bar>b\<bar>"
  then have "b = 1 \<or> b = -1" by auto
  with nd show False by auto
qed

lemma sgn_neq_iff:
  "(a::int) \<noteq> 0 \<Longrightarrow> b \<noteq> 0 \<Longrightarrow> (sgn a \<noteq> sgn b) \<longleftrightarrow> ((a < 0) \<noteq> (b < 0))"
  by (auto simp: sgn_if)

lemma floor_adjust:
  assumes b: "b \<noteq> 0" and q: "sint (q::i64) = sint a sdiv sint b"
  shows "sint (if wrapping_rem a b \<noteq> 0 \<and> (sint a < 0) \<noteq> (sint b < 0) then q - 1 else q)
           = sint a div sint b"
proof -
  have b0: "sint b \<noteq> 0" using b by (metis sint_eq_iff sint_small(1))
  show ?thesis
  proof (cases "sint b dvd sint a")
    case True
    then show ?thesis
      using q b0 by (auto simp: wrapping_rem_eq_0_iff divide_int_eq_signed_divide_int)
  next
    case False
    then have a0: "sint a \<noteq> 0" and ge2: "2 \<le> \<bar>sint b\<bar>" using b0 not_dvd_ge2 by auto
    have "\<bar>sint q\<bar> \<le> 2 ^ 62" using sdiv_half_range [OF ge2] q by simp
    then have "sint (q - 1) = sint q - 1" using sint_add_small [of q "-1"] by simp
    with False q b0 a0 show ?thesis
      by (simp add: wrapping_rem_eq_0_iff divide_int_eq_signed_divide_int sgn_neq_iff)
  qed
qed

lemma ceil_adjust:
  assumes b: "b \<noteq> 0" and q: "sint (q::i64) = sint a sdiv sint b"
  shows "sint (if wrapping_rem a b \<noteq> 0 \<and> (sint a < 0) = (sint b < 0) then q + 1 else q)
           = - ((- sint a) div sint b)"
proof -
  have b0: "sint b \<noteq> 0" using b by (metis sint_eq_iff sint_small(1))
  have neg: "- sint a sdiv sint b = - (sint a sdiv sint b)"
    by (simp add: signed_divide_int_def sgn_minus)
  show ?thesis
  proof (cases "sint b dvd sint a")
    case True
    then show ?thesis
      using q b0 by (auto simp: wrapping_rem_eq_0_iff divide_int_eq_signed_divide_int neg)
  next
    case False
    then have a0: "sint a \<noteq> 0" and ge2: "2 \<le> \<bar>sint b\<bar>" using b0 not_dvd_ge2 by auto
    have "\<bar>sint q\<bar> \<le> 2 ^ 62" using sdiv_half_range [OF ge2] q by simp
    then have "sint (q + 1) = sint q + 1" using sint_add_small [of q "1"] by simp
    moreover have "(sgn (- sint a) \<noteq> sgn (sint b)) = ((sint a < 0) = (sint b < 0))"
      using a0 b0 by (auto simp: sgn_if)
    ultimately show ?thesis using False q b0 a0
      by (simp add: wrapping_rem_eq_0_iff divide_int_eq_signed_divide_int neg)
  qed
qed

lemma floor_div_int_exact:
  "floor_div_int a b = Inr q \<longleftrightarrow>
     b \<noteq> 0 \<and> \<not> (sint a = INT_MIN \<and> sint b = -1) \<and> sint q = sint a div sint b"
  using floor_adjust [of b _ a]
  by (auto simp: floor_div_int_def div_int_Inr_iff div_int_Inl_iff sint_eq_iff split: sum.splits if_splits)


lemma ceil_div_int_exact:
  "ceil_div_int a b = Inr q \<longleftrightarrow>
     b \<noteq> 0 \<and> \<not> (sint a = INT_MIN \<and> sint b = -1) \<and> sint q = - ((- sint a) div sint b)"
  using ceil_adjust [of b _ a]
  by (auto simp: ceil_div_int_def div_int_Inr_iff div_int_Inl_iff sint_eq_iff split: sum.splits if_splits)

lemma mod_int_in_range: "b \<noteq> 0 \<Longrightarrow> in_i64 (sint (a::i64) mod \<bar>sint (b::i64)\<bar>)"
proof -
  assume "b \<noteq> 0"
  then have b0: "0 < \<bar>sint b\<bar>" by (simp add: sint_eq_iff)
  have "\<bar>sint b\<bar> \<le> INT_MAX + 1"
    using in_i64_sint [of b] by (auto simp: in_i64_def INT_MIN_def INT_MAX_def)
  then show ?thesis
    using pos_mod_sign [OF b0, of "sint a"] pos_mod_bound [OF b0, of "sint a"]
    by (simp add: in_i64_def INT_MIN_def INT_MAX_def)
qed

lemma mod_int_exact:
  "mod_int a b = Inr r \<longleftrightarrow> b \<noteq> 0 \<and> sint r = sint a mod \<bar>sint b\<bar>"
  by (auto simp: mod_int_def sint_of_in_range mod_int_in_range sint_eq_iff [of _ r])

text \<open>
  C24: the three roundings of the integer division are exact: \<open>floor_div_int\<close> and
  \<open>ceil_div_int\<close>, which adjust the truncated quotient by the signs of the operands, give the
  floor and the ceiling of the rational quotient, and \<open>mod_int\<close> the remainder that is never
  negative; they fault exactly on a zero divisor and on \<open>INT_MIN / -1\<close> (\<open>mod_int\<close> only on
  zero).
\<close>

theorem int_division_exact:
  "(floor_div_int a b = Inr q \<longleftrightarrow>
      b \<noteq> 0 \<and> \<not> (sint a = INT_MIN \<and> sint b = -1) \<and> sint q = sint a div sint b) \<and>
   (ceil_div_int a b = Inr q \<longleftrightarrow>
      b \<noteq> 0 \<and> \<not> (sint a = INT_MIN \<and> sint b = -1) \<and> sint q = - ((- sint a) div sint b)) \<and>
   (mod_int a b = Inr q \<longleftrightarrow> b \<noteq> 0 \<and> sint q = sint a mod \<bar>sint b\<bar>)"
  by (intro conjI floor_div_int_exact ceil_div_int_exact mod_int_exact)

lemma div_rem_identity:
  assumes "div_int a b = Inr q" "rem_int a b = Inr r"
  shows "sint a = sint q * sint b + sint r \<and> \<bar>sint r\<bar> < \<bar>sint b\<bar> \<and> sint r * sint a \<ge> 0"
proof -
  from assms have b: "sint b \<noteq> 0" and q: "sint q = sint a sdiv sint b"
    and r: "sint r = sint a smod sint b"
    by (auto simp: div_int_Inr_iff rem_int_def sint_eq_iff split: if_splits)
  have "\<bar>sint r\<bar> < \<bar>sint b\<bar>"
    using b by (auto simp: r signed_modulo_int_def abs_mult abs_sgn_eq)
  moreover have "0 \<le> sint r * sint a"
    using b by (auto simp: r signed_modulo_int_def sgn_if zero_le_mult_iff)
  ultimately show ?thesis by (simp add: q r sdiv_mult_smod_eq)
qed

section \<open>Index clamping\<close>

definition saturating_i64 :: "int \<Rightarrow> int" where
  "saturating_i64 x = max INT_MIN (min INT_MAX x)"

text \<open>A \<open>usize\<close> seen as \<open>i64\<close> by an \<open>as\<close> cast.\<close>

definition as_i64 :: "nat \<Rightarrow> int" where
  "as_i64 n = sint (word_of_nat n :: i64)"

definition clamp_index :: "i64 \<Rightarrow> nat \<Rightarrow> nat" where
  "clamp_index index len =
     (if sint index < 0
      then (let s = saturating_i64 (sint index + as_i64 len) in if 0 \<le> s then nat s else 0)
      else min (nat (sint index)) len)"

definition slice_bounds :: "nat \<Rightarrow> i64 option \<Rightarrow> i64 option \<Rightarrow> nat \<times> nat" where
  "slice_bounds len start fin =
     (let from = clamp_index (case start of Some s \<Rightarrow> s | None \<Rightarrow> 0) len;
          to = max (clamp_index (case fin of Some e \<Rightarrow> e | None \<Rightarrow> word_of_nat len) len) from
      in (from, to))"

lemma as_i64_small: "len < 2 ^ 63 \<Longrightarrow> as_i64 len = int len"
proof -
  assume "len < 2 ^ 63"
  then have "in_i64 (int len)" by (simp add: in_i64_def INT_MIN_def INT_MAX_def)
  then show ?thesis by (metis as_i64_def of_int_of_nat_eq sint_of_in_range)
qed

lemma clamp_index_exact:
  assumes "len < 2 ^ 63"
  shows "int (clamp_index i len) =
           (if sint i < 0 then max 0 (int len + sint i) else min (sint i) (int len))"
proof -
  have "INT_MIN \<le> sint i" using in_i64_sint [of i] by (simp add: in_i64_def)
  with assms show ?thesis
    by (auto simp: clamp_index_def as_i64_small Let_def saturating_i64_def INT_MIN_def INT_MAX_def)
qed

text \<open>
  Whatever the two indices of a slice are (negative, past the end, crossed), the bounds the
  machine slices with are ordered and within the sequence.
\<close>

theorem slice_bounds_ordered:
  assumes "len < 2 ^ 63"
  shows "fst (slice_bounds len s e) \<le> snd (slice_bounds len s e) \<and> snd (slice_bounds len s e) \<le> len"
proof -
  have "clamp_index i len \<le> len" for i
    using clamp_index_exact [OF assms, of i] by (simp split: if_splits)
  then show ?thesis by (simp add: slice_bounds_def Let_def)
qed

theorem slice_bounds_ordered_witness:
  "(3::nat) < 2 ^ 63 \<and>
   fst (slice_bounds 3 (Some (-1)) (Some (-9))) \<le> snd (slice_bounds 3 (Some (-1)) (Some (-9))) \<and>
   snd (slice_bounds 3 (Some (-1)) (Some (-9))) \<le> 3"
  using slice_bounds_ordered [of 3 "Some (-1)" "Some (-9)"] by simp

lemma slice_bounds_full: "len < 2 ^ 63 \<Longrightarrow> slice_bounds len None None = (0, len)"
proof -
  assume l: "len < 2 ^ 63"
  have "sint (word_of_nat len :: i64) = int len" using as_i64_small [OF l] by (simp add: as_i64_def)
  then have "int (clamp_index (word_of_nat len) len) = int len"
    using clamp_index_exact [OF l, of "word_of_nat len"] by simp
  moreover have "int (clamp_index 0 len) = 0" using clamp_index_exact [OF l, of 0] by simp
  ultimately show ?thesis by (simp add: slice_bounds_def Let_def)
qed
end
