(* ===== verification/Floats.thy ===== *)
theory Floats
  imports Numeric
begin

text \<open>
  The float half of \<open>crates/varn-core/src/numeric.rs\<close> and \<open>numeric_conv.rs\<close>. A float is
  its IEEE-754 binary64 bit pattern; ordering, the sign and the integer part are computed
  on the bits, so the functions below are executable. Arithmetic that rounds is not needed
  here: the components that fold or execute it take it as a record of operations.
\<close>

section \<open>The binary64 pattern\<close>

definition f_exp_field :: "f64 \<Rightarrow> nat" where
  "f_exp_field x = unat (drop_bit 52 x) mod 2048"

definition f_frac_field :: "f64 \<Rightarrow> nat" where
  "f_frac_field x = unat x mod 2 ^ 52"

definition f_sign_negative :: "f64 \<Rightarrow> bool" where
  "f_sign_negative x = bit x 63"

definition f_is_nan :: "f64 \<Rightarrow> bool" where
  "f_is_nan x \<longleftrightarrow> f_exp_field x = 2047 \<and> f_frac_field x \<noteq> 0"

definition f_is_finite :: "f64 \<Rightarrow> bool" where
  "f_is_finite x \<longleftrightarrow> f_exp_field x \<noteq> 2047"

text \<open>The order of the non-NaN floats is the order of their signed magnitudes.\<close>

definition f_magnitude :: "f64 \<Rightarrow> nat" where
  "f_magnitude x = unat x mod 2 ^ 63"

definition f_key :: "f64 \<Rightarrow> int" where
  "f_key x = (if f_sign_negative x then - int (f_magnitude x) else int (f_magnitude x))"

definition f_eq :: "f64 \<Rightarrow> f64 \<Rightarrow> bool" where
  "f_eq a b \<longleftrightarrow> \<not> f_is_nan a \<and> \<not> f_is_nan b \<and> f_key a = f_key b"

definition f_lt :: "f64 \<Rightarrow> f64 \<Rightarrow> bool" where
  "f_lt a b \<longleftrightarrow> \<not> f_is_nan a \<and> \<not> f_is_nan b \<and> f_key a < f_key b"

definition f_le :: "f64 \<Rightarrow> f64 \<Rightarrow> bool" where
  "f_le a b \<longleftrightarrow> \<not> f_is_nan a \<and> \<not> f_is_nan b \<and> f_key a \<le> f_key b"

definition F_NAN :: f64 where "F_NAN = 0x7FF8000000000000"
definition F_ZERO :: f64 where "F_ZERO = 0"
definition F_ONE :: f64 where "F_ONE = 0x3FF0000000000000"
definition F_NEG_ONE :: f64 where "F_NEG_ONE = 0xBFF0000000000000"

definition f_neg :: "f64 \<Rightarrow> f64" where
  "f_neg x = flip_bit 63 x"

section \<open>Maximum, minimum and sign\<close>

definition fmax :: "f64 \<Rightarrow> f64 \<Rightarrow> f64" where
  "fmax a b =
     (if f_is_nan a \<or> f_is_nan b then F_NAN
      else if f_eq a b then (if f_sign_negative a then b else a)
      else if f_lt b a then a else b)"

definition fmin :: "f64 \<Rightarrow> f64 \<Rightarrow> f64" where
  "fmin a b =
     (if f_is_nan a \<or> f_is_nan b then F_NAN
      else if f_eq a b then (if f_sign_negative a then a else b)
      else if f_lt a b then a else b)"

definition fsign :: "f64 \<Rightarrow> f64" where
  "fsign x =
     (if f_is_nan x \<or> f_eq x F_ZERO then x
      else if f_lt F_ZERO x then F_ONE else F_NEG_ONE)"

section \<open>Conversion to int\<close>

text \<open>
  \<open>f.trunc()\<close> of a finite float, as the integer it denotes: the significand times two to
  the exponent, cut towards zero. \<open>float_to_int\<close> refuses NaN, the infinities and
  everything outside \<open>-2^63 .. 2^63\<close>.
\<close>

definition f_significand :: "f64 \<Rightarrow> nat" where
  "f_significand x = (if f_exp_field x = 0 then f_frac_field x else 2 ^ 52 + f_frac_field x)"

definition f_trunc :: "f64 \<Rightarrow> int" where
  "f_trunc x =
     (let m = f_significand x; e = max 1 (f_exp_field x);
          v = (if 1075 \<le> e then m * 2 ^ (e - 1075) else m div 2 ^ (1075 - e))
      in if f_sign_negative x then - int v else int v)"

definition float_to_int :: "f64 \<Rightarrow> i64 option" where
  "float_to_int f =
     (if \<not> f_is_finite f then None
      else if - (2 ^ 63) \<le> f_trunc f \<and> f_trunc f < 2 ^ 63
           then Some (word_of_int (f_trunc f)) else None)"

text \<open>
  \<open>n as f64\<close>: the nearest float, ties to the even significand. \<open>k\<close> is the position of the
  leading bit; a carry out of the significand moves into the exponent field by itself.
\<close>

fun bit_length :: "nat \<Rightarrow> nat" where
  "bit_length n = (if n = 0 then 0 else Suc (bit_length (n div 2)))"

declare bit_length.simps [simp del]

definition round_even :: "nat \<Rightarrow> nat \<Rightarrow> nat" where
  "round_even m s =
     (let q = m div 2 ^ s; r = m mod 2 ^ s
      in if s = 0 then m
         else if 2 * r > 2 ^ s \<or> (2 * r = 2 ^ s \<and> odd q) then q + 1 else q)"

definition int_to_float :: "i64 \<Rightarrow> f64" where
  "int_to_float n =
     (if n = 0 then F_ZERO
      else
        let m = nat \<bar>sint n\<bar>; k = bit_length m - 1;
            sig = (if k \<le> 52 then m * 2 ^ (52 - k) else round_even m (k - 52));
            bits = word_of_nat ((k + 1022) * 2 ^ 52 + sig) :: f64
        in if sint n < 0 then f_neg bits else bits)"

section \<open>Fixed-point printing\<close>

definition FIXED_MAX_DIGITS :: int where "FIXED_MAX_DIGITS = 100"

definition fixed_digits :: "i64 option \<Rightarrow> nat option" where
  "fixed_digits digits =
     (let d = (case digits of Some d \<Rightarrow> sint d | None \<Rightarrow> 0)
      in if 0 \<le> d \<and> d \<le> FIXED_MAX_DIGITS then Some (nat d) else None)"

text \<open>
  The rounding loop of \<open>float_to_fixed\<close>: it walks the kept digits from the last one,
  turning nines into zeros until it can increment one; past the first digit it inserts a
  leading one. Digits are their values, \<open>b'0'\<close> to \<open>b'9'\<close>.
\<close>

fun carry_loop :: "nat list \<Rightarrow> nat \<Rightarrow> nat list" where
  "carry_loop kept 0 = 1 # kept"
| "carry_loop kept (Suc at) =
     (if kept ! at = 9 then carry_loop (kept[at := 0]) at else kept[at := kept ! at + 1])"

text \<open>
  \<open>whole\<close> and \<open>fraction\<close> are the digits of the exact decimal expansion the code prints with
  \<open>{:.1100}\<close>; the result is split before the last \<open>digits\<close> digits.
\<close>

definition fixed_round :: "nat list \<Rightarrow> nat list \<Rightarrow> nat \<Rightarrow> nat list \<times> nat list" where
  "fixed_round whole fraction digits =
     (let kept = whole @ take digits fraction;
          round_up = (case list_get fraction digits of Some d \<Rightarrow> d \<ge> 5 | None \<Rightarrow> False);
          kept = (if round_up then carry_loop kept (length kept) else kept);
          point = length kept - digits
      in (take point kept, drop point kept))"

section \<open>Facts about the order and the extrema\<close>

lemma f_key_zero_iff: "f_key x = 0 \<longleftrightarrow> f_magnitude x = 0"
  by (simp add: f_key_def)

lemma f_zero_key [simp]: "f_key F_ZERO = 0" and f_zero_not_nan [simp]: "\<not> f_is_nan F_ZERO"
  by (simp_all add: f_key_def F_ZERO_def f_magnitude_def f_is_nan_def f_exp_field_def)

lemma unat_split_sign: "unat (x::f64) = f_magnitude x + (if f_sign_negative x then 2 ^ 63 else 0)"
proof -
  have "unat x < 2 ^ LENGTH(64)" by (rule unsigned_less)
  then have "unat x div 2 ^ 63 < 2" by (simp add: less_mult_imp_div_less)
  moreover have "f_sign_negative x \<longleftrightarrow> odd (unat x div 2 ^ 63)"
    using bit_unsigned_iff [of x 63, where ?'a = nat] by (simp add: f_sign_negative_def bit_iff_odd [of "unat x"])
  ultimately have "unat x div 2 ^ 63 = (if f_sign_negative x then 1 else 0)"
    by (cases "unat x div 2 ^ 63") auto
  then show ?thesis
    using div_mult_mod_eq [of "unat x" "2 ^ 63"] by (simp add: f_magnitude_def split: if_splits)
qed

lemma f_key_inj:
  assumes "f_key a = f_key b" "f_key a \<noteq> 0"
  shows "a = b"
proof -
  from assms have "f_magnitude a = f_magnitude b \<and> f_sign_negative a = f_sign_negative b"
    by (auto simp: f_key_def split: if_splits)
  then have "unat a = unat b" by (simp only: unat_split_sign [of a] unat_split_sign [of b])
  then show ?thesis by (simp add: word_unat_eq_iff)
qed

lemma f_zero_sign: "f_key a = 0 \<Longrightarrow> f_key b = 0 \<Longrightarrow> f_sign_negative a = f_sign_negative b \<Longrightarrow> a = b"
proof -
  assume "f_key a = 0" "f_key b = 0" "f_sign_negative a = f_sign_negative b"
  then have "unat a = unat b"
    by (simp only: unat_split_sign [of a] unat_split_sign [of b] f_key_zero_iff)
  then show "a = b" by (simp add: word_unat_eq_iff)
qed

lemma nan_F_NAN [simp]: "f_is_nan F_NAN"
  by (simp add: F_NAN_def f_is_nan_def f_exp_field_def f_frac_field_def)

lemma fmax_upper_bound:
  "\<not> f_is_nan a \<Longrightarrow> \<not> f_is_nan b \<Longrightarrow>
     (fmax a b = a \<or> fmax a b = b) \<and> f_key (fmax a b) = max (f_key a) (f_key b)"
  by (auto simp: fmax_def f_eq_def f_lt_def)

lemma fmax_commute: "fmax a b = fmax b a"
proof (cases "f_is_nan a \<or> f_is_nan b \<or> f_key a \<noteq> f_key b")
  case True
  then show ?thesis by (auto simp: fmax_def f_eq_def f_lt_def)
next
  case False
  then show ?thesis
  proof (cases "f_key a = 0")
    case True
    with False f_zero_sign [of a b] show ?thesis by (auto simp: fmax_def f_eq_def)
  next
    case nz: False
    with False f_key_inj [of a b] show ?thesis by simp
  qed
qed

lemma fmin_bounds:
  "\<not> f_is_nan a \<Longrightarrow> \<not> f_is_nan b \<Longrightarrow>
     (fmin a b = a \<or> fmin a b = b) \<and> f_key (fmin a b) = min (f_key a) (f_key b)"
  by (auto simp: fmin_def f_eq_def f_lt_def)

lemma fmin_commute: "fmin a b = fmin b a"
proof (cases "f_is_nan a \<or> f_is_nan b \<or> f_key a \<noteq> f_key b")
  case True
  then show ?thesis by (auto simp: fmin_def f_eq_def f_lt_def)
next
  case False
  then show ?thesis
  proof (cases "f_key a = 0")
    case True
    with False f_zero_sign [of a b] show ?thesis by (auto simp: fmin_def f_eq_def)
  next
    case nz: False
    with False f_key_inj [of a b] show ?thesis by simp
  qed
qed

text \<open>Between the two zeros the maximum is the positive one and the minimum the negative one.\<close>

lemma fmax_fmin_zero:
  assumes "f_key a = 0" "f_key b = 0" "\<not> f_is_nan a" "\<not> f_is_nan b"
  shows "f_sign_negative (fmax a b) = (f_sign_negative a \<and> f_sign_negative b)
       \<and> f_sign_negative (fmin a b) = (f_sign_negative a \<or> f_sign_negative b)"
  using assms by (auto simp: fmax_def fmin_def f_eq_def)

text \<open>
  On two numbers \<open>fmax\<close> and \<open>fmin\<close> return one of them, the greater and the smaller in the
  order of the floats, both are commutative bit for bit, and between the two zeros the
  maximum is negative only if both are and the minimum if one is.
\<close>

theorem fmax_fmin_extrema:
  assumes "\<not> f_is_nan a" "\<not> f_is_nan b"
  shows "fmax a b \<in> {a, b} \<and> f_key (fmax a b) = max (f_key a) (f_key b) \<and> fmax a b = fmax b a \<and>
         fmin a b \<in> {a, b} \<and> f_key (fmin a b) = min (f_key a) (f_key b) \<and> fmin a b = fmin b a \<and>
         (f_key a = 0 \<and> f_key b = 0 \<longrightarrow>
            f_sign_negative (fmax a b) = (f_sign_negative a \<and> f_sign_negative b) \<and>
            f_sign_negative (fmin a b) = (f_sign_negative a \<or> f_sign_negative b))"
  using assms fmax_upper_bound [of a b] fmin_bounds [of a b] fmax_fmin_zero [of a b]
  by (simp add: fmax_commute [of a b] fmin_commute [of a b] insert_commute)

theorem fmax_fmin_extrema_witness:
  "\<not> f_is_nan F_ZERO \<and> \<not> f_is_nan (f_neg F_ZERO) \<and> f_sign_negative (fmin F_ZERO (f_neg F_ZERO))"
proof -
  have z: "\<not> f_is_nan (f_neg F_ZERO)" "f_key (f_neg F_ZERO) = 0" "f_sign_negative (f_neg F_ZERO)"
    by (simp_all add: f_is_nan_def f_exp_field_def f_frac_field_def f_neg_def F_ZERO_def f_key_def
        f_magnitude_def f_sign_negative_def flip_bit_eq_if bit_simps)
  then show ?thesis using fmax_fmin_extrema [of F_ZERO "f_neg F_ZERO"] by (metis f_zero_key f_zero_not_nan)
qed

section \<open>Digits\<close>

definition digits_value :: "nat list \<Rightarrow> nat" where
  "digits_value ds = foldl (\<lambda>a d. 10 * a + d) 0 ds"

lemma foldl_digits: "foldl (\<lambda>a d. 10 * a + d) v ds = v * 10 ^ length ds + digits_value ds"
  unfolding digits_value_def
proof (induction ds arbitrary: v)
  case (Cons d ds)
  show ?case
    unfolding foldl_Cons Cons.IH [of "10 * v + d"] Cons.IH [of "10 * 0 + d"]
    by (simp add: algebra_simps)
qed simp

lemma digits_value_append: "digits_value (xs @ ys) = digits_value xs * 10 ^ length ys + digits_value ys"
  using foldl_digits [of "digits_value xs" ys] by (simp add: digits_value_def)

lemma digits_value_simps [simp]:
  "digits_value [] = 0"
  "digits_value (d # ds) = d * 10 ^ length ds + digits_value ds"
  using foldl_digits [of d ds] by (simp_all add: digits_value_def)

lemma digits_value_bound: "\<forall>d \<in> set ds. d \<le> 9 \<Longrightarrow> digits_value ds < 10 ^ length ds"
proof (induction ds)
  case (Cons d ds)
  then have "digits_value ds < 10 ^ length ds" "d \<le> 9" by auto
  then have "d * 10 ^ length ds + digits_value ds < 9 * 10 ^ length ds + 10 ^ length ds"
    by (meson add_le_less_mono mult_le_mono1)
  then show ?case by simp
qed simp

lemma carry_loop_value:
  "at \<le> length ks \<Longrightarrow> (\<forall>d \<in> set ks. d \<le> 9) \<Longrightarrow>
     digits_value (carry_loop ks at) = digits_value ks + 10 ^ (length ks - at)
     \<and> (\<forall>d \<in> set (carry_loop ks at). d \<le> 9)
     \<and> length ks \<le> length (carry_loop ks at)"
proof (induction ks at rule: carry_loop.induct)
  case (1 ks)
  then show ?case by simp
next
  case (2 ks at)
  have split: "ks = take at ks @ ks ! at # drop (Suc at) ks"
    using 2(2) by (simp add: id_take_nth_drop)
  have upd: "ks[at := v] = take at ks @ v # drop (Suc at) ks" for v
    using 2(2) by (simp add: upd_conv_take_nth_drop)
  have val: "digits_value (ks[at := v]) + ks ! at * 10 ^ (length ks - Suc at)
               = digits_value ks + v * 10 ^ (length ks - Suc at)" for v
    by (subst split, subst upd, simp add: digits_value_append)
  have small: "\<forall>d \<in> set (ks[at := v]). d \<le> 9" if "v \<le> 9" for v
    using 2(3) that set_update_subset_insert [of ks at v] by auto
  show ?case
  proof (cases "ks ! at = 9")
    case True
    have "length ks - at = Suc (length ks - Suc at)" using 2(2) by simp
    then show ?thesis
      using 2(1) [OF True] 2(2) val [of 0] small [of 0] True by simp
  next
    case False
    moreover have "ks ! at \<le> 9" using 2(2,3) by simp
    ultimately have "ks ! at + 1 \<le> 9" by simp
    then show ?thesis using False val [of "ks ! at + 1"] small [of "ks ! at + 1"] by simp
  qed
qed

lemma digits_value_take_drop:
  "digits_value xs = digits_value (take n xs) * 10 ^ (length xs - n) + digits_value (drop n xs)"
  using digits_value_append [of "take n xs" "drop n xs"] by simp

lemma carry_loop_end:
  assumes "\<forall>d \<in> set ks. d \<le> 9"
  shows "digits_value (carry_loop ks (length ks)) = digits_value ks + 1"
  using carry_loop_value [of "length ks" ks] assms by simp

lemma fixed_round_parts:
  fixes whole fraction :: "nat list" and digits :: nat
  defines "kept \<equiv> whole @ take digits fraction"
  assumes "\<forall>d \<in> set (whole @ fraction). d \<le> 9" "digits \<le> length fraction"
    and "fixed_round whole fraction digits = (i, f)"
  shows "digits_value (i @ f) = digits_value kept +
           (if digits < length fraction \<and> 5 \<le> fraction ! digits then 1 else 0)"
    and "length f = digits"
    and "\<forall>d \<in> set (i @ f). d \<le> 9"
proof -
  have small: "\<forall>d \<in> set kept. d \<le> 9"
    using assms(2) by (auto simp: kept_def dest: in_set_takeD)
  define up where "up \<longleftrightarrow> digits < length fraction \<and> 5 \<le> fraction ! digits"
  define ks where "ks = (if up then carry_loop kept (length kept) else kept)"
  have len: "digits \<le> length kept" "length kept \<le> length ks"
    using assms(3) carry_loop_value [of "length kept" kept] small by (auto simp: kept_def ks_def)
  have split: "i = take (length ks - digits) ks" "f = drop (length ks - digits) ks"
    using assms(4) by (auto simp: fixed_round_def Let_def list_get_def kept_def ks_def up_def
        split: if_splits)
  then show "length f = digits" using len by simp
  have kf: "i @ f = ks" using split by simp
  have "\<forall>d \<in> set ks. d \<le> 9" using small carry_loop_value [of "length kept" kept] by (simp add: ks_def)
  then show "\<forall>d \<in> set (i @ f). d \<le> 9" using kf by simp
  from kf show "digits_value (i @ f) = digits_value kept +
           (if digits < length fraction \<and> 5 \<le> fraction ! digits then 1 else 0)"
    using carry_loop_end [OF small] by (auto simp: ks_def up_def)
qed

text \<open>
  C25: fixed-point printing rounds to the nearest, a tie up: the result is made of decimal digits,
  has exactly the digits asked for after the point, and its value is that of the operand plus half
  a unit of the last digit kept, cut off; so it is within half that unit of the operand.
\<close>

theorem fixed_round_nearest:
  assumes digits: "\<forall>d \<in> set (whole @ fraction). d \<le> 9" "digits \<le> length fraction"
    and res: "fixed_round whole fraction digits = (i, f)"
  shows "(\<forall>d \<in> set (i @ f). d \<le> 9) \<and> length f = digits \<and>
         digits_value (i @ f) =
           (2 * digits_value (whole @ fraction) + 10 ^ (length fraction - digits)) div (2 * 10 ^ (length fraction - digits)) \<and>
         \<bar>2 * (int (digits_value (i @ f)) * 10 ^ (length fraction - digits)
               - int (digits_value (whole @ fraction)))\<bar> \<le> 10 ^ (length fraction - digits)"
proof -
  let ?n = "length fraction - digits" and ?kept = "whole @ take digits fraction"
  let ?rest = "drop digits fraction" and ?K = "digits_value (whole @ take digits fraction)"
  let ?R = "digits_value (drop digits fraction)" and ?up = "digits < length fraction \<and> 5 \<le> fraction ! digits"
  have exact: "digits_value (whole @ fraction) = ?K * 10 ^ ?n + ?R"
    using digits_value_append [of ?kept ?rest] by simp
  have small: "\<forall>d \<in> set ?rest. d \<le> 9" using digits(1) by (auto dest: in_set_dropD)
  note parts = fixed_round_parts [OF digits res]
  have half: "if ?up then 10 ^ ?n \<le> 2 * ?R \<and> ?R < 10 ^ ?n else 2 * ?R < 10 ^ ?n"
  proof (cases "digits < length fraction")
    case False
    then show ?thesis by simp
  next
    case True
    define d r m where "d = fraction ! digits" and "r = drop (Suc digits) fraction" and "m = ?n - 1"
    have rest: "?rest = d # r" using Cons_nth_drop_Suc [OF True] by (simp add: d_def r_def)
    have n: "?n = Suc m" and lr: "length r = m" using True by (auto simp: r_def m_def)
    have br: "digits_value r < 10 ^ m" using digits_value_bound [of r] small rest lr by simp
    have vr: "?R = d * 10 ^ m + digits_value r" by (simp add: rest lr)
    have d9: "d * 10 ^ m \<le> 9 * 10 ^ m" using small rest by simp
    show ?thesis
    proof (cases "5 \<le> d")
      case up: True
      then have "5 * 10 ^ m \<le> d * 10 ^ m" by simp
      moreover have "(10 :: nat) ^ ?n = 10 * 10 ^ m" by (simp add: n)
      ultimately have "10 ^ ?n \<le> 2 * ?R" "?R < 10 ^ ?n" using br vr d9 by linarith+
      then show ?thesis using up True by (simp add: d_def)
    next
      case down: False
      then have "d * 10 ^ m \<le> 4 * 10 ^ m" by simp
      moreover have "(10 :: nat) ^ ?n = 10 * 10 ^ m" by (simp add: n)
      ultimately have "2 * ?R < 10 ^ ?n" using br vr by linarith
      then show ?thesis using down by (simp add: d_def)
    qed
  qed
  have v: "digits_value (i @ f) = ?K + (if ?up then 1 else 0)" using parts(1) by simp
  have "(2 * digits_value (whole @ fraction) + 10 ^ ?n) div (2 * 10 ^ ?n) = ?K + (if ?up then 1 else 0)"
    by (rule div_nat_eqI) (use half in \<open>auto simp: exact algebra_simps split: if_splits\<close>)
  moreover have "\<bar>2 * (int (digits_value (i @ f)) * 10 ^ ?n - int (digits_value (whole @ fraction)))\<bar> \<le> 10 ^ ?n"
  proof (cases ?up)
    case True
    then have "int (10 ^ ?n) \<le> int (2 * ?R)" "int ?R < int (10 ^ ?n)" using half by (simp_all only: of_nat_le_iff of_nat_less_iff if_True)
    then show ?thesis unfolding v exact if_P [OF True] by (simp add: algebra_simps)
  next
    case False
    then have "int (2 * ?R) < int (10 ^ ?n)" using half by (simp only: of_nat_less_iff if_False)
    then show ?thesis unfolding v exact if_not_P [OF False] by (simp add: algebra_simps)
  qed
  ultimately show ?thesis using v parts(2,3) by simp
qed

theorem fixed_round_nearest_witness:
  "fixed_round [9] [9, 5] 1 = ([1, 0], [0]) \<and>
   digits_value ([1, 0] @ [0]) = (2 * digits_value ([9] @ [9, 5]) + 10) div (2 * 10)"
proof -
  have r: "fixed_round [9] [9, 5] 1 = ([1, 0], [0])"
    by (simp add: fixed_round_def Let_def numeral_eq_Suc)
  show ?thesis using fixed_round_nearest [OF _ _ r] r by simp
qed

section \<open>Conversions between int and float\<close>

lemma bit_length_bounds: "0 < n \<Longrightarrow> 2 ^ (bit_length n - 1) \<le> n \<and> n < 2 ^ bit_length n \<and> 0 < bit_length n"
proof (induction n rule: bit_length.induct)
  case (1 n)
  show ?case
  proof (cases "n = 1")
    case True
    then show ?thesis by (simp add: bit_length.simps)
  next
    case False
    with 1(2) have n2: "0 < n div 2" "n \<noteq> 0" by auto
    with 1(1) have ih: "2 ^ (bit_length (n div 2) - 1) \<le> n div 2" "n div 2 < 2 ^ bit_length (n div 2)"
      "0 < bit_length (n div 2)" by auto
    have step: "bit_length n = Suc (bit_length (n div 2))"
      using n2 by (subst bit_length.simps) simp
    have this': "2 ^ bit_length (n div 2) = 2 * (2 ^ (bit_length (n div 2) - 1) :: nat)"
      using ih(3) by (cases "bit_length (n div 2)") auto
    define P :: nat where "P = 2 ^ (bit_length (n div 2) - 1)"
    with ih this' have "P \<le> n div 2" "n div 2 < 2 * P" by simp_all
    then have "2 * P \<le> n" "n < 4 * P" by linarith+
    then show ?thesis using this' by (simp add: step P_def)
  qed
qed

lemma float_fields:
  assumes "N < 2 ^ 63"
  defines "x \<equiv> word_of_nat N :: f64"
  shows "f_exp_field x = N div 2 ^ 52 mod 2048" "f_frac_field x = N mod 2 ^ 52"
    "\<not> f_sign_negative x"
    "f_exp_field (f_neg x) = N div 2 ^ 52 mod 2048" "f_frac_field (f_neg x) = N mod 2 ^ 52"
    "f_sign_negative (f_neg x)"
proof -
  have u: "unat x = N" using assms by (simp add: unsigned_of_nat take_bit_nat_eq_self)
  have sg: "f_sign_negative (f_neg x) \<longleftrightarrow> \<not> f_sign_negative x"
    by (simp add: f_neg_def f_sign_negative_def bit_flip_bit_iff)
  have "N div 2 ^ 63 = 0" using assms by simp
  then show s: "\<not> f_sign_negative x"
    using bit_unsigned_iff [of x 63, where ?'a = nat] u
    by (simp add: f_sign_negative_def bit_iff_odd [of N 63])
  with sg show s': "f_sign_negative (f_neg x)" by simp
  have "unat (f_neg x) = N + 2 ^ 63"
  proof -
    have "f_magnitude (f_neg x) = f_magnitude x"
      unfolding f_magnitude_def take_bit_eq_mod [symmetric] f_neg_def
      by (rule bit_eqI) (auto simp: bit_simps)
    then show ?thesis
      using unat_split_sign [of x] unat_split_sign [of "f_neg x"] s s' u by simp
  qed
  moreover have sh: "(N + 2 ^ 63) div 2 ^ 52 mod 2048 = N div 2 ^ 52 mod 2048"
    "(N + 2 ^ 63) mod 2 ^ 52 = N mod 2 ^ 52"
    using div_mult_self1 [of "2 ^ 52" N 2048] mod_mult_self1 [of N 2048 "2 ^ 52"] by simp_all
  ultimately show "f_exp_field (f_neg x) = N div 2 ^ 52 mod 2048" "f_frac_field (f_neg x) = N mod 2 ^ 52"
    by (simp_all add: f_exp_field_def f_frac_field_def unat_drop_bit_eq drop_bit_eq_div [where 'a = nat] sh)
  show "f_exp_field x = N div 2 ^ 52 mod 2048" "f_frac_field x = N mod 2 ^ 52"
    using u by (simp_all add: f_exp_field_def f_frac_field_def unat_drop_bit_eq drop_bit_eq_div [where 'a = nat])
qed

lemma int_to_float_pattern:
  assumes "m = nat \<bar>sint n\<bar>" "0 < m" "m < 2 ^ 53" "k = bit_length m - 1"
  shows "k \<le> 52" "2 ^ 52 \<le> m * 2 ^ (52 - k)" "m * 2 ^ (52 - k) < 2 ^ 53"
proof -
  note b = bit_length_bounds [OF assms(2)]
  have "(2::nat) ^ k \<le> m" using b assms(4) by simp
  then have "(2::nat) ^ k < 2 ^ 53" using assms(3) by (rule le_less_trans)
  then show k: "k \<le> 52" using power_less_imp_less_exp [of "2::nat" k 53] by simp
  have "(2::nat) ^ 52 = 2 ^ k * 2 ^ (52 - k)" using k by (simp flip: power_add)
  also have "\<dots> \<le> m * 2 ^ (52 - k)" using b assms(4) by simp
  finally show "2 ^ 52 \<le> m * 2 ^ (52 - k)" .
  have "m < 2 ^ Suc k" using b assms(4) by simp
  then have "m * 2 ^ (52 - k) < 2 ^ Suc k * 2 ^ (52 - k)" by simp
  also have "\<dots> = 2 ^ 53" using k by (simp flip: power_add)
  finally show "m * 2 ^ (52 - k) < 2 ^ 53" .
qed

text \<open>
  C26: an \<open>int\<close> below \<open>2^53\<close> in magnitude survives the conversion to \<open>float\<close> and back, so the
  checked conversion never faults on the image of such an \<open>int\<close>.
\<close>

theorem int_float_round_trip:
  assumes "\<bar>sint n\<bar> < 2 ^ 53"
  shows "float_to_int (int_to_float n) = Some n"
proof (cases "n = 0")
  case True
  then show ?thesis
    by (simp add: int_to_float_def float_to_int_def f_is_finite_def f_exp_field_def f_trunc_def
        f_significand_def f_frac_field_def F_ZERO_def)
next
  case False
  define m where "m = nat \<bar>sint n\<bar>"
  define k where "k = bit_length m - 1"
  define sg where "sg = m * 2 ^ (52 - k)"
  define N where "N = (k + 1022) * 2 ^ 52 + sg"
  have m: "0 < m" "m < 2 ^ 53" using False assms by (auto simp: m_def sint_eq_iff)
  note p = int_to_float_pattern [OF m_def m k_def, folded sg_def]
  define fr where "fr = sg - 2 ^ 52"
  have fr: "sg = 2 ^ 52 + fr" "fr < 2 ^ 52" using p by (auto simp: fr_def)
  have N': "N = (k + 1023) * 2 ^ 52 + fr" by (simp add: N_def fr(1) algebra_simps)
  have Nd: "N div 2 ^ 52 = k + 1023" "N mod 2 ^ 52 = fr" 
    unfolding N' using fr(2) by (simp_all only: div_mult_self3 mod_mult_self3) simp_all
  have "N < 2 ^ 63" using fr(2) p(1) by (simp add: N')
  note ff = float_fields [OF this, unfolded Nd]
  have x: "int_to_float n = (if sint n < 0 then f_neg (word_of_nat N) else word_of_nat N)"
    by (simp only: int_to_float_def Let_def m_def [symmetric] k_def [symmetric] sg_def [symmetric]
        N_def [symmetric] False p(1) if_False if_True)
  have ex: "f_exp_field (int_to_float n) = k + 1023" and fc: "f_frac_field (int_to_float n) = fr"
    and sn: "f_sign_negative (int_to_float n) \<longleftrightarrow> sint n < 0"
    using ff p(1) by (simp_all add: x)
  have sig: "f_significand (int_to_float n) = m * 2 ^ (52 - k)"
    using ex fc fr(1) by (simp add: f_significand_def sg_def [symmetric])
  have v: "(if 1075 \<le> k + 1023 then m * 2 ^ (52 - k) * 2 ^ (k + 1023 - 1075)
       else m * 2 ^ (52 - k) div 2 ^ (1075 - (k + 1023))) = m"
    using p(1) by (cases "k = 52") auto
  have "f_trunc (int_to_float n) = (if sint n < 0 then - int m else int m)"
    using v by (simp add: f_trunc_def Let_def sig ex sn)
  also have "\<dots> = sint n" by (simp add: m_def)
  finally have t: "f_trunc (int_to_float n) = sint n" .
  show ?thesis
    using in_i64_sint [of n] p(1) ex
    by (simp add: float_to_int_def t f_is_finite_def in_i64_def INT_MIN_def INT_MAX_def)
qed

theorem int_float_round_trip_witness:
  "\<bar>sint (-5 :: i64)\<bar> < 2 ^ 53 \<and> float_to_int (int_to_float (-5)) = Some (-5)"
  using int_float_round_trip [of "-5"] by simp

lemma float_to_int_exact:
  "float_to_int f = Some r \<longleftrightarrow> f_is_finite f \<and> in_i64 (f_trunc f) \<and> sint r = f_trunc f"
proof -
  have "float_to_int f = (if f_is_finite f then i64_checked (f_trunc f) else None)"
    by (auto simp: float_to_int_def i64_checked_def in_i64_def INT_MIN_def INT_MAX_def)
  then show ?thesis by (auto simp: i64_checked_Some_iff)
qed

end
