(* ===== verification/Kinds.thy ===== *)
theory Kinds
  imports Floats
begin

text \<open>
  The small enumerations the compiler and the machine exchange as bytes:
  \<open>NumericOperand\<close> and \<open>binary_operand_kind\<close> (\<open>varn-core/src/numeric.rs\<close>), \<open>ValueConv\<close>
  (\<open>numeric_conv.rs\<close>), \<open>RuntimeKind\<close> and \<open>FieldAccess\<close> (\<open>runtime_kind.rs\<close>), \<open>SlotKind\<close> and
  \<open>SlotClass\<close> (\<open>varn-types/src/register_meta.rs\<close>). \<open>ValueConv\<close> and \<open>RuntimeKind\<close> satisfy the
  contract \<open>byte_enum\<close>.
\<close>

section \<open>Operand kinds of a numeric operator\<close>

datatype numeric_operand = NInt | NFloat | NDecimal | NBigInt

fun binary_operand_kind ::
  "numeric_operand option \<Rightarrow> numeric_operand option \<Rightarrow> numeric_operand option" where
  "binary_operand_kind None _ = None"
| "binary_operand_kind (Some _) None = None"
| "binary_operand_kind (Some NInt) (Some NInt) = Some NInt"
| "binary_operand_kind (Some NFloat) (Some NFloat) = Some NFloat"
| "binary_operand_kind (Some NDecimal) (Some NDecimal) = Some NDecimal"
| "binary_operand_kind (Some NDecimal) (Some NInt) = Some NDecimal"
| "binary_operand_kind (Some NInt) (Some NDecimal) = Some NDecimal"
| "binary_operand_kind (Some NBigInt) (Some NBigInt) = Some NBigInt"
| "binary_operand_kind (Some NBigInt) (Some NInt) = Some NBigInt"
| "binary_operand_kind (Some NInt) (Some NBigInt) = Some NBigInt"
| "binary_operand_kind (Some NInt) (Some NFloat) = None"
| "binary_operand_kind (Some NFloat) (Some NInt) = None"
| "binary_operand_kind (Some NDecimal) (Some NFloat) = None"
| "binary_operand_kind (Some NFloat) (Some NDecimal) = None"
| "binary_operand_kind (Some NBigInt) (Some NFloat) = None"
| "binary_operand_kind (Some NFloat) (Some NBigInt) = None"
| "binary_operand_kind (Some NBigInt) (Some NDecimal) = None"
| "binary_operand_kind (Some NDecimal) (Some NBigInt) = None"

section \<open>Value conversions\<close>

datatype numeric_domain = DomInt | DomFloat | DomBigInt | DomDecimal

datatype (plugins only: code size) value_conv =
    IntToFloat | FloatToInt | IntToBigInt | BigIntToInt | IntToDecimal | DecimalToInt
  | DynToInt | DynToFloat | BigIntToFloat | FloatToBigInt | DecimalToFloat | FloatToDecimal
  | BigIntToDecimal | DecimalToBigInt | ExpectStr | ExpectBool | ExpectStrOrNull
  | ExpectBoolOrNull | ExpectInt | ExpectFloat | ExpectIntOrNull | ExpectFloatOrNull | ExpectRef

primrec value_conv_byte :: "value_conv \<Rightarrow> nat" where
  "value_conv_byte IntToFloat = 0"
| "value_conv_byte FloatToInt = 1"
| "value_conv_byte IntToBigInt = 2"
| "value_conv_byte BigIntToInt = 3"
| "value_conv_byte IntToDecimal = 4"
| "value_conv_byte DecimalToInt = 5"
| "value_conv_byte DynToInt = 6"
| "value_conv_byte DynToFloat = 7"
| "value_conv_byte BigIntToFloat = 8"
| "value_conv_byte FloatToBigInt = 9"
| "value_conv_byte DecimalToFloat = 10"
| "value_conv_byte FloatToDecimal = 11"
| "value_conv_byte BigIntToDecimal = 12"
| "value_conv_byte DecimalToBigInt = 13"
| "value_conv_byte ExpectStr = 14"
| "value_conv_byte ExpectBool = 15"
| "value_conv_byte ExpectStrOrNull = 16"
| "value_conv_byte ExpectBoolOrNull = 17"
| "value_conv_byte ExpectInt = 18"
| "value_conv_byte ExpectFloat = 19"
| "value_conv_byte ExpectIntOrNull = 20"
| "value_conv_byte ExpectFloatOrNull = 21"
| "value_conv_byte ExpectRef = 22"

definition value_conv_all :: "value_conv list" where
  "value_conv_all =
    [IntToFloat, FloatToInt, IntToBigInt, BigIntToInt, IntToDecimal, DecimalToInt, DynToInt,
     DynToFloat, BigIntToFloat, FloatToBigInt, DecimalToFloat, FloatToDecimal, BigIntToDecimal,
     DecimalToBigInt, ExpectStr, ExpectBool, ExpectStrOrNull, ExpectBoolOrNull, ExpectInt,
     ExpectFloat, ExpectIntOrNull, ExpectFloatOrNull, ExpectRef]"

definition value_conv_from_u8 :: "u8 \<Rightarrow> value_conv option" where
  "value_conv_from_u8 raw =
     (if unat raw < length value_conv_all then Some (value_conv_all ! unat raw) else None)"

fun value_conv_between :: "numeric_domain \<Rightarrow> numeric_domain \<Rightarrow> value_conv option" where
  "value_conv_between DomInt DomFloat = Some IntToFloat"
| "value_conv_between DomFloat DomInt = Some FloatToInt"
| "value_conv_between DomInt DomBigInt = Some IntToBigInt"
| "value_conv_between DomBigInt DomInt = Some BigIntToInt"
| "value_conv_between DomInt DomDecimal = Some IntToDecimal"
| "value_conv_between DomDecimal DomInt = Some DecimalToInt"
| "value_conv_between DomBigInt DomFloat = Some BigIntToFloat"
| "value_conv_between DomFloat DomBigInt = Some FloatToBigInt"
| "value_conv_between DomDecimal DomFloat = Some DecimalToFloat"
| "value_conv_between DomFloat DomDecimal = Some FloatToDecimal"
| "value_conv_between DomBigInt DomDecimal = Some BigIntToDecimal"
| "value_conv_between DomDecimal DomBigInt = Some DecimalToBigInt"
| "value_conv_between _ _ = None"

definition can_fault :: "value_conv \<Rightarrow> bool" where
  "can_fault c \<longleftrightarrow> c \<in> set
     [FloatToInt, BigIntToInt, DecimalToInt, DynToInt, DynToFloat, ExpectStr, ExpectBool,
      ExpectStrOrNull, ExpectBoolOrNull, ExpectInt, ExpectFloat, ExpectIntOrNull,
      ExpectFloatOrNull, ExpectRef, FloatToBigInt, FloatToDecimal]"

lemma value_conv_all_nth:
  "value_conv_byte c < length value_conv_all \<and> value_conv_all ! value_conv_byte c = c"
  by (cases c) (simp_all add: value_conv_all_def)

interpretation conv: byte_enum "\<lambda>c. word_of_nat (value_conv_byte c)" value_conv_from_u8 23
proof
  fix c b
  have "value_conv_byte c < 256"
    using value_conv_all_nth [of c] by (simp add: value_conv_all_def)
  then show "value_conv_from_u8 (word_of_nat (value_conv_byte c)) = Some c"
    using value_conv_all_nth [of c]
    by (simp add: value_conv_from_u8_def unsigned_of_nat take_bit_nat_eq_self)
  show "value_conv_from_u8 b = None \<longleftrightarrow> 23 \<le> unat b"
    by (auto simp: value_conv_from_u8_def value_conv_all_def)
qed

section \<open>Runtime kinds\<close>

datatype (plugins only: code size) runtime_kind =
    KNull | KBool | KInt | KFloat | KStr | KBigInt | KDecimal | KChar | KArray | KMap | KSet
  | KTuple | KObject | KClass | KFunction | KGenerator | KTask | KRange | KEnum | KOpaque
  | KTaskHandle | KBytes | KAsyncGenerator

primrec runtime_kind_byte :: "runtime_kind \<Rightarrow> nat" where
  "runtime_kind_byte KNull = 0"
| "runtime_kind_byte KBool = 1"
| "runtime_kind_byte KInt = 2"
| "runtime_kind_byte KFloat = 3"
| "runtime_kind_byte KStr = 4"
| "runtime_kind_byte KBigInt = 5"
| "runtime_kind_byte KDecimal = 6"
| "runtime_kind_byte KChar = 7"
| "runtime_kind_byte KArray = 8"
| "runtime_kind_byte KMap = 9"
| "runtime_kind_byte KSet = 10"
| "runtime_kind_byte KTuple = 11"
| "runtime_kind_byte KObject = 12"
| "runtime_kind_byte KClass = 13"
| "runtime_kind_byte KFunction = 14"
| "runtime_kind_byte KGenerator = 15"
| "runtime_kind_byte KTask = 16"
| "runtime_kind_byte KRange = 17"
| "runtime_kind_byte KEnum = 18"
| "runtime_kind_byte KOpaque = 19"
| "runtime_kind_byte KTaskHandle = 20"
| "runtime_kind_byte KBytes = 21"
| "runtime_kind_byte KAsyncGenerator = 22"

text \<open>The variants in discriminant order: what the transmute of a byte in range yields.\<close>

definition runtime_kind_all :: "runtime_kind list" where
  "runtime_kind_all =
    [KNull, KBool, KInt, KFloat, KStr, KBigInt, KDecimal, KChar, KArray, KMap, KSet, KTuple,
     KObject, KClass, KFunction, KGenerator, KTask, KRange, KEnum, KOpaque, KTaskHandle, KBytes,
     KAsyncGenerator]"

definition runtime_kind_from_u8 :: "u8 \<Rightarrow> runtime_kind option" where
  "runtime_kind_from_u8 raw =
     (if unat raw \<le> runtime_kind_byte KAsyncGenerator
      then Some (runtime_kind_all ! unat raw) else None)"

primrec runtime_kind_name :: "runtime_kind \<Rightarrow> string" where
  "runtime_kind_name KNull = ''null''"
| "runtime_kind_name KBool = ''bool''"
| "runtime_kind_name KInt = ''int''"
| "runtime_kind_name KFloat = ''float''"
| "runtime_kind_name KStr = ''str''"
| "runtime_kind_name KBigInt = ''bigint''"
| "runtime_kind_name KDecimal = ''decimal''"
| "runtime_kind_name KChar = ''char''"
| "runtime_kind_name KArray = ''Array''"
| "runtime_kind_name KMap = ''Map''"
| "runtime_kind_name KSet = ''Set''"
| "runtime_kind_name KTuple = ''Tuple''"
| "runtime_kind_name KObject = ''object''"
| "runtime_kind_name KClass = ''class''"
| "runtime_kind_name KFunction = ''function''"
| "runtime_kind_name KGenerator = ''Generator''"
| "runtime_kind_name KTask = ''Task''"
| "runtime_kind_name KRange = ''Range''"
| "runtime_kind_name KEnum = ''enum''"
| "runtime_kind_name KOpaque = ''opaque''"
| "runtime_kind_name KTaskHandle = ''TaskHandle''"
| "runtime_kind_name KBytes = ''Bytes''"
| "runtime_kind_name KAsyncGenerator = ''AsyncGenerator''"

definition runtime_kind_named :: "string \<Rightarrow> runtime_kind option" where
  "runtime_kind_named name =
     find (\<lambda>k. runtime_kind_name k = name)
       (List.map_filter (\<lambda>b. runtime_kind_from_u8 (word_of_nat b))
          [0..<runtime_kind_byte KAsyncGenerator + 1])"

definition runtime_kind_encode :: "runtime_kind option \<Rightarrow> u8" where
  "runtime_kind_encode kind =
     (case kind of Some k \<Rightarrow> word_of_nat (runtime_kind_byte k) | None \<Rightarrow> -1)"

datatype field_access = Slot | Compact "runtime_kind option"

fun field_access_encode :: "field_access \<Rightarrow> u8" where
  "field_access_encode Slot = 0"
| "field_access_encode (Compact kind) = runtime_kind_encode kind"

definition field_access_decode :: "u8 \<Rightarrow> field_access" where
  "field_access_decode raw =
     (if raw = 0 then Slot else Compact (runtime_kind_from_u8 raw))"

lemma runtime_kind_all_nth:
  "runtime_kind_byte k \<le> 22 \<and> runtime_kind_all ! runtime_kind_byte k = k"
  by (cases k) (simp_all add: runtime_kind_all_def)

interpretation kind: byte_enum "\<lambda>k. word_of_nat (runtime_kind_byte k)" runtime_kind_from_u8 23
proof
  fix k b
  have "runtime_kind_byte k < 256" using runtime_kind_all_nth [of k] by simp
  then show "runtime_kind_from_u8 (word_of_nat (runtime_kind_byte k)) = Some k"
    using runtime_kind_all_nth [of k]
    by (simp add: runtime_kind_from_u8_def unsigned_of_nat take_bit_nat_eq_self)
  show "runtime_kind_from_u8 b = None \<longleftrightarrow> 23 \<le> unat b"
    by (auto simp: runtime_kind_from_u8_def)
qed

lemma runtime_kind_from_minus_1 [simp]: "runtime_kind_from_u8 (-1) = None"
  by (simp add: runtime_kind_from_u8_def unsigned_minus_1_eq_mask mask_eq_exp_minus_1)

lemma runtime_kind_byte_0: "(word_of_nat (runtime_kind_byte k) :: u8) = 0 \<longleftrightarrow> k = KNull"
  by (cases k) simp_all

section \<open>Register slots\<close>

datatype (plugins only: code size) slot_kind = SlotInt | SlotFloat | SlotBool | SlotStr | SlotRef | SlotDynamic

primrec checked_conversion :: "slot_kind \<Rightarrow> value_conv option" where
  "checked_conversion SlotInt = Some ExpectInt"
| "checked_conversion SlotFloat = Some ExpectFloat"
| "checked_conversion SlotBool = Some ExpectBool"
| "checked_conversion SlotStr = Some ExpectStr"
| "checked_conversion SlotRef = Some ExpectRef"
| "checked_conversion SlotDynamic = None"

datatype (plugins only: code size) slot_class = Gpr | Fpr | RefClass | Dyn

primrec slot_class_of_kind :: "slot_kind \<Rightarrow> slot_class" where
  "slot_class_of_kind SlotInt = Gpr"
| "slot_class_of_kind SlotFloat = Fpr"
| "slot_class_of_kind SlotRef = RefClass"
| "slot_class_of_kind SlotDynamic = Dyn"
| "slot_class_of_kind SlotBool = Dyn"
| "slot_class_of_kind SlotStr = Dyn"

primrec slot_class_index :: "slot_class \<Rightarrow> nat" where
  "slot_class_index Gpr = 0"
| "slot_class_index Fpr = 1"
| "slot_class_index RefClass = 2"
| "slot_class_index Dyn = 3"

text \<open>
  \<open>FrameLayout::for_proto\<close>: register \<open>r\<close> gets the next free index of its class. The meta list
  may be shorter than the register count; the missing entries are dynamic.
\<close>

record frame_layout =
  fl_slots :: "(slot_class \<times> nat) list"
  fl_counts :: "nat list"

definition frame_layout_step :: "slot_kind list \<Rightarrow> frame_layout \<Rightarrow> nat \<Rightarrow> frame_layout" where
  "frame_layout_step register_meta l r =
     (let kind = (case list_get register_meta r of Some k \<Rightarrow> k | None \<Rightarrow> SlotDynamic);
          c = slot_class_of_kind kind;
          idx = fl_counts l ! slot_class_index c
      in \<lparr>fl_slots = fl_slots l @ [(c, idx)],
          fl_counts = (fl_counts l)[slot_class_index c := idx + 1]\<rparr>)"

definition frame_layout_for_proto :: "nat \<Rightarrow> slot_kind list \<Rightarrow> frame_layout" where
  "frame_layout_for_proto register_count register_meta =
     foldl (frame_layout_step register_meta) \<lparr>fl_slots = [], fl_counts = [0, 0, 0, 0]\<rparr>
       [0..<register_count]"

definition frame_class_of :: "frame_layout \<Rightarrow> nat \<Rightarrow> slot_class" where
  "frame_class_of l reg = (case list_get (fl_slots l) reg of Some (c, _) \<Rightarrow> c | None \<Rightarrow> Dyn)"

definition frame_idx_of :: "frame_layout \<Rightarrow> nat \<Rightarrow> nat" where
  "frame_idx_of l reg = (case list_get (fl_slots l) reg of Some (_, i) \<Rightarrow> i | None \<Rightarrow> 0)"

section \<open>Properties of the encodings\<close>

lemma binary_operand_kind_commute: "binary_operand_kind a b = binary_operand_kind b a"
  by (cases a; cases b; cases "the a"; cases "the b"; simp)

text \<open>
  The byte an instruction carries for a field access gives the access back, the untyped
  compact field (byte 255) included; only a compact null field, which shares byte 0 with the
  slot access, does not survive.
\<close>

theorem field_access_decode_encode:
  "field_access_decode (field_access_encode a) = a \<longleftrightarrow> a \<noteq> Compact (Some KNull)"
  by (cases a rule: field_access_encode.cases)
     (auto simp: field_access_decode_def runtime_kind_encode_def kind.dec_enc
       runtime_kind_byte_0 split: option.splits)

lemma runtime_kind_named_name: "runtime_kind_named (runtime_kind_name k) = Some k"
  by (cases k) (simp_all add: runtime_kind_named_def upt_rec List.map_filter_simps
      runtime_kind_from_u8_def runtime_kind_all_def)

lemma value_conv_between_total: "value_conv_between a b = None \<longleftrightarrow> a = b"
  by (cases a; cases b) auto

lemma value_conv_between_inj:
  "value_conv_between a b = Some c \<Longrightarrow> value_conv_between a' b' = Some c \<Longrightarrow> a = a' \<and> b = b'"
  by (cases a; cases b; cases a'; cases b') auto

lemma value_conv_can_fault:
  "value_conv_between a b = Some c \<Longrightarrow> can_fault c \<longleftrightarrow> b = DomInt \<or> a = DomFloat"
  by (cases a; cases b) (auto simp: can_fault_def)

lemma checked_conversion_faults: "checked_conversion k = Some c \<Longrightarrow> can_fault c"
  by (cases k) (auto simp: can_fault_def)

section \<open>The frame layout is a bijection into the class banks\<close>

definition frame_layout_ok :: "frame_layout \<Rightarrow> bool" where
  "frame_layout_ok l \<longleftrightarrow> length (fl_counts l) = 4 \<and> distinct (fl_slots l) \<and>
     (\<forall>c i. (c, i) \<in> set (fl_slots l) \<longleftrightarrow> i < fl_counts l ! slot_class_index c)"

lemma slot_class_index_less [simp]: "slot_class_index c < 4"
  by (cases c) auto

lemma slot_class_index_eq [simp]: "slot_class_index c = slot_class_index d \<longleftrightarrow> c = d"
  by (cases c; cases d) auto

lemma frame_layout_step_ok: "frame_layout_ok l \<Longrightarrow> frame_layout_ok (frame_layout_step m l r)"
  by (auto simp: frame_layout_ok_def frame_layout_step_def Let_def nth_list_update less_Suc_eq)

lemma frame_layout_foldl_ok:
  "frame_layout_ok l \<Longrightarrow> frame_layout_ok (foldl (frame_layout_step m) l rs)
     \<and> length (fl_slots (foldl (frame_layout_step m) l rs)) = length (fl_slots l) + length rs"
proof (induction rs arbitrary: l)
  case (Cons r rs)
  have "length (fl_slots (frame_layout_step m l r)) = Suc (length (fl_slots l))"
    by (simp add: frame_layout_step_def Let_def)
  with Cons frame_layout_step_ok [of l m r] show ?case by simp
qed simp

lemma frame_layout_empty_ok: "frame_layout_ok \<lparr>fl_slots = [], fl_counts = [0, 0, 0, 0]\<rparr>"
proof -
  have "[0, 0, 0, 0 :: nat] ! slot_class_index c = 0" for c
    by (cases c) (simp_all add: numeral_2_eq_2 numeral_3_eq_3)
  then show ?thesis by (simp add: frame_layout_ok_def)
qed

text \<open>
  The class layout of a frame is a bijection: every register of the prototype gets a slot of
  its own (class, index), and within each class the indices are exactly those below the
  class's count, so the typed banks are dense and never shared.
\<close>

theorem frame_layout_for_proto_ok:
  "frame_layout_ok (frame_layout_for_proto n m) \<and> length (fl_slots (frame_layout_for_proto n m)) = n"
  using frame_layout_foldl_ok [OF frame_layout_empty_ok, of m "[0..<n]"]
  by (simp add: frame_layout_for_proto_def)

end
