(* ===== verification/Class_Layout.thy ===== *)
theory Class_Layout
  imports Kinds
begin

text \<open>
  The memory layout of instances, \<open>crates/varn-core/src/layout/\<close>: every field has a scalar
  representation with a size and an alignment, \<open>ClassLayout::from_fields\<close> places the fields
  in declaration order with padding and records the slots the collector must trace.
  Offsets and the size of the payload are \<open>u32\<close> in the source and computed modulo \<open>2 ^ 32\<close> here.
\<close>

datatype scalar_repr = ReprBool | ReprI64 | ReprF64 | ReprRef | ReprBoxed

primrec ic_code :: "scalar_repr \<Rightarrow> nat" where
  "ic_code ReprBool = 1"
| "ic_code ReprI64 = 2"
| "ic_code ReprF64 = 3"
| "ic_code ReprRef = 4"
| "ic_code ReprBoxed = 5"

primrec holds_reference :: "scalar_repr \<Rightarrow> bool" where
  "holds_reference ReprRef = True"
| "holds_reference ReprBoxed = True"
| "holds_reference ReprBool = False"
| "holds_reference ReprI64 = False"
| "holds_reference ReprF64 = False"

record type_layout =
  tl_size :: nat
  tl_align :: nat
  tl_repr :: scalar_repr

definition BOXED :: type_layout where
  "BOXED = \<lparr>tl_size = 16, tl_align = 8, tl_repr = ReprBoxed\<rparr>"

definition type_layout_of_field :: "runtime_kind option \<Rightarrow> type_layout" where
  "type_layout_of_field kind =
     (case kind of
        Some k \<Rightarrow>
          (if k = KBool then \<lparr>tl_size = 1, tl_align = 1, tl_repr = ReprBool\<rparr>
           else if k = KInt then \<lparr>tl_size = 8, tl_align = 8, tl_repr = ReprI64\<rparr>
           else if k = KFloat then \<lparr>tl_size = 8, tl_align = 8, tl_repr = ReprF64\<rparr>
           else if k \<in> {KArray, KMap, KSet, KObject, KClass, KFunction, KTask, KBytes,
                       KGenerator, KAsyncGenerator}
           then \<lparr>tl_size = 8, tl_align = 8, tl_repr = ReprRef\<rparr>
           else BOXED)
      | None \<Rightarrow> BOXED)"

record field_layout =
  fld_name :: string
  fld_kind :: "runtime_kind option"
  fld_offset :: nat
  fld_layout :: type_layout

definition field_layout_at :: "nat \<Rightarrow> runtime_kind option \<Rightarrow> field_layout" where
  "field_layout_at offset kind =
     \<lparr>fld_name = '''', fld_kind = kind, fld_offset = offset,
      fld_layout = type_layout_of_field kind\<rparr>"

record gc_slot =
  gs_offset :: nat
  gs_repr :: scalar_repr

record class_layout =
  payload_size :: nat
  alignment :: nat
  cl_fields :: "field_layout list"
  cl_gc :: "gc_slot list"
  is_value :: bool

text \<open>The accumulators of the loop over the declared fields.\<close>

record layout_acc =
  acc_fields :: "field_layout list"
  cur_offset :: nat
  max_align :: nat
  acc_gc :: "gc_slot list"

definition padding_to :: "nat \<Rightarrow> nat \<Rightarrow> nat" where
  "padding_to align offset = (align - offset mod align) mod align"

definition layout_step :: "layout_acc \<Rightarrow> string \<times> runtime_kind option \<Rightarrow> layout_acc" where
  "layout_step acc f =
     (let (field_name, kind) = f;
          layout = type_layout_of_field kind;
          align = tl_align layout;
          offset = as_u32 (cur_offset acc + padding_to align (cur_offset acc))
      in \<lparr>acc_fields = acc_fields acc @
            [\<lparr>fld_name = field_name, fld_kind = kind, fld_offset = offset, fld_layout = layout\<rparr>],
          cur_offset = as_u32 (offset + tl_size layout),
          max_align = max (max_align acc) align,
          acc_gc = (if holds_reference (tl_repr layout)
                    then acc_gc acc @ [\<lparr>gs_offset = offset, gs_repr = tl_repr layout\<rparr>]
                    else acc_gc acc)\<rparr>)"

definition class_layout_from_fields :: "(string \<times> runtime_kind option) list \<Rightarrow> class_layout" where
  "class_layout_from_fields fields_in =
     (let acc = foldl layout_step
            \<lparr>acc_fields = [], cur_offset = 0, max_align = 8, acc_gc = []\<rparr> fields_in;
          end_padding = padding_to (max_align acc) (cur_offset acc)
      in \<lparr>payload_size = as_u32 (cur_offset acc + end_padding),
          alignment = max_align acc,
          cl_fields = acc_fields acc,
          cl_gc = acc_gc acc,
          is_value = False\<rparr>)"

definition get_field :: "class_layout \<Rightarrow> string \<Rightarrow> field_layout option" where
  "get_field l name = find (\<lambda>f. fld_name f = name) (cl_fields l)"

definition get_field_by_index :: "class_layout \<Rightarrow> nat \<Rightarrow> field_layout option" where
  "get_field_by_index l idx = list_get (cl_fields l) idx"

definition field_count :: "class_layout \<Rightarrow> nat" where
  "field_count l = length (cl_fields l)"

section \<open>Placement invariant\<close>

definition fld_end :: "field_layout \<Rightarrow> nat" where
  "fld_end f = fld_offset f + tl_size (fld_layout f)"

definition fields_disjoint :: "field_layout list \<Rightarrow> bool" where
  "fields_disjoint fs \<longleftrightarrow> sorted_wrt (\<lambda>f g. fld_end f \<le> fld_offset g) fs"

definition gc_slots_of :: "field_layout list \<Rightarrow> gc_slot list" where
  "gc_slots_of fs =
     map (\<lambda>f. \<lparr>gs_offset = fld_offset f, gs_repr = tl_repr (fld_layout f)\<rparr>)
       (filter (\<lambda>f. holds_reference (tl_repr (fld_layout f))) fs)"

definition acc_ok :: "layout_acc \<Rightarrow> bool" where
  "acc_ok a \<longleftrightarrow> fields_disjoint (acc_fields a) \<and> max_align a = 8 \<and>
     (\<forall>f \<in> set (acc_fields a). tl_align (fld_layout f) dvd fld_offset f
        \<and> fld_end f \<le> cur_offset a \<and> fld_layout f = type_layout_of_field (fld_kind f)) \<and>
     acc_gc a = gc_slots_of (acc_fields a)"

lemma type_layout_align: "tl_align (type_layout_of_field k) = 1 \<or> tl_align (type_layout_of_field k) = 8"
  by (auto simp: type_layout_of_field_def BOXED_def split: option.splits)

lemma type_layout_align_pos [simp]: "0 < tl_align (type_layout_of_field k)"
  using type_layout_align [of k] by auto

lemma padding_to_dvd: "0 < a \<Longrightarrow> a dvd n + padding_to a n"
proof -
  assume a: "0 < a"
  show ?thesis
  proof (cases "n mod a = 0")
    case True
    then show ?thesis by (auto simp: padding_to_def)
  next
    case False
    then have "padding_to a n = a - n mod a" using a by (simp add: padding_to_def)
    moreover have "n + (a - n mod a) = n div a * a + a"
      using a div_mult_mod_eq [of n a] mod_less_divisor [OF a, of n] by linarith
    ultimately show ?thesis by simp
  qed
qed

lemma padding_to_less: "0 < a \<Longrightarrow> padding_to a n < a"
  by (simp add: padding_to_def)

text \<open>A field with its padding takes at most 24 bytes, so few enough fields never wrap an offset.\<close>

definition acc_room :: "nat \<Rightarrow> layout_acc \<Rightarrow> bool" where
  "acc_room n a \<longleftrightarrow> cur_offset a + 24 * n + 8 < 2 ^ 32"

lemma type_layout_size: "tl_size (type_layout_of_field k) \<le> 16"
  by (auto simp: type_layout_of_field_def BOXED_def split: option.splits)

lemma field_room:
  fixes k :: "runtime_kind option"
  assumes "acc_room (Suc n) a"
  defines "l \<equiv> type_layout_of_field k"
  defines "off \<equiv> cur_offset a + padding_to (tl_align l) (cur_offset a)"
  shows "as_u32 off = off" "as_u32 (off + tl_size l) = off + tl_size l" "off + tl_size l + 24 * n + 8 < 2 ^ 32"
proof -
  have "padding_to (tl_align l) (cur_offset a) < 8"
    using padding_to_less [of "tl_align l" "cur_offset a"] type_layout_align [of k] by (auto simp: l_def)
  then show "off + tl_size l + 24 * n + 8 < 2 ^ 32"
    using assms(1) type_layout_size [of k] by (simp add: acc_room_def off_def l_def)
  then show "as_u32 off = off" "as_u32 (off + tl_size l) = off + tl_size l" by (simp_all add: as_u32_small)
qed

lemma layout_step_ok:
  assumes ok: "acc_ok a" and room: "acc_room (Suc n) a"
  shows "acc_ok (layout_step a f) \<and> acc_room n (layout_step a f)"
proof -
  obtain nm k where f: "f = (nm, k)" by (cases f)
  let ?l = "type_layout_of_field k"
  let ?o = "cur_offset a + padding_to (tl_align ?l) (cur_offset a)"
  note r = field_room [OF room, of k]
  have al: "tl_align ?l dvd ?o" by (rule padding_to_dvd) simp
  have ge: "\<forall>g \<in> set (acc_fields a). fld_end g \<le> ?o"
    using ok by (auto simp: acc_ok_def)
  have "max (max_align a) (tl_align ?l) = 8"
    using ok type_layout_align [of k] by (auto simp: acc_ok_def)
  then have "acc_ok (layout_step a f)"
    using ok al ge
    by (auto simp: acc_ok_def layout_step_def f Let_def fields_disjoint_def sorted_wrt_append
        fld_end_def gc_slots_of_def trans_le_add1 r(1,2))
  moreover have "acc_room n (layout_step a f)"
    using r(3) by (simp add: acc_room_def layout_step_def f Let_def r(1,2))
  ultimately show ?thesis ..
qed

lemma layout_foldl_ok:
  "acc_ok a \<Longrightarrow> acc_room (length fs) a \<Longrightarrow> acc_ok (foldl layout_step a fs)
     \<and> acc_room 0 (foldl layout_step a fs)
     \<and> map fld_name (acc_fields (foldl layout_step a fs)) = map fld_name (acc_fields a) @ map fst fs
     \<and> map fld_kind (acc_fields (foldl layout_step a fs)) = map fld_kind (acc_fields a) @ map snd fs"
proof (induction fs arbitrary: a)
  case (Cons f fs)
  have "map fld_name (acc_fields (layout_step a f)) = map fld_name (acc_fields a) @ [fst f]"
    "map fld_kind (acc_fields (layout_step a f)) = map fld_kind (acc_fields a) @ [snd f]"
    by (simp_all add: layout_step_def Let_def split: prod.splits)
  with Cons.IH [of "layout_step a f"] layout_step_ok [OF Cons.prems(1), of "length fs" f] Cons.prems(2)
  show ?case by simp
qed simp

lemma acc_ok_empty: "acc_ok \<lparr>acc_fields = [], cur_offset = 0, max_align = 8, acc_gc = []\<rparr>"
  by (simp add: acc_ok_def fields_disjoint_def gc_slots_of_def)

definition class_layout_ok :: "class_layout \<Rightarrow> bool" where
  "class_layout_ok l \<longleftrightarrow>
     fields_disjoint (cl_fields l) \<and> alignment l dvd payload_size l \<and>
     (\<forall>f \<in> set (cl_fields l). tl_align (fld_layout f) dvd fld_offset f
        \<and> tl_align (fld_layout f) dvd alignment l
        \<and> fld_end f \<le> payload_size l \<and> fld_layout f = type_layout_of_field (fld_kind f)) \<and>
     cl_gc l = gc_slots_of (cl_fields l)"

lemma class_layout_from_fields_ok:
  assumes "length fs \<le> 2 ^ 27"
  shows "class_layout_ok (class_layout_from_fields fs)"
  "map fld_name (cl_fields (class_layout_from_fields fs)) = map fst fs"
  "map fld_kind (cl_fields (class_layout_from_fields fs)) = map snd fs"
proof -
  let ?a = "foldl layout_step \<lparr>acc_fields = [], cur_offset = 0, max_align = 8, acc_gc = []\<rparr> fs"
  have "acc_room (length fs) \<lparr>acc_fields = [], cur_offset = 0, max_align = 8, acc_gc = []\<rparr>"
    using assms by (simp add: acc_room_def)
  then have ok: "acc_ok ?a" and names: "map fld_name (acc_fields ?a) = map fst fs"
    and kinds: "map fld_kind (acc_fields ?a) = map snd fs" and room: "acc_room 0 ?a"
    using layout_foldl_ok [OF acc_ok_empty, of fs] by simp_all
  have al: "tl_align (fld_layout f) dvd 8" if "f \<in> set (acc_fields ?a)" for f
  proof -
    have "fld_layout f = type_layout_of_field (fld_kind f)" using ok that by (simp add: acc_ok_def)
    then show ?thesis using type_layout_align [of "fld_kind f"] by auto
  qed
  have m: "max_align ?a = 8" using ok by (simp add: acc_ok_def)
  have end_dvd: "8 dvd cur_offset ?a + padding_to 8 (cur_offset ?a)" by (rule padding_to_dvd) simp
  have "as_u32 (cur_offset ?a + padding_to 8 (cur_offset ?a)) = cur_offset ?a + padding_to 8 (cur_offset ?a)"
    using room padding_to_less [of 8 "cur_offset ?a"] by (simp add: acc_room_def as_u32_small)
  with end_dvd show "class_layout_ok (class_layout_from_fields fs)"
    using ok al
    by (auto simp: class_layout_ok_def class_layout_from_fields_def Let_def acc_ok_def m
        trans_le_add1)
  show "map fld_name (cl_fields (class_layout_from_fields fs)) = map fst fs"
    "map fld_kind (cl_fields (class_layout_from_fields fs)) = map snd fs"
    using names kinds by (simp_all add: class_layout_from_fields_def Let_def)
qed

text \<open>A byte of the payload belongs to at most one field.\<close>

lemma fields_disjoint_byte:
  assumes "fields_disjoint fs" "i < length fs" "j < length fs"
    and "fld_offset (fs ! i) \<le> b" "b < fld_end (fs ! i)"
    and "fld_offset (fs ! j) \<le> b" "b < fld_end (fs ! j)"
  shows "i = j"
proof (rule ccontr)
  assume "i \<noteq> j"
  then consider "i < j" | "j < i" by linarith
  then show False
  proof cases
    case 1
    then have "fld_end (fs ! i) \<le> fld_offset (fs ! j)"
      using assms(1,3) by (simp add: fields_disjoint_def sorted_wrt_iff_nth_less)
    then show False using assms(5,6) by linarith
  next
    case 2
    then have "fld_end (fs ! j) \<le> fld_offset (fs ! i)"
      using assms(1,2) by (simp add: fields_disjoint_def sorted_wrt_iff_nth_less)
    then show False using assms(4,7) by linarith
  qed
qed

text \<open>
  C27: the instance layout computed from at most \<open>2 ^ 27\<close> declared fields, for which no \<open>u32\<close>
  offset wraps, keeps their order and kinds, aligns every field, keeps them inside the payload
  with no shared byte, and lists for the collector exactly the offsets of the fields that hold a
  reference.
\<close>

theorem class_layout_correct:
  assumes "length fs \<le> 2 ^ 27"
  shows "class_layout_ok (class_layout_from_fields fs) \<and>
   map fld_name (cl_fields (class_layout_from_fields fs)) = map fst fs \<and>
   map fld_kind (cl_fields (class_layout_from_fields fs)) = map snd fs"
  by (simp add: class_layout_from_fields_ok [OF assms])

theorem class_layout_correct_witness:
  "class_layout_ok (class_layout_from_fields [(''flag'', Some KBool), (''next'', Some KArray)]) \<and>
   map fld_offset (cl_fields (class_layout_from_fields [(''flag'', Some KBool), (''next'', Some KArray)])) = [0, 8]"
proof -
  have "map fld_offset (cl_fields (class_layout_from_fields [(''flag'', Some KBool), (''next'', Some KArray)])) = [0, 8]"
    by (simp add: class_layout_from_fields_def layout_step_def type_layout_of_field_def padding_to_def as_u32_def Let_def)
  then show ?thesis
    using class_layout_correct [of "[(''flag'', Some KBool), (''next'', Some KArray)]"] by simp
qed

lemma find_map: "find P (map f xs) = map_option f (find (\<lambda>x. P (f x)) xs)"
  by (induction xs) auto

lemma get_field_Some_iff:
  "get_field l n = Some f \<longleftrightarrow>
     (\<exists>i < field_count l. get_field_by_index l i = Some f \<and> fld_name f = n \<and>
        (\<forall>j < i. fld_name (cl_fields l ! j) \<noteq> n))"
  by (auto simp: get_field_def get_field_by_index_def field_count_def find_Some_iff
      list_get_Some_iff)

end
