(* ===== verification/Value.thy ===== *)
theory Value
  imports Kinds
begin

text \<open>
  The machine's values, \<open>crates/varn-types/src/vm_value/\<close>: two 64-bit words, a tag whose low
  byte is the kind and a payload. Strings of at most eight bytes live in the payload itself
  (small string optimisation), with their length in the second byte of the tag.
\<close>

section \<open>Representation\<close>

record vm_value =
  vv_tag :: u64
  vv_payload :: u64

definition KIND_MASK :: u64 where "KIND_MASK = 0xFF"
definition KIND_NULL :: u64 where "KIND_NULL = 0"
definition KIND_BOOL :: u64 where "KIND_BOOL = 1"
definition KIND_INT :: u64 where "KIND_INT = 2"
definition KIND_FLOAT :: u64 where "KIND_FLOAT = 3"
definition KIND_HEAP :: u64 where "KIND_HEAP = 4"
definition KIND_SSO :: u64 where "KIND_SSO = 5"
definition SSO_LEN_SHIFT :: nat where "SSO_LEN_SHIFT = 8"
definition SSO_MAX_LEN :: nat where "SSO_MAX_LEN = 8"
definition SSO_HIGH_BITS :: u64 where "SSO_HIGH_BITS = 0x8080808080808080"

named_theorems kind_defs "the kind bytes of a value"

lemmas [kind_defs] = KIND_MASK_def KIND_NULL_def KIND_BOOL_def KIND_INT_def KIND_FLOAT_def
  KIND_HEAP_def KIND_SSO_def

definition from_raw_parts :: "u64 \<Rightarrow> u64 \<Rightarrow> vm_value" where
  "from_raw_parts t p = \<lparr>vv_tag = t, vv_payload = p\<rparr>"

definition vv_kind :: "vm_value \<Rightarrow> u64" where
  "vv_kind v = vv_tag v AND KIND_MASK"

definition ic_miss :: vm_value where
  "ic_miss = \<lparr>vv_tag = -1, vv_payload = 0\<rparr>"

definition is_ic_miss :: "vm_value \<Rightarrow> bool" where
  "is_ic_miss v \<longleftrightarrow> vv_tag v = -1"

definition bits_eq :: "vm_value \<Rightarrow> vm_value \<Rightarrow> bool" where
  "bits_eq a b \<longleftrightarrow> vv_tag a = vv_tag b \<and> vv_payload a = vv_payload b"

definition vv_null :: vm_value where
  "vv_null = \<lparr>vv_tag = KIND_NULL, vv_payload = 0\<rparr>"

definition bool_true :: vm_value where
  "bool_true = \<lparr>vv_tag = KIND_BOOL, vv_payload = 1\<rparr>"

definition bool_false :: vm_value where
  "bool_false = \<lparr>vv_tag = KIND_BOOL, vv_payload = 0\<rparr>"

definition from_bool :: "bool \<Rightarrow> vm_value" where
  "from_bool b = \<lparr>vv_tag = KIND_BOOL, vv_payload = (if b then 1 else 0)\<rparr>"

definition from_int :: "i64 \<Rightarrow> vm_value" where
  "from_int n = \<lparr>vv_tag = KIND_INT, vv_payload = n\<rparr>"

definition from_int_wrapping :: "i64 \<Rightarrow> vm_value" where
  "from_int_wrapping n = from_int n"

definition from_i32 :: "32 word \<Rightarrow> vm_value" where
  "from_i32 n = from_int (scast n)"

definition from_f64 :: "f64 \<Rightarrow> vm_value" where
  "from_f64 x = \<lparr>vv_tag = KIND_FLOAT, vv_payload = x\<rparr>"

text \<open>A heap reference is a non-zero address.\<close>

definition heap_ref_from_addr :: "u64 \<Rightarrow> u64 option" where
  "heap_ref_from_addr addr = (if addr = 0 then None else Some addr)"

definition from_heap :: "u64 \<Rightarrow> vm_value" where
  "from_heap addr = \<lparr>vv_tag = KIND_HEAP, vv_payload = addr\<rparr>"

definition is_f64 :: "vm_value \<Rightarrow> bool" where "is_f64 v \<longleftrightarrow> vv_kind v = KIND_FLOAT"
definition is_null :: "vm_value \<Rightarrow> bool" where "is_null v \<longleftrightarrow> vv_kind v = KIND_NULL"
definition is_bool :: "vm_value \<Rightarrow> bool" where "is_bool v \<longleftrightarrow> vv_kind v = KIND_BOOL"
definition is_int :: "vm_value \<Rightarrow> bool" where "is_int v \<longleftrightarrow> vv_kind v = KIND_INT"
definition is_heap :: "vm_value \<Rightarrow> bool" where "is_heap v \<longleftrightarrow> vv_kind v = KIND_HEAP"
definition is_sso :: "vm_value \<Rightarrow> bool" where "is_sso v \<longleftrightarrow> vv_kind v = KIND_SSO"

lemmas [kind_defs] = vv_kind_def is_f64_def is_null_def is_bool_def is_int_def is_heap_def
  is_sso_def

definition as_f64 :: "vm_value \<Rightarrow> f64" where "as_f64 v = vv_payload v"
definition as_int :: "vm_value \<Rightarrow> i64" where "as_int v = vv_payload v"
definition as_i32 :: "vm_value \<Rightarrow> 32 word" where "as_i32 v = ucast (as_int v)"
definition as_bool :: "vm_value \<Rightarrow> bool" where "as_bool v \<longleftrightarrow> vv_payload v \<noteq> 0"
definition as_heap :: "vm_value \<Rightarrow> u64" where "as_heap v = vv_payload v"

definition is_truthy :: "vm_value \<Rightarrow> bool" where
  "is_truthy v = (if is_null v then False else if is_bool v then as_bool v else True)"

definition to_f64 :: "vm_value \<Rightarrow> f64" where
  "to_f64 v =
     (if is_f64 v then as_f64 v
      else if is_int v then int_to_float (as_int v)
      else if is_bool v then (if as_bool v then F_ONE else F_ZERO)
      else F_NAN)"

text \<open>A float \<open>as i32\<close> is zero for NaN and saturates at the ends of the range.\<close>

definition f_as_i32 :: "f64 \<Rightarrow> 32 word" where
  "f_as_i32 x =
     (if f_is_nan x then 0
      else word_of_int (max (- (2 ^ 31)) (min (2 ^ 31 - 1) (f_trunc x))))"

definition to_i32 :: "vm_value \<Rightarrow> 32 word" where
  "to_i32 v =
     (if is_int v then as_i32 v
      else if is_f64 v then f_as_i32 (as_f64 v)
      else if is_bool v then (if as_bool v then 1 else 0)
      else 0)"

definition vm_eq :: "vm_value \<Rightarrow> vm_value \<Rightarrow> bool" where
  "vm_eq a b =
     (if bits_eq a b then True
      else if (is_int a \<or> is_f64 a) \<and> (is_int b \<or> is_f64 b) then f_eq (to_f64 a) (to_f64 b)
      else False)"

text \<open>What \<open>Hash for VmValue\<close> feeds to the hasher.\<close>

definition vm_hash_words :: "vm_value \<Rightarrow> u64 list" where
  "vm_hash_words v = [vv_tag v, vv_payload v]"

section \<open>Short strings\<close>

definition SSO_TAG :: "nat \<Rightarrow> u64" where
  "SSO_TAG len = KIND_SSO OR push_bit SSO_LEN_SHIFT (word_of_nat len)"

text \<open>The packing loop: byte \<open>i\<close> goes to bits \<open>8 i\<close> to \<open>8 i + 7\<close>.\<close>

fun sso_pack :: "nat \<Rightarrow> u8 list \<Rightarrow> u64 \<Rightarrow> u64" where
  "sso_pack i [] packed = packed"
| "sso_pack i (byte # bs) packed = sso_pack (Suc i) bs (packed OR push_bit (i * 8) (ucast byte))"

definition try_from_sso :: "u8 list \<Rightarrow> vm_value option" where
  "try_from_sso b =
     (if length b > SSO_MAX_LEN then None
      else Some \<lparr>vv_tag = SSO_TAG (length b), vv_payload = sso_pack 0 b 0\<rparr>)"

definition from_sso_raw :: "nat \<Rightarrow> u64 \<Rightarrow> vm_value" where
  "from_sso_raw len packed = \<lparr>vv_tag = SSO_TAG len, vv_payload = packed\<rparr>"

definition sso_len :: "vm_value \<Rightarrow> nat" where
  "sso_len v = unat (drop_bit SSO_LEN_SHIFT (vv_tag v) AND 0xFF)"

definition count_ones :: "u64 \<Rightarrow> nat" where
  "count_ones w = length (filter (bit w) [0..<64])"

definition sso_char_len :: "vm_value \<Rightarrow> nat" where
  "sso_char_len v =
     sso_len v - count_ones (vv_payload v AND push_bit 1 (NOT (vv_payload v)) AND SSO_HIGH_BITS)"

definition sso_byte :: "u64 \<Rightarrow> nat \<Rightarrow> u8" where
  "sso_byte p i = ucast (drop_bit (i * 8) p AND 0xFF)"

definition sso_copy_bytes :: "vm_value \<Rightarrow> u8 list \<Rightarrow> u8 list \<times> nat" where
  "sso_copy_bytes v buf =
     (let len = sso_len v
      in (map (\<lambda>i. if i < len then sso_byte (vv_payload v) i else buf ! i) [0..<length buf], len))"

text \<open>Slicing the buffer to a length above eight panics; that is the value \<open>None\<close>.\<close>

definition sso_eq_bytes :: "vm_value \<Rightarrow> u8 list \<Rightarrow> bool option" where
  "sso_eq_bytes v bytes =
     (let len = sso_len v
      in if length bytes \<noteq> len then Some False
         else if len > SSO_MAX_LEN then None
         else Some (take len (fst (sso_copy_bytes v (replicate SSO_MAX_LEN 0))) = bytes))"

definition sso_as_bytes :: "vm_value \<Rightarrow> u8 list option" where
  "sso_as_bytes v =
     (let (buf, len) = sso_copy_bytes v (replicate SSO_MAX_LEN 0)
      in if len > SSO_MAX_LEN then None else Some (take len buf))"

section \<open>Kinds and projections\<close>

lemma vv_kinds [simp]:
  "vv_kind vv_null = KIND_NULL" "vv_kind (from_bool b) = KIND_BOOL"
  "vv_kind (from_int n) = KIND_INT" "vv_kind (from_f64 x) = KIND_FLOAT"
  "vv_kind (from_heap a) = KIND_HEAP"
  by (simp_all add: kind_defs vv_null_def from_bool_def from_int_def from_f64_def from_heap_def)

lemma as_from [simp]:
  "as_int (from_int n) = n" "as_f64 (from_f64 x) = x" "as_bool (from_bool b) = b"
  "as_heap (from_heap a) = a"
  by (simp_all add: as_int_def as_f64_def as_bool_def as_heap_def from_int_def from_f64_def
      from_bool_def from_heap_def)

lemma is_from [simp]:
  "is_int (from_int n)" "is_f64 (from_f64 x)" "is_bool (from_bool b)" "is_heap (from_heap a)"
  "\<not> is_int (from_f64 x)" "\<not> is_f64 (from_int n)" "\<not> is_int (from_bool b)" "\<not> is_f64 (from_bool b)"
  "\<not> is_heap (from_int n)" "\<not> is_heap (from_f64 x)" "\<not> is_heap (from_bool b)" "\<not> is_null (from_int n)"
  "\<not> is_null (from_bool b)" "\<not> is_bool (from_int n)" "\<not> is_bool (from_f64 x)" "\<not> is_null (from_f64 x)"
  "\<not> is_int (from_heap a)" "\<not> is_f64 (from_heap a)" "\<not> is_null (from_heap a)"
  "is_null vv_null" "\<not> is_int vv_null" "\<not> is_f64 vv_null" "\<not> is_bool vv_null"
  by (simp_all add: is_f64_def is_null_def is_bool_def is_int_def is_heap_def KIND_NULL_def
      KIND_BOOL_def KIND_INT_def KIND_FLOAT_def KIND_HEAP_def)

lemma bits_eq_iff [simp]: "bits_eq a b \<longleftrightarrow> a = b"
  by (cases a; cases b) (simp add: bits_eq_def)

lemma vm_eq_refl [simp]: "vm_eq v v"
  by (simp add: vm_eq_def)

lemma f_eq_sym: "f_eq a b \<longleftrightarrow> f_eq b a"
  by (auto simp: f_eq_def)

lemma vm_eq_sym: "vm_eq a b \<longleftrightarrow> vm_eq b a"
  by (auto simp: vm_eq_def f_eq_sym [of "to_f64 a"])

section \<open>Short strings round trip\<close>

lemma bit_sso_pack:
  "bit (sso_pack i bs acc) n \<longleftrightarrow>
     bit acc n \<or> (n < 64 \<and> i \<le> n div 8 \<and> n div 8 - i < length bs \<and> bit (bs ! (n div 8 - i)) (n mod 8))"
proof (induction i bs acc rule: sso_pack.induct)
  case (2 i byte bs packed)
  have "bit (push_bit (i * 8) (ucast byte :: u64)) n \<longleftrightarrow> n < 64 \<and> n div 8 = i \<and> bit byte (n mod 8)"
  proof (cases "n div 8 = i")
    case True
    then have "n - i * 8 = n mod 8" "i * 8 \<le> n" by (auto simp: minus_div_mult_eq_mod)
    then show ?thesis using True by (auto simp: bit_simps)
  next
    case False
    then have "i * 8 \<le> n \<Longrightarrow> 8 \<le> n - i * 8" by presburger
    with False show ?thesis by (auto simp: bit_simps dest: bit_imp_le_length)
  qed
  note byte = this
  show ?case
  proof (cases "Suc i \<le> n div 8")
    case True
    then obtain m where "n div 8 - i = Suc m" "n div 8 - Suc i = m" "n div 8 \<noteq> i"
      by (cases "n div 8 - i") auto
    with True 2 byte show ?thesis by (simp add: bit_or_iff)
  next
    case False
    with 2 byte show ?thesis by (cases "n div 8 = i") (auto simp: bit_or_iff)
  qed
qed simp

lemma ff_mask: "(0xFF :: 'a::len word) = mask 8"
  by (simp add: mask_eq_exp_minus_1)

lemma sso_byte_pack:
  assumes "i < length bs" "length bs \<le> 8"
  shows "sso_byte (sso_pack 0 bs 0) i = bs ! i"
proof (rule bit_word_eqI)
  fix n assume "n < LENGTH(8)"
  then have n: "n < 8" by simp
  then show "bit (sso_byte (sso_pack 0 bs 0) i) n = bit (bs ! i) n"
    using assms by (auto simp: sso_byte_def bit_simps bit_sso_pack ff_mask)
qed

lemma SSO_TAG_small:
  assumes "len \<le> 8"
  shows "SSO_TAG len AND KIND_MASK = KIND_SSO"
    and "unat (drop_bit SSO_LEN_SHIFT (SSO_TAG len) AND 0xFF) = len"
proof -
  from assms have "len \<in> {0, 1, 2, 3, 4, 5, 6, 7, 8}" by auto
  then show "SSO_TAG len AND KIND_MASK = KIND_SSO"
    "unat (drop_bit SSO_LEN_SHIFT (SSO_TAG len) AND 0xFF) = len"
    by (auto simp: SSO_TAG_def KIND_MASK_def KIND_SSO_def SSO_LEN_SHIFT_def)
qed

lemma sso_bytes:
  assumes "length b \<le> 8"
  shows "take (length b) (map (\<lambda>i. if i < length b then sso_byte (sso_pack 0 b 0) i else 0) [0..<8]) = b"
  using assms by (intro nth_equalityI) (simp_all add: sso_byte_pack)

lemma try_from_sso_Some:
  assumes "try_from_sso b = Some v"
  shows "length b \<le> 8" "is_sso v" "sso_len v = length b" "vv_payload v = sso_pack 0 b 0"
    "sso_as_bytes v = Some b" "sso_eq_bytes v bs = Some (bs = b)"
proof -
  from assms show l: "length b \<le> 8" and p: "vv_payload v = sso_pack 0 b 0"
    by (auto simp: try_from_sso_def SSO_MAX_LEN_def split: if_splits)
  from assms l show "is_sso v" and n: "sso_len v = length b"
    by (auto simp: try_from_sso_def SSO_MAX_LEN_def is_sso_def vv_kind_def sso_len_def SSO_TAG_small)
  have cp: "sso_copy_bytes v (replicate 8 0) =
      (map (\<lambda>i. if i < length b then sso_byte (sso_pack 0 b 0) i else 0) [0..<8], length b)"
    unfolding sso_copy_bytes_def Let_def n p by (simp del: upt_rec_numeral)
  show "sso_as_bytes v = Some b"
    using l sso_bytes [OF l] by (simp add: sso_as_bytes_def SSO_MAX_LEN_def cp del: upt_rec_numeral)
  show "sso_eq_bytes v bs = Some (bs = b)"
    using l n sso_bytes [OF l]
    by (auto simp: sso_eq_bytes_def SSO_MAX_LEN_def Let_def cp simp del: upt_rec_numeral)
qed

section \<open>Counting characters\<close>

text \<open>A UTF-8 continuation byte has the form \<open>10xxxxxx\<close>; every other byte starts a character.\<close>

definition is_continuation :: "u8 \<Rightarrow> bool" where
  "is_continuation b \<longleftrightarrow> bit b 7 \<and> \<not> bit b 6"

lemma bit_one_at:
  "bit (push_bit 7 (1 :: u64)) n \<longleftrightarrow> n = 7" "bit (push_bit 15 (1 :: u64)) n \<longleftrightarrow> n = 15"
  "bit (push_bit 23 (1 :: u64)) n \<longleftrightarrow> n = 23" "bit (push_bit 31 (1 :: u64)) n \<longleftrightarrow> n = 31"
  "bit (push_bit 39 (1 :: u64)) n \<longleftrightarrow> n = 39" "bit (push_bit 47 (1 :: u64)) n \<longleftrightarrow> n = 47"
  "bit (push_bit 55 (1 :: u64)) n \<longleftrightarrow> n = 55" "bit (push_bit 63 (1 :: u64)) n \<longleftrightarrow> n = 63"
  unfolding bit_push_bit_iff bit_1_iff by auto

lemma bit_high: "bit SSO_HIGH_BITS n \<longleftrightarrow> n < 64 \<and> n mod 8 = 7"
proof -
  have high: "SSO_HIGH_BITS = push_bit 7 1 OR push_bit 15 1 OR push_bit 23 1 OR push_bit 31 1
      OR push_bit 39 1 OR push_bit 47 1 OR push_bit 55 1 OR push_bit 63 1"
    by (simp add: SSO_HIGH_BITS_def)
  have "bit SSO_HIGH_BITS n \<longleftrightarrow> n \<in> {7, 15, 23, 31, 39, 47, 55, 63}"
    unfolding high bit_or_iff by (simp only: bit_one_at) simp
  moreover have "n < 64 \<and> n mod 8 = 7 \<longleftrightarrow> n \<in> {7, 15, 23, 31, 39, 47, 55, 63}"
  proof
    assume "n < 64 \<and> n mod 8 = 7"
    then have "n = 8 * (n div 8) + 7" "n div 8 < 8" using div_mult_mod_eq [of n 8] by linarith+
    then have "n div 8 \<in> {0, 1, 2, 3, 4, 5, 6, 7}" "n = 8 * (n div 8) + 7" by auto
    then show "n \<in> {7, 15, 23, 31, 39, 47, 55, 63}" by auto
  qed auto
  ultimately show ?thesis by simp
qed

lemma byte_top_bit: "n mod 8 = 7 \<Longrightarrow> 1 \<le> n \<and> (n - 1) div 8 = n div 8 \<and> (n - 1) mod 8 = (6::nat)"
proof -
  assume "n mod 8 = 7"
  then obtain k where n: "n = 8 * k + 7" by (metis mult_div_mod_eq)
  then have "n - 1 = 6 + k * 8" by simp
  then show ?thesis using n by (simp add: div_mult_self1 mod_mult_self1)
qed

lemma sso_char_mask:
  assumes "length b \<le> 8" "n < 64"
  shows "bit (sso_pack 0 b 0 AND push_bit 1 (NOT (sso_pack 0 b 0)) AND SSO_HIGH_BITS) n \<longleftrightarrow>
           n mod 8 = 7 \<and> n div 8 < length b \<and> is_continuation (b ! (n div 8))"
proof (cases "n mod 8 = 7")
  case True
  have m: "bit (push_bit 1 (NOT (sso_pack 0 b 0))) n \<longleftrightarrow>
      \<not> (n div 8 < length b \<and> bit (b ! (n div 8)) 6)"
    using assms(2) byte_top_bit [OF True]
    unfolding bit_push_bit_iff bit_not_iff bit_sso_pack by auto
  have p: "bit (sso_pack 0 b 0) n \<longleftrightarrow> n div 8 < length b \<and> bit (b ! (n div 8)) 7"
    using assms(2) True by (simp add: bit_sso_pack)
  show ?thesis
    unfolding bit_and_iff m p bit_high is_continuation_def using assms(2) True by blast
qed (simp add: bit_and_iff bit_high)

lemma count_ones_continuation:
  assumes "length b \<le> 8"
  shows "count_ones (sso_pack 0 b 0 AND push_bit 1 (NOT (sso_pack 0 b 0)) AND SSO_HIGH_BITS)
       = length (filter is_continuation b)"
proof -
  let ?w = "sso_pack 0 b 0 AND push_bit 1 (NOT (sso_pack 0 b 0)) AND SSO_HIGH_BITS"
  let ?c = "\<lambda>k. k < length b \<and> is_continuation (b ! k)"
  have "filter (bit ?w) [0..<64] = filter (\<lambda>n. ?c (n div 8)) (filter (\<lambda>n. n mod 8 = 7) [0..<64])"
    unfolding filter_filter using sso_char_mask [OF assms] by (intro filter_cong) auto
  also have "filter (\<lambda>n. n mod 8 = 7) [0..<64] = map (\<lambda>k. 8 * k + 7) [0..<8::nat]"
    by (simp add: upt_rec)
  also have "length (filter (\<lambda>n. ?c (n div 8)) \<dots>) = length (filter ?c [0..<8])"
    by (simp add: filter_map o_def del: upt_rec_numeral)
  also have "[0..<8] = [0..<length b] @ [length b..<8]"
    using upt_add_eq_append [of 0 "length b" "8 - length b"] assms by simp
  also have "length (filter ?c ([0..<length b] @ [length b..<8])) = length (filter (\<lambda>k. is_continuation (b ! k)) [0..<length b])"
  proof -
    have "filter ?c [length b..<8] = []" by (auto simp: filter_empty_conv)
    moreover have "filter ?c [0..<length b] = filter (\<lambda>k. is_continuation (b ! k)) [0..<length b]"
      by (intro filter_cong) auto
    ultimately show ?thesis by simp
  qed
  also have "\<dots> = length (filter is_continuation (map ((!) b) [0..<length b]))"
    by (simp add: filter_map o_def)
  also have "map ((!) b) [0..<length b] = b" by (rule map_nth)
  finally show ?thesis by (simp add: count_ones_def)
qed

text \<open>
  C28: a string of at most eight bytes, and no other, becomes a small-string value; the bytes
  come back unchanged, its comparison with a byte string is equality, and the bit trick that
  counts its characters counts the bytes that are not UTF-8 continuation bytes.
\<close>

theorem sso_correct:
  "(try_from_sso b = None \<longleftrightarrow> 8 < length b) \<and>
   (\<forall>v. try_from_sso b = Some v \<longrightarrow>
      is_sso v \<and> sso_as_bytes v = Some b \<and> sso_eq_bytes v bs = Some (bs = b) \<and>
      sso_char_len v = length (filter (\<lambda>x. \<not> is_continuation x) b))"
proof -
  have "sso_char_len v = length (filter (\<lambda>x. \<not> is_continuation x) b)" if "try_from_sso b = Some v" for v
    using try_from_sso_Some(1,3,4) [OF that] sum_length_filter_compl [of is_continuation b]
    by (simp only: sso_char_len_def count_ones_continuation)
  then show ?thesis
    using try_from_sso_Some by (auto simp: try_from_sso_def SSO_MAX_LEN_def)
qed

lemma sso_correct_witness:
  "\<exists>v. try_from_sso [0x63, 0xC3, 0xA9] = Some v \<and> sso_char_len v = 2"
proof -
  obtain v where v: "try_from_sso [0x63, 0xC3, 0xA9] = Some v"
    by (simp add: try_from_sso_def SSO_MAX_LEN_def)
  have "is_continuation 0xA9" "\<not> is_continuation 0xC3" "\<not> is_continuation 0x63"
    by (simp_all add: is_continuation_def bit_numeral_rec)
  with v sso_correct [of "[0x63, 0xC3, 0xA9]" "[]"] show ?thesis by simp
qed

section \<open>Equality of values\<close>

text \<open>
  \<open>PartialEq\<close> compares two numbers through \<open>f64\<close>. It is reflexive (bit equality comes first,
  so NaN equals itself) and symmetric, but two different ints above \<open>2^53\<close> can be equal, and
  an int equals the float of the same value although the two hash differently.
\<close>

lemma bit_length_2_53: "bit_length 9007199254740992 = 54" "bit_length 9007199254740993 = 54"
  by (simp_all add: bit_length.simps)

theorem vm_eq_conflates_ints:
  "vm_eq (from_int 9007199254740992) (from_int 9007199254740993) \<and>
   vm_eq (from_int 1) (from_f64 F_ONE) \<and>
   vm_hash_words (from_int 1) \<noteq> vm_hash_words (from_f64 F_ONE)"
proof -
  have "int_to_float 9007199254740992 = int_to_float 9007199254740993"
    by (simp add: int_to_float_def Let_def bit_length_2_53 round_even_def)
  moreover have "\<not> f_is_nan (int_to_float 9007199254740992)"
    by (simp add: int_to_float_def Let_def bit_length_2_53 f_is_nan_def f_exp_field_def f_frac_field_def round_even_def)
  moreover have "int_to_float 1 = F_ONE"
    by (simp add: int_to_float_def F_ONE_def bit_length.simps)
  moreover have "\<not> f_is_nan F_ONE"
    by (simp add: F_ONE_def f_is_nan_def f_exp_field_def)
  moreover have "vm_hash_words (from_int 1) \<noteq> vm_hash_words (from_f64 F_ONE)"
    by (simp add: vm_hash_words_def from_int_def from_f64_def KIND_INT_def KIND_FLOAT_def)
  ultimately show ?thesis
    by (simp add: vm_eq_def to_f64_def f_eq_def)
qed

end
