(* ===== verification/Vm_Array.thy ===== *)
theory Vm_Array
  imports Value
begin

text \<open>
  Array storage, \<open>crates/varn-types/src/vm_value/array.rs\<close>, \<open>vm_array.rs\<close> and
  \<open>vm_array_access.rs\<close>: an array of ints or floats is stored unboxed and migrates to boxed
  values when another kind is stored. Boxed elements remember a prefix that the collector has
  already scanned. The abstract view is the list of values; the lemmas show that every
  operation refines the list operation, and that the clean prefix never hides a value
  stored since the last scan.
\<close>

record boxed_elems =
  be_items :: "vm_value list"
  clean_prefix :: nat

datatype array_repr = ABoxed boxed_elems | AI64 "i64 list" | AF64 "f64 list"

definition boxed_elems_new :: "vm_value list \<Rightarrow> boxed_elems" where
  "boxed_elems_new items = \<lparr>be_items = items, clean_prefix = 0\<rparr>"

fun arr_discriminant :: "array_repr \<Rightarrow> nat" where
  "arr_discriminant (ABoxed _) = 0"
| "arr_discriminant (AI64 _) = 1"
| "arr_discriminant (AF64 _) = 2"

fun arr_len :: "array_repr \<Rightarrow> nat" where
  "arr_len (ABoxed v) = length (be_items v)"
| "arr_len (AI64 v) = length v"
| "arr_len (AF64 v) = length v"

definition arr_boxed :: "vm_value list \<Rightarrow> array_repr" where
  "arr_boxed items = ABoxed (boxed_elems_new items)"

definition arr_unboxed :: "vm_value list \<Rightarrow> array_repr option" where
  "arr_unboxed items =
     (case items of
        [] \<Rightarrow> None
      | first # _ \<Rightarrow>
          if is_int first \<and> list_all is_int items then Some (AI64 (map as_int items))
          else if is_f64 first \<and> list_all is_f64 items then Some (AF64 (map as_f64 items))
          else None)"

definition arr_from_items :: "vm_value list \<Rightarrow> array_repr" where
  "arr_from_items items = (case arr_unboxed items of Some r \<Rightarrow> r | None \<Rightarrow> arr_boxed items)"

definition arr_from_slice :: "vm_value list \<Rightarrow> array_repr" where
  "arr_from_slice items = (case arr_unboxed items of Some r \<Rightarrow> r | None \<Rightarrow> arr_boxed items)"

fun element_slotkind :: "array_repr \<Rightarrow> slot_kind" where
  "element_slotkind (ABoxed _) = SlotDynamic"
| "element_slotkind (AI64 _) = SlotInt"
| "element_slotkind (AF64 _) = SlotFloat"

fun as_boxed :: "array_repr \<Rightarrow> vm_value list option" where
  "as_boxed (ABoxed v) = Some (be_items v)"
| "as_boxed (AI64 _) = None"
| "as_boxed (AF64 _) = None"

text \<open>\<open>scan_dirty\<close>: the values it hands to the callback, and the array it leaves.\<close>

fun scan_dirty :: "array_repr \<Rightarrow> vm_value list \<times> array_repr" where
  "scan_dirty (ABoxed b) =
     (let from = min (clean_prefix b) (length (be_items b))
      in (drop from (be_items b), ABoxed (b\<lparr>clean_prefix := as_u32 (length (be_items b))\<rparr>)))"
| "scan_dirty (AI64 v) = ([], AI64 v)"
| "scan_dirty (AF64 v) = ([], AF64 v)"

section \<open>Element access\<close>

fun get_vm :: "array_repr \<Rightarrow> nat \<Rightarrow> vm_value option" where
  "get_vm (ABoxed v) idx = list_get (be_items v) idx"
| "get_vm (AI64 v) idx = map_option from_int (list_get v idx)"
| "get_vm (AF64 v) idx = map_option from_f64 (list_get v idx)"

fun migrate_to_boxed :: "array_repr \<Rightarrow> boxed_elems" where
  "migrate_to_boxed (ABoxed v) = v\<lparr>clean_prefix := 0\<rparr>"
| "migrate_to_boxed (AI64 v) = boxed_elems_new (map from_int v)"
| "migrate_to_boxed (AF64 v) = boxed_elems_new (map from_f64 v)"

definition migrate_set :: "array_repr \<Rightarrow> nat \<Rightarrow> vm_value \<Rightarrow> array_repr" where
  "migrate_set a idx val =
     (let v = migrate_to_boxed a in ABoxed (v\<lparr>be_items := (be_items v)[idx := val]\<rparr>))"

fun set_vm :: "array_repr \<Rightarrow> nat \<Rightarrow> vm_value \<Rightarrow> array_repr \<times> bool" where
  "set_vm (ABoxed v) idx val =
     (if idx < length (be_items v)
      then (ABoxed \<lparr>be_items = (be_items v)[idx := val],
                   clean_prefix = min (clean_prefix v) (as_u32 idx)\<rparr>, True)
      else (ABoxed v, False))"
| "set_vm (AI64 v) idx val =
     (if idx \<ge> length v then (AI64 v, False)
      else if is_int val then (AI64 (v[idx := as_int val]), True)
      else (migrate_set (AI64 v) idx val, True))"
| "set_vm (AF64 v) idx val =
     (if idx \<ge> length v then (AF64 v, False)
      else if is_f64 val then (AF64 (v[idx := as_f64 val]), True)
      else (migrate_set (AF64 v) idx val, True))"

definition boxed_push :: "boxed_elems \<Rightarrow> vm_value \<Rightarrow> array_repr" where
  "boxed_push v val = ABoxed (v\<lparr>be_items := be_items v @ [val]\<rparr>)"

fun push_repr_change :: "array_repr \<Rightarrow> vm_value \<Rightarrow> array_repr" where
  "push_repr_change (ABoxed v) val =
     (if is_int val then AI64 [as_int val]
      else if is_f64 val then AF64 [as_f64 val]
      else boxed_push v val)"
| "push_repr_change (AI64 v) val = boxed_push (migrate_to_boxed (AI64 v)) val"
| "push_repr_change (AF64 v) val = boxed_push (migrate_to_boxed (AF64 v)) val"

fun push_vm :: "array_repr \<Rightarrow> vm_value \<Rightarrow> array_repr" where
  "push_vm (ABoxed v) val =
     (if be_items v \<noteq> [] then boxed_push v val else push_repr_change (ABoxed v) val)"
| "push_vm (AI64 v) val =
     (if is_int val then AI64 (v @ [as_int val]) else push_repr_change (AI64 v) val)"
| "push_vm (AF64 v) val =
     (if is_f64 val then AF64 (v @ [as_f64 val]) else push_repr_change (AF64 v) val)"

text \<open>\<open>Vec::pop\<close>.\<close>

definition vec_pop :: "'a list \<Rightarrow> 'a option \<times> 'a list" where
  "vec_pop xs = (if xs = [] then (None, []) else (Some (last xs), butlast xs))"

fun pop_vm :: "array_repr \<Rightarrow> vm_value option \<times> array_repr" where
  "pop_vm (ABoxed v) =
     (let (popped, items) = vec_pop (be_items v)
      in (popped, ABoxed \<lparr>be_items = items,
                         clean_prefix = min (clean_prefix v) (as_u32 (length items))\<rparr>))"
| "pop_vm (AI64 v) = (let (popped, items) = vec_pop v in (map_option from_int popped, AI64 items))"
| "pop_vm (AF64 v) = (let (popped, items) = vec_pop v in (map_option from_f64 popped, AF64 items))"

fun get_i64 :: "array_repr \<Rightarrow> nat \<Rightarrow> i64 option" where
  "get_i64 (AI64 v) idx = list_get v idx"
| "get_i64 _ idx = None"

fun set_i64 :: "array_repr \<Rightarrow> nat \<Rightarrow> i64 \<Rightarrow> array_repr \<times> bool" where
  "set_i64 (AI64 v) idx val = (if idx < length v then (AI64 (v[idx := val]), True) else (AI64 v, False))"
| "set_i64 a idx val = (a, False)"

fun get_f64 :: "array_repr \<Rightarrow> nat \<Rightarrow> f64 option" where
  "get_f64 (AF64 v) idx = list_get v idx"
| "get_f64 _ idx = None"

fun set_f64 :: "array_repr \<Rightarrow> nat \<Rightarrow> f64 \<Rightarrow> array_repr \<times> bool" where
  "set_f64 (AF64 v) idx val = (if idx < length v then (AF64 (v[idx := val]), True) else (AF64 v, False))"
| "set_f64 a idx val = (a, False)"

section \<open>The sequence contract\<close>

text \<open>
  What the interpreter relies on: the operations act on the abstract sequence \<open>abs a\<close> for the
  values a program can make (\<open>ok\<close>).
\<close>

locale value_sequence =
  fixes abs :: "'r \<Rightarrow> 'v list"
    and ok :: "'v \<Rightarrow> bool"
    and make :: "'v list \<Rightarrow> 'r"
    and get :: "'r \<Rightarrow> nat \<Rightarrow> 'v option"
    and set_at :: "'r \<Rightarrow> nat \<Rightarrow> 'v \<Rightarrow> 'r \<times> bool"
    and push :: "'r \<Rightarrow> 'v \<Rightarrow> 'r"
    and pop :: "'r \<Rightarrow> 'v option \<times> 'r"
  assumes make_abs: "list_all ok vs \<Longrightarrow> abs (make vs) = vs"
    and get_abs: "get a i = list_get (abs a) i"
    and set_abs: "ok v \<Longrightarrow> abs (fst (set_at a i v)) = (abs a)[i := v]"
    and set_done: "snd (set_at a i v) \<longleftrightarrow> i < length (abs a)"
    and push_abs: "ok v \<Longrightarrow> abs (push a v) = abs a @ [v]"
    and pop_abs: "fst (pop a) = (if abs a = [] then None else Some (last (abs a)))"
    and pop_rest: "abs (snd (pop a)) = butlast (abs a)"
begin

lemma get_set: "ok v \<Longrightarrow> i < length (abs a) \<Longrightarrow>
    get (fst (set_at a i v)) j = (if j = i then Some v else get a j)"
  by (auto simp: get_abs set_abs list_get_def)

lemma push_pop: "ok v \<Longrightarrow> fst (pop (push a v)) = Some v \<and> abs (snd (pop (push a v))) = abs a"
  by (simp add: pop_abs pop_rest push_abs)

lemma push_all: "list_all ok vs \<Longrightarrow> abs (foldl push a vs) = abs a @ vs"
  by (induction vs arbitrary: a) (simp_all add: push_abs)

lemma read_back: "list_all ok vs \<Longrightarrow> map (get (foldl push (make []) vs)) [0..<length vs] = map Some vs"
  using make_abs [of "[]"] by (auto simp: get_abs push_all list_get_def intro: nth_equalityI)

end

fun arr_abs :: "array_repr \<Rightarrow> vm_value list" where
  "arr_abs (ABoxed v) = be_items v"
| "arr_abs (AI64 v) = map from_int v"
| "arr_abs (AF64 v) = map from_f64 v"

text \<open>The numbers a program makes carry no bits above the kind byte of their tag.\<close>

definition canonical :: "vm_value \<Rightarrow> bool" where
  "canonical v \<longleftrightarrow> (is_int v \<longrightarrow> v = from_int (as_int v)) \<and> (is_f64 v \<longrightarrow> v = from_f64 (as_f64 v))"

lemma canonical_made [simp]:
  "canonical (from_int n)" "canonical (from_f64 x)" "canonical vv_null" "canonical (from_bool b)"
  "canonical (from_heap h)"
  by (simp_all add: canonical_def)

lemma canonical_map:
  "list_all is_int vs \<Longrightarrow> list_all canonical vs \<Longrightarrow> map (from_int \<circ> as_int) vs = vs"
  "list_all is_f64 vs \<Longrightarrow> list_all canonical vs \<Longrightarrow> map (from_f64 \<circ> as_f64) vs = vs"
  by (induction vs) (simp_all add: canonical_def)

lemma arr_from_items_abs: "list_all canonical vs \<Longrightarrow> arr_abs (arr_from_items vs) = vs"
  by (cases vs) (auto simp: arr_from_items_def arr_unboxed_def arr_boxed_def boxed_elems_new_def
      canonical_map canonical_def)

interpretation seq: value_sequence arr_abs canonical arr_from_items get_vm set_vm push_vm pop_vm
proof
  show "arr_abs (arr_from_items vs) = vs" if "list_all canonical vs" for vs
    using that by (rule arr_from_items_abs)
  show "get_vm a i = list_get (arr_abs a) i" for a i
    by (cases a) (auto simp: list_get_def)
  show "arr_abs (fst (set_vm a i v)) = (arr_abs a)[i := v]" if "canonical v" for a i v
    using that by (cases a)
      (auto simp: canonical_def map_update migrate_set_def boxed_elems_new_def Let_def
        simp flip: list_update_beyond [of _ i v])
  show "snd (set_vm a i v) \<longleftrightarrow> i < length (arr_abs a)" for a i v
    by (cases a) auto
  show "arr_abs (push_vm a v) = arr_abs a @ [v]" if "canonical v" for a v
    using that by (cases a) (auto simp: canonical_def boxed_push_def boxed_elems_new_def)
  show "fst (pop_vm a) = (if arr_abs a = [] then None else Some (last (arr_abs a)))" for a
    by (cases a) (auto simp: vec_pop_def last_map)
  show "arr_abs (snd (pop_vm a)) = butlast (arr_abs a)" for a
    by (cases a) (auto simp: vec_pop_def map_butlast)
qed

lemma arr_len_abs: "arr_len a = length (arr_abs a)"
  by (cases a) simp_all

text \<open>An array of ints stays unboxed while only ints are stored in it.\<close>

lemma int_array_unboxed:
  "foldl push_vm (arr_boxed []) (map from_int (n # ns)) = AI64 (n # ns)"
proof -
  have "foldl push_vm (AI64 xs) (map from_int ns) = AI64 (xs @ ns)" for xs
    by (induction ns arbitrary: xs) simp_all
  from this [of "[n]"] show ?thesis by (simp add: arr_boxed_def boxed_elems_new_def)
qed

section \<open>Sequences of calls\<close>

text \<open>The calls of the interpreter and what they answer, on an array and on the list it stands for.\<close>

datatype arr_call = CallGet nat | CallSet nat vm_value | CallPush vm_value | CallPop | CallLen

datatype arr_answer = Gave "vm_value option" | Stored bool | Pushed | Counted nat

primrec array_call :: "array_repr \<Rightarrow> arr_call \<Rightarrow> arr_answer \<times> array_repr" where
  "array_call a (CallGet i) = (Gave (get_vm a i), a)"
| "array_call a (CallSet i v) = (Stored (snd (set_vm a i v)), fst (set_vm a i v))"
| "array_call a (CallPush v) = (Pushed, push_vm a v)"
| "array_call a CallPop = (Gave (fst (pop_vm a)), snd (pop_vm a))"
| "array_call a CallLen = (Counted (arr_len a), a)"

primrec list_call :: "vm_value list \<Rightarrow> arr_call \<Rightarrow> arr_answer \<times> vm_value list" where
  "list_call vs (CallGet i) = (Gave (list_get vs i), vs)"
| "list_call vs (CallSet i v) = (Stored (i < length vs), vs[i := v])"
| "list_call vs (CallPush v) = (Pushed, vs @ [v])"
| "list_call vs CallPop = (Gave (if vs = [] then None else Some (last vs)), butlast vs)"
| "list_call vs CallLen = (Counted (length vs), vs)"

primrec call_ok :: "arr_call \<Rightarrow> bool" where
  "call_ok (CallGet i) = True"
| "call_ok (CallSet i v) = canonical v"
| "call_ok (CallPush v) = canonical v"
| "call_ok CallPop = True"
| "call_ok CallLen = True"

fun run_calls :: "('s \<Rightarrow> 'c \<Rightarrow> 'r \<times> 's) \<Rightarrow> 's \<Rightarrow> 'c list \<Rightarrow> 'r list \<times> 's" where
  "run_calls step s [] = ([], s)"
| "run_calls step s (c # cs) =
     (let (r, s') = step s c; (rs, s'') = run_calls step s' cs in (r # rs, s''))"

lemma array_call_abs:
  "call_ok c \<Longrightarrow> fst (array_call a c) = fst (list_call (arr_abs a) c) \<and>
     arr_abs (snd (array_call a c)) = snd (list_call (arr_abs a) c)"
  by (cases c) (simp_all add: seq.get_abs seq.set_abs seq.set_done seq.push_abs seq.pop_abs seq.pop_rest arr_len_abs)

lemma run_calls_abs:
  "list_all call_ok cs \<Longrightarrow> fst (run_calls array_call a cs) = fst (run_calls list_call (arr_abs a) cs) \<and>
     arr_abs (snd (run_calls array_call a cs)) = snd (run_calls list_call (arr_abs a) cs)"
proof (induction cs arbitrary: a)
  case (Cons c cs)
  then show ?case
    using array_call_abs [of c a] Cons.IH [of "snd (array_call a c)"] by (simp add: case_prod_unfold Let_def)
qed simp

section \<open>The clean prefix\<close>

datatype arr_op = OpSet nat vm_value | OpPush vm_value | OpPop

fun run_arr_op :: "array_repr \<Rightarrow> arr_op \<Rightarrow> array_repr" where
  "run_arr_op a (OpSet i v) = fst (set_vm a i v)"
| "run_arr_op a (OpPush v) = push_vm a v"
| "run_arr_op a OpPop = snd (pop_vm a)"

text \<open>The elements of the clean prefix all belong to \<open>S\<close>.\<close>

fun clean_within :: "vm_value set \<Rightarrow> array_repr \<Rightarrow> bool" where
  "clean_within S (ABoxed b) \<longleftrightarrow>
     clean_prefix b \<le> length (be_items b) \<and> set (take (clean_prefix b) (be_items b)) \<subseteq> S"
| "clean_within S _ \<longleftrightarrow> True"

lemma scan_dirty_clean: "clean_within (set (arr_abs a)) (snd (scan_dirty a))"
  by (cases a) (auto simp: Let_def dest: in_set_takeD)

lemma take_min_in: "x \<in> set (take (min m n) xs) \<Longrightarrow> x \<in> set (take m xs)"
  using set_take_subset_set_take [of "min m n" m xs] by auto

lemma run_arr_op_clean: "clean_within S a \<Longrightarrow> clean_within S (run_arr_op a op)"
proof (cases op)
  case (OpSet i v)
  moreover have "take (min n (as_u32 i)) (xs[i := v]) = take (min n (as_u32 i)) xs" for n xs
    by (rule take_update_cancel) (metis as_u32_le min.coboundedI2)
  moreover assume "clean_within S a"
  ultimately show ?thesis
    by (cases a) (auto simp: migrate_set_def boxed_elems_new_def Let_def min.coboundedI1
        dest!: take_min_in)
next
  case (OpPush v)
  moreover assume "clean_within S a"
  ultimately show ?thesis
    by (cases a) (auto simp: boxed_push_def boxed_elems_new_def)
next
  case OpPop
  moreover have "take (min n (as_u32 (length xs - 1))) (butlast xs) = take (min n (as_u32 (length xs - 1))) xs"
    for n and xs :: "vm_value list"
    by (simp add: butlast_conv_take min.absorb1 min.coboundedI2)
  moreover assume "clean_within S a"
  ultimately show ?thesis
    by (cases a) (auto simp: vec_pop_def min.coboundedI2 split: prod.splits dest!: take_min_in)
qed

lemma run_arr_ops_clean: "clean_within S a \<Longrightarrow> clean_within S (foldl run_arr_op a ops)"
  by (induction ops arbitrary: a) (simp_all add: run_arr_op_clean)

lemma clean_within_scan:
  "clean_within S a \<Longrightarrow> as_boxed a = Some vs \<Longrightarrow> set vs \<subseteq> S \<union> set (fst (scan_dirty a))"
proof (cases a)
  case (ABoxed b)
  moreover assume "clean_within S a" "as_boxed a = Some vs"
  ultimately show ?thesis
    using set_append [of "take (clean_prefix b) (be_items b)" "drop (clean_prefix b) (be_items b)"]
    by (auto simp: Let_def min.absorb1)
qed simp_all

section \<open>Properties\<close>

text \<open>
  C29: an array refines the list of its values: any sequence of reads, stores, pushes, pops and
  length queries, of ints, floats and other values in any mixture, gets from the array the answers
  it gets from the list and leaves it with the elements of the list, across the migrations between
  the unboxed and the boxed representations; a store past the end and a read there are refused,
  and a pop of the empty array answers nothing.
\<close>

theorem array_refines_list:
  assumes "list_all canonical vs" "list_all call_ok calls"
  shows "fst (run_calls array_call (arr_from_items vs) calls) = fst (run_calls list_call vs calls) \<and>
         arr_abs (snd (run_calls array_call (arr_from_items vs) calls)) = snd (run_calls list_call vs calls)"
  using run_calls_abs [OF assms(2), of "arr_from_items vs"] seq.make_abs [OF assms(1)] by simp

theorem array_refines_list_witness:
  "fst (run_calls array_call (arr_from_items [])
     [CallPop, CallPush (from_int 4), CallPush vv_null, CallSet 7 vv_null, CallGet 0, CallPop, CallLen])
   = [Gave None, Pushed, Pushed, Stored False, Gave (Some (from_int 4)), Gave (Some vv_null), Counted 1]"
  using array_refines_list [of "[]" "[CallPop, CallPush (from_int 4), CallPush vv_null, CallSet 7 vv_null,
     CallGet 0, CallPop, CallLen]"] by simp

text \<open>
  C15: the collector misses no store: if an array is scanned, then mutated by any sequence of
  stores, pushes and pops, the next scan reports every boxed element that was not already an
  element at the first scan, although it skips the clean prefix.
\<close>

theorem scan_dirty_complete:
  assumes "as_boxed (foldl run_arr_op (snd (scan_dirty a)) ops) = Some vs"
  shows "set vs \<subseteq> set (arr_abs a) \<union> set (fst (scan_dirty (foldl run_arr_op (snd (scan_dirty a)) ops)))"
  using clean_within_scan [OF run_arr_ops_clean [OF scan_dirty_clean] assms] .

theorem scan_dirty_complete_witness:
  "as_boxed (foldl run_arr_op (snd (scan_dirty (arr_boxed [vv_null, bool_true]))) [OpSet 1 bool_false])
     = Some [vv_null, bool_false] \<and>
   bool_false \<in> set (fst (scan_dirty (foldl run_arr_op
      (snd (scan_dirty (arr_boxed [vv_null, bool_true]))) [OpSet 1 bool_false])))"
proof -
  have v: "as_boxed (foldl run_arr_op (snd (scan_dirty (arr_boxed [vv_null, bool_true]))) [OpSet 1 bool_false])
     = Some [vv_null, bool_false]"
    by (simp add: arr_boxed_def boxed_elems_new_def)
  have "bool_false \<notin> set (arr_abs (arr_boxed [vv_null, bool_true]))"
    by (simp add: arr_boxed_def boxed_elems_new_def bool_false_def bool_true_def vv_null_def
        KIND_BOOL_def KIND_NULL_def)
  then show ?thesis using v scan_dirty_complete [OF v] by auto
qed

end
