(* ===== verification/Opcode.thy ===== *)
theory Opcode
  imports Prelude
begin

text \<open>
  The instruction set, \<open>crates/varn-core/src/opcode.rs\<close>: one constructor per variant in
  discriminant order, its byte, and the decoder of an instruction's first word, whose low byte
  is the opcode. The last section holds the three rendering tables of the disassembler
  (\<open>varn-types/src/bytecode/opcode_*.rs\<close>).
\<close>

datatype (plugins only: size) opcode =
    O_LoadConst | O_LoadNull | O_LoadTrue | O_LoadFalse | O_LoadInt | O_Move | O_LoadGlobal
    | O_StoreGlobal | O_DefineGlobal | O_DefineGlobalIdx | O_LoadGlobalIdx | O_StoreGlobalIdx
    | O_LoadUpvalue | O_StoreUpvalue | O_CloseUpvalue | O_Add | O_Sub | O_Mul | O_Div | O_Mod
    | O_Pow | O_Negate | O_Not | O_ToString | O_Eq | O_Neq | O_Lt | O_Lte | O_Gt | O_Gte
    | O_BitAnd | O_BitOr | O_BitXor | O_Shl | O_Shr | O_Ushr | O_Jump | O_JumpIfFalse
    | O_JumpIfTrue | O_Loop | O_Call | O_CallMethod | O_InvokeVirtual | O_CallSpread | O_Return
    | O_BuildArray | O_BuildTuple | O_BuildObject | O_BuildObjectWithShape | O_GetIndex
    | O_SetIndex | O_ObjectRest | O_ObjectKeys | O_ObjectMerge | O_GetProperty
    | O_GetPropertyMaybe | O_SetProperty | O_GetFixedField | O_SetFixedField | O_GetSuper
    | O_MakeClosure | O_MakeClass | O_Inherit | O_Method | O_DefineStatic | O_DefineGetter
    | O_DefineSetter | O_DefineStaticGetter | O_DefineStaticSetter | O_DeclareLayout
    | O_AllocInstance | O_BindMethod | O_Typeof | O_Instanceof | O_In | O_IsNull | O_IsArray
    | O_AssertNotNull | O_StrConcat | O_StrLength | O_StrSlice | O_ArrayLength | O_ArrayPush
    | O_ArrayPop | O_ArrayExtend | O_WrapSpread | O_MakeEnumVariant | O_GetEnumTag | O_Await
    | O_Spawn | O_Yield | O_Try | O_Throw | O_PopTry | O_LoadModule | O_LoadModuleSlot
    | O_StoreModuleSlot | O_InvokeRuntimeStatic | O_AddImm | O_SubImm | O_BuildStr
    | O_LoadIntZero | O_LoadIntOne | O_LoadIntMinusOne | O_AddInt | O_SubInt | O_MulInt
    | O_DivInt | O_LtInt | O_GtInt | O_LteInt | O_GteInt | O_EqInt | O_NeqInt | O_AddFloat
    | O_SubFloat | O_MulFloat | O_DivFloat | O_ModFloat | O_PowFloat | O_LtFloat | O_GtFloat
    | O_LteFloat | O_GteFloat | O_EqFloat | O_NeqFloat | O_EqStr | O_NeqStr | O_ModInt
    | O_PowInt | O_Intrinsic | O_LoadStaticFn | O_CallSelf | O_Nop | O_ArrayGetIndex
    | O_ArraySetIndex | O_BytesGetIndex | O_BytesSetIndex | O_CallNativeOp | O_IntrinsicDirect
    | O_LoadNativeGlobalIdx | O_BuildMap | O_MapGetIndex | O_MapSetIndex | O_Convert
    | O_BytesLength

primrec opcode_byte :: "opcode \<Rightarrow> nat" where
  "opcode_byte O_LoadConst = 0"
| "opcode_byte O_LoadNull = 1"
| "opcode_byte O_LoadTrue = 2"
| "opcode_byte O_LoadFalse = 3"
| "opcode_byte O_LoadInt = 4"
| "opcode_byte O_Move = 5"
| "opcode_byte O_LoadGlobal = 6"
| "opcode_byte O_StoreGlobal = 7"
| "opcode_byte O_DefineGlobal = 8"
| "opcode_byte O_DefineGlobalIdx = 9"
| "opcode_byte O_LoadGlobalIdx = 10"
| "opcode_byte O_StoreGlobalIdx = 11"
| "opcode_byte O_LoadUpvalue = 12"
| "opcode_byte O_StoreUpvalue = 13"
| "opcode_byte O_CloseUpvalue = 14"
| "opcode_byte O_Add = 15"
| "opcode_byte O_Sub = 16"
| "opcode_byte O_Mul = 17"
| "opcode_byte O_Div = 18"
| "opcode_byte O_Mod = 19"
| "opcode_byte O_Pow = 20"
| "opcode_byte O_Negate = 21"
| "opcode_byte O_Not = 22"
| "opcode_byte O_ToString = 23"
| "opcode_byte O_Eq = 24"
| "opcode_byte O_Neq = 25"
| "opcode_byte O_Lt = 26"
| "opcode_byte O_Lte = 27"
| "opcode_byte O_Gt = 28"
| "opcode_byte O_Gte = 29"
| "opcode_byte O_BitAnd = 30"
| "opcode_byte O_BitOr = 31"
| "opcode_byte O_BitXor = 32"
| "opcode_byte O_Shl = 33"
| "opcode_byte O_Shr = 34"
| "opcode_byte O_Ushr = 35"
| "opcode_byte O_Jump = 36"
| "opcode_byte O_JumpIfFalse = 37"
| "opcode_byte O_JumpIfTrue = 38"
| "opcode_byte O_Loop = 39"
| "opcode_byte O_Call = 40"
| "opcode_byte O_CallMethod = 41"
| "opcode_byte O_InvokeVirtual = 42"
| "opcode_byte O_CallSpread = 43"
| "opcode_byte O_Return = 44"
| "opcode_byte O_BuildArray = 45"
| "opcode_byte O_BuildTuple = 46"
| "opcode_byte O_BuildObject = 47"
| "opcode_byte O_BuildObjectWithShape = 48"
| "opcode_byte O_GetIndex = 49"
| "opcode_byte O_SetIndex = 50"
| "opcode_byte O_ObjectRest = 51"
| "opcode_byte O_ObjectKeys = 52"
| "opcode_byte O_ObjectMerge = 53"
| "opcode_byte O_GetProperty = 54"
| "opcode_byte O_GetPropertyMaybe = 55"
| "opcode_byte O_SetProperty = 56"
| "opcode_byte O_GetFixedField = 57"
| "opcode_byte O_SetFixedField = 58"
| "opcode_byte O_GetSuper = 59"
| "opcode_byte O_MakeClosure = 60"
| "opcode_byte O_MakeClass = 61"
| "opcode_byte O_Inherit = 62"
| "opcode_byte O_Method = 63"
| "opcode_byte O_DefineStatic = 64"
| "opcode_byte O_DefineGetter = 65"
| "opcode_byte O_DefineSetter = 66"
| "opcode_byte O_DefineStaticGetter = 67"
| "opcode_byte O_DefineStaticSetter = 68"
| "opcode_byte O_DeclareLayout = 69"
| "opcode_byte O_AllocInstance = 70"
| "opcode_byte O_BindMethod = 71"
| "opcode_byte O_Typeof = 72"
| "opcode_byte O_Instanceof = 73"
| "opcode_byte O_In = 74"
| "opcode_byte O_IsNull = 75"
| "opcode_byte O_IsArray = 76"
| "opcode_byte O_AssertNotNull = 77"
| "opcode_byte O_StrConcat = 78"
| "opcode_byte O_StrLength = 79"
| "opcode_byte O_StrSlice = 80"
| "opcode_byte O_ArrayLength = 81"
| "opcode_byte O_ArrayPush = 82"
| "opcode_byte O_ArrayPop = 83"
| "opcode_byte O_ArrayExtend = 84"
| "opcode_byte O_WrapSpread = 85"
| "opcode_byte O_MakeEnumVariant = 86"
| "opcode_byte O_GetEnumTag = 87"
| "opcode_byte O_Await = 88"
| "opcode_byte O_Spawn = 89"
| "opcode_byte O_Yield = 90"
| "opcode_byte O_Try = 91"
| "opcode_byte O_Throw = 92"
| "opcode_byte O_PopTry = 93"
| "opcode_byte O_LoadModule = 94"
| "opcode_byte O_LoadModuleSlot = 95"
| "opcode_byte O_StoreModuleSlot = 96"
| "opcode_byte O_InvokeRuntimeStatic = 97"
| "opcode_byte O_AddImm = 98"
| "opcode_byte O_SubImm = 99"
| "opcode_byte O_BuildStr = 100"
| "opcode_byte O_LoadIntZero = 101"
| "opcode_byte O_LoadIntOne = 102"
| "opcode_byte O_LoadIntMinusOne = 103"
| "opcode_byte O_AddInt = 104"
| "opcode_byte O_SubInt = 105"
| "opcode_byte O_MulInt = 106"
| "opcode_byte O_DivInt = 107"
| "opcode_byte O_LtInt = 108"
| "opcode_byte O_GtInt = 109"
| "opcode_byte O_LteInt = 110"
| "opcode_byte O_GteInt = 111"
| "opcode_byte O_EqInt = 112"
| "opcode_byte O_NeqInt = 113"
| "opcode_byte O_AddFloat = 114"
| "opcode_byte O_SubFloat = 115"
| "opcode_byte O_MulFloat = 116"
| "opcode_byte O_DivFloat = 117"
| "opcode_byte O_ModFloat = 118"
| "opcode_byte O_PowFloat = 119"
| "opcode_byte O_LtFloat = 120"
| "opcode_byte O_GtFloat = 121"
| "opcode_byte O_LteFloat = 122"
| "opcode_byte O_GteFloat = 123"
| "opcode_byte O_EqFloat = 124"
| "opcode_byte O_NeqFloat = 125"
| "opcode_byte O_EqStr = 126"
| "opcode_byte O_NeqStr = 127"
| "opcode_byte O_ModInt = 128"
| "opcode_byte O_PowInt = 129"
| "opcode_byte O_Intrinsic = 130"
| "opcode_byte O_LoadStaticFn = 131"
| "opcode_byte O_CallSelf = 132"
| "opcode_byte O_Nop = 133"
| "opcode_byte O_ArrayGetIndex = 134"
| "opcode_byte O_ArraySetIndex = 135"
| "opcode_byte O_BytesGetIndex = 136"
| "opcode_byte O_BytesSetIndex = 137"
| "opcode_byte O_CallNativeOp = 138"
| "opcode_byte O_IntrinsicDirect = 139"
| "opcode_byte O_LoadNativeGlobalIdx = 140"
| "opcode_byte O_BuildMap = 141"
| "opcode_byte O_MapGetIndex = 142"
| "opcode_byte O_MapSetIndex = 143"
| "opcode_byte O_Convert = 144"
| "opcode_byte O_BytesLength = 145"

text \<open>The variants in discriminant order: what the transmute of a byte in range yields.\<close>

definition opcode_all :: "opcode list" where
  "opcode_all =
    [O_LoadConst, O_LoadNull, O_LoadTrue, O_LoadFalse, O_LoadInt, O_Move, O_LoadGlobal,
     O_StoreGlobal, O_DefineGlobal, O_DefineGlobalIdx, O_LoadGlobalIdx, O_StoreGlobalIdx,
     O_LoadUpvalue, O_StoreUpvalue, O_CloseUpvalue, O_Add, O_Sub, O_Mul, O_Div, O_Mod, O_Pow,
     O_Negate, O_Not, O_ToString, O_Eq, O_Neq, O_Lt, O_Lte, O_Gt, O_Gte, O_BitAnd, O_BitOr,
     O_BitXor, O_Shl, O_Shr, O_Ushr, O_Jump, O_JumpIfFalse, O_JumpIfTrue, O_Loop, O_Call,
     O_CallMethod, O_InvokeVirtual, O_CallSpread, O_Return, O_BuildArray, O_BuildTuple,
     O_BuildObject, O_BuildObjectWithShape, O_GetIndex, O_SetIndex, O_ObjectRest, O_ObjectKeys,
     O_ObjectMerge, O_GetProperty, O_GetPropertyMaybe, O_SetProperty, O_GetFixedField,
     O_SetFixedField, O_GetSuper, O_MakeClosure, O_MakeClass, O_Inherit, O_Method,
     O_DefineStatic, O_DefineGetter, O_DefineSetter, O_DefineStaticGetter,
     O_DefineStaticSetter, O_DeclareLayout, O_AllocInstance, O_BindMethod, O_Typeof,
     O_Instanceof, O_In, O_IsNull, O_IsArray, O_AssertNotNull, O_StrConcat, O_StrLength,
     O_StrSlice, O_ArrayLength, O_ArrayPush, O_ArrayPop, O_ArrayExtend, O_WrapSpread,
     O_MakeEnumVariant, O_GetEnumTag, O_Await, O_Spawn, O_Yield, O_Try, O_Throw, O_PopTry,
     O_LoadModule, O_LoadModuleSlot, O_StoreModuleSlot, O_InvokeRuntimeStatic, O_AddImm,
     O_SubImm, O_BuildStr, O_LoadIntZero, O_LoadIntOne, O_LoadIntMinusOne, O_AddInt, O_SubInt,
     O_MulInt, O_DivInt, O_LtInt, O_GtInt, O_LteInt, O_GteInt, O_EqInt, O_NeqInt, O_AddFloat,
     O_SubFloat, O_MulFloat, O_DivFloat, O_ModFloat, O_PowFloat, O_LtFloat, O_GtFloat,
     O_LteFloat, O_GteFloat, O_EqFloat, O_NeqFloat, O_EqStr, O_NeqStr, O_ModInt, O_PowInt,
     O_Intrinsic, O_LoadStaticFn, O_CallSelf, O_Nop, O_ArrayGetIndex, O_ArraySetIndex,
     O_BytesGetIndex, O_BytesSetIndex, O_CallNativeOp, O_IntrinsicDirect,
     O_LoadNativeGlobalIdx, O_BuildMap, O_MapGetIndex, O_MapSetIndex, O_Convert, O_BytesLength]"

definition opcode_from_u8 :: "u8 \<Rightarrow> opcode option" where
  "opcode_from_u8 v =
     (if unat v \<le> opcode_byte O_BytesLength then Some (opcode_all ! unat v) else None)"

definition opcode_from_u16 :: "u16 \<Rightarrow> opcode option" where
  "opcode_from_u16 v = opcode_from_u8 (lo_byte v)"

definition opcode_as_u8 :: "opcode \<Rightarrow> u8" where
  "opcode_as_u8 op = word_of_nat (opcode_byte op)"

lemma opcode_all_nth: "opcode_byte c < 146 \<and> opcode_all ! opcode_byte c = c"
  by (cases c) (simp_all add: opcode_all_def)

interpretation opc: byte_enum opcode_as_u8 opcode_from_u8 146
proof
  fix c b
  have "opcode_byte c < 256" using opcode_all_nth [of c] by simp
  then show "opcode_from_u8 (opcode_as_u8 c) = Some c"
    using opcode_all_nth [of c]
    by (simp add: opcode_from_u8_def opcode_as_u8_def unsigned_of_nat take_bit_nat_eq_self)
  show "opcode_from_u8 b = None \<longleftrightarrow> 146 \<le> unat b"
    by (auto simp: opcode_from_u8_def)
qed

lemma opcode_byte_inj: "opcode_byte a = opcode_byte b \<longleftrightarrow> a = b"
  using opcode_all_nth [of a] opcode_all_nth [of b] by metis

instantiation opcode :: equal
begin

definition equal_opcode :: "opcode \<Rightarrow> opcode \<Rightarrow> bool" where
  "equal_opcode a b \<longleftrightarrow> opcode_byte a = opcode_byte b"

instance
  by standard (simp add: equal_opcode_def opcode_byte_inj)

end

section \<open>Rendering tables\<close>

definition infix_sym :: "opcode \<Rightarrow> string option" where
  "infix_sym op =
     (case op of
        O_Add \<Rightarrow> Some ''+''
      | O_AddInt \<Rightarrow> Some ''+''
      | O_AddFloat \<Rightarrow> Some ''+''
      | O_AddImm \<Rightarrow> Some ''+''
      | O_StrConcat \<Rightarrow> Some ''+''
      | O_Sub \<Rightarrow> Some ''-''
      | O_SubInt \<Rightarrow> Some ''-''
      | O_SubFloat \<Rightarrow> Some ''-''
      | O_SubImm \<Rightarrow> Some ''-''
      | O_Mul \<Rightarrow> Some ''*''
      | O_MulInt \<Rightarrow> Some ''*''
      | O_MulFloat \<Rightarrow> Some ''*''
      | O_Div \<Rightarrow> Some ''/''
      | O_DivInt \<Rightarrow> Some ''/''
      | O_DivFloat \<Rightarrow> Some ''/''
      | O_Mod \<Rightarrow> Some ''%''
      | O_ModInt \<Rightarrow> Some ''%''
      | O_ModFloat \<Rightarrow> Some ''%''
      | O_Pow \<Rightarrow> Some ''**''
      | O_PowInt \<Rightarrow> Some ''**''
      | O_PowFloat \<Rightarrow> Some ''**''
      | O_BitAnd \<Rightarrow> Some ''&''
      | O_BitOr \<Rightarrow> Some ''|''
      | O_BitXor \<Rightarrow> Some ''^''
      | O_Shl \<Rightarrow> Some ''<<''
      | O_Shr \<Rightarrow> Some ''>>''
      | O_Ushr \<Rightarrow> Some ''>>>''
      | O_Eq \<Rightarrow> Some ''==''
      | O_EqInt \<Rightarrow> Some ''==''
      | O_EqFloat \<Rightarrow> Some ''==''
      | O_EqStr \<Rightarrow> Some ''==''
      | O_Neq \<Rightarrow> Some ''!=''
      | O_NeqInt \<Rightarrow> Some ''!=''
      | O_NeqFloat \<Rightarrow> Some ''!=''
      | O_NeqStr \<Rightarrow> Some ''!=''
      | O_Lt \<Rightarrow> Some ''<''
      | O_LtInt \<Rightarrow> Some ''<''
      | O_LtFloat \<Rightarrow> Some ''<''
      | O_Lte \<Rightarrow> Some ''<=''
      | O_LteInt \<Rightarrow> Some ''<=''
      | O_LteFloat \<Rightarrow> Some ''<=''
      | O_Gt \<Rightarrow> Some ''>''
      | O_GtInt \<Rightarrow> Some ''>''
      | O_GtFloat \<Rightarrow> Some ''>''
      | O_Gte \<Rightarrow> Some ''>=''
      | O_GteInt \<Rightarrow> Some ''>=''
      | O_GteFloat \<Rightarrow> Some ''>=''
      | O_In \<Rightarrow> Some ''in''
      | O_Instanceof \<Rightarrow> Some ''instanceof''
      | _ \<Rightarrow> None)"

definition implied :: "opcode \<Rightarrow> string option" where
  "implied op =
     (case op of
        O_LoadNull \<Rightarrow> Some ''null''
      | O_LoadTrue \<Rightarrow> Some ''true''
      | O_LoadFalse \<Rightarrow> Some ''false''
      | O_LoadIntZero \<Rightarrow> Some ''0''
      | O_LoadIntOne \<Rightarrow> Some ''1''
      | O_LoadIntMinusOne \<Rightarrow> Some ''-1''
      | _ \<Rightarrow> None)"

definition prefix_sym :: "opcode \<Rightarrow> string option" where
  "prefix_sym op =
     (case op of
        O_Negate \<Rightarrow> Some ''-''
      | O_Not \<Rightarrow> Some ''!''
      | _ \<Rightarrow> None)"

end
