(* ===== verification/Pool.thy ===== *)
theory Pool
  imports Class_Layout Opcode
begin

text \<open>
  Constant pool entries, \<open>crates/varn-types/src/chunk/literal.rs\<close> and \<open>pool.rs\<close>. Equality in
  HOL is the equality the code defines: floats by bits, decimals by digits and scale, and
  functions by the identity of the shared prototype, which is represented by its address.
\<close>

datatype literal =
    LitNull
  | LitBool bool
  | LitInt i64
  | LitFloat f64
  | LitStr string
  | LitBigInt int
  | LitDecimal "int \<times> int"
  | LitChar nat

record variant_def =
  enum_name :: string
  variant_name :: string
  variant_tag :: i64
  variant_fields :: "string list"

definition field_index :: "variant_def \<Rightarrow> string \<Rightarrow> nat option" where
  "field_index d name = position (\<lambda>f. f = name) (variant_fields d)"

type_synonym proto_ref = nat

datatype pool_entry =
    PoolLiteral literal
  | PoolFunction proto_ref
  | PoolShape "string list"
  | PoolLayout class_layout
  | PoolVariant variant_def

fun pool_as_str :: "pool_entry \<Rightarrow> string option" where
  "pool_as_str (PoolLiteral (LitStr s)) = Some s"
| "pool_as_str _ = None"

text \<open>
  \<open>PartialEq for Literal\<close> and \<open>PartialEq for PoolEntry\<close> as they are written, and the proof that
  they are equality of the representation, so that the pool's map from entries to indices
  identifies exactly equal entries.
\<close>

fun literal_eq :: "literal \<Rightarrow> literal \<Rightarrow> bool" where
  "literal_eq LitNull LitNull = True"
| "literal_eq (LitBool a) (LitBool b) = (a = b)"
| "literal_eq (LitInt a) (LitInt b) = (a = b)"
| "literal_eq (LitFloat a) (LitFloat b) = (a = b)"
| "literal_eq (LitStr a) (LitStr b) = (a = b)"
| "literal_eq (LitBigInt a) (LitBigInt b) = (a = b)"
| "literal_eq (LitDecimal a) (LitDecimal b) = (fst a = fst b \<and> snd a = snd b)"
| "literal_eq (LitChar a) (LitChar b) = (a = b)"
| "literal_eq _ _ = False"

fun pool_entry_eq :: "pool_entry \<Rightarrow> pool_entry \<Rightarrow> bool" where
  "pool_entry_eq (PoolLiteral l1) (PoolLiteral l2) = literal_eq l1 l2"
| "pool_entry_eq (PoolShape k1) (PoolShape k2) = (k1 = k2)"
| "pool_entry_eq (PoolLayout l1) (PoolLayout l2) = (l1 = l2)"
| "pool_entry_eq (PoolFunction f1) (PoolFunction f2) = (f1 = f2)"
| "pool_entry_eq (PoolVariant d1) (PoolVariant d2) = (d1 = d2)"
| "pool_entry_eq _ _ = False"

lemma literal_eq_iff: "literal_eq a b \<longleftrightarrow> a = b"
  by (cases a; cases b) (auto simp: prod_eq_iff)

lemma pool_entry_eq_iff: "pool_entry_eq a b \<longleftrightarrow> a = b"
  by (cases a; cases b) (auto simp: literal_eq_iff)

lemma field_index_Some:
  "field_index d n = Some i \<Longrightarrow> i < length (variant_fields d) \<and> variant_fields d ! i = n"
  unfolding field_index_def using position_Some by fastforce

end
