(* ===== verification/Bytecode.thy ===== *)
theory Bytecode
  imports Pool
begin

text \<open>
  Instruction layouts, \<open>crates/varn-types/src/bytecode/\<close>: where the operands of every
  instruction are (\<open>operand.rs\<close>, \<open>layout.rs\<close>), what decoding an instruction reports
  (\<open>mod.rs\<close>) and the renaming of the registers of a whole function (\<open>remap.rs\<close>), which the
  register allocator uses. The theorems show that no operand leaves its instruction or names
  the opcode byte, that an instruction writes at most one register, and that renaming changes
  the register bytes and nothing else.
\<close>

section \<open>Operands\<close>

datatype half = Hi | Lo

record byte_loc =
  bl_word :: nat
  bl_half :: half

type_synonym code = "u16 list"

text \<open>Reading past the end of the code yields zero.\<close>

definition code_word :: "code \<Rightarrow> nat \<Rightarrow> u16" where
  "code_word code i = (case list_get code i of Some w \<Rightarrow> w | None \<Rightarrow> 0)"

definition byte_read :: "byte_loc \<Rightarrow> code \<Rightarrow> nat \<Rightarrow> u8" where
  "byte_read b code offset =
     (let w = code_word code (offset + bl_word b)
      in case bl_half b of Hi \<Rightarrow> ucast (drop_bit 8 w) | Lo \<Rightarrow> ucast w)"

text \<open>Writing out of range panics; \<open>remap_registers\<close> filters those locations out first.\<close>

definition byte_write :: "byte_loc \<Rightarrow> code \<Rightarrow> nat \<Rightarrow> u8 \<Rightarrow> code" where
  "byte_write b code offset v =
     (let i = offset + bl_word b; w = code ! i
      in code[i := (case bl_half b of
                      Hi \<Rightarrow> (w AND 0x00FF) OR push_bit 8 (ucast v)
                    | Lo \<Rightarrow> (w AND 0xFF00) OR ucast v)])"

datatype at_loc = AtByte byte_loc | AtWord nat

primrec at_read :: "at_loc \<Rightarrow> code \<Rightarrow> nat \<Rightarrow> u16" where
  "at_read (AtByte b) code offset = ucast (byte_read b code offset)"
| "at_read (AtWord w) code offset = code_word code (offset + w)"

datatype access = AccRead | AccWrite | AccReadWrite
datatype run_kind = CallArgs | Values
datatype const_kind = KValue | KName | KFunc | KShape | KLayout | KVariant | KModule | KNativeOp
datatype imm_kind =
    ImmInt | ImmCount | ImmUpvalue | ImmCallSite | ImmGlobalSlot | ImmNativeGlobalSlot
  | ImmModuleSlot | ImmFieldSlot | ImmFieldOffset | ImmTag | ImmConv | ImmIntrinsic | ImmFlag

datatype operand =
    OReg byte_loc access
  | ORun byte_loc nat run_kind
  | OFixed u8 access
  | OConst nat const_kind
  | OImm at_loc imm_kind
  | OJump nat bool

record layout =
  l_op :: opcode
  l_len :: nat
  l_operands :: "operand list"

definition opaque :: "layout \<Rightarrow> bool" where
  "opaque l \<longleftrightarrow> l_op l = O_Jump \<or> l_op l = O_Loop"

definition runs :: "layout \<Rightarrow> code \<Rightarrow> nat \<Rightarrow> (u8 \<times> nat \<times> run_kind) list" where
  "runs l code offset =
     List.map_filter (\<lambda>opd. case opd of
        ORun start count kind \<Rightarrow> Some (byte_read start code offset, count, kind)
      | _ \<Rightarrow> None) (l_operands l)"

definition read_registers :: "layout \<Rightarrow> code \<Rightarrow> nat \<Rightarrow> u8 list" where
  "read_registers l code offset =
     List.map_filter (\<lambda>opd. case opd of
        OReg at acc \<Rightarrow> if acc \<noteq> AccWrite then Some (byte_read at code offset) else None
      | _ \<Rightarrow> None) (l_operands l)"

text \<open>
  \<open>find_map\<close> over the operands; \<open>wrapping_sub\<close> on \<open>usize\<close> is subtraction modulo \<open>2^64\<close>.
\<close>

fun jump_target_of :: "operand list \<Rightarrow> nat \<Rightarrow> code \<Rightarrow> nat \<Rightarrow> nat option" where
  "jump_target_of [] len code offset = None"
| "jump_target_of (OJump word backward # rest) len code offset =
     (let hi_word = unat (at_read (AtWord word) code offset);
          lo_word = unat (at_read (AtWord (word + 1)) code offset);
          disp = hi_word * 2 ^ 16 + lo_word;
          fin = offset + len
      in Some (if backward then (fin + 2 ^ 64 - disp) mod 2 ^ 64 else fin + disp))"
| "jump_target_of (_ # rest) len code offset = jump_target_of rest len code offset"

definition jump_target :: "layout \<Rightarrow> code \<Rightarrow> nat \<Rightarrow> nat option" where
  "jump_target l code offset = jump_target_of (l_operands l) (l_len l) code offset"

section \<open>The layout of every instruction\<close>

definition at_hi :: "nat \<Rightarrow> byte_loc" where "at_hi word = \<lparr>bl_word = word, bl_half = Hi\<rparr>"
definition at_lo :: "nat \<Rightarrow> byte_loc" where "at_lo word = \<lparr>bl_word = word, bl_half = Lo\<rparr>"
definition rd :: "byte_loc \<Rightarrow> operand" where "rd at = OReg at AccRead"
definition wr :: "byte_loc \<Rightarrow> operand" where "wr at = OReg at AccWrite"
definition kst :: "nat \<Rightarrow> const_kind \<Rightarrow> operand" where "kst word kind = OConst word kind"
definition imm_byte :: "byte_loc \<Rightarrow> imm_kind \<Rightarrow> operand" where "imm_byte at kind = OImm (AtByte at) kind"
definition imm_word :: "nat \<Rightarrow> imm_kind \<Rightarrow> operand" where "imm_word word kind = OImm (AtWord word) kind"
definition reg_run :: "byte_loc \<Rightarrow> nat \<Rightarrow> run_kind \<Rightarrow> operand" where
  "reg_run start count kind = ORun start count kind"
definition jump_op :: "nat \<Rightarrow> bool \<Rightarrow> operand" where "jump_op word backward = OJump word backward"
definition fixed_field :: operand where "fixed_field = imm_word 2 ImmFieldSlot"
definition field_offset :: operand where "field_offset = imm_word 3 ImmFieldOffset"
definition field_tag :: operand where "field_tag = imm_byte (at_lo 1) ImmTag"

lemmas [bytecode_defs] = at_hi_def at_lo_def rd_def wr_def kst_def imm_byte_def imm_word_def
  reg_run_def jump_op_def fixed_field_def field_offset_def field_tag_def

definition shape_fields :: "pool_entry list \<Rightarrow> nat \<Rightarrow> nat" where
  "shape_fields constants i =
     (case list_get constants i of Some (PoolShape keys) \<Rightarrow> length keys | _ \<Rightarrow> 0)"

text \<open>
  The match of \<open>layout\<close>: the length and the operands of an instruction, given the readers of
  its bytes and words.
\<close>

definition layout_body ::
  "opcode \<Rightarrow> (byte_loc \<Rightarrow> nat) \<Rightarrow> (nat \<Rightarrow> nat) \<Rightarrow> pool_entry list \<Rightarrow> nat \<times> operand list" where
  "layout_body op byte word constants =
     (case op of
        O_PopTry \<Rightarrow> (1, [])
      | O_Nop \<Rightarrow> (1, [])
      | O_LoadNull \<Rightarrow> (1, [wr (at_hi 0)])
      | O_LoadTrue \<Rightarrow> (1, [wr (at_hi 0)])
      | O_LoadFalse \<Rightarrow> (1, [wr (at_hi 0)])
      | O_LoadIntZero \<Rightarrow> (1, [wr (at_hi 0)])
      | O_LoadIntOne \<Rightarrow> (1, [wr (at_hi 0)])
      | O_LoadIntMinusOne \<Rightarrow> (1, [wr (at_hi 0)])
      | O_LoadInt \<Rightarrow> (2, [wr (at_hi 0), imm_word 1 ImmInt])
      | O_LoadConst \<Rightarrow> (2, [wr (at_hi 0), kst 1 KValue])
      | O_LoadStaticFn \<Rightarrow> (2, [wr (at_hi 0), kst 1 KFunc])
      | O_LoadGlobal \<Rightarrow> (2, [wr (at_hi 0), kst 1 KName])
      | O_LoadGlobalIdx \<Rightarrow> (2, [wr (at_hi 0), imm_word 1 ImmGlobalSlot])
      | O_LoadNativeGlobalIdx \<Rightarrow> (2, [wr (at_hi 0), imm_word 1 ImmNativeGlobalSlot])
      | O_StoreGlobal \<Rightarrow> (3, [rd (at_hi 1), kst 2 KName])
      | O_DefineGlobal \<Rightarrow> (3, [rd (at_hi 1), kst 2 KName])
      | O_StoreGlobalIdx \<Rightarrow> (3, [rd (at_hi 1), imm_word 2 ImmGlobalSlot])
      | O_DefineGlobalIdx \<Rightarrow> (3, [rd (at_hi 1), imm_word 2 ImmGlobalSlot])
      | O_LoadUpvalue \<Rightarrow> (2, [wr (at_hi 1), imm_byte (at_lo 1) ImmUpvalue])
      | O_StoreUpvalue \<Rightarrow> (2, [imm_byte (at_hi 1) ImmUpvalue, rd (at_lo 1)])
      | O_CloseUpvalue \<Rightarrow> (2, [rd (at_hi 1)])
      | O_LoadModule \<Rightarrow> (2, [wr (at_hi 0), kst 1 KModule])
      | O_LoadModuleSlot \<Rightarrow> (3, [wr (at_hi 0), rd (at_hi 1), imm_word 2 ImmModuleSlot])
      | O_StoreModuleSlot \<Rightarrow> (2, [rd (at_hi 0), imm_word 1 ImmModuleSlot])
      | O_Move \<Rightarrow> (2, [wr (at_hi 0), rd (at_hi 1)])
      | O_Negate \<Rightarrow> (2, [wr (at_hi 0), rd (at_hi 1)])
      | O_Not \<Rightarrow> (2, [wr (at_hi 0), rd (at_hi 1)])
      | O_ToString \<Rightarrow> (2, [wr (at_hi 0), rd (at_hi 1)])
      | O_IsNull \<Rightarrow> (2, [wr (at_hi 0), rd (at_hi 1)])
      | O_IsArray \<Rightarrow> (2, [wr (at_hi 0), rd (at_hi 1)])
      | O_Typeof \<Rightarrow> (2, [wr (at_hi 0), rd (at_hi 1)])
      | O_WrapSpread \<Rightarrow> (2, [wr (at_hi 0), rd (at_hi 1)])
      | O_ArrayLength \<Rightarrow> (2, [wr (at_hi 0), rd (at_hi 1)])
      | O_ArrayPop \<Rightarrow> (2, [wr (at_hi 0), rd (at_hi 1)])
      | O_StrLength \<Rightarrow> (2, [wr (at_hi 0), rd (at_hi 1)])
      | O_BytesLength \<Rightarrow> (2, [wr (at_hi 0), rd (at_hi 1)])
      | O_GetEnumTag \<Rightarrow> (2, [wr (at_hi 0), rd (at_hi 1)])
      | O_Await \<Rightarrow> (2, [wr (at_hi 0), rd (at_hi 1)])
      | O_Spawn \<Rightarrow> (2, [wr (at_hi 0), rd (at_hi 1)])
      | O_ObjectKeys \<Rightarrow> (2, [wr (at_hi 0), rd (at_hi 1)])
      | O_Convert \<Rightarrow> (2, [wr (at_hi 0), rd (at_hi 1), imm_byte (at_lo 1) ImmConv])
      | O_AddImm \<Rightarrow> (2, [wr (at_hi 0), rd (at_hi 1), imm_byte (at_lo 1) ImmInt])
      | O_SubImm \<Rightarrow> (2, [wr (at_hi 0), rd (at_hi 1), imm_byte (at_lo 1) ImmInt])
      | O_IntrinsicDirect \<Rightarrow>
          (2, [wr (at_hi 0), imm_byte (at_lo 1) ImmIntrinsic, rd (at_hi 1)])
      | O_Add \<Rightarrow> (2, [wr (at_hi 0), rd (at_hi 1), rd (at_lo 1)])
      | O_Sub \<Rightarrow> (2, [wr (at_hi 0), rd (at_hi 1), rd (at_lo 1)])
      | O_Mul \<Rightarrow> (2, [wr (at_hi 0), rd (at_hi 1), rd (at_lo 1)])
      | O_Div \<Rightarrow> (2, [wr (at_hi 0), rd (at_hi 1), rd (at_lo 1)])
      | O_Mod \<Rightarrow> (2, [wr (at_hi 0), rd (at_hi 1), rd (at_lo 1)])
      | O_Pow \<Rightarrow> (2, [wr (at_hi 0), rd (at_hi 1), rd (at_lo 1)])
      | O_BitAnd \<Rightarrow> (2, [wr (at_hi 0), rd (at_hi 1), rd (at_lo 1)])
      | O_BitOr \<Rightarrow> (2, [wr (at_hi 0), rd (at_hi 1), rd (at_lo 1)])
      | O_BitXor \<Rightarrow> (2, [wr (at_hi 0), rd (at_hi 1), rd (at_lo 1)])
      | O_Shl \<Rightarrow> (2, [wr (at_hi 0), rd (at_hi 1), rd (at_lo 1)])
      | O_Shr \<Rightarrow> (2, [wr (at_hi 0), rd (at_hi 1), rd (at_lo 1)])
      | O_Ushr \<Rightarrow> (2, [wr (at_hi 0), rd (at_hi 1), rd (at_lo 1)])
      | O_Eq \<Rightarrow> (2, [wr (at_hi 0), rd (at_hi 1), rd (at_lo 1)])
      | O_Neq \<Rightarrow> (2, [wr (at_hi 0), rd (at_hi 1), rd (at_lo 1)])
      | O_Lt \<Rightarrow> (2, [wr (at_hi 0), rd (at_hi 1), rd (at_lo 1)])
      | O_Lte \<Rightarrow> (2, [wr (at_hi 0), rd (at_hi 1), rd (at_lo 1)])
      | O_Gt \<Rightarrow> (2, [wr (at_hi 0), rd (at_hi 1), rd (at_lo 1)])
      | O_Gte \<Rightarrow> (2, [wr (at_hi 0), rd (at_hi 1), rd (at_lo 1)])
      | O_Instanceof \<Rightarrow> (2, [wr (at_hi 0), rd (at_hi 1), rd (at_lo 1)])
      | O_In \<Rightarrow> (2, [wr (at_hi 0), rd (at_hi 1), rd (at_lo 1)])
      | O_StrConcat \<Rightarrow> (2, [wr (at_hi 0), rd (at_hi 1), rd (at_lo 1)])
      | O_StrSlice \<Rightarrow> (2, [wr (at_hi 0), rd (at_hi 1), rd (at_lo 1)])
      | O_AddInt \<Rightarrow> (2, [wr (at_hi 0), rd (at_hi 1), rd (at_lo 1)])
      | O_SubInt \<Rightarrow> (2, [wr (at_hi 0), rd (at_hi 1), rd (at_lo 1)])
      | O_MulInt \<Rightarrow> (2, [wr (at_hi 0), rd (at_hi 1), rd (at_lo 1)])
      | O_DivInt \<Rightarrow> (2, [wr (at_hi 0), rd (at_hi 1), rd (at_lo 1)])
      | O_ModInt \<Rightarrow> (2, [wr (at_hi 0), rd (at_hi 1), rd (at_lo 1)])
      | O_PowInt \<Rightarrow> (2, [wr (at_hi 0), rd (at_hi 1), rd (at_lo 1)])
      | O_LtInt \<Rightarrow> (2, [wr (at_hi 0), rd (at_hi 1), rd (at_lo 1)])
      | O_GtInt \<Rightarrow> (2, [wr (at_hi 0), rd (at_hi 1), rd (at_lo 1)])
      | O_LteInt \<Rightarrow> (2, [wr (at_hi 0), rd (at_hi 1), rd (at_lo 1)])
      | O_GteInt \<Rightarrow> (2, [wr (at_hi 0), rd (at_hi 1), rd (at_lo 1)])
      | O_EqInt \<Rightarrow> (2, [wr (at_hi 0), rd (at_hi 1), rd (at_lo 1)])
      | O_NeqInt \<Rightarrow> (2, [wr (at_hi 0), rd (at_hi 1), rd (at_lo 1)])
      | O_AddFloat \<Rightarrow> (2, [wr (at_hi 0), rd (at_hi 1), rd (at_lo 1)])
      | O_SubFloat \<Rightarrow> (2, [wr (at_hi 0), rd (at_hi 1), rd (at_lo 1)])
      | O_MulFloat \<Rightarrow> (2, [wr (at_hi 0), rd (at_hi 1), rd (at_lo 1)])
      | O_DivFloat \<Rightarrow> (2, [wr (at_hi 0), rd (at_hi 1), rd (at_lo 1)])
      | O_ModFloat \<Rightarrow> (2, [wr (at_hi 0), rd (at_hi 1), rd (at_lo 1)])
      | O_PowFloat \<Rightarrow> (2, [wr (at_hi 0), rd (at_hi 1), rd (at_lo 1)])
      | O_LtFloat \<Rightarrow> (2, [wr (at_hi 0), rd (at_hi 1), rd (at_lo 1)])
      | O_GtFloat \<Rightarrow> (2, [wr (at_hi 0), rd (at_hi 1), rd (at_lo 1)])
      | O_LteFloat \<Rightarrow> (2, [wr (at_hi 0), rd (at_hi 1), rd (at_lo 1)])
      | O_GteFloat \<Rightarrow> (2, [wr (at_hi 0), rd (at_hi 1), rd (at_lo 1)])
      | O_EqFloat \<Rightarrow> (2, [wr (at_hi 0), rd (at_hi 1), rd (at_lo 1)])
      | O_NeqFloat \<Rightarrow> (2, [wr (at_hi 0), rd (at_hi 1), rd (at_lo 1)])
      | O_EqStr \<Rightarrow> (2, [wr (at_hi 0), rd (at_hi 1), rd (at_lo 1)])
      | O_NeqStr \<Rightarrow> (2, [wr (at_hi 0), rd (at_hi 1), rd (at_lo 1)])
      | O_GetIndex \<Rightarrow> (2, [wr (at_hi 0), rd (at_hi 1), rd (at_lo 1)])
      | O_ArrayGetIndex \<Rightarrow> (2, [wr (at_hi 0), rd (at_hi 1), rd (at_lo 1)])
      | O_BytesGetIndex \<Rightarrow> (2, [wr (at_hi 0), rd (at_hi 1), rd (at_lo 1)])
      | O_MapGetIndex \<Rightarrow> (2, [wr (at_hi 0), rd (at_hi 1), rd (at_lo 1)])
      | O_SetIndex \<Rightarrow> (2, [rd (at_hi 0), rd (at_hi 1), rd (at_lo 1)])
      | O_ArraySetIndex \<Rightarrow> (2, [rd (at_hi 0), rd (at_hi 1), rd (at_lo 1)])
      | O_BytesSetIndex \<Rightarrow> (2, [rd (at_hi 0), rd (at_hi 1), rd (at_lo 1)])
      | O_MapSetIndex \<Rightarrow> (2, [rd (at_hi 0), rd (at_hi 1), rd (at_lo 1)])
      | O_ArrayPush \<Rightarrow> (2, [rd (at_hi 0), rd (at_hi 1)])
      | O_ArrayExtend \<Rightarrow> (2, [rd (at_hi 0), rd (at_hi 1)])
      | O_ObjectMerge \<Rightarrow> (2, [OReg (at_hi 0) AccReadWrite, rd (at_hi 1)])
      | O_AssertNotNull \<Rightarrow> (2, [rd (at_hi 1)])
      | O_Throw \<Rightarrow> (2, [rd (at_hi 1)])
      | O_Return \<Rightarrow> (2, [rd (at_lo 1)])
      | O_Yield \<Rightarrow> (2, [wr (at_hi 1), rd (at_lo 1)])
      | O_Jump \<Rightarrow> (3, [jump_op 1 False])
      | O_Loop \<Rightarrow> (3, [jump_op 1 True])
      | O_JumpIfFalse \<Rightarrow> (3, [rd (at_hi 0), jump_op 1 False])
      | O_JumpIfTrue \<Rightarrow> (3, [rd (at_hi 0), jump_op 1 False])
      | O_Try \<Rightarrow> (4, [wr (at_hi 1), jump_op 2 False])
      | O_Call \<Rightarrow>
          (3, [wr (at_hi 1), rd (at_lo 1), reg_run (at_lo 2) (byte (at_hi 2)) CallArgs])
      | O_CallSpread \<Rightarrow>
          (3, [wr (at_hi 1), rd (at_lo 1), reg_run (at_lo 2) (byte (at_hi 2)) CallArgs])
      | O_CallSelf \<Rightarrow> (3, [wr (at_hi 1), reg_run (at_lo 2) (byte (at_hi 2)) CallArgs])
      | O_CallMethod \<Rightarrow>
          (4, [wr (at_hi 1), rd (at_lo 1), kst 2 KName, reg_run (at_lo 3) (byte (at_hi 3)) CallArgs, imm_byte (at_hi 0) ImmCallSite])
      | O_InvokeVirtual \<Rightarrow>
          (4, [wr (at_hi 1), rd (at_lo 1), kst 2 KName, reg_run (at_lo 3) (byte (at_hi 3)) CallArgs, imm_byte (at_hi 0) ImmCallSite])
      | O_Intrinsic \<Rightarrow>
          (2, [wr (at_hi 0), imm_byte (at_hi 1) ImmIntrinsic, reg_run (at_hi 0) (byte (at_lo 1)) CallArgs])
      | O_CallNativeOp \<Rightarrow>
          (3, [wr (at_hi 0), kst 1 KNativeOp, reg_run (at_hi 0) (word 2) CallArgs])
      | O_InvokeRuntimeStatic \<Rightarrow>
          (5, [wr (at_hi 1), kst 2 KName, imm_byte (at_hi 3) ImmCount, rd (at_lo 3), rd (at_hi 4), imm_byte (at_lo 4) ImmFlag])
      | O_GetProperty \<Rightarrow>
          (3, [wr (at_hi 0), rd (at_hi 1), kst 2 KName, imm_byte (at_lo 1) ImmCallSite])
      | O_GetPropertyMaybe \<Rightarrow> (3, [wr (at_hi 0), rd (at_hi 1), kst 2 KName])
      | O_SetProperty \<Rightarrow>
          (3, [rd (at_hi 0), rd (at_hi 1), kst 2 KName, imm_byte (at_lo 1) ImmCallSite])
      | O_GetFixedField \<Rightarrow>
          (4, [wr (at_hi 0), rd (at_hi 1), fixed_field, field_offset, field_tag])
      | O_SetFixedField \<Rightarrow>
          (4, [rd (at_hi 0), rd (at_hi 1), fixed_field, field_offset, field_tag])
      | O_GetSuper \<Rightarrow> (2, [wr (at_hi 0), OFixed 0 AccRead, kst 1 KName])
      | O_BindMethod \<Rightarrow> (3, [wr (at_hi 1), rd (at_lo 1), kst 2 KName])
      | O_MakeClass \<Rightarrow> (3, [wr (at_hi 0), kst 2 KName, rd (at_hi 1)])
      | O_Inherit \<Rightarrow> (2, [rd (at_hi 1), rd (at_lo 1)])
      | O_Method \<Rightarrow> (3, [rd (at_hi 1), kst 2 KName, rd (at_lo 1)])
      | O_DefineStatic \<Rightarrow> (3, [rd (at_hi 1), kst 2 KName, rd (at_lo 1)])
      | O_DefineGetter \<Rightarrow> (3, [rd (at_hi 1), kst 2 KName, rd (at_lo 1)])
      | O_DefineSetter \<Rightarrow> (3, [rd (at_hi 1), kst 2 KName, rd (at_lo 1)])
      | O_DefineStaticGetter \<Rightarrow> (3, [rd (at_hi 1), kst 2 KName, rd (at_lo 1)])
      | O_DefineStaticSetter \<Rightarrow> (3, [rd (at_hi 1), kst 2 KName, rd (at_lo 1)])
      | O_DeclareLayout \<Rightarrow> (3, [rd (at_hi 1), kst 2 KLayout])
      | O_AllocInstance \<Rightarrow> (2, [wr (at_hi 0), rd (at_hi 1)])
      | O_MakeEnumVariant \<Rightarrow> (3, [wr (at_hi 1), kst 2 KVariant])
      | O_MakeClosure \<Rightarrow> (let captures = byte (at_lo 1)
           in (3 + captures,
               [wr (at_hi 1), kst 2 KFunc, imm_byte (at_lo 1) ImmCount] @
               map (\<lambda>i. if byte (at_hi (3 + i)) = 1 then rd (at_lo (3 + i))
                         else imm_byte (at_lo (3 + i)) ImmUpvalue) [0..<captures]))
      | O_BuildArray \<Rightarrow>
          (3, [wr (at_hi 1), reg_run (at_lo 1) (byte (at_hi 2)) Values, imm_byte (at_hi 2) ImmCount])
      | O_BuildTuple \<Rightarrow>
          (3, [wr (at_hi 1), reg_run (at_lo 1) (byte (at_hi 2)) Values, imm_byte (at_hi 2) ImmCount])
      | O_BuildMap \<Rightarrow>
          (3, [wr (at_hi 1), reg_run (at_lo 1) (2 * byte (at_hi 2)) Values, imm_byte (at_hi 2) ImmCount])
      | O_BuildObjectWithShape \<Rightarrow>
          (3, [wr (at_hi 1), kst 2 KShape, reg_run (at_lo 1) (shape_fields constants (word 2)) Values])
      | O_BuildObject \<Rightarrow> (let pairs = byte (at_lo 1)
           in (2 + 2 * pairs,
               [wr (at_hi 1), imm_byte (at_lo 1) ImmCount] @
               concat (map (\<lambda>i. [kst (2 + 2 * i) KName, rd (at_hi (3 + 2 * i))]) [0..<pairs])))
      | O_ObjectRest \<Rightarrow> (let skipped = byte (at_hi 2)
           in (3 + skipped,
               [wr (at_hi 1), rd (at_lo 1), imm_byte (at_hi 2) ImmCount] @
               map (\<lambda>i. kst (3 + i) KName) [0..<skipped]))
      | O_BuildStr \<Rightarrow> (let parts = byte (at_hi 1)
           in (2 + parts,
               [wr (at_hi 0), imm_byte (at_hi 1) ImmCount] @ map (\<lambda>i. rd (at_hi (2 + i))) [0..<parts])))"

definition layout_at :: "code \<Rightarrow> nat \<Rightarrow> pool_entry list \<Rightarrow> layout option" where
  "layout_at code offset constants =
     (case list_get code offset of
        None \<Rightarrow> None
      | Some first \<Rightarrow>
          (case opcode_from_u16 first of
             None \<Rightarrow> None
           | Some op \<Rightarrow>
               (let (len, operands) =
                      layout_body op (\<lambda>b. unat (byte_read b code offset))
                        (\<lambda>i. unat (at_read (AtWord i) code offset)) constants
                in Some \<lparr>l_op = op, l_len = len, l_operands = operands\<rparr>)))"

section \<open>Decoding\<close>

record instr_info =
  ii_len :: nat
  ii_def :: "u8 option"
  ii_uses :: "u8 list"
  ii_call_args :: "(u8 \<times> u8) option"
  ii_opaque :: bool

fun decode_operand :: "code \<Rightarrow> nat \<Rightarrow> instr_info \<Rightarrow> operand \<Rightarrow> instr_info" where
  "decode_operand code offset info (OReg at acc) =
     (let reg = byte_read at code offset;
          info = (if acc \<noteq> AccWrite then info\<lparr>ii_uses := ii_uses info @ [reg]\<rparr> else info)
      in if acc \<noteq> AccRead then info\<lparr>ii_def := Some reg\<rparr> else info)"
| "decode_operand code offset info (ORun start count kind) =
     (let s = byte_read start code offset;
          info = info\<lparr>ii_uses := ii_uses info @ map (\<lambda>i. s + word_of_nat i) [0..<count]\<rparr>
      in if kind = CallArgs then info\<lparr>ii_call_args := Some (s, word_of_nat count)\<rparr> else info)"
| "decode_operand code offset info (OFixed reg acc) =
     (if acc \<noteq> AccWrite then info\<lparr>ii_uses := ii_uses info @ [reg]\<rparr> else info)"
| "decode_operand code offset info (OConst _ _) = info"
| "decode_operand code offset info (OImm _ _) = info"
| "decode_operand code offset info (OJump _ _) = info"

definition decode :: "code \<Rightarrow> nat \<Rightarrow> pool_entry list \<Rightarrow> instr_info option" where
  "decode code offset constants =
     (case layout_at code offset constants of
        None \<Rightarrow> None
      | Some l \<Rightarrow>
          Some (foldl (decode_operand code offset)
                 \<lparr>ii_len = l_len l, ii_def = None, ii_uses = [], ii_call_args = None,
                  ii_opaque = opaque l\<rparr> (l_operands l)))"

section \<open>Every operand lies inside its instruction\<close>

fun operand_inside :: "nat \<Rightarrow> operand \<Rightarrow> bool" where
  "operand_inside len (OReg at _) \<longleftrightarrow> bl_word at < len \<and> at \<noteq> at_lo 0"
| "operand_inside len (ORun at _ _) \<longleftrightarrow> bl_word at < len \<and> at \<noteq> at_lo 0"
| "operand_inside len (OConst w _) \<longleftrightarrow> w < len"
| "operand_inside len (OImm (AtWord w) _) \<longleftrightarrow> w < len"
| "operand_inside len (OImm (AtByte b) _) \<longleftrightarrow> bl_word b < len \<and> b \<noteq> at_lo 0"
| "operand_inside len (OJump w _) \<longleftrightarrow> w + 1 < len"
| "operand_inside len (OFixed _ _) \<longleftrightarrow> True"

lemma layout_body_inside:
  "0 < fst (layout_body op byte word cs) \<and>
   (\<forall>opd \<in> set (snd (layout_body op byte word cs)). operand_inside (fst (layout_body op byte word cs)) opd)"
  by (cases op) (auto simp: layout_body_def Let_def bytecode_defs)

definition is_writer :: "operand \<Rightarrow> bool" where
  "is_writer opd \<longleftrightarrow> (case opd of OReg _ acc \<Rightarrow> acc \<noteq> AccRead | _ \<Rightarrow> False)"

lemma filter_not_writer: "filter is_writer (map (\<lambda>i. rd (f i)) xs) = []"
  "filter is_writer (map (\<lambda>i. kst (g i) c) xs) = []"
  "filter is_writer (map (\<lambda>i. if P i then rd (f i) else imm_byte (f i) c') xs) = []"
  "filter is_writer (concat (map (\<lambda>i. [kst (g i) c, rd (f i)]) xs)) = []"
  by (auto simp: filter_empty_conv is_writer_def bytecode_defs)

lemma layout_body_one_writer: "length (filter is_writer (snd (layout_body op byte word cs))) \<le> 1"
  by (cases op) (simp_all add: layout_body_def Let_def filter_not_writer, simp_all add: is_writer_def bytecode_defs)

section \<open>Renaming the registers\<close>

definition reg_loc :: "operand \<Rightarrow> byte_loc option" where
  "reg_loc opd = (case opd of OReg at _ \<Rightarrow> Some at | ORun start _ _ \<Rightarrow> Some start | _ \<Rightarrow> None)"

text \<open>The order of a \<open>BTreeSet<Byte>\<close>: by word, the high byte first.\<close>

definition loc_key :: "byte_loc \<Rightarrow> nat" where
  "loc_key b = 2 * bl_word b + (case bl_half b of Hi \<Rightarrow> 0 | Lo \<Rightarrow> 1)"

definition reg_locs :: "code \<Rightarrow> nat \<Rightarrow> operand list \<Rightarrow> byte_loc list" where
  "reg_locs code offset opds =
     sort_key loc_key (remdups
       (filter (\<lambda>at. offset + bl_word at < length code) (List.map_filter reg_loc opds)))"

fun rename_locs :: "(u8 \<Rightarrow> u8) \<Rightarrow> nat \<Rightarrow> byte_loc list \<Rightarrow> code \<Rightarrow> code" where
  "rename_locs m offset [] code = code"
| "rename_locs m offset (at # ats) code =
     rename_locs m offset ats (byte_write at code offset (m (byte_read at code offset)))"

lemma length_rename_locs [simp]: "length (rename_locs m offset ats code) = length code"
  by (induction m offset ats code rule: rename_locs.induct) (simp_all add: byte_write_def Let_def)

lemma layout_at_len_pos: "layout_at code offset cs = Some l \<Longrightarrow> 0 < l_len l"
  using layout_body_inside by (auto simp: layout_at_def split: option.splits prod.splits) (metis fst_conv)

function remap_from :: "pool_entry list \<Rightarrow> (u8 \<Rightarrow> u8) \<Rightarrow> nat \<Rightarrow> code \<Rightarrow> code" where
  "remap_from constants m offset code =
     (if offset < length code
      then (case layout_at code offset constants of
              None \<Rightarrow> code
            | Some l \<Rightarrow>
                remap_from constants m (offset + l_len l)
                  (rename_locs m offset (reg_locs code offset (l_operands l)) code))
      else code)"
  by pat_completeness auto
termination
  by (relation "measure (\<lambda>(_, _, offset, code). length code - offset)")
     (auto dest: layout_at_len_pos)

declare remap_from.simps [simp del]

definition remap_registers :: "code \<Rightarrow> pool_entry list \<Rightarrow> (u8 \<Rightarrow> u8) \<Rightarrow> code" where
  "remap_registers code constants m = remap_from constants m 0 code"

text \<open>The instructions of a function: the offset and layout of each.\<close>

function instrs_from :: "pool_entry list \<Rightarrow> nat \<Rightarrow> code \<Rightarrow> (nat \<times> layout) list" where
  "instrs_from constants offset code =
     (if offset < length code
      then (case layout_at code offset constants of
              None \<Rightarrow> []
            | Some l \<Rightarrow> (offset, l) # instrs_from constants (offset + l_len l) code)
      else [])"
  by pat_completeness auto
termination
  by (relation "measure (\<lambda>(_, offset, code). length code - offset)")
     (auto dest: layout_at_len_pos)

declare instrs_from.simps [simp del]

subsection \<open>Reading back what was written\<close>

lemma byte_read_hi: "byte_read \<lparr>bl_word = i, bl_half = Hi\<rparr> code o' = hi_byte (code_word code (o' + i))"
  by (simp add: byte_read_def hi_byte_def)

lemma byte_read_lo: "byte_read \<lparr>bl_word = i, bl_half = Lo\<rparr> code o' = lo_byte (code_word code (o' + i))"
  by (simp add: byte_read_def lo_byte_def)

lemma write_hi_pack: "(w AND 0x00FF) OR push_bit 8 (ucast v) = pack_bytes v (lo_byte w)"
proof -
  have m: "(0x00FF :: u16) = mask 8" by (simp add: mask_eq_exp_minus_1)
  show ?thesis unfolding pack_bytes_def lo_byte_def m
    by (rule bit_word_eqI) (auto simp: bit_simps)
qed

lemma write_lo_pack: "(w AND 0xFF00) OR ucast v = pack_bytes (hi_byte w) v"
proof -
  have m: "(0xFF00 :: u16) = push_bit 8 (mask 8)" by (simp add: mask_eq_exp_minus_1)
  show ?thesis unfolding pack_bytes_def hi_byte_def m
    by (rule bit_word_eqI) (auto simp: bit_simps)
qed

lemma code_word_write:
  "o' + bl_word b < length code \<Longrightarrow>
   code_word (byte_write b code o' v) i =
     (if i = o' + bl_word b
      then (case bl_half b of Hi \<Rightarrow> pack_bytes v (lo_byte (code_word code i))
                            | Lo \<Rightarrow> pack_bytes (hi_byte (code_word code i)) v)
      else code_word code i)"
  by (auto simp: byte_write_def code_word_def list_get_def Let_def write_hi_pack write_lo_pack
      split: half.splits)

lemma byte_read_write:
  "o' + bl_word b < length code \<Longrightarrow>
   byte_read c (byte_write b code o' v) o' = (if c = b then v else byte_read c code o')"
  by (cases b; cases c; cases "bl_half b"; cases "bl_half c")
     (auto simp: byte_read_hi byte_read_lo code_word_write)

lemma code_word_write_outside:
  "i \<noteq> o' + bl_word b \<Longrightarrow> code_word (byte_write b code o' v) i = code_word code i"
  by (auto simp: byte_write_def code_word_def list_get_def Let_def)

lemma byte_read_rename:
  "distinct ats \<Longrightarrow> (\<forall>a \<in> set ats. o' + bl_word a < length code) \<Longrightarrow>
   byte_read c (rename_locs m o' ats code) o' =
     (if c \<in> set ats then m (byte_read c code o') else byte_read c code o')"
proof (induction ats arbitrary: code)
  case (Cons at ats)
  have len: "length (byte_write at code o' v) = length code" for v
    by (simp add: byte_write_def Let_def)
  have "o' + bl_word at < length code" using Cons.prems(2) by simp
  then show ?case using Cons by (auto simp: byte_read_write len)
qed simp

lemma code_word_rename_outside:
  "(\<forall>a \<in> set ats. i \<noteq> o' + bl_word a) \<Longrightarrow> code_word (rename_locs m o' ats code) i = code_word code i"
  by (induction ats arbitrary: code) (simp_all add: code_word_write_outside)

definition reg_bytes :: "operand list \<Rightarrow> byte_loc set" where
  "reg_bytes opds = (\<Union>opd \<in> set opds. set_option (reg_loc opd))"

lemma set_map_filter_opt: "set (List.map_filter f xs) = (\<Union>x \<in> set xs. set_option (f x))"
  by (induction xs) (auto simp: List.map_filter_simps split: option.splits)

lemma set_reg_locs:
  "set (reg_locs code o' opds) = {at \<in> reg_bytes opds. o' + bl_word at < length code}"
  by (auto simp: reg_locs_def reg_bytes_def set_map_filter_opt)

lemma distinct_reg_locs: "distinct (reg_locs code o' opds)"
  by (simp add: reg_locs_def distinct_sort)

subsection \<open>The layout does not read the register bytes\<close>

lemma reg_bytes_simps [simp]:
  "reg_bytes [] = {}"
  "reg_bytes (opd # opds) = set_option (reg_loc opd) \<union> reg_bytes opds"
  "reg_bytes (xs @ ys) = reg_bytes xs \<union> reg_bytes ys"
  "reg_bytes (concat xss) = (\<Union>xs \<in> set xss. reg_bytes xs)"
  "reg_bytes (map f is) = (\<Union>i \<in> set is. set_option (reg_loc (f i)))"
  by (auto simp: reg_bytes_def)

lemma reg_loc_simps [simp]:
  "reg_loc (rd at) = Some at" "reg_loc (wr at) = Some at" "reg_loc (OReg at acc) = Some at"
  "reg_loc (reg_run at n kd) = Some at" "reg_loc (kst i c) = None" "reg_loc (imm_byte at ik) = None"
  "reg_loc (imm_word i ik) = None" "reg_loc (jump_op i b) = None" "reg_loc (OFixed u acc) = None"
  "reg_loc fixed_field = None" "reg_loc field_offset = None" "reg_loc field_tag = None"
  by (simp_all add: reg_loc_def bytecode_defs)

lemma at_loc_eq [simp]:
  "at_hi i = at_hi j \<longleftrightarrow> i = j" "at_lo i = at_lo j \<longleftrightarrow> i = j" "at_hi i \<noteq> at_lo j" "at_lo j \<noteq> at_hi i"
  "bl_word (at_hi i) = i" "bl_word (at_lo i) = i"
  by (auto simp: at_hi_def at_lo_def)

lemma layout_body_cong:
  assumes "\<And>b. b \<notin> reg_bytes (snd (layout_body op byte word cs)) \<Longrightarrow>
             bl_word b < fst (layout_body op byte word cs) \<Longrightarrow> byte' b = byte b"
    and "\<And>i. at_hi i \<notin> reg_bytes (snd (layout_body op byte word cs)) \<Longrightarrow>
             at_lo i \<notin> reg_bytes (snd (layout_body op byte word cs)) \<Longrightarrow>
             i < fst (layout_body op byte word cs) \<Longrightarrow> word' i = word i"
  shows "layout_body op byte' word' cs = layout_body op byte word cs"
proof (cases op)
  case O_MakeClosure
  have c: "byte' (at_lo 1) = byte (at_lo 1)"
    using assms(1) [of "at_lo 1"]
    by (auto simp: layout_body_def O_MakeClosure Let_def split: if_splits)
  have "byte' (at_hi (3 + i)) = byte (at_hi (3 + i))" if "i < byte (at_lo 1)" for i
    using assms(1) [of "at_hi (3 + i)"] that
    by (auto simp: layout_body_def O_MakeClosure Let_def split: if_splits)
  then show ?thesis using c by (simp add: layout_body_def O_MakeClosure Let_def)
next
  case O_Call
  then show ?thesis using assms(1) [of "at_hi 2"] by (simp add: layout_body_def Let_def)
next
  case O_CallSpread
  then show ?thesis using assms(1) [of "at_hi 2"] by (simp add: layout_body_def Let_def)
next
  case O_CallSelf
  then show ?thesis using assms(1) [of "at_hi 2"] by (simp add: layout_body_def Let_def)
next
  case O_CallMethod
  then show ?thesis using assms(1) [of "at_hi 3"] by (simp add: layout_body_def Let_def)
next
  case O_InvokeVirtual
  then show ?thesis using assms(1) [of "at_hi 3"] by (simp add: layout_body_def Let_def)
next
  case O_Intrinsic
  then show ?thesis using assms(1) [of "at_lo 1"] by (simp add: layout_body_def Let_def)
next
  case O_CallNativeOp
  then show ?thesis using assms(2) [of 2] by (simp add: layout_body_def Let_def)
next
  case O_BuildArray
  then show ?thesis using assms(1) [of "at_hi 2"] by (simp add: layout_body_def Let_def)
next
  case O_BuildTuple
  then show ?thesis using assms(1) [of "at_hi 2"] by (simp add: layout_body_def Let_def)
next
  case O_BuildMap
  then show ?thesis using assms(1) [of "at_hi 2"] by (simp add: layout_body_def Let_def)
next
  case O_BuildObjectWithShape
  then show ?thesis using assms(2) [of 2] by (simp add: layout_body_def Let_def)
next
  case O_BuildObject
  have "byte' (at_lo 1) = byte (at_lo 1)"
    using assms(1) [of "at_lo 1"] by (auto simp: layout_body_def O_BuildObject Let_def)
  then show ?thesis by (simp add: layout_body_def O_BuildObject Let_def)
next
  case O_ObjectRest
  have "byte' (at_hi 2) = byte (at_hi 2)"
    using assms(1) [of "at_hi 2"] by (auto simp: layout_body_def O_ObjectRest Let_def)
  then show ?thesis by (simp add: layout_body_def O_ObjectRest Let_def)
next
  case O_BuildStr
  have "byte' (at_hi 1) = byte (at_hi 1)"
    using assms(1) [of "at_hi 1"] by (auto simp: layout_body_def O_BuildStr Let_def)
  then show ?thesis by (simp add: layout_body_def O_BuildStr Let_def)
qed (simp_all add: layout_body_def)

lemma layout_at_Some:
  assumes "layout_at code o' cs = Some l"
  shows "o' < length code" "opcode_from_u16 (code ! o') = Some (l_op l)"
    "layout_body (l_op l) (\<lambda>b. unat (byte_read b code o')) (\<lambda>i. unat (code_word code (o' + i))) cs
       = (l_len l, l_operands l)"
  using assms by (auto simp: layout_at_def list_get_def split: option.splits prod.splits if_splits)

lemma layout_at_inside: "layout_at code o' cs = Some l \<Longrightarrow> opd \<in> set (l_operands l) \<Longrightarrow> operand_inside (l_len l) opd"
  using layout_at_Some(3) layout_body_inside by (metis fst_conv snd_conv)

lemma reg_bytes_inside:
  assumes "layout_at code o' cs = Some l" "b \<in> reg_bytes (l_operands l)"
  shows "bl_word b < l_len l" "b \<noteq> at_lo 0"
proof -
  from assms(2) obtain opd where o: "opd \<in> set (l_operands l)" "reg_loc opd = Some b"
    by (auto simp: reg_bytes_def)
  from layout_at_inside [OF assms(1) o(1)] o(2)
  show "bl_word b < l_len l" "b \<noteq> at_lo 0" by (cases opd; simp add: reg_loc_def)+
qed

lemma code_word_bytes: "code_word code (o' + i) = pack_bytes (byte_read (at_hi i) code o') (byte_read (at_lo i) code o')"
  by (simp add: at_hi_def at_lo_def byte_read_hi byte_read_lo)

lemma layout_at_cong:
  assumes l: "layout_at code o' cs = Some l" and len: "o' < length code'"
    and same: "\<And>b. b \<notin> reg_bytes (l_operands l) \<Longrightarrow> bl_word b < l_len l \<Longrightarrow>
                 byte_read b code' o' = byte_read b code o'"
  shows "layout_at code' o' cs = Some l"
proof -
  note s = layout_at_Some [OF l]
  have "at_lo 0 \<notin> reg_bytes (l_operands l)" using reg_bytes_inside(2) [OF l] by auto
  from same [OF this] have "lo_byte (code_word code' o') = lo_byte (code_word code o')"
    using layout_at_len_pos [OF l] by (simp add: at_lo_def byte_read_lo)
  then have op: "opcode_from_u16 (code' ! o') = Some (l_op l)"
    using s(1,2) len by (simp add: opcode_from_u16_def code_word_def list_get_def)
  have "layout_body (l_op l) (\<lambda>b. unat (byte_read b code' o')) (\<lambda>i. unat (code_word code' (o' + i))) cs
      = layout_body (l_op l) (\<lambda>b. unat (byte_read b code o')) (\<lambda>i. unat (code_word code (o' + i))) cs"
    by (rule layout_body_cong; simp only: s(3) fst_conv snd_conv) (simp_all add: same code_word_bytes)
  then show ?thesis
    using op len s(3) by (simp add: layout_at_def list_get_def)
qed

lemma byte_read_code_word:
  "code_word code' (o' + bl_word b) = code_word code (o' + bl_word b) \<Longrightarrow>
   byte_read b code' o' = byte_read b code o'"
  by (simp add: byte_read_def)

lemma rename_instr:
  fixes m :: "u8 \<Rightarrow> u8"
  assumes l: "layout_at code o' cs = Some l"
  defines "code' \<equiv> rename_locs m o' (reg_locs code o' (l_operands l)) code"
  shows "layout_at code' o' cs = Some l"
    and "o' + bl_word b < length code \<Longrightarrow>
         byte_read b code' o' =
           (if b \<in> reg_bytes (l_operands l) then m (byte_read b code o') else byte_read b code o')"
    and "i < o' \<or> o' + l_len l \<le> i \<Longrightarrow> code_word code' i = code_word code i"
proof -
  have r: "byte_read b code' o' =
      (if b \<in> set (reg_locs code o' (l_operands l)) then m (byte_read b code o') else byte_read b code o')" for b
    unfolding code'_def by (rule byte_read_rename) (auto simp: distinct_reg_locs set_reg_locs)
  then show "o' + bl_word b < length code \<Longrightarrow>
         byte_read b code' o' =
           (if b \<in> reg_bytes (l_operands l) then m (byte_read b code o') else byte_read b code o')"
    by (simp add: set_reg_locs)
  show "layout_at code' o' cs = Some l"
    using l by (rule layout_at_cong)
      (use layout_at_Some(1) [OF l] r in \<open>auto simp: code'_def set_reg_locs\<close>)
  show "i < o' \<or> o' + l_len l \<le> i \<Longrightarrow> code_word code' i = code_word code i"
    unfolding code'_def
    by (rule code_word_rename_outside) (auto simp: set_reg_locs dest: reg_bytes_inside(1) [OF l])
qed

lemma remap_from_simps:
  "layout_at code o' cs = Some l \<Longrightarrow>
     remap_from cs m o' code =
       remap_from cs m (o' + l_len l) (rename_locs m o' (reg_locs code o' (l_operands l)) code)"
  "layout_at code o' cs = None \<Longrightarrow> remap_from cs m o' code = code"
  using layout_at_Some(1) [of code o' cs] by (simp_all add: remap_from.simps [of cs m o' code])

lemma instrs_from_simps:
  "layout_at code o' cs = Some l \<Longrightarrow> instrs_from cs o' code = (o', l) # instrs_from cs (o' + l_len l) code"
  "layout_at code o' cs = None \<Longrightarrow> instrs_from cs o' code = []"
  using layout_at_Some(1) [of code o' cs] by (simp_all add: instrs_from.simps [of cs o' code])

lemma instrs_from_ge: "(p, l) \<in> set (instrs_from cs o' code) \<Longrightarrow> o' \<le> p \<and> layout_at code p cs = Some l"
proof (induction cs o' code rule: instrs_from.induct)
  case (1 cs o' code)
  show ?case
  proof (cases "layout_at code o' cs")
    case None
    then show ?thesis using 1(2) by (simp add: instrs_from_simps)
  next
    case (Some k)
    show ?thesis
      using 1(1) [OF layout_at_Some(1) [OF Some] Some] 1(2) Some
      by (auto simp: instrs_from_simps(1) [OF Some])
  qed
qed

text \<open>The instructions from an offset on depend only on the code from that offset on.\<close>

lemma layout_at_suffix:
  assumes "length code' = length code" "\<And>i. o' \<le> i \<Longrightarrow> code_word code' i = code_word code i"
  shows "layout_at code' o' cs = layout_at code o' cs"
proof -
  have b: "byte_read b code' o' = byte_read b code o'" for b
    by (rule byte_read_code_word) (simp add: assms(2))
  have "list_get code' o' = list_get code o'"
    using assms(1) assms(2) [of o'] by (simp add: list_get_def code_word_def split: if_splits)
  moreover have "(\<lambda>i. unat (at_read (AtWord i) code' o')) = (\<lambda>i. unat (at_read (AtWord i) code o'))"
    by (simp add: assms(2))
  ultimately show ?thesis unfolding layout_at_def b by (simp only:)
qed

lemma instrs_from_suffix:
  "length code' = length code \<Longrightarrow> (\<And>i. o' \<le> i \<Longrightarrow> code_word code' i = code_word code i) \<Longrightarrow>
   instrs_from cs o' code' = instrs_from cs o' code"
proof (induction cs o' code rule: instrs_from.induct)
  case (1 cs o' code)
  note same = layout_at_suffix [OF 1(2,3)]
  show ?case
  proof (cases "layout_at code o' cs")
    case None
    then show ?thesis using same by (simp add: instrs_from_simps)
  next
    case (Some l)
    then have "instrs_from cs (o' + l_len l) code' = instrs_from cs (o' + l_len l) code"
      using 1(1) [OF layout_at_Some(1) [OF Some] Some 1(2)] 1(3) by simp
    then show ?thesis using same Some by (simp add: instrs_from_simps)
  qed
qed

lemma remap_from_correct:
  "length (remap_from cs m o' code) = length code \<and>
   (\<forall>i < o'. code_word (remap_from cs m o' code) i = code_word code i) \<and>
   instrs_from cs o' (remap_from cs m o' code) = instrs_from cs o' code \<and>
   (\<forall>(p, l) \<in> set (instrs_from cs o' code). \<forall>b. bl_word b < l_len l \<and> p + bl_word b < length code \<longrightarrow>
      byte_read b (remap_from cs m o' code) p =
        (if b \<in> reg_bytes (l_operands l) then m (byte_read b code p) else byte_read b code p)) \<and>
   (\<forall>i. (\<forall>(p, l) \<in> set (instrs_from cs o' code). \<not> (p \<le> i \<and> i < p + l_len l)) \<longrightarrow>
      code_word (remap_from cs m o' code) i = code_word code i)"
proof (induction cs m o' code rule: remap_from.induct)
  case (1 cs m o' code)
  show ?case
  proof (cases "layout_at code o' cs")
    case None
    then show ?thesis by (simp add: instrs_from_simps remap_from_simps)
  next
    case (Some l)
    let ?c1 = "rename_locs m o' (reg_locs code o' (l_operands l)) code"
    let ?n = "o' + l_len l" and ?c2 = "remap_from cs m (o' + l_len l) ?c1"
    note ih = 1 [OF layout_at_Some(1) [OF Some] Some, simplified length_rename_locs]
    have lp: "0 < l_len l" using layout_at_len_pos [OF Some] .
    have c2: "remap_from cs m o' code = ?c2" by (rule remap_from_simps(1) [OF Some])
    have pre: "code_word ?c2 i = code_word ?c1 i" if "i < ?n" for i using ih that by blast
    have suf: "code_word ?c1 i = code_word code i" if "?n \<le> i \<or> i < o'" for i
      using rename_instr(3) [OF Some] that by blast
    have tl1: "instrs_from cs ?n ?c1 = instrs_from cs ?n code"
      by (rule instrs_from_suffix) (simp_all add: suf)
    have rd: "byte_read b ?c2 o' = byte_read b ?c1 o'" if "bl_word b < l_len l" for b
      by (rule byte_read_code_word) (simp add: pre that)
    have lay: "layout_at ?c2 o' cs = Some l"
      by (rule layout_at_cong [OF rename_instr(1) [OF Some]])
        (use ih layout_at_Some(1) [OF Some] rd in auto)
    have ins: "instrs_from cs o' ?c2 = instrs_from cs o' code"
      using ih tl1 by (simp add: instrs_from_simps(1) [OF lay] instrs_from_simps(1) [OF Some])
    have here: "byte_read b ?c2 o' =
        (if b \<in> reg_bytes (l_operands l) then m (byte_read b code o') else byte_read b code o')"
      if "bl_word b < l_len l" "o' + bl_word b < length code" for b
      using rename_instr(2) [OF Some that(2), of m] rd [OF that(1)] by simp
    have later: "byte_read b ?c2 p =
        (if b \<in> reg_bytes (l_operands k) then m (byte_read b code p) else byte_read b code p)"
      if k: "(p, k) \<in> set (instrs_from cs ?n code)" and b: "bl_word b < l_len k" "p + bl_word b < length code"
      for p k b
    proof -
      have "?n \<le> p" using instrs_from_ge [OF k] by simp
      then have "byte_read b ?c1 p = byte_read b code p"
        by (intro byte_read_code_word suf) simp
      moreover from ih have "\<forall>(p, l) \<in> set (instrs_from cs ?n code). \<forall>b. bl_word b < l_len l \<and> p + bl_word b < length code \<longrightarrow>
          byte_read b ?c2 p = (if b \<in> reg_bytes (l_operands l) then m (byte_read b ?c1 p) else byte_read b ?c1 p)"
        unfolding tl1 by (elim conjE)
      note bspec [OF this k]
      ultimately show ?thesis using b by simp
    qed
    have words: "\<forall>i < o'. code_word ?c2 i = code_word code i"
      using pre suf lp by simp
    have bytes: "\<forall>(p, k) \<in> set (instrs_from cs o' code). \<forall>b. bl_word b < l_len k \<and> p + bl_word b < length code \<longrightarrow>
        byte_read b ?c2 p = (if b \<in> reg_bytes (l_operands k) then m (byte_read b code p) else byte_read b code p)"
      unfolding instrs_from_simps(1) [OF Some] using here later by fastforce
    have outside: "\<forall>i. (\<forall>(p, k) \<in> set (instrs_from cs o' code). \<not> (p \<le> i \<and> i < p + l_len k)) \<longrightarrow>
        code_word ?c2 i = code_word code i"
    proof (intro allI impI)
      fix i assume *: "\<forall>(p, k) \<in> set (instrs_from cs o' code). \<not> (p \<le> i \<and> i < p + l_len k)"
      then have i: "?n \<le> i \<or> i < o'" and "\<forall>(p, k) \<in> set (instrs_from cs ?n ?c1). \<not> (p \<le> i \<and> i < p + l_len k)"
        unfolding instrs_from_simps(1) [OF Some] tl1 by auto
      with ih have "code_word ?c2 i = code_word ?c1 i" by blast
      then show "code_word ?c2 i = code_word code i" using suf [OF i] by simp
    qed
    show ?thesis
      unfolding c2 using ih ins words bytes outside by simp
  qed
qed

section \<open>What decoding reports\<close>

fun operand_uses :: "code \<Rightarrow> nat \<Rightarrow> operand \<Rightarrow> u8 list" where
  "operand_uses code o' (OReg at acc) = (if acc \<noteq> AccWrite then [byte_read at code o'] else [])"
| "operand_uses code o' (ORun start n kind) = map (\<lambda>i. byte_read start code o' + word_of_nat i) [0..<n]"
| "operand_uses code o' (OFixed reg acc) = (if acc \<noteq> AccWrite then [reg] else [])"
| "operand_uses code o' _ = []"

fun operand_def :: "code \<Rightarrow> nat \<Rightarrow> operand \<Rightarrow> u8 option" where
  "operand_def code o' (OReg at acc) = (if acc \<noteq> AccRead then Some (byte_read at code o') else None)"
| "operand_def code o' _ = None"

lemma decode_operand_fields:
  "ii_len (decode_operand code o' i opd) = ii_len i"
  "ii_opaque (decode_operand code o' i opd) = ii_opaque i"
  "ii_uses (decode_operand code o' i opd) = ii_uses i @ operand_uses code o' opd"
  "ii_def (decode_operand code o' i opd) =
     (case operand_def code o' opd of Some r \<Rightarrow> Some r | None \<Rightarrow> ii_def i)"
  by (cases opd; simp add: Let_def)+

lemma decode_foldl:
  "ii_len (foldl (decode_operand code o') i opds) = ii_len i \<and>
   ii_opaque (foldl (decode_operand code o') i opds) = ii_opaque i \<and>
   ii_uses (foldl (decode_operand code o') i opds) = ii_uses i @ concat (map (operand_uses code o') opds)"
  by (induction opds arbitrary: i) (simp_all add: decode_operand_fields)

lemma is_writer_def_iff: "is_writer opd \<longleftrightarrow> operand_def code o' opd \<noteq> None"
  by (cases opd) (auto simp: is_writer_def)

lemma decode_foldl_no_writer:
  "filter is_writer opds = [] \<Longrightarrow> ii_def (foldl (decode_operand code o') i opds) = ii_def i"
  by (induction opds arbitrary: i)
     (auto simp: decode_operand_fields is_writer_def_iff [of _ code o'] split: if_splits)

lemma decode_foldl_def:
  "length (filter is_writer opds) \<le> 1 \<Longrightarrow> ii_def i = None \<Longrightarrow>
   (ii_def (foldl (decode_operand code o') i opds) = Some r \<longleftrightarrow>
     Some r \<in> operand_def code o' ` set opds)"
proof (induction opds arbitrary: i)
  case (Cons opd opds)
  show ?case
  proof (cases "is_writer opd")
    case True
    then have none: "filter is_writer opds = []" using Cons.prems(1) by simp
    then have "Some r \<notin> operand_def code o' ` set opds"
      by (auto simp: filter_empty_conv is_writer_def_iff [of _ code o'])
    moreover obtain s where "operand_def code o' opd = Some s"
      using True by (auto simp: is_writer_def_iff [of _ code o'])
    ultimately show ?thesis
      using decode_foldl_no_writer [OF none] by (auto simp: decode_operand_fields)
  next
    case False
    then have "operand_def code o' opd = None" by (simp add: is_writer_def_iff [of _ code o'])
    then show ?thesis using Cons False by (simp add: decode_operand_fields image_iff)
  qed
qed simp

lemma layout_at_one_writer:
  "layout_at code o' cs = Some l \<Longrightarrow> length (filter is_writer (l_operands l)) \<le> 1"
  using layout_at_Some(3) layout_body_one_writer by (metis snd_conv)

section \<open>Properties\<close>

text \<open>
  C13: renaming registers in place renames exactly the register bytes: the code keeps its length
  and its instructions, every register byte of an instruction is renamed once, every other byte
  of it stays, and so does every word that belongs to no instruction, in particular everything
  from the first word that is not an instruction on.
\<close>

theorem remap_registers_exact:
  "length (remap_registers code cs m) = length code \<and>
   instrs_from cs 0 (remap_registers code cs m) = instrs_from cs 0 code \<and>
   (\<forall>(p, l) \<in> set (instrs_from cs 0 code). \<forall>b. bl_word b < l_len l \<and> p + bl_word b < length code \<longrightarrow>
      byte_read b (remap_registers code cs m) p =
        (if b \<in> reg_bytes (l_operands l) then m (byte_read b code p) else byte_read b code p)) \<and>
   (\<forall>i. (\<forall>(p, l) \<in> set (instrs_from cs 0 code). \<not> (p \<le> i \<and> i < p + l_len l)) \<longrightarrow>
      code_word (remap_registers code cs m) i = code_word code i)"
  using remap_from_correct [of cs m 0 code] unfolding remap_registers_def by blast

lemma spawn_layout:
  "layout_at [0x459, 0x509] 0 [] =
     Some \<lparr>l_op = O_Spawn, l_len = 2, l_operands = [wr (at_hi 0), rd (at_hi 1)]\<rparr>"
proof -
  have "lo_byte 0x459 = opcode_as_u8 O_Spawn"
    by (simp add: lo_byte_def opcode_as_u8_def)
  then have "opcode_from_u16 0x459 = Some O_Spawn"
    by (simp add: opcode_from_u16_def opc.dec_enc)
  then show ?thesis by (simp add: layout_at_def layout_body_def)
qed

theorem remap_registers_exact_witness:
  "(0, \<lparr>l_op = O_Spawn, l_len = 2, l_operands = [wr (at_hi 0), rd (at_hi 1)]\<rparr>)
     \<in> set (instrs_from [] 0 [0x459, 0x509]) \<and>
   byte_read (at_hi 1) (remap_registers [0x459, 0x509] [] (\<lambda>r. r + 10)) 0 = 15 \<and>
   byte_read (at_lo 1) (remap_registers [0x459, 0x509] [] (\<lambda>r. r + 10)) 0 = 9"
proof -
  let ?c = "[0x459, 0x509] :: code"
  let ?l = "\<lparr>l_op = O_Spawn, l_len = 2, l_operands = [wr (at_hi 0), rd (at_hi 1)]\<rparr>"
  have i: "(0, ?l) \<in> set (instrs_from [] 0 ?c)"
    using spawn_layout by (simp add: instrs_from_simps)
  have "byte_read (at_hi 1) ?c 0 = 5" "byte_read (at_lo 1) ?c 0 = 9"
    by (simp_all add: at_hi_def at_lo_def byte_read_hi byte_read_lo code_word_def hi_byte_def lo_byte_def)
  with bspec [OF conjunct1 [OF conjunct2 [OF conjunct2 [OF remap_registers_exact [of ?c "[]" "\<lambda>r. r + 10"]]]] i]
  show ?thesis using i by auto
qed

text \<open>
  C14: decoding is sound for every opcode and every content of the code: an instruction is at
  least one word long, its operands lie inside it and never in the opcode byte, at most one
  operand is written (the assertion of \<open>decode\<close> cannot fire), the reported definition is
  exactly that operand's register, and the reported uses are exactly the registers read.
\<close>

theorem decode_correct:
  assumes "decode code o' cs = Some info"
  shows "\<exists>l. layout_at code o' cs = Some l \<and> 0 < l_len l \<and>
           (\<forall>opd \<in> set (l_operands l). operand_inside (l_len l) opd) \<and>
           length (filter is_writer (l_operands l)) \<le> 1 \<and>
           ii_len info = l_len l \<and> ii_opaque info = opaque l \<and>
           (\<forall>r. ii_def info = Some r \<longleftrightarrow> Some r \<in> operand_def code o' ` set (l_operands l)) \<and>
           ii_uses info = concat (map (operand_uses code o') (l_operands l))"
proof -
  obtain l where l: "layout_at code o' cs = Some l"
    and i: "info = foldl (decode_operand code o')
        \<lparr>ii_len = l_len l, ii_def = None, ii_uses = [], ii_call_args = None,
         ii_opaque = opaque l\<rparr> (l_operands l)"
    using assms by (auto simp: decode_def split: option.splits)
  have "ii_def info = Some r \<longleftrightarrow> Some r \<in> operand_def code o' ` set (l_operands l)" for r
    unfolding i by (rule decode_foldl_def [OF layout_at_one_writer [OF l]]) simp
  then show ?thesis
    using l layout_at_len_pos [OF l] layout_at_inside [OF l] layout_at_one_writer [OF l]
    by (intro exI [of _ l]) (simp add: i decode_foldl)
qed

lemma decode_spawn:
  "\<exists>info. decode [0x459, 0x509] 0 [] = Some info \<and> ii_uses info = [5]"
  by (subst decode_def, subst spawn_layout)
     (simp add: wr_def rd_def at_hi_def byte_read_hi code_word_def hi_byte_def)

theorem decode_correct_witness:
  "\<exists>l info. decode [0x459, 0x509] 0 [] = Some info \<and>
     layout_at [0x459, 0x509] 0 [] = Some l \<and> ii_len info = l_len l"
  using decode_spawn decode_correct by blast

end
