(* ===== verification/Chunk.thy ===== *)
theory Chunk
  imports Bytecode
begin

text \<open>
  A function's code under construction, \<open>crates/varn-types/src/chunk/\<close>: the emitters
  (\<open>mod.rs\<close>), the deduplicating constant pool, and the run-length line table (\<open>lines.rs\<close>).
  The lemmas show that what an emitter writes is what the decoder reads back, that the pool's
  index map stays consistent with its entries, and that the line table answers for every word
  the line and scope it was written with.
\<close>

section \<open>The line table\<close>

text \<open>The counts and the starts are \<open>u32\<close>: the sums wrap at \<open>2 ^ 32\<close>.\<close>

record line_entry =
  le_count :: nat
  le_line :: nat
  le_scope :: nat

record line_mapping =
  lm_entries :: "line_entry list"
  lm_starts :: "nat list"

definition line_mapping_default :: line_mapping where
  "line_mapping_default = \<lparr>lm_entries = [], lm_starts = []\<rparr>"

definition lines_add :: "line_mapping \<Rightarrow> nat \<Rightarrow> nat \<Rightarrow> line_mapping" where
  "lines_add m line scope =
     (if lm_entries m \<noteq> [] \<and> le_line (last (lm_entries m)) = line
           \<and> le_scope (last (lm_entries m)) = scope
      then m\<lparr>lm_entries := butlast (lm_entries m) @
                [(last (lm_entries m))\<lparr>le_count := as_u32 (le_count (last (lm_entries m)) + 1)\<rparr>]\<rparr>
      else
        let next_start = as_u32 ((if lm_starts m = [] then 0 else last (lm_starts m))
                       + (if lm_entries m = [] then 0 else le_count (last (lm_entries m))))
        in \<lparr>lm_entries = lm_entries m @ [\<lparr>le_count = 1, le_line = line, le_scope = scope\<rparr>],
            lm_starts = lm_starts m @ [next_start]\<rparr>)"

text \<open>The slow path: a walk over the runs. It is taken when \<open>starts\<close> was not deserialised.\<close>

fun entry_walk :: "nat \<Rightarrow> line_entry list \<Rightarrow> nat \<Rightarrow> line_entry option" where
  "entry_walk base [] idx = None"
| "entry_walk base (entry # rest) idx =
     (let next = base + le_count entry
      in if idx < next then Some entry else entry_walk next rest idx)"

text \<open>\<open>partition_point\<close> on the sorted run starts: how many are at most the index.\<close>

definition partition_point :: "('a \<Rightarrow> bool) \<Rightarrow> 'a list \<Rightarrow> nat" where
  "partition_point P xs = length (takeWhile P xs)"

definition entry_at :: "line_mapping \<Rightarrow> nat \<Rightarrow> line_entry option" where
  "entry_at m instruction_idx =
     (if length (lm_starts m) \<noteq> length (lm_entries m)
      then entry_walk 0 (lm_entries m) instruction_idx
      else
        let idx = as_u32 instruction_idx;
            pos = partition_point (\<lambda>s. s \<le> idx) (lm_starts m)
        in if pos = 0 then None else Some (lm_entries m ! (pos - 1)))"

definition get_line :: "line_mapping \<Rightarrow> nat \<Rightarrow> nat" where
  "get_line m idx = (case entry_at m idx of Some e \<Rightarrow> le_line e | None \<Rightarrow> 0)"

definition get_scope :: "line_mapping \<Rightarrow> nat \<Rightarrow> nat" where
  "get_scope m idx = (case entry_at m idx of Some e \<Rightarrow> le_scope e | None \<Rightarrow> 0)"

text \<open>
  The loop of \<open>truncate\<close>: the entries with the cut run shortened, and where to cut the
  two vectors (\<open>None\<close> when the index is past the end).
\<close>

fun truncate_walk ::
  "nat \<Rightarrow> nat \<Rightarrow> line_entry list \<Rightarrow> nat \<Rightarrow> line_entry list \<times> nat option" where
  "truncate_walk current i [] idx = ([], None)"
| "truncate_walk current i (entry # rest) idx =
     (let next = current + le_count entry
      in if idx < next
         then (let keep = idx - current
               in if keep = 0 then (entry # rest, Some i)
                  else (entry\<lparr>le_count := as_u32 keep\<rparr> # rest, Some (i + 1)))
         else (let (rest', cutoff) = truncate_walk next (i + 1) rest idx in (entry # rest', cutoff)))"

definition lines_truncate :: "line_mapping \<Rightarrow> nat \<Rightarrow> line_mapping" where
  "lines_truncate m idx =
     (let (entries, cutoff) = truncate_walk 0 0 (lm_entries m) idx
      in case cutoff of
           None \<Rightarrow> m\<lparr>lm_entries := entries\<rparr>
         | Some n \<Rightarrow> \<lparr>lm_entries = take n entries, lm_starts = take n (lm_starts m)\<rparr>)"

section \<open>The chunk and its emitters\<close>

record inline_scope =
  is_function :: string
  is_parent :: nat
  is_call_line :: nat

record chunk =
  ch_code :: code
  ch_lines :: line_mapping
  ch_inline_scopes :: "inline_scope list"
  ch_scope_cursor :: nat
  ch_constants :: "pool_entry list"
  ch_constants_map :: "pool_entry \<Rightarrow> u16 option"
  ch_source_file :: string
  ch_constants_overflowed :: bool

definition MAX_CONSTANTS :: nat where "MAX_CONSTANTS = 65534"

definition chunk_new :: chunk where
  "chunk_new =
     \<lparr>ch_code = [], ch_lines = line_mapping_default, ch_inline_scopes = [], ch_scope_cursor = 0,
      ch_constants = [], ch_constants_map = (\<lambda>_. None), ch_source_file = '''',
      ch_constants_overflowed = False\<rparr>"

text \<open>\<open>PartialEq for Chunk\<close>: the cursor, the index map and the source file do not count.\<close>

definition chunk_eq :: "chunk \<Rightarrow> chunk \<Rightarrow> bool" where
  "chunk_eq a b \<longleftrightarrow> ch_code a = ch_code b \<and> ch_lines a = ch_lines b
     \<and> ch_inline_scopes a = ch_inline_scopes b \<and> ch_constants a = ch_constants b"

definition chunk_write :: "chunk \<Rightarrow> u16 \<Rightarrow> nat \<Rightarrow> chunk" where
  "chunk_write c word line =
     c\<lparr>ch_code := ch_code c @ [word], ch_lines := lines_add (ch_lines c) line (ch_scope_cursor c)\<rparr>"

definition op_word :: "opcode \<Rightarrow> u16" where
  "op_word op = ucast (opcode_as_u8 op)"

definition emit :: "chunk \<Rightarrow> opcode \<Rightarrow> nat \<Rightarrow> chunk" where
  "emit c op line = chunk_write c (op_word op) line"

definition emit1 :: "chunk \<Rightarrow> opcode \<Rightarrow> u16 \<Rightarrow> nat \<Rightarrow> chunk" where
  "emit1 c op operand line = chunk_write (chunk_write c (op_word op) line) operand line"

definition pack :: "u8 \<Rightarrow> u8 \<Rightarrow> u16" where
  "pack r1 r2 = push_bit 8 (ucast r1) OR ucast r2"

definition pack_op :: "opcode \<Rightarrow> u8 \<Rightarrow> u16" where
  "pack_op op reg = push_bit 8 (ucast reg) OR op_word op"

definition emit_rr :: "chunk \<Rightarrow> opcode \<Rightarrow> u8 \<Rightarrow> u8 \<Rightarrow> nat \<Rightarrow> chunk" where
  "emit_rr c op dest src line =
     (if op = O_LoadNull \<or> op = O_LoadTrue \<or> op = O_LoadFalse
      then chunk_write c (pack_op op dest) line
      else if op = O_Move \<and> dest = src then c
      else chunk_write (chunk_write c (pack_op op dest) line) (pack src 0) line)"

definition emit_rrr :: "chunk \<Rightarrow> opcode \<Rightarrow> u8 \<Rightarrow> u8 \<Rightarrow> u8 \<Rightarrow> nat \<Rightarrow> chunk" where
  "emit_rrr c op dest src1 src2 line =
     chunk_write (chunk_write c (pack_op op dest) line) (pack src1 src2) line"

definition emit_rrc :: "chunk \<Rightarrow> opcode \<Rightarrow> u8 \<Rightarrow> u8 \<Rightarrow> u16 \<Rightarrow> nat \<Rightarrow> chunk" where
  "emit_rrc c op dest src const_idx line =
     chunk_write (chunk_write (chunk_write c (pack_op op dest) line) (pack src 0) line)
       const_idx line"

definition MAX_IC_SLOTS :: u16 where "MAX_IC_SLOTS = 255"
definition NO_IC_SLOT :: u8 where "NO_IC_SLOT = 255"

definition emit_rrc_ic :: "chunk \<Rightarrow> opcode \<Rightarrow> u8 \<Rightarrow> u8 \<Rightarrow> u16 \<Rightarrow> u8 \<Rightarrow> nat \<Rightarrow> chunk" where
  "emit_rrc_ic c op dest src const_idx cs_idx line =
     chunk_write (chunk_write (chunk_write c (pack_op op dest) line) (pack src cs_idx) line)
       const_idx line"

definition emit_rc :: "chunk \<Rightarrow> opcode \<Rightarrow> u8 \<Rightarrow> u16 \<Rightarrow> nat \<Rightarrow> chunk" where
  "emit_rc c op dest const_idx line =
     chunk_write (chunk_write c (pack_op op dest) line) const_idx line"

definition emit_jump :: "chunk \<Rightarrow> opcode \<Rightarrow> nat \<Rightarrow> chunk \<times> nat" where
  "emit_jump c op line =
     (let c1 = chunk_write c (op_word op) line; patch_pos = length (ch_code c1)
      in (chunk_write (chunk_write c1 0xFFFF line) 0xFFFF line, patch_pos))"

definition emit_cond_jump :: "chunk \<Rightarrow> opcode \<Rightarrow> u8 \<Rightarrow> nat \<Rightarrow> chunk \<times> nat" where
  "emit_cond_jump c op cond_reg line =
     (let c1 = chunk_write c (pack_op op cond_reg) line; patch_pos = length (ch_code c1)
      in (chunk_write (chunk_write c1 0xFFFF line) 0xFFFF line, patch_pos))"

text \<open>The two words of a jump distance.\<close>

definition dist_hi :: "nat \<Rightarrow> u16" where "dist_hi off = word_of_nat (off div 2 ^ 16)"
definition dist_lo :: "nat \<Rightarrow> u16" where "dist_lo off = word_of_nat (off mod 2 ^ 16)"

text \<open>A distance that does not fit \<open>u32\<close> panics: \<open>None\<close>.\<close>

definition emit_loop :: "chunk \<Rightarrow> nat \<Rightarrow> nat \<Rightarrow> chunk option" where
  "emit_loop c loop_start line =
     (let offset = length (ch_code c) - loop_start + 3
      in if offset < 2 ^ 32
         then Some (chunk_write (chunk_write (chunk_write c (op_word O_Loop) line)
                (dist_hi offset) line) (dist_lo offset) line)
         else None)"

definition add_constant :: "chunk \<Rightarrow> pool_entry \<Rightarrow> chunk \<times> u16" where
  "add_constant c entry =
     (case ch_constants_map c entry of
        Some idx \<Rightarrow> (c, idx)
      | None \<Rightarrow>
          let idx = length (ch_constants c)
          in if idx \<ge> MAX_CONSTANTS then (c\<lparr>ch_constants_overflowed := True\<rparr>, 0xFFFF)
             else (c\<lparr>ch_constants := ch_constants c @ [entry],
                     ch_constants_map := (ch_constants_map c)(entry \<mapsto> word_of_nat idx)\<rparr>,
                   word_of_nat idx))"

definition add_str :: "chunk \<Rightarrow> string \<Rightarrow> chunk \<times> u16" where
  "add_str c s = add_constant c (PoolLiteral (LitStr s))"

definition add_shape :: "chunk \<Rightarrow> string list \<Rightarrow> chunk \<times> u16" where
  "add_shape c keys = add_constant c (PoolShape keys)"

definition add_layout :: "chunk \<Rightarrow> class_layout \<Rightarrow> chunk \<times> u16" where
  "add_layout c l = add_constant c (PoolLayout l)"

definition add_variant :: "chunk \<Rightarrow> variant_def \<Rightarrow> chunk \<times> u16" where
  "add_variant c d = add_constant c (PoolVariant d)"

definition chunk_add_int :: "chunk \<Rightarrow> i64 \<Rightarrow> chunk \<times> u16" where
  "chunk_add_int c n = add_constant c (PoolLiteral (LitInt n))"

definition emit_load_int :: "chunk \<Rightarrow> u8 \<Rightarrow> i64 \<Rightarrow> nat \<Rightarrow> chunk" where
  "emit_load_int c dest n line =
     (if n = 0 then chunk_write c (pack_op O_LoadIntZero dest) line
      else if n = 1 then chunk_write c (pack_op O_LoadIntOne dest) line
      else if n = -1 then chunk_write c (pack_op O_LoadIntMinusOne dest) line
      else if - (2 ^ 15) \<le> sint n \<and> sint n \<le> 2 ^ 15 - 1
      then chunk_write (chunk_write c (pack_op O_LoadInt dest) line) (ucast n) line
      else (let (c', idx) = chunk_add_int c n in emit_rc c' O_LoadConst dest idx line))"

definition chunk_len :: "chunk \<Rightarrow> nat" where "chunk_len c = length (ch_code c)"
definition chunk_is_empty :: "chunk \<Rightarrow> bool" where "chunk_is_empty c \<longleftrightarrow> ch_code c = []"

section \<open>The line table is a run-length encoding\<close>

definition expand :: "line_entry list \<Rightarrow> (nat \<times> nat) list" where
  "expand es = concat (map (\<lambda>e. replicate (le_count e) (le_line e, le_scope e)) es)"

lemma expand_simps [simp]:
  "expand [] = []"
  "expand (e # es) = replicate (le_count e) (le_line e, le_scope e) @ expand es"
  "expand (xs @ ys) = expand xs @ expand ys"
  by (simp_all add: expand_def)

text \<open>The run starts are the prefix sums of the counts, and no run is empty.\<close>

fun starts_from :: "nat \<Rightarrow> line_entry list \<Rightarrow> nat list" where
  "starts_from base [] = []"
| "starts_from base (e # es) = base # starts_from (base + le_count e) es"

definition lines_ok :: "line_mapping \<Rightarrow> bool" where
  "lines_ok m \<longleftrightarrow> lm_starts m = starts_from 0 (lm_entries m) \<and> (\<forall>e \<in> set (lm_entries m). 0 < le_count e)"

lemma starts_from_append:
  "starts_from b (xs @ ys) = starts_from b xs @ starts_from (b + sum_list (map le_count xs)) ys"
  by (induction xs arbitrary: b) (simp_all add: add.assoc)

lemma length_starts_from [simp]: "length (starts_from b es) = length es"
  by (induction es arbitrary: b) simp_all

lemma starts_from_Nil [simp]: "starts_from b es = [] \<longleftrightarrow> es = []"
  by (cases es) simp_all

lemma length_expand: "length (expand es) = sum_list (map le_count es)"
  by (induction es) simp_all

lemma last_starts_from:
  "es \<noteq> [] \<Longrightarrow> last (starts_from b es) + le_count (last es) = b + sum_list (map le_count es)"
proof (induction es rule: rev_induct)
  case (snoc e es)
  then show ?case by (simp add: starts_from_append)
qed simp

lemma lines_add_ok:
  assumes ok: "lines_ok m" and room: "Suc (length (expand (lm_entries m))) < 2 ^ 32"
  shows "lines_ok (lines_add m line scope)"
    and "expand (lm_entries (lines_add m line scope)) = expand (lm_entries m) @ [(line, scope)]"
proof -
  let ?es = "lm_entries m"
  have "lines_ok (lines_add m line scope) \<and>
    expand (lm_entries (lines_add m line scope)) = expand ?es @ [(line, scope)]"
  proof (cases "?es \<noteq> [] \<and> le_line (last ?es) = line \<and> le_scope (last ?es) = scope")
    case True
    then obtain es e where es: "?es = es @ [e]" by (metis append_butlast_last_id)
    then have "as_u32 (Suc (le_count e)) = Suc (le_count e)"
      using room by (simp add: as_u32_small)
    with True ok es show ?thesis
      by (auto simp: lines_add_def lines_ok_def starts_from_append replicate_append_same
          simp flip: replicate_Suc)
  next
    case False
    have "(if lm_starts m = [] then 0 else last (lm_starts m)) + (if ?es = [] then 0 else le_count (last ?es))
        = sum_list (map le_count ?es)"
      using ok last_starts_from [of ?es 0]
      by (cases "?es = []") (auto simp: lines_ok_def)
    moreover have "as_u32 (sum_list (map le_count ?es)) = sum_list (map le_count ?es)"
      using room by (simp add: length_expand as_u32_small)
    ultimately have s: "as_u32 ((if lm_starts m = [] then 0 else last (lm_starts m)) +
        (if ?es = [] then 0 else le_count (last ?es))) = sum_list (map le_count ?es)" by simp
    have "lines_add m line scope =
        \<lparr>lm_entries = ?es @ [\<lparr>le_count = 1, le_line = line, le_scope = scope\<rparr>],
         lm_starts = lm_starts m @ [sum_list (map le_count ?es)]\<rparr>"
      by (simp only: lines_add_def False if_False Let_def s)
    with ok show ?thesis
      by (simp add: lines_ok_def starts_from_append ball_Un)
  qed
  then show "lines_ok (lines_add m line scope)"
    "expand (lm_entries (lines_add m line scope)) = expand ?es @ [(line, scope)]" by auto
qed

lemma entry_walk_expand:
  "i < length (expand es) \<Longrightarrow>
   \<exists>e. entry_walk b es (b + i) = Some e \<and> (le_line e, le_scope e) = expand es ! i"
proof (induction es arbitrary: b i)
  case (Cons e es)
  show ?case
  proof (cases "i < le_count e")
    case True
    then show ?thesis by (simp add: nth_append)
  next
    case False
    then have "i - le_count e < length (expand es)" using Cons.prems by simp
    from Cons.IH [OF this, of "b + le_count e"] False show ?thesis
      by (simp add: nth_append Let_def)
  qed
qed simp

lemma partition_point_starts:
  "i < length (expand es) \<Longrightarrow> (\<forall>e \<in> set es. 0 < le_count e) \<Longrightarrow>
   0 < partition_point (\<lambda>s. s \<le> b + i) (starts_from b es) \<and>
   (case es ! (partition_point (\<lambda>s. s \<le> b + i) (starts_from b es) - 1) of
      e \<Rightarrow> (le_line e, le_scope e) = expand es ! i)"
proof (induction es arbitrary: b i)
  case (Cons e es)
  show ?case
  proof (cases "i < le_count e")
    case True
    have "takeWhile (\<lambda>s. s \<le> b + i) (starts_from (b + le_count e) es) = []"
      using True by (cases es) simp_all
    then show ?thesis using True by (simp add: partition_point_def nth_append)
  next
    case False
    then have "i - le_count e < length (expand es)" using Cons.prems by simp
    from Cons.IH [OF this, of "b + le_count e"] False Cons.prems(2) show ?thesis
      by (simp add: partition_point_def nth_append nth_Cons')
  qed
qed simp

lemma entry_at_expand:
  assumes "lines_ok m" "i < length (expand (lm_entries m))" "i < 2 ^ 32"
  shows "get_line m i = fst (expand (lm_entries m) ! i) \<and> get_scope m i = snd (expand (lm_entries m) ! i)"
proof -
  have "lm_starts m = starts_from 0 (lm_entries m)" "\<forall>e \<in> set (lm_entries m). 0 < le_count e"
    using assms(1) by (simp_all add: lines_ok_def)
  with partition_point_starts [OF assms(2), of 0] assms(3) show ?thesis
    by (auto simp: get_line_def get_scope_def entry_at_def Let_def as_u32_small prod_eq_iff)
qed

lemma lines_foldl:
  "lines_ok m \<Longrightarrow> length (expand (lm_entries m)) + length ls < 2 ^ 32 \<Longrightarrow>
   lines_ok (foldl (\<lambda>m (line, scope). lines_add m line scope) m ls) \<and>
   expand (lm_entries (foldl (\<lambda>m (line, scope). lines_add m line scope) m ls)) = expand (lm_entries m) @ ls"
proof (induction ls arbitrary: m)
  case (Cons l ls)
  obtain line scope where l: "l = (line, scope)" by (cases l)
  have "Suc (length (expand (lm_entries m))) < 2 ^ 32" using Cons.prems(2) by simp
  from Cons.IH [of "lines_add m line scope"] lines_add_ok [OF Cons.prems(1) this] Cons.prems(2)
  show ?case by (simp add: l)
qed simp

lemma lines_ok_default: "lines_ok line_mapping_default" "expand (lm_entries line_mapping_default) = []"
  by (simp_all add: lines_ok_def line_mapping_default_def)

text \<open>
  C16: the line table is lossless: after fewer than \<open>2 ^ 32\<close> writes, which no \<open>u32\<close> count or start
  overflows, word \<open>i\<close> is reported with the line and the inline scope it was written with, although
  equal neighbours share one entry and the lookup is a binary search over the run starts.
\<close>

theorem line_table_lossless:
  assumes "i < length ls" "length ls < 2 ^ 32"
  defines "m \<equiv> foldl (\<lambda>m (line, scope). lines_add m line scope) line_mapping_default ls"
  shows "get_line m i = fst (ls ! i) \<and> get_scope m i = snd (ls ! i)"
  using lines_foldl [OF lines_ok_default(1), of ls] entry_at_expand [of m i] assms
  by (simp add: lines_ok_default)

theorem line_table_lossless_witness:
  "get_line (foldl (\<lambda>m (line, scope). lines_add m line scope) line_mapping_default
      [(3, 0), (3, 0), (7, 1)]) 2 = 7"
  using line_table_lossless [of 2 "[(3, 0), (3, 0), (7, 1)]"] by simp

section \<open>Truncation\<close>

lemma truncate_walk_expand:
  assumes "\<forall>e \<in> set es. 0 < le_count e" "k \<le> length (expand es)" "length (expand es) < 2 ^ 32"
  shows "case truncate_walk b i es (b + k) of
           (es', cutoff) \<Rightarrow>
             expand (case cutoff of None \<Rightarrow> es' | Some n \<Rightarrow> take (n - i) es') = take k (expand es) \<and>
             (case cutoff of None \<Rightarrow> es' = es | Some n \<Rightarrow>
                i \<le> n \<and> take (n - i) (starts_from b es) = starts_from b (take (n - i) es') \<and>
                (\<forall>e \<in> set (take (n - i) es'). 0 < le_count e))"
  using assms
proof (induction es arbitrary: b i k)
  case (Cons e es)
  show ?case
  proof (cases "k < le_count e")
    case True
    then show ?thesis
      using Cons.prems by (auto simp: Let_def as_u32_small)
  next
    case False
    then have k: "k - le_count e \<le> length (expand es)" using Cons.prems by simp
    obtain es' cutoff where w: "truncate_walk (b + le_count e) (Suc i) es (b + k) = (es', cutoff)"
      by (cases "truncate_walk (b + le_count e) (Suc i) es (b + k)") auto
    from Cons.IH [OF _ k, where b = "b + le_count e" and i = "Suc i"] False Cons.prems w
    have ih: "expand (case cutoff of None \<Rightarrow> es' | Some n \<Rightarrow> take (n - Suc i) es') = take (k - le_count e) (expand es)"
      "case cutoff of None \<Rightarrow> es' = es | Some n \<Rightarrow>
                Suc i \<le> n \<and> take (n - Suc i) (starts_from (b + le_count e) es)
                   = starts_from (b + le_count e) (take (n - Suc i) es') \<and>
                (\<forall>e \<in> set (take (n - Suc i) es'). 0 < le_count e)"
      by simp_all
    show ?thesis
    proof (cases cutoff)
      case None
      then show ?thesis using ih w False by (simp add: Let_def)
    next
      case (Some n)
      with ih(2) have "Suc i \<le> n" by simp
      then have "n - i = Suc (n - Suc i)" by arith
      then show ?thesis using ih w False Some Cons.prems(1) by (simp add: Let_def)
    qed
  qed
qed simp

text \<open>
  C30: dropping the code after a word keeps the line table exact: truncating to \<open>k\<close> words keeps
  the well-formed run-length encoding of the first \<open>k\<close> words and of nothing else, also when
  the cut falls inside a run.
\<close>

theorem lines_truncate_exact:
  assumes "lines_ok m" "k \<le> length (expand (lm_entries m))" "length (expand (lm_entries m)) < 2 ^ 32"
  shows "lines_ok (lines_truncate m k) \<and>
         expand (lm_entries (lines_truncate m k)) = take k (expand (lm_entries m))"
proof -
  have pos: "\<forall>e \<in> set (lm_entries m). 0 < le_count e" and st: "lm_starts m = starts_from 0 (lm_entries m)"
    using assms(1) by (simp_all add: lines_ok_def)
  obtain es' cutoff where w: "truncate_walk 0 0 (lm_entries m) k = (es', cutoff)"
    by (cases "truncate_walk 0 0 (lm_entries m) k") auto
  from truncate_walk_expand [OF pos assms(2,3), of 0 0] w
  have "expand (case cutoff of None \<Rightarrow> es' | Some n \<Rightarrow> take n es') = take k (expand (lm_entries m))"
    "case cutoff of None \<Rightarrow> es' = lm_entries m | Some n \<Rightarrow>
       take n (starts_from 0 (lm_entries m)) = starts_from 0 (take n es') \<and> (\<forall>e \<in> set (take n es'). 0 < le_count e)"
    by (auto split: option.splits)
  then show ?thesis
    using pos st by (cases cutoff) (auto simp: lines_truncate_def w lines_ok_def)
qed

theorem lines_truncate_exact_witness:
  "expand (lm_entries (lines_truncate
     \<lparr>lm_entries = [\<lparr>le_count = 3, le_line = 1, le_scope = 0\<rparr>], lm_starts = [0]\<rparr> 2)) = [(1, 0), (1, 0)]"
proof -
  let ?m = "\<lparr>lm_entries = [\<lparr>le_count = 3, le_line = 1, le_scope = 0\<rparr>], lm_starts = [0]\<rparr>"
  have ok: "lines_ok ?m" by (simp add: lines_ok_def)
  have e: "expand (lm_entries ?m) = [(1, 0), (1, 0), (1, 0)]" by (simp add: numeral_3_eq_3)
  have t: "take 2 (expand (lm_entries ?m)) = [(1, 0), (1, 0)]" "length (expand (lm_entries ?m)) = 3"
    unfolding e by (simp_all add: numeral_2_eq_2)
  show ?thesis using lines_truncate_exact [OF ok, of 2] unfolding t by simp
qed

section \<open>The constant pool\<close>

definition pool_ok :: "chunk \<Rightarrow> bool" where
  "pool_ok c \<longleftrightarrow> length (ch_constants c) \<le> MAX_CONSTANTS \<and>
     (\<forall>e i. ch_constants_map c e = Some i \<longleftrightarrow> list_get (ch_constants c) (unat i) = Some e)"

lemma pool_ok_new: "pool_ok chunk_new"
  by (simp add: pool_ok_def chunk_new_def)

lemma unat_const_index: "n < MAX_CONSTANTS \<Longrightarrow> unat (word_of_nat n :: u16) = n"
  by (simp add: MAX_CONSTANTS_def unsigned_of_nat take_bit_nat_eq_self)

lemma pool_index_bound:
  "length cs \<le> MAX_CONSTANTS \<Longrightarrow> list_get cs (unat (i::u16)) = Some e \<Longrightarrow> i \<noteq> 0xFFFF"
  by (auto simp: MAX_CONSTANTS_def list_get_Some_iff)

lemma pool_map_None: "pool_ok c \<Longrightarrow> ch_constants_map c e = None \<Longrightarrow> e \<notin> set (ch_constants c)"
proof
  assume ok: "pool_ok c" and none: "ch_constants_map c e = None" and "e \<in> set (ch_constants c)"
  then obtain i where i: "i < length (ch_constants c)" "ch_constants c ! i = e" by (auto simp: in_set_conv_nth)
  then have "i < MAX_CONSTANTS" using ok by (simp add: pool_ok_def)
  then have "list_get (ch_constants c) (unat (word_of_nat i :: u16)) = Some e"
    using i by (simp add: unat_const_index list_get_Some_iff)
  then have "ch_constants_map c e = Some (word_of_nat i)" using ok by (simp only: pool_ok_def)
  then show False using none by simp
qed

lemma add_constant_push_ok:
  assumes ok: "pool_ok c" and none: "ch_constants_map c e = None" and n: "length (ch_constants c) < MAX_CONSTANTS"
  shows "pool_ok (c\<lparr>ch_constants := ch_constants c @ [e],
     ch_constants_map := (ch_constants_map c)(e \<mapsto> word_of_nat (length (ch_constants c)))\<rparr>)"
proof -
  let ?n = "length (ch_constants c)"
  have u: "i = word_of_nat ?n \<longleftrightarrow> unat i = ?n" "word_of_nat ?n = i \<longleftrightarrow> unat i = ?n" for i :: u16
    using unat_const_index [OF n] word_unat_eq_iff [of i "word_of_nat ?n"] by auto
  have "list_get (ch_constants c @ [e]) (unat i) = Some x \<longleftrightarrow>
      (unat i = ?n \<and> x = e) \<or> (list_get (ch_constants c) (unat i) = Some x)" for i :: u16 and x
    by (auto simp: list_get_def nth_append)
  moreover have "list_get (ch_constants c) (unat i) \<noteq> Some e" for i :: u16
    using pool_map_None [OF ok none] list_get_in_set by metis
  ultimately show ?thesis
    using ok n by (auto simp: pool_ok_def u unat_const_index)
qed

text \<open>
  C31: the constant pool interns: adding an entry keeps the pool's invariant and the indices
  already handed out, the index returned names the entry, adding it again returns the same
  index and changes nothing, and the reserved index 0xFFFF is returned only when the pool is
  full, in which case the overflow flag is set.
\<close>

theorem add_constant_interns:
  assumes "pool_ok c" "add_constant c e = (c', i)"
  shows "pool_ok c' \<and> (\<exists>t. ch_constants c' = ch_constants c @ t) \<and>
    (if i = 0xFFFF
     then ch_constants_overflowed c' \<and> length (ch_constants c) = MAX_CONSTANTS \<and> e \<notin> set (ch_constants c)
     else list_get (ch_constants c') (unat i) = Some e \<and>
          ch_constants_overflowed c' = ch_constants_overflowed c \<and> add_constant c' e = (c', i))"
proof (cases "ch_constants_map c e")
  case (Some j)
  with assms have "c' = c" "i = j" by (simp_all add: add_constant_def)
  moreover have "list_get (ch_constants c) (unat j) = Some e" using assms(1) Some by (auto simp: pool_ok_def)
  ultimately show ?thesis
    using assms pool_index_bound [of "ch_constants c" j e] by (simp add: pool_ok_def)
next
  case None
  show ?thesis
  proof (cases "MAX_CONSTANTS \<le> length (ch_constants c)")
    case True
    with None assms have "c' = c\<lparr>ch_constants_overflowed := True\<rparr>" "i = 0xFFFF"
      by (auto simp: add_constant_def Let_def)
    then show ?thesis using assms(1) True pool_map_None [OF assms(1) None] by (simp add: pool_ok_def)
  next
    case False
    let ?n = "length (ch_constants c)"
    have n: "?n < MAX_CONSTANTS" using False by simp
    from None assms False have c': "c' = c\<lparr>ch_constants := ch_constants c @ [e],
        ch_constants_map := (ch_constants_map c)(e \<mapsto> word_of_nat ?n)\<rparr>" and i: "i = word_of_nat ?n"
      by (auto simp: add_constant_def Let_def)
    have ok': "pool_ok c'" unfolding c' using add_constant_push_ok [OF assms(1) None n] .
    have g: "list_get (ch_constants c') (unat i) = Some e"
      by (simp add: c' i unat_const_index [OF n] list_get_def)
    moreover have "i \<noteq> 0xFFFF" using pool_index_bound [OF _ g] ok' by (simp add: pool_ok_def)
    ultimately show ?thesis using ok' by (simp add: add_constant_def) (simp add: c' i)
  qed
qed

theorem add_constant_interns_witness:
  "pool_ok chunk_new \<and> snd (add_constant chunk_new (PoolLiteral LitNull)) = 0"
proof -
  obtain c' i where a: "add_constant chunk_new (PoolLiteral LitNull) = (c', i)" by (rule prod.exhaust)
  have "length (ch_constants chunk_new) \<noteq> MAX_CONSTANTS" by (simp add: chunk_new_def MAX_CONSTANTS_def)
  with add_constant_interns [OF pool_ok_new a] have "i \<noteq> 0xFFFF" by (auto split: if_splits)
  moreover have "i = 0" using a by (simp add: add_constant_def chunk_new_def MAX_CONSTANTS_def)
  ultimately show ?thesis using a pool_ok_new by simp
qed

section \<open>What is emitted is what is decoded\<close>

lemma pack_eq: "pack = pack_bytes"
  by (intro ext) (simp add: pack_def pack_bytes_def)

lemma pack_op_eq: "pack_op op reg = pack_bytes reg (opcode_as_u8 op)"
  by (simp add: pack_op_def pack_bytes_def op_word_def)

lemma op_word_eq: "op_word op = pack_bytes 0 (opcode_as_u8 op)"
  by (simp add: pack_bytes_def op_word_def)

lemma ch_code_write [simp]: "ch_code (chunk_write c w line) = ch_code c @ [w]"
  by (simp add: chunk_write_def)

lemma code_word_append [simp]: "code_word (xs @ ys) (length xs + i) = code_word ys i"
  by (simp add: code_word_def list_get_append)

lemma code_word_append0 [simp]: "code_word (xs @ ys) (length xs) = code_word ys 0"
  using code_word_append [of xs ys 0] by simp

lemma code_word_simps [simp]:
  "code_word (w # ws) 0 = w" "code_word (w # ws) (Suc i) = code_word ws i"
  "code_word (w # ws) (numeral k) = code_word ws (pred_numeral k)"
  by (simp_all add: code_word_def)

lemma byte_read_append: "byte_read b (xs @ ys) (length xs) = byte_read b ys 0"
  by (simp add: byte_read_def)

lemma layout_at_append: "layout_at (xs @ ys) (length xs) cs = layout_at ys 0 cs"
proof -
  have g: "list_get (xs @ ys) (length xs) = list_get ys 0" by (simp add: list_get_append)
  have w: "(\<lambda>i. unat (at_read (AtWord i) (xs @ ys) (length xs))) = (\<lambda>i. unat (at_read (AtWord i) ys 0))"
    by simp
  show ?thesis unfolding layout_at_def byte_read_append g w by (rule refl)
qed

lemma layout_at_first:
  "lo_byte w = opcode_as_u8 op \<Longrightarrow>
   layout_at (w # ws) 0 cs =
     (let (len, operands) = layout_body op (\<lambda>b. unat (byte_read b (w # ws) 0)) (\<lambda>i. unat (code_word (w # ws) i)) cs
      in Some \<lparr>l_op = op, l_len = len, l_operands = operands\<rparr>)"
  by (simp add: layout_at_def opcode_from_u16_def opc.dec_enc)

lemma byte_read_at [simp]:
  "byte_read (at_hi i) code 0 = hi_byte (code_word code i)"
  "byte_read (at_lo i) code 0 = lo_byte (code_word code i)"
  by (simp_all add: at_hi_def at_lo_def byte_read_hi byte_read_lo)

text \<open>
  C17: a backward jump is emitted with the right distance: the instruction appended by
  \<open>emit_loop\<close> is laid out as a \<open>Loop\<close> whose target, computed by the reader from the two
  distance words, is exactly the loop start; emission panics only for a distance that does
  not fit 32 bits.
\<close>

theorem emit_loop_target:
  assumes "loop_start \<le> chunk_len c" "chunk_len c < 2 ^ 63"
  shows "case emit_loop c loop_start line of
           None \<Rightarrow> 2 ^ 32 \<le> chunk_len c - loop_start + 3
         | Some c' \<Rightarrow> \<exists>l. layout_at (ch_code c') (chunk_len c) cs = Some l \<and> l_op l = O_Loop \<and>
             chunk_len c' = chunk_len c + l_len l \<and>
             jump_target l (ch_code c') (chunk_len c) = Some loop_start"
proof (cases "chunk_len c - loop_start + 3 < 2 ^ 32")
  case False
  then have "emit_loop c loop_start line = None"
    by (simp only: emit_loop_def chunk_len_def Let_def if_False)
  with False show ?thesis by simp
next
  case True
  let ?d = "chunk_len c - loop_start + 3" and ?ws = "[op_word O_Loop, dist_hi (chunk_len c - loop_start + 3), dist_lo (chunk_len c - loop_start + 3)]"
  from True obtain c' where c': "emit_loop c loop_start line = Some c'" and code: "ch_code c' = ch_code c @ ?ws"
    by (simp add: emit_loop_def chunk_len_def Let_def del: add_diff_assoc2 diff_add_assoc2)
  have l: "layout_at (ch_code c') (chunk_len c) cs = Some \<lparr>l_op = O_Loop, l_len = 3, l_operands = [jump_op 1 True]\<rparr>"
    unfolding code chunk_len_def layout_at_append
    by (subst layout_at_first [of _ O_Loop]) (simp_all add: op_word_eq layout_body_def)
  have "?d div 2 ^ 16 < 2 ^ 16" using True by (simp add: less_mult_imp_div_less)
  then have hi: "unat (dist_hi ?d) = ?d div 2 ^ 16"
    by (simp only: dist_hi_def unsigned_of_nat) (simp add: take_bit_nat_eq_self)
  have lo: "unat (dist_lo ?d) = ?d mod 2 ^ 16"
    by (simp only: dist_lo_def unsigned_of_nat) (simp add: take_bit_nat_eq_self)
  have "unat (code_word (ch_code c') (chunk_len c + 1)) * 2 ^ 16 + unat (code_word (ch_code c') (chunk_len c + 2)) = ?d"
    unfolding code chunk_len_def code_word_append using hi lo
    by (simp only: code_word_simps One_nat_def numeral_2_eq_2 chunk_len_def div_mult_mod_eq)
  moreover have "(chunk_len c + 3 + 2 ^ 64 - ?d) mod 2 ^ 64 = loop_start"
  proof -
    have "chunk_len c + 3 + 2 ^ 64 - ?d = loop_start + 2 ^ 64" using assms by simp
    moreover have "loop_start < 2 ^ 64" using assms by simp
    ultimately show ?thesis by (metis mod_add_self2 mod_less)
  qed
  ultimately have "jump_target \<lparr>l_op = O_Loop, l_len = 3, l_operands = [jump_op 1 True]\<rparr> (ch_code c') (chunk_len c) = Some loop_start"
    by (simp add: jump_target_def jump_op_def Let_def)
  then show ?thesis using l c' by (simp add: chunk_len_def code)
qed

theorem emit_loop_target_witness:
  "emit_loop (chunk_write chunk_new 0 1) 0 1 \<noteq> None"
  using emit_loop_target [where loop_start = 0 and c = "chunk_write chunk_new 0 1" and line = 1 and cs = "[]"]
  by (simp add: chunk_len_def chunk_new_def split: option.splits)

definition reg3 :: "opcode \<Rightarrow> bool" where
  "reg3 op \<longleftrightarrow> layout_body op (\<lambda>_. 0) (\<lambda>_. 0) [] = (2, [wr (at_hi 0), rd (at_hi 1), rd (at_lo 1)])"

lemma reg3_layout: "reg3 op \<Longrightarrow> layout_body op byte word cs = (2, [wr (at_hi 0), rd (at_hi 1), rd (at_lo 1)])"
  by (cases op) (simp_all add: reg3_def layout_body_def Let_def, simp_all add: bytecode_defs)

text \<open>
  A three-register instruction round trips: for each of the operators with a destination and
  two sources, the words appended by \<open>emit_rrr\<close> decode to a two-word instruction that defines
  the destination and uses exactly the two sources, in order, and the code before is kept.
\<close>

theorem emit_rrr_decodes:
  assumes "reg3 op"
  shows "\<exists>info. decode (ch_code (emit_rrr c op dest s1 s2 line)) (chunk_len c) cs = Some info \<and>
           ii_len info = 2 \<and> ii_def info = Some dest \<and> ii_uses info = [s1, s2] \<and>
           take (chunk_len c) (ch_code (emit_rrr c op dest s1 s2 line)) = ch_code c"
proof -
  have code: "ch_code (emit_rrr c op dest s1 s2 line) = ch_code c @ [pack_op op dest, pack s1 s2]"
    by (simp add: emit_rrr_def)
  have "layout_at (ch_code c @ [pack_op op dest, pack s1 s2]) (length (ch_code c)) cs =
      Some \<lparr>l_op = op, l_len = 2, l_operands = [wr (at_hi 0), rd (at_hi 1), rd (at_lo 1)]\<rparr>"
    unfolding layout_at_append
    by (subst layout_at_first [of _ op]) (simp_all add: pack_op_eq reg3_layout [OF assms])
  then show ?thesis
    by (simp add: code decode_def chunk_len_def wr_def rd_def byte_read_append pack_op_eq pack_eq)
qed

theorem emit_rrr_decodes_witness:
  "reg3 O_AddInt \<and>
   (\<exists>info. decode (ch_code (emit_rrr chunk_new O_AddInt 1 2 3 1)) 0 [] = Some info \<and> ii_uses info = [2, 3])"
proof -
  have "reg3 O_AddInt" by (simp add: reg3_def layout_body_def)
  from this emit_rrr_decodes [OF this, of chunk_new 1 2 3 1 "[]"] show ?thesis
    by (auto simp: chunk_len_def chunk_new_def)
qed

end
