(* ===== verification/Show_Text.thy ===== *)
theory Show_Text
  imports Main
begin

text \<open>
  Decimal text of a number, as \<open>Display\<close> prints it, and its reading (\<open>FromStr\<close> on well-formed
  text). The disassembler prints with it; big integer constants travel as such text.
\<close>

definition digit_char :: "nat \<Rightarrow> char" where
  "digit_char d = char_of (48 + d)"

fun show_nat :: "nat \<Rightarrow> string" where
  "show_nat n = (if n < 10 then [digit_char n] else show_nat (n div 10) @ [digit_char (n mod 10)])"

declare show_nat.simps [simp del]

definition show_int :: "int \<Rightarrow> string" where
  "show_int i = (if i < 0 then ''-'' @ show_nat (nat (- i)) else show_nat (nat i))"

definition parse_nat :: "string \<Rightarrow> nat" where
  "parse_nat s = foldl (\<lambda>a c. 10 * a + (of_char c - 48)) 0 s"

definition parse_int :: "string \<Rightarrow> int option" where
  "parse_int s =
     (if take 1 s = ''-'' then Some (- int (parse_nat (drop 1 s))) else Some (int (parse_nat s)))"

lemma of_char_digit: "d < 10 \<Longrightarrow> of_char (digit_char d) = (48 + d :: nat)"
  by (simp add: digit_char_def)

lemma parse_show_nat: "parse_nat (show_nat n) = n"
proof (induction n rule: show_nat.induct)
  case (1 n)
  show ?case
  proof (cases "n < 10")
    case True
    then show ?thesis by (simp add: show_nat.simps [of n] parse_nat_def of_char_digit)
  next
    case False
    then have "parse_nat (show_nat n) = 10 * parse_nat (show_nat (n div 10)) + n mod 10"
      by (subst show_nat.simps) (simp add: parse_nat_def of_char_digit)
    then show ?thesis using 1 False by simp
  qed
qed

lemma show_nat_digit: "\<exists>d ds. show_nat n = digit_char d # ds \<and> d < 10"
proof (induction n rule: show_nat.induct)
  case (1 n)
  then show ?case
    by (cases "n < 10") (auto simp: show_nat.simps [of n])
qed

lemma digit_not_minus: "d < 10 \<Longrightarrow> digit_char d \<noteq> CHR ''-''"
proof
  assume "d < 10" "digit_char d = CHR ''-''"
  then have "(48 + d :: nat) = of_char (CHR ''-'')" using of_char_digit by metis
  then show False by simp
qed

lemma parse_show_int: "parse_int (show_int n) = Some n"
proof (cases "n < 0")
  case True
  then show ?thesis by (simp add: show_int_def parse_int_def parse_show_nat)
next
  case False
  obtain d ds where "show_nat (nat n) = digit_char d # ds" "d < 10"
    using show_nat_digit by blast
  then show ?thesis
    using False digit_not_minus [of d] parse_show_nat [of "nat n"]
    by (simp add: show_int_def parse_int_def)
qed

end
