(* ===== verification/Disasm.thy ===== *)
theory Disasm
  imports Chunk Show_Text
begin

text \<open>
  The disassembler, \<open>crates/varn-types/src/bytecode/disasm.rs\<close>: the operand text of one
  instruction and the listing of a chunk. The theorems show that the listing walks the code
  without gaps and always ends, and that an operator with an infix symbol is always printed
  in infix form.
\<close>

section \<open>Number formatting\<close>

text \<open>\<open>{:04}\<close>: at least four digits.\<close>

definition show_nat_04 :: "nat \<Rightarrow> string" where
  "show_nat_04 n = replicate (4 - length (show_nat n)) (CHR ''0'') @ show_nat n"

definition hex_char :: "nat \<Rightarrow> char" where
  "hex_char d = (if d < 10 then char_of (48 + d) else char_of (87 + d))"

fun show_hex :: "nat \<Rightarrow> string" where
  "show_hex n = (if n < 16 then [hex_char n] else show_hex (n div 16) @ [hex_char (n mod 16)])"

declare show_hex.simps [simp del]

text \<open>\<open>{:#0w x}\<close>: the prefix counts towards the width.\<close>

definition show_hex_width :: "nat \<Rightarrow> nat \<Rightarrow> string" where
  "show_hex_width width n =
     ''0x'' @ replicate (width - 2 - length (show_hex n)) (CHR ''0'') @ show_hex n"

fun join :: "string \<Rightarrow> string list \<Rightarrow> string" where
  "join sep [] = ''''"
| "join sep [x] = x"
| "join sep (x # y # rest) = x @ sep @ join sep (y # rest)"

section \<open>Operand text\<close>

primrec value_conv_debug :: "value_conv \<Rightarrow> string" where
  "value_conv_debug IntToFloat = ''IntToFloat''"
| "value_conv_debug FloatToInt = ''FloatToInt''"
| "value_conv_debug IntToBigInt = ''IntToBigInt''"
| "value_conv_debug BigIntToInt = ''BigIntToInt''"
| "value_conv_debug IntToDecimal = ''IntToDecimal''"
| "value_conv_debug DecimalToInt = ''DecimalToInt''"
| "value_conv_debug DynToInt = ''DynToInt''"
| "value_conv_debug DynToFloat = ''DynToFloat''"
| "value_conv_debug BigIntToFloat = ''BigIntToFloat''"
| "value_conv_debug FloatToBigInt = ''FloatToBigInt''"
| "value_conv_debug DecimalToFloat = ''DecimalToFloat''"
| "value_conv_debug FloatToDecimal = ''FloatToDecimal''"
| "value_conv_debug BigIntToDecimal = ''BigIntToDecimal''"
| "value_conv_debug DecimalToBigInt = ''DecimalToBigInt''"
| "value_conv_debug ExpectStr = ''ExpectStr''"
| "value_conv_debug ExpectBool = ''ExpectBool''"
| "value_conv_debug ExpectStrOrNull = ''ExpectStrOrNull''"
| "value_conv_debug ExpectBoolOrNull = ''ExpectBoolOrNull''"
| "value_conv_debug ExpectInt = ''ExpectInt''"
| "value_conv_debug ExpectFloat = ''ExpectFloat''"
| "value_conv_debug ExpectIntOrNull = ''ExpectIntOrNull''"
| "value_conv_debug ExpectFloatOrNull = ''ExpectFloatOrNull''"
| "value_conv_debug ExpectRef = ''ExpectRef''"

definition imm_text :: "at_loc \<Rightarrow> imm_kind \<Rightarrow> code \<Rightarrow> nat \<Rightarrow> string option" where
  "imm_text at kind code offset =
     (let v = at_read at code offset
      in case kind of
           ImmInt \<Rightarrow>
             Some (case at of
                     AtByte _ \<Rightarrow> show_int (sint (ucast v :: 8 word))
                   | AtWord _ \<Rightarrow> show_int (sint v))
         | ImmCount \<Rightarrow> None
         | ImmUpvalue \<Rightarrow> Some (''uv'' @ show_nat (unat v))
         | ImmCallSite \<Rightarrow> Some (''ic'' @ show_nat (unat v))
         | ImmGlobalSlot \<Rightarrow> Some (''global@'' @ show_nat (unat v))
         | ImmNativeGlobalSlot \<Rightarrow> Some (''native@'' @ show_nat (unat v))
         | ImmModuleSlot \<Rightarrow> Some (''slot'' @ show_nat (unat v))
         | ImmFieldSlot \<Rightarrow> Some (''field'' @ show_nat (unat v))
         | ImmFieldOffset \<Rightarrow> Some (''+'' @ show_nat (unat v))
         | ImmTag \<Rightarrow>
             Some (case runtime_kind_from_u8 (ucast v) of
                     Some kind \<Rightarrow> '':'' @ runtime_kind_name kind
                   | None \<Rightarrow> '':dynamic'')
         | ImmConv \<Rightarrow>
             Some (case value_conv_from_u8 (ucast v) of
                     Some conv \<Rightarrow> value_conv_debug conv
                   | None \<Rightarrow> ''conv'' @ show_nat (unat v))
         | ImmIntrinsic \<Rightarrow> Some (''math'' @ show_hex_width 4 (unat v))
         | ImmFlag \<Rightarrow> Some (''flag'' @ show_nat (unat v)))"

definition reg_text :: "u8 \<Rightarrow> string" where
  "reg_text r = ''r'' @ show_nat (unat r)"

text \<open>The arrow of a jump target is the three UTF-8 bytes of U+2192.\<close>

definition arrow :: string where
  "arrow = [char_of (0xE2::nat), char_of (0x86::nat), char_of (0x92::nat)]"

text \<open>One operand: the destination it sets and the argument it appends.\<close>

fun operand_text ::
  "layout \<Rightarrow> code \<Rightarrow> nat \<Rightarrow> string option \<times> string list \<Rightarrow> operand \<Rightarrow> string option \<times> string list" where
  "operand_text l code offset (dest, args) (OReg at acc) =
     (let reg = reg_text (byte_read at code offset)
      in (if acc \<noteq> AccRead then Some reg else dest,
          if acc \<noteq> AccWrite then args @ [reg] else args))"
| "operand_text l code offset (dest, args) (OFixed reg acc) =
     (if acc \<noteq> AccRead then Some (reg_text reg) else dest,
      if acc \<noteq> AccWrite then args @ [reg_text reg] else args)"
| "operand_text l code offset (dest, args) (ORun start count kind) =
     (let first = unat (byte_read start code offset)
      in (dest, args @ [if count = 0 then ''()''
                        else if count = 1 then ''(r'' @ show_nat first @ '')''
                        else ''(r'' @ show_nat first @ ''..r'' @ show_nat (first + count - 1) @ '')'']))"
| "operand_text l code offset (dest, args) (OConst word kind) =
     (dest, args @ [''#'' @ show_nat (unat (at_read (AtWord word) code offset))])"
| "operand_text l code offset (dest, args) (OImm at kind) =
     (dest, args @ (case imm_text at kind code offset of Some t \<Rightarrow> [t] | None \<Rightarrow> []))"
| "operand_text l code offset (dest, args) (OJump word backward) =
     (dest, args @ (case jump_target l code offset of
                      Some target \<Rightarrow> [arrow @ '' '' @ show_nat_04 target]
                    | None \<Rightarrow> []))"

definition operands_body :: "opcode \<Rightarrow> string list \<Rightarrow> string" where
  "operands_body op args =
     (case implied op of
        Some v \<Rightarrow> v
      | None \<Rightarrow>
          (case (infix_sym op, args) of
             (Some symb, [a, b]) \<Rightarrow> a @ '' '' @ symb @ '' '' @ b
           | _ \<Rightarrow>
               (case (prefix_sym op, args) of
                  (Some symb, [a]) \<Rightarrow> symb @ a
                | _ \<Rightarrow> join '', '' args)))"

definition operands_text :: "layout \<Rightarrow> code \<Rightarrow> nat \<Rightarrow> string" where
  "operands_text l code offset =
     (let (dest, args) = foldl (operand_text l code offset) (None, []) (l_operands l);
          body = operands_body (l_op l) args
      in case dest of
           Some d \<Rightarrow> if body = '''' then d else d @ '' = '' @ body
         | None \<Rightarrow> body)"

section \<open>The listing\<close>

record instr =
  in_offset :: nat
  in_line :: nat
  in_op :: "opcode option"
  in_len :: nat
  in_text :: string
  in_constants :: "nat list"

definition instr_at :: "chunk \<Rightarrow> nat \<Rightarrow> instr" where
  "instr_at c offset =
     (let code = ch_code c; line = get_line (ch_lines c) offset
      in case layout_at code offset (ch_constants c) of
           Some l \<Rightarrow>
             \<lparr>in_offset = offset, in_line = line, in_op = Some (l_op l), in_len = l_len l,
              in_text = operands_text l code offset,
              in_constants = List.map_filter (\<lambda>opd. case opd of
                 OConst word _ \<Rightarrow> Some (unat (at_read (AtWord word) code offset))
               | _ \<Rightarrow> None) (l_operands l)\<rparr>
         | None \<Rightarrow>
             \<lparr>in_offset = offset, in_line = line, in_op = None, in_len = 1,
              in_text = ''raw '' @ show_hex_width 6 (unat (code ! offset)), in_constants = []\<rparr>)"

lemma instr_at_len: "0 < in_len (instr_at c offset)"
  by (auto simp: instr_at_def Let_def layout_at_len_pos split: option.splits)

function instructions_from :: "chunk \<Rightarrow> nat \<Rightarrow> instr list" where
  "instructions_from c offset =
     (if offset < length (ch_code c)
      then instr_at c offset # instructions_from c (offset + in_len (instr_at c offset))
      else [])"
  by pat_completeness auto
termination
  by (relation "measure (\<lambda>(c, offset). length (ch_code c) - offset)")
     (auto intro: diff_less_mono2 simp: instr_at_len)

declare instructions_from.simps [simp del]

definition instructions :: "chunk \<Rightarrow> instr list" where
  "instructions c = instructions_from c 0"

section \<open>The listing covers the code\<close>

fun contiguous :: "nat \<Rightarrow> instr list \<Rightarrow> nat \<Rightarrow> bool" where
  "contiguous start [] fin \<longleftrightarrow> fin \<le> start"
| "contiguous start (i # rest) fin \<longleftrightarrow>
     in_offset i = start \<and> start < fin \<and> 0 < in_len i \<and> contiguous (start + in_len i) rest fin"

lemma instructions_from_contiguous:
  "contiguous offset (instructions_from c offset) (length (ch_code c))"
proof (induction c offset rule: instructions_from.induct)
  case (1 c offset)
  have "in_offset (instr_at c offset) = offset"
    by (simp add: instr_at_def Let_def split: option.splits)
  with 1 show ?case
    by (subst instructions_from.simps) (auto simp: instr_at_len)
qed

lemma instructions_from_mem: "i \<in> set (instructions_from c offset) \<Longrightarrow> \<exists>p < length (ch_code c). i = instr_at c p"
proof (induction c offset rule: instructions_from.induct)
  case (1 c offset)
  show ?case
  proof (cases "offset < length (ch_code c)")
    case True
    with 1(2) have "i = instr_at c offset \<or> i \<in> set (instructions_from c (offset + in_len (instr_at c offset)))"
      by (subst (asm) instructions_from.simps) simp
    then show ?thesis using 1(1) [OF True] True by blast
  next
    case False
    then show ?thesis using 1(2) by (subst (asm) instructions_from.simps) simp
  qed
qed

text \<open>
  C32: the listing of a chunk is total and gapless: every instruction starts where the previous
  one ends, from offset 0 past the last word, unknown opcodes being listed as one raw word;
  and each entry reports the opcode and length of the layout at its offset.
\<close>

theorem instructions_cover:
  "contiguous 0 (instructions c) (length (ch_code c)) \<and>
   (\<forall>i \<in> set (instructions c).
      (case layout_at (ch_code c) (in_offset i) (ch_constants c) of
         Some l \<Rightarrow> in_op i = Some (l_op l) \<and> in_len i = l_len l
       | None \<Rightarrow> in_op i = None \<and> in_len i = 1))"
proof -
  have "case layout_at (ch_code c) (in_offset (instr_at c p)) (ch_constants c) of
         Some l \<Rightarrow> in_op (instr_at c p) = Some (l_op l) \<and> in_len (instr_at c p) = l_len l
       | None \<Rightarrow> in_op (instr_at c p) = None \<and> in_len (instr_at c p) = 1" for p
    by (cases "layout_at (ch_code c) p (ch_constants c)") (simp_all add: instr_at_def Let_def)
  then show ?thesis
    using instructions_from_contiguous [of 0 c] instructions_from_mem [of _ c 0]
    unfolding instructions_def by blast
qed

theorem instructions_cover_witness:
  "instr_at (chunk_write chunk_new 0xFFFF 1) 0 \<in> set (instructions (chunk_write chunk_new 0xFFFF 1)) \<and>
   in_op (instr_at (chunk_write chunk_new 0xFFFF 1) 0) = None"
proof -
  let ?c = "chunk_write chunk_new 0xFFFF 1"
  have code: "ch_code ?c = [0xFFFF]" by (simp add: chunk_new_def)
  then have m: "instr_at ?c 0 \<in> set (instructions ?c)"
    unfolding instructions_def by (subst instructions_from.simps) simp
  have "opcode_from_u16 0xFFFF = None"
    by (simp add: opcode_from_u16_def opc.dec_dom lo_byte_def)
  then have "layout_at (ch_code ?c) 0 (ch_constants ?c) = None"
    unfolding code by (simp add: layout_at_def)
  moreover have "in_offset (instr_at ?c 0) = 0" by (simp add: instr_at_def Let_def split: option.splits)
  ultimately show ?thesis using bspec [OF conjunct2 [OF instructions_cover] m] m by simp
qed

section \<open>Infix operators\<close>

lemma infix_layout:
  "infix_sym op = Some symb \<Longrightarrow> implied op = None \<and>
     (snd (layout_body op byte word cs) = [wr (at_hi 0), rd (at_hi 1), rd (at_lo 1)] \<or>
      snd (layout_body op byte word cs) = [wr (at_hi 0), rd (at_hi 1), imm_byte (at_lo 1) ImmInt])"
  by (cases op) (simp_all add: infix_sym_def implied_def layout_body_def)

lemma ucast_byte_word [simp]: "(ucast (ucast (v :: u8) :: u16) :: u8) = v"
  by (rule bit_word_eqI) (auto simp: bit_simps)

text \<open>
  An operator with an infix symbol is always printed as \<open>dest = a symb b\<close>: for each of
  these opcodes the layout has exactly one destination and two printed arguments, so the
  guard on the number of arguments never falls through to the comma-separated form.
\<close>

theorem operands_text_infix:
  assumes "layout_at code offset cs = Some l" "infix_sym (l_op l) = Some symb"
  shows "\<exists>b \<in> {reg_text (byte_read (at_lo 1) code offset), show_int (sint (byte_read (at_lo 1) code offset))}.
           operands_text l code offset =
             reg_text (byte_read (at_hi 0) code offset) @ '' = '' @
             reg_text (byte_read (at_hi 1) code offset) @ '' '' @ symb @ '' '' @ b"
proof -
  have "implied (l_op l) = None \<and>
      (l_operands l = [wr (at_hi 0), rd (at_hi 1), rd (at_lo 1)] \<or>
       l_operands l = [wr (at_hi 0), rd (at_hi 1), imm_byte (at_lo 1) ImmInt])"
    using layout_at_Some(3) [OF assms(1)] infix_layout [OF assms(2)] by (metis snd_conv)
  then show ?thesis
    using assms(2)
    by (auto simp: operands_text_def operands_body_def Let_def rd_def wr_def imm_byte_def imm_text_def
        intro: exI)
qed

theorem operands_text_infix_witness:
  "\<exists>b. operands_text \<lparr>l_op = O_AddInt, l_len = 2, l_operands = [wr (at_hi 0), rd (at_hi 1), rd (at_lo 1)]\<rparr>
     [pack_op O_AddInt 2, 0x304] 0 = reg_text 2 @ '' = '' @ reg_text 3 @ '' '' @ ''+'' @ '' '' @ b"
proof -
  have l: "layout_at [pack_op O_AddInt 2, 0x304] 0 [] =
      Some \<lparr>l_op = O_AddInt, l_len = 2, l_operands = [wr (at_hi 0), rd (at_hi 1), rd (at_lo 1)]\<rparr>"
    by (subst layout_at_first [of _ O_AddInt]) (simp_all add: pack_op_eq layout_body_def)
  have "byte_read (at_hi 0) [pack_op O_AddInt 2, 0x304] 0 = 2" "byte_read (at_hi 1) [pack_op O_AddInt 2, 0x304] 0 = 3"
    by (simp_all add: pack_op_eq) (simp add: hi_byte_def)
  with operands_text_infix [OF l, of "''+''"] show ?thesis by (auto simp: infix_sym_def)
qed

end
