(* ===== verification/Ssa_Ir.thy ===== *)
theory Ssa_Ir
  imports Chunk
begin

text \<open>
  The SSA form of \<open>crates/varn-compiler/src/ssa/ir/*.rs\<close> and its operand traversals
  \<open>ssa/uses.rs\<close>. A value and a block are positions in the vectors of the function. The
  traversal \<open>inst_uses\<close> is written once in the source, by a macro instantiated for reading
  and for rewriting; here reading is \<open>inst_uses\<close> and rewriting is \<open>map_uses\<close>, and the law
  that ties them is the first lemma.
\<close>

type_synonym val = nat
type_synonym block_id = nat
type_synonym local_id = nat
type_synonym u32 = "32 word"

datatype var_id = V_Param u32 | V_Local local_id

datatype type_literal = TL_Int i64 | TL_Str nat | TL_Bool bool | TL_Char nat

datatype dyn_reason =
    D_HostBoundary | D_Union | D_IndexSignature | D_Declared | D_Callable | D_Awaitable nat
  | D_Yields nat | D_Range nat | D_TaskHandle nat | D_ClassObject nat | D_CoreMember | D_Spread
  | D_Interface nat | D_Shape nat | D_Unrecorded | D_Generic | D_Boxed | D_Runtime

datatype backend_ty =
    Ty_Literal type_literal | Ty_Int | Ty_Float | Ty_Bool | Ty_Char | Ty_Str | Ty_Bytes
  | Ty_Decimal | Ty_BigInt | Ty_Array nat | Ty_Map nat nat | Ty_Dict nat | Ty_Set nat
  | Ty_Tuple nat | Ty_Class nat | Ty_Enum nat | Ty_Fn nat | Ty_Nullable nat | Ty_Void | Ty_Never
  | Ty_Dynamic dyn_reason

fun representation :: "backend_ty \<Rightarrow> backend_ty" where
  "representation (Ty_Literal (TL_Int _)) = Ty_Int"
| "representation (Ty_Literal (TL_Str _)) = Ty_Str"
| "representation (Ty_Literal (TL_Bool _)) = Ty_Bool"
| "representation (Ty_Literal (TL_Char _)) = Ty_Char"
| "representation other = other"

datatype binop =
    B_Add | B_Sub | B_Mul | B_Div | B_Mod | B_Pow | B_Eq | B_Ne | B_Lt | B_Le | B_Gt | B_Ge
  | B_BitAnd | B_BitOr | B_BitXor | B_Shl | B_Shr | B_Ushr | B_Instanceof | B_In

datatype unop = U_Neg | U_Not | U_BitNot | U_Typeof

datatype upvalue_src = US_ParentLocal local_id | US_ParentParam u32 | US_ParentUpvalue u32

datatype (plugins only: size) inst_kind =
    I_ConstInt i64
  | I_ConstFloat f64
  | I_ConstBool bool
  | I_ConstStr string
  | I_ConstChar nat
  | I_ConstDecimal "int \<times> int"
  | I_ConstBigInt string
  | I_ConstNull
  | I_Binary binop val val backend_ty
  | I_Unary unop val backend_ty
  | I_LoadGlobal string
  | I_LoadGlobalIdx u32
  | I_LoadNativeGlobalIdx u32
  | I_LoadUpvalue u32
  | I_StoreGlobal string val
  | I_StoreGlobalIdx u32 val
  | I_StoreUpvalue u32 val
  | I_Call val "val list"
  | I_AllocInstance val u32
  | I_SelfCall "val list"
  | I_GetProperty val string
  | I_GetFixedField val u16 u32 field_access
  | I_GetIndex val val
  | I_ArrayGetIndex val val
  | I_BytesGetIndex val val
  | I_MapGetIndex val val
  | I_SetProperty val string val
  | I_SetFixedField val val u16 u32 "runtime_kind option"
  | I_SetIndex val val val
  | I_ArraySetIndex val val val
  | I_MapSetIndex val val val
  | I_BytesSetIndex val val val
  | I_ArrayPush val val
  | I_ObjectMerge val val
  | I_MethodCall val string "val list"
  | I_IsNull val
  | I_Cast val backend_ty
  | I_Convert val value_conv
  | I_BuildArray "val list"
  | I_BuildTuple "val list"
  | I_BuildObject "(string \<times> val) list"
  | I_BuildMap "(val \<times> val) list"
  | I_ObjectRest val "string list"
  | I_ToString val
  | I_BuildStr "val list"
  | I_MakeClosure u32 "upvalue_src list"
  | I_LoadCaptured var_id
  | I_StoreCaptured var_id val
  | I_MakeClass string "val option"
  | I_DeclareLayout val class_layout
  | I_DefineStatic val string val
  | I_DefineMethod val string val bool
  | I_DefineAccessor val string val bool bool
  | I_MakeEnumVariant variant_def
  | I_Try block_id
  | I_PopTry
  | I_CatchParam val
  | I_CloseUpvalues "var_id list"
  | I_Dispose local_id bool
  | I_LoadModule string
  | I_StoreModuleSlot val u16
  | I_Await val
  | I_Spawn val
  | I_Yield val
  | I_IntrinsicCall val "val list" u8
  | I_CallNativeOp val "val list" u64
  | I_AssertNotNull val
  | I_GetPropertyMaybe val string
  | I_ModuleSlot val u16
  | I_GetEnumTag val
  | I_IsArray val
  | I_StrLength val
  | I_ArrayLength val
  | I_BytesLength val
  | I_This
  | I_Range val val bool
  | I_ObjectKeys val
  | I_GetSuper string
  | I_SuperCall "val list"
  | I_SuperMethodCall string "val list"
  | I_ExtensionCall string "u32 option" val "val list"
  | I_CallSpread val "(val \<times> bool) list"
  | I_BuildArraySpread "(val \<times> bool) list"
  | I_BuildObjectSpread "(string option \<times> val) list"

datatype terminator =
    T_Return "val option"
  | T_Throw val
  | T_Jump block_id "val list"
  | T_Branch val block_id "val list" block_id "val list"
  | T_Unreachable

record inst =
  i_dest :: "val option"
  i_kind :: inst_kind
  i_line :: nat
  i_scope :: nat

record block =
  bk_params :: "val list"
  bk_insts :: "inst list"
  bk_term :: terminator
  bk_term_line :: nat
  bk_term_scope :: nat
  bk_preds :: "block_id list"

record ssa_func =
  f_name :: string
  f_entry :: block_id
  f_blocks :: "block list"
  f_values :: "backend_ty list"
  f_is_async :: bool
  f_is_generator :: bool
  f_inline_scopes :: "inline_scope list"

definition value_ty :: "ssa_func \<Rightarrow> val \<Rightarrow> backend_ty" where
  "value_ty f v = f_values f ! v"

definition empty_block :: block where
  "empty_block = \<lparr>bk_params = [], bk_insts = [], bk_term = T_Unreachable, bk_term_line = 0,
     bk_term_scope = 0, bk_preds = []\<rparr>"

definition alloc_block :: "ssa_func \<Rightarrow> ssa_func \<times> block_id" where
  "alloc_block f = (f\<lparr>f_blocks := f_blocks f @ [empty_block]\<rparr>, length (f_blocks f))"

section \<open>Operands of an instruction\<close>

primrec inst_uses :: "inst_kind \<Rightarrow> val list" where
  "inst_uses (I_ConstInt n) = []"
| "inst_uses (I_ConstFloat x) = []"
| "inst_uses (I_ConstBool b) = []"
| "inst_uses (I_ConstStr s) = []"
| "inst_uses (I_ConstChar c) = []"
| "inst_uses (I_ConstDecimal d) = []"
| "inst_uses (I_ConstBigInt s) = []"
| "inst_uses I_ConstNull = []"
| "inst_uses (I_Binary op lhs rhs ty) = [lhs, rhs]"
| "inst_uses (I_Unary op operand ty) = [operand]"
| "inst_uses (I_LoadGlobal name) = []"
| "inst_uses (I_LoadGlobalIdx slot) = []"
| "inst_uses (I_LoadNativeGlobalIdx slot) = []"
| "inst_uses (I_LoadUpvalue index) = []"
| "inst_uses (I_StoreGlobal name v) = [v]"
| "inst_uses (I_StoreGlobalIdx slot v) = [v]"
| "inst_uses (I_StoreUpvalue index v) = [v]"
| "inst_uses (I_Call callee args) = callee # args"
| "inst_uses (I_AllocInstance cls psize) = [cls]"
| "inst_uses (I_SelfCall args) = args"
| "inst_uses (I_GetProperty object name) = [object]"
| "inst_uses (I_GetFixedField object slot off tag) = [object]"
| "inst_uses (I_GetIndex object index) = [object, index]"
| "inst_uses (I_ArrayGetIndex object index) = [object, index]"
| "inst_uses (I_BytesGetIndex object index) = [object, index]"
| "inst_uses (I_MapGetIndex object index) = [object, index]"
| "inst_uses (I_SetProperty object name v) = [object, v]"
| "inst_uses (I_SetFixedField object v slot off tag) = [object, v]"
| "inst_uses (I_SetIndex object index v) = [object, index, v]"
| "inst_uses (I_ArraySetIndex object index v) = [object, index, v]"
| "inst_uses (I_MapSetIndex object index v) = [object, index, v]"
| "inst_uses (I_BytesSetIndex object index v) = [object, index, v]"
| "inst_uses (I_ArrayPush array v) = [array, v]"
| "inst_uses (I_ObjectMerge target source) = [target, source]"
| "inst_uses (I_MethodCall recv name args) = recv # args"
| "inst_uses (I_IsNull operand) = [operand]"
| "inst_uses (I_Cast operand ty) = [operand]"
| "inst_uses (I_Convert operand conv) = [operand]"
| "inst_uses (I_BuildArray elements) = elements"
| "inst_uses (I_BuildTuple elements) = elements"
| "inst_uses (I_BuildObject pairs) = map snd pairs"
| "inst_uses (I_BuildMap pairs) = concat (map (\<lambda>p. [fst p, snd p]) pairs)"
| "inst_uses (I_ObjectRest object skip_keys) = [object]"
| "inst_uses (I_ToString operand) = [operand]"
| "inst_uses (I_BuildStr parts) = parts"
| "inst_uses (I_MakeClosure func upvalues_src) = []"
| "inst_uses (I_LoadCaptured var) = []"
| "inst_uses (I_StoreCaptured var v) = [v]"
| "inst_uses (I_MakeClass name super_class) = (case super_class of None \<Rightarrow> [] | Some sc \<Rightarrow> [sc])"
| "inst_uses (I_DeclareLayout cls lay) = [cls]"
| "inst_uses (I_DefineStatic cls name v) = [cls, v]"
| "inst_uses (I_DefineMethod cls name meth is_static) = [cls, meth]"
| "inst_uses (I_DefineAccessor cls name accessor is_getter is_static) = [cls, accessor]"
| "inst_uses (I_MakeEnumVariant def) = []"
| "inst_uses (I_Try handler) = []"
| "inst_uses I_PopTry = []"
| "inst_uses (I_CatchParam try_val) = [try_val]"
| "inst_uses (I_CloseUpvalues targets) = []"
| "inst_uses (I_Dispose target is_await) = []"
| "inst_uses (I_LoadModule source) = []"
| "inst_uses (I_StoreModuleSlot v slot) = [v]"
| "inst_uses (I_Await operand) = [operand]"
| "inst_uses (I_Spawn operand) = [operand]"
| "inst_uses (I_Yield operand) = [operand]"
| "inst_uses (I_IntrinsicCall object args wire_byte) = object # args"
| "inst_uses (I_CallNativeOp object args op_id) = object # args"
| "inst_uses (I_AssertNotNull operand) = [operand]"
| "inst_uses (I_GetPropertyMaybe object name) = [object]"
| "inst_uses (I_ModuleSlot object slot) = [object]"
| "inst_uses (I_GetEnumTag operand) = [operand]"
| "inst_uses (I_IsArray operand) = [operand]"
| "inst_uses (I_StrLength operand) = [operand]"
| "inst_uses (I_ArrayLength operand) = [operand]"
| "inst_uses (I_BytesLength operand) = [operand]"
| "inst_uses I_This = []"
| "inst_uses (I_Range start end_v inclusive) = [start, end_v]"
| "inst_uses (I_ObjectKeys operand) = [operand]"
| "inst_uses (I_GetSuper name) = []"
| "inst_uses (I_SuperCall args) = args"
| "inst_uses (I_SuperMethodCall name args) = args"
| "inst_uses (I_ExtensionCall func slot recv args) = recv # args"
| "inst_uses (I_CallSpread callee args) = callee # map fst args"
| "inst_uses (I_BuildArraySpread elements) = map fst elements"
| "inst_uses (I_BuildObjectSpread parts) = map snd parts"

primrec map_uses :: "(val \<Rightarrow> val) \<Rightarrow> inst_kind \<Rightarrow> inst_kind" where
  "map_uses f (I_ConstInt n) = I_ConstInt n"
| "map_uses f (I_ConstFloat x) = I_ConstFloat x"
| "map_uses f (I_ConstBool b) = I_ConstBool b"
| "map_uses f (I_ConstStr s) = I_ConstStr s"
| "map_uses f (I_ConstChar c) = I_ConstChar c"
| "map_uses f (I_ConstDecimal d) = I_ConstDecimal d"
| "map_uses f (I_ConstBigInt s) = I_ConstBigInt s"
| "map_uses f I_ConstNull = I_ConstNull"
| "map_uses f (I_Binary op lhs rhs ty) = I_Binary op (f lhs) (f rhs) ty"
| "map_uses f (I_Unary op operand ty) = I_Unary op (f operand) ty"
| "map_uses f (I_LoadGlobal name) = I_LoadGlobal name"
| "map_uses f (I_LoadGlobalIdx slot) = I_LoadGlobalIdx slot"
| "map_uses f (I_LoadNativeGlobalIdx slot) = I_LoadNativeGlobalIdx slot"
| "map_uses f (I_LoadUpvalue index) = I_LoadUpvalue index"
| "map_uses f (I_StoreGlobal name v) = I_StoreGlobal name (f v)"
| "map_uses f (I_StoreGlobalIdx slot v) = I_StoreGlobalIdx slot (f v)"
| "map_uses f (I_StoreUpvalue index v) = I_StoreUpvalue index (f v)"
| "map_uses f (I_Call callee args) = I_Call (f callee) (map f args)"
| "map_uses f (I_AllocInstance cls psize) = I_AllocInstance (f cls) psize"
| "map_uses f (I_SelfCall args) = I_SelfCall (map f args)"
| "map_uses f (I_GetProperty object name) = I_GetProperty (f object) name"
| "map_uses f (I_GetFixedField object slot off tag) = I_GetFixedField (f object) slot off tag"
| "map_uses f (I_GetIndex object index) = I_GetIndex (f object) (f index)"
| "map_uses f (I_ArrayGetIndex object index) = I_ArrayGetIndex (f object) (f index)"
| "map_uses f (I_BytesGetIndex object index) = I_BytesGetIndex (f object) (f index)"
| "map_uses f (I_MapGetIndex object index) = I_MapGetIndex (f object) (f index)"
| "map_uses f (I_SetProperty object name v) = I_SetProperty (f object) name (f v)"
| "map_uses f (I_SetFixedField object v slot off tag) =
     I_SetFixedField (f object) (f v) slot off tag"
| "map_uses f (I_SetIndex object index v) = I_SetIndex (f object) (f index) (f v)"
| "map_uses f (I_ArraySetIndex object index v) = I_ArraySetIndex (f object) (f index) (f v)"
| "map_uses f (I_MapSetIndex object index v) = I_MapSetIndex (f object) (f index) (f v)"
| "map_uses f (I_BytesSetIndex object index v) = I_BytesSetIndex (f object) (f index) (f v)"
| "map_uses f (I_ArrayPush array v) = I_ArrayPush (f array) (f v)"
| "map_uses f (I_ObjectMerge target source) = I_ObjectMerge (f target) (f source)"
| "map_uses f (I_MethodCall recv name args) = I_MethodCall (f recv) name (map f args)"
| "map_uses f (I_IsNull operand) = I_IsNull (f operand)"
| "map_uses f (I_Cast operand ty) = I_Cast (f operand) ty"
| "map_uses f (I_Convert operand conv) = I_Convert (f operand) conv"
| "map_uses f (I_BuildArray elements) = I_BuildArray (map f elements)"
| "map_uses f (I_BuildTuple elements) = I_BuildTuple (map f elements)"
| "map_uses f (I_BuildObject pairs) = I_BuildObject (map (\<lambda>p. (fst p, f (snd p))) pairs)"
| "map_uses f (I_BuildMap pairs) = I_BuildMap (map (\<lambda>p. (f (fst p), f (snd p))) pairs)"
| "map_uses f (I_ObjectRest object skip_keys) = I_ObjectRest (f object) skip_keys"
| "map_uses f (I_ToString operand) = I_ToString (f operand)"
| "map_uses f (I_BuildStr parts) = I_BuildStr (map f parts)"
| "map_uses f (I_MakeClosure func upvalues_src) = I_MakeClosure func upvalues_src"
| "map_uses f (I_LoadCaptured var) = I_LoadCaptured var"
| "map_uses f (I_StoreCaptured var v) = I_StoreCaptured var (f v)"
| "map_uses f (I_MakeClass name super_class) = I_MakeClass name (map_option f super_class)"
| "map_uses f (I_DeclareLayout cls lay) = I_DeclareLayout (f cls) lay"
| "map_uses f (I_DefineStatic cls name v) = I_DefineStatic (f cls) name (f v)"
| "map_uses f (I_DefineMethod cls name meth is_static) =
     I_DefineMethod (f cls) name (f meth) is_static"
| "map_uses f (I_DefineAccessor cls name accessor is_getter is_static) =
     I_DefineAccessor (f cls) name (f accessor) is_getter is_static"
| "map_uses f (I_MakeEnumVariant def) = I_MakeEnumVariant def"
| "map_uses f (I_Try handler) = I_Try handler"
| "map_uses f I_PopTry = I_PopTry"
| "map_uses f (I_CatchParam try_val) = I_CatchParam (f try_val)"
| "map_uses f (I_CloseUpvalues targets) = I_CloseUpvalues targets"
| "map_uses f (I_Dispose target is_await) = I_Dispose target is_await"
| "map_uses f (I_LoadModule source) = I_LoadModule source"
| "map_uses f (I_StoreModuleSlot v slot) = I_StoreModuleSlot (f v) slot"
| "map_uses f (I_Await operand) = I_Await (f operand)"
| "map_uses f (I_Spawn operand) = I_Spawn (f operand)"
| "map_uses f (I_Yield operand) = I_Yield (f operand)"
| "map_uses f (I_IntrinsicCall object args wire_byte) =
     I_IntrinsicCall (f object) (map f args) wire_byte"
| "map_uses f (I_CallNativeOp object args op_id) = I_CallNativeOp (f object) (map f args) op_id"
| "map_uses f (I_AssertNotNull operand) = I_AssertNotNull (f operand)"
| "map_uses f (I_GetPropertyMaybe object name) = I_GetPropertyMaybe (f object) name"
| "map_uses f (I_ModuleSlot object slot) = I_ModuleSlot (f object) slot"
| "map_uses f (I_GetEnumTag operand) = I_GetEnumTag (f operand)"
| "map_uses f (I_IsArray operand) = I_IsArray (f operand)"
| "map_uses f (I_StrLength operand) = I_StrLength (f operand)"
| "map_uses f (I_ArrayLength operand) = I_ArrayLength (f operand)"
| "map_uses f (I_BytesLength operand) = I_BytesLength (f operand)"
| "map_uses f I_This = I_This"
| "map_uses f (I_Range start end_v inclusive) = I_Range (f start) (f end_v) inclusive"
| "map_uses f (I_ObjectKeys operand) = I_ObjectKeys (f operand)"
| "map_uses f (I_GetSuper name) = I_GetSuper name"
| "map_uses f (I_SuperCall args) = I_SuperCall (map f args)"
| "map_uses f (I_SuperMethodCall name args) = I_SuperMethodCall name (map f args)"
| "map_uses f (I_ExtensionCall func slot recv args) =
     I_ExtensionCall func slot (f recv) (map f args)"
| "map_uses f (I_CallSpread callee args) =
     I_CallSpread (f callee) (map (\<lambda>p. (f (fst p), snd p)) args)"
| "map_uses f (I_BuildArraySpread elements) =
     I_BuildArraySpread (map (\<lambda>p. (f (fst p), snd p)) elements)"
| "map_uses f (I_BuildObjectSpread parts) =
     I_BuildObjectSpread (map (\<lambda>p. (fst p, f (snd p))) parts)"

text \<open>The operands of a terminator, in the order the traversal visits them.\<close>

fun term_uses :: "terminator \<Rightarrow> val list" where
  "term_uses (T_Return (Some v)) = [v]"
| "term_uses (T_Return None) = []"
| "term_uses (T_Throw v) = [v]"
| "term_uses (T_Jump _ args) = args"
| "term_uses (T_Branch c _ then_args _ else_args) = c # then_args @ else_args"
| "term_uses T_Unreachable = []"

fun map_term :: "(val \<Rightarrow> val) \<Rightarrow> terminator \<Rightarrow> terminator" where
  "map_term f (T_Return r) = T_Return (map_option f r)"
| "map_term f (T_Throw v) = T_Throw (f v)"
| "map_term f (T_Jump t args) = T_Jump t (map f args)"
| "map_term f (T_Branch c t targs e eargs) = T_Branch (f c) t (map f targs) e (map f eargs)"
| "map_term f T_Unreachable = T_Unreachable"

lemma inst_uses_map_uses [simp]: "inst_uses (map_uses f k) = map f (inst_uses k)"
  by (cases k) (auto simp: map_concat comp_def split: option.splits)

lemma term_uses_map_term [simp]: "term_uses (map_term f t) = map f (term_uses t)"
  by (cases t rule: term_uses.cases) auto

lemma map_uses_cong:
  "(\<And>v. v \<in> set (inst_uses k) \<Longrightarrow> f v = g v) \<Longrightarrow> map_uses f k = map_uses g k"
  by (cases k) (auto intro!: option.map_cong0 split: option.splits)

lemma map_uses_map_uses [simp]: "map_uses f (map_uses g k) = map_uses (\<lambda>v. f (g v)) k"
  by (cases k) (auto simp: option.map_comp comp_def)

lemma map_uses_id [simp]: "map_uses (\<lambda>v. v) k = k"
  by (cases k) (auto simp: option.map_ident)

lemma map_term_cong:
  "(\<And>v. v \<in> set (term_uses t) \<Longrightarrow> f v = g v) \<Longrightarrow> map_term f t = map_term g t"
  by (cases t rule: term_uses.cases) auto

lemma map_term_id [simp]: "map_term (\<lambda>v. v) t = t"
  by (cases t) (auto simp: option.map_ident)

section \<open>Rewriting the operands of a function\<close>

definition map_block :: "(val \<Rightarrow> val) \<Rightarrow> block \<Rightarrow> block" where
  "map_block f b = b\<lparr>bk_insts := map (\<lambda>i. i\<lparr>i_kind := map_uses f (i_kind i)\<rparr>) (bk_insts b),
                     bk_term := map_term f (bk_term b)\<rparr>"

definition map_func :: "(val \<Rightarrow> val) \<Rightarrow> ssa_func \<Rightarrow> ssa_func" where
  "map_func f fn = fn\<lparr>f_blocks := map (map_block f) (f_blocks fn)\<rparr>"

definition block_uses :: "block \<Rightarrow> val list" where
  "block_uses b = concat (map (\<lambda>i. inst_uses (i_kind i)) (bk_insts b)) @ term_uses (bk_term b)"

definition func_uses :: "ssa_func \<Rightarrow> val list" where
  "func_uses f = concat (map block_uses (f_blocks f))"

definition replace_all_uses :: "ssa_func \<Rightarrow> val \<Rightarrow> val \<Rightarrow> ssa_func" where
  "replace_all_uses f old new = map_func (\<lambda>v. if v = old then new else v) f"

text \<open>
  \<open>replace_uses_batch\<close> follows a chain of replacements to its end; on a cyclic map its loop
  does not return. The map is an association list with distinct keys.
\<close>

type_synonym val_map = "(val \<times> val) list"

partial_function (option) chase :: "val_map \<Rightarrow> val \<Rightarrow> val option" where
  "chase m v = (case map_of m v of None \<Rightarrow> Some v | Some next \<Rightarrow> chase m next)"

definition replace_uses_batch :: "ssa_func \<Rightarrow> val_map \<Rightarrow> ssa_func option" where
  "replace_uses_batch f m =
     (if m = [] then Some f
      else if list_all (\<lambda>v. chase m v \<noteq> None) (func_uses f)
           then Some (map_func (\<lambda>v. the (chase m v)) f) else None)"

text \<open>
  \<open>replace_uses_with_map\<close> follows the chain too, but stops at a fixed point and after one hop
  more than the map has entries.
\<close>

function hop_loop :: "val_map \<Rightarrow> nat \<Rightarrow> val \<Rightarrow> val" where
  "hop_loop m hops v =
     (case map_of m v of
        None \<Rightarrow> v
      | Some next \<Rightarrow> if next = v \<or> length m < hops then v else hop_loop m (hops + 1) next)"
  by pat_completeness auto
termination by (relation "measure (\<lambda>(m, hops, _). Suc (length m) - hops)") auto

declare hop_loop.simps [simp del]

definition hop :: "val_map \<Rightarrow> val \<Rightarrow> val" where
  "hop m v = hop_loop m 0 v"

definition hop_moves :: "val_map \<Rightarrow> val \<Rightarrow> bool" where
  "hop_moves m v = (case map_of m v of None \<Rightarrow> False | Some next \<Rightarrow> next \<noteq> v)"

definition replace_uses_with_map :: "ssa_func \<Rightarrow> val_map \<Rightarrow> ssa_func \<times> bool" where
  "replace_uses_with_map f m =
     (if m = [] then (f, False) else (map_func (hop m) f, list_ex (hop_moves m) (func_uses f)))"

section \<open>Successors and predecessors\<close>

fun term_succs :: "terminator \<Rightarrow> block_id list" where
  "term_succs (T_Jump t _) = [t]"
| "term_succs (T_Branch _ t _ e _) = [t, e]"
| "term_succs _ = []"

definition try_handler :: "inst_kind \<Rightarrow> block_id option" where
  "try_handler k = (case k of I_Try h \<Rightarrow> Some h | _ \<Rightarrow> None)"

lemma try_handler_simps [simp]:
  "try_handler (I_Try h) = Some h"
  "(\<forall>h. k \<noteq> I_Try h) \<Longrightarrow> try_handler k = None"
  by (simp add: try_handler_def, cases k, simp_all add: try_handler_def)

definition block_handlers :: "block \<Rightarrow> block_id list" where
  "block_handlers b = List.map_filter (\<lambda>i. try_handler (i_kind i)) (bk_insts b)"

definition block_successors :: "block \<Rightarrow> block_id list" where
  "block_successors b = term_succs (bk_term b) @ block_handlers b"

fun term_value_uses :: "terminator \<Rightarrow> val list" where
  "term_value_uses (T_Return (Some v)) = [v]"
| "term_value_uses (T_Throw v) = [v]"
| "term_value_uses (T_Branch c _ _ _ _) = [c]"
| "term_value_uses _ = []"

fun out_edges :: "terminator \<Rightarrow> (block_id \<times> val list) list" where
  "out_edges (T_Jump t args) = [(t, args)]"
| "out_edges (T_Branch _ t targs e eargs) = [(t, targs), (e, eargs)]"
| "out_edges _ = []"

text \<open>\<open>recompute_preds\<close>: every block pushes itself, once, on the list of each successor.\<close>

definition push_pred :: "block_id \<Rightarrow> block_id list list \<Rightarrow> block_id \<Rightarrow> block_id list list option" where
  "push_pred b preds s =
     (if length preds \<le> s then None
      else Some (if b \<in> set (preds ! s) then preds else preds[s := preds ! s @ [b]]))"

fun push_succs :: "block_id \<Rightarrow> block_id list \<Rightarrow> block_id list list \<Rightarrow> block_id list list option" where
  "push_succs b [] preds = Some preds"
| "push_succs b (s # ss) preds =
     (case push_pred b preds s of None \<Rightarrow> None | Some preds' \<Rightarrow> push_succs b ss preds')"

fun push_blocks :: "block list \<Rightarrow> block_id list \<Rightarrow> block_id list list \<Rightarrow> block_id list list option" where
  "push_blocks bs [] preds = Some preds"
| "push_blocks bs (b # rest) preds =
     (case push_succs b (block_successors (bs ! b)) preds of
        None \<Rightarrow> None
      | Some preds' \<Rightarrow> push_blocks bs rest preds')"

definition recompute_preds :: "ssa_func \<Rightarrow> ssa_func option" where
  "recompute_preds f =
     (case push_blocks (f_blocks f) [0..<length (f_blocks f)] (replicate (length (f_blocks f)) []) of
        None \<Rightarrow> None
      | Some preds \<Rightarrow>
          Some (f\<lparr>f_blocks := map2 (\<lambda>b ps. b\<lparr>bk_preds := ps\<rparr>) (f_blocks f) preds\<rparr>))"

text \<open>The edges out of a block, read off its terminator and its instructions.\<close>

definition leads_to :: "block \<Rightarrow> block_id \<Rightarrow> bool" where
  "leads_to b s \<longleftrightarrow>
     (\<exists>args. bk_term b = T_Jump s args) \<or>
     (\<exists>c args e eargs. bk_term b = T_Branch c s args e eargs) \<or>
     (\<exists>c t targs args. bk_term b = T_Branch c t targs s args) \<or>
     (\<exists>i \<in> set (bk_insts b). i_kind i = I_Try s)"

lemma try_handler_iff: "try_handler k = Some h \<longleftrightarrow> k = I_Try h"
  by (cases "\<exists>g. k = I_Try g") auto

lemma leads_to_successors: "leads_to b s \<longleftrightarrow> s \<in> set (block_successors b)"
proof -
  have "s \<in> set (block_handlers b) \<longleftrightarrow> (\<exists>i \<in> set (bk_insts b). i_kind i = I_Try s)"
    by (auto simp: block_handlers_def List.map_filter_def try_handler_iff image_iff)
  then show ?thesis by (cases "bk_term b") (auto simp: leads_to_def block_successors_def)
qed

lemma push_pred_rows:
  assumes "b \<notin> set (f x)" "x < n"
  shows "push_pred b (map (\<lambda>s. f s @ (if s \<in> D then [b] else [])) [0..<n]) x =
    Some (map (\<lambda>s. f s @ (if s \<in> insert x D then [b] else [])) [0..<n])"
proof -
  let ?r = "\<lambda>D. map (\<lambda>s. f s @ (if s \<in> D then [b] else [])) [0..<n]"
  have "(?r D)[x := f x @ [b]] = ?r (insert x D)"
    using assms(2) by (intro nth_equalityI) (auto simp: nth_list_update)
  moreover have "?r D ! x = f x @ (if x \<in> D then [b] else [])" using assms(2) by simp
  ultimately show ?thesis
    using assms by (cases "x \<in> D") (simp_all add: push_pred_def insert_absorb)
qed

lemma push_succs_rows:
  assumes "\<forall>s < n. b \<notin> set (f s)"
  shows "push_succs b ss (map (\<lambda>s. f s @ (if s \<in> D then [b] else [])) [0..<n]) =
    (if set ss \<subseteq> {..<n} then Some (map (\<lambda>s. f s @ (if s \<in> D \<union> set ss then [b] else [])) [0..<n]) else None)"
proof (induction ss arbitrary: D)
  case (Cons x ss)
  show ?case
  proof (cases "x < n")
    case True
    with assms have "b \<notin> set (f x)" by blast
    then show ?thesis
      using True Cons [of "insert x D"] by (simp add: push_pred_rows [OF _ True] del: map_eq_conv)
  qed (simp add: push_pred_def)
qed simp

lemma push_blocks_rows:
  fixes bs :: "block list" and ds xs :: "block_id list"
  defines "S \<equiv> \<lambda>b. set (block_successors (bs ! b))"
  assumes "distinct (ds @ xs)"
  shows "push_blocks bs xs (map (\<lambda>s. filter (\<lambda>b. s \<in> S b) ds) [0..<n]) =
    (if \<forall>b \<in> set xs. S b \<subseteq> {..<n} then Some (map (\<lambda>s. filter (\<lambda>b. s \<in> S b) (ds @ xs)) [0..<n]) else None)"
  using assms(2)
proof (induction xs arbitrary: ds)
  case (Cons b xs)
  have row: "filter (\<lambda>b. s \<in> S b) ds @ (if s \<in> {} \<union> S b then [b] else []) =
      filter (\<lambda>b. s \<in> S b) (ds @ [b])" for s
    by simp
  have "\<forall>s < n. b \<notin> set (filter (\<lambda>b. s \<in> S b) ds)" using Cons.prems by simp
  from push_succs_rows [OF this, of "block_successors (bs ! b)" "{}"]
  have "push_succs b (block_successors (bs ! b)) (map (\<lambda>s. filter (\<lambda>b. s \<in> S b) ds) [0..<n]) =
      (if S b \<subseteq> {..<n} then Some (map (\<lambda>s. filter (\<lambda>b. s \<in> S b) (ds @ [b])) [0..<n]) else None)"
    unfolding row [symmetric] unfolding S_def by simp
  then show ?case
    using Cons.IH [of "ds @ [b]"] Cons.prems by simp
qed simp

lemma all_preds:
  "push_blocks bs [0..<length bs] (replicate (length bs) []) =
     (if \<forall>b < length bs. \<forall>s. leads_to (bs ! b) s \<longrightarrow> s < length bs
      then Some (map (\<lambda>s. filter (\<lambda>b. leads_to (bs ! b) s) [0..<length bs]) [0..<length bs]) else None)"
proof -
  have "replicate (length bs) [] = map (\<lambda>s. filter (\<lambda>b. s \<in> set (block_successors (bs ! b))) []) [0..<length bs]"
    by (simp add: map_replicate_const)
  with push_blocks_rows [of "[]" "[0..<length bs]" bs "length bs"] show ?thesis
    by (auto simp: leads_to_successors subset_iff)
qed

lemma hop_moves_iff: "hop_moves m v \<longleftrightarrow> (\<exists>next. map_of m v = Some next \<and> next \<noteq> v)"
  by (auto simp: hop_moves_def split: option.splits)

lemma hop_notin: "map_of m v = None \<Longrightarrow> hop m v = v"
  by (simp add: hop_def hop_loop.simps)

text \<open>
  When no replacement is itself replaced, one hop ends the loop.
\<close>

lemma hop_flat:
  assumes "map_of m v = Some w" and "map_of m w = None"
  shows "hop m v = w"
proof -
  have "hop_loop m 1 w = w" using assms(2) by (simp add: hop_loop.simps)
  then show ?thesis using assms by (simp add: hop_def hop_loop.simps [of m 0])
qed

text \<open>
  C21: \<open>recompute_preds\<close> indexes out of range exactly when some edge leads out of the function.
  Otherwise the predecessor list of a block afterwards holds, once each and in the order of the
  blocks, exactly the blocks that jump or branch to it on either arm, or hold a \<open>Try\<close> whose
  handler it is; nothing else of the function changes.
\<close>

theorem recompute_preds_exact:
  "(recompute_preds f = None \<longleftrightarrow>
      (\<exists>b < length (f_blocks f). \<exists>s. leads_to (f_blocks f ! b) s \<and> length (f_blocks f) \<le> s)) \<and>
   (\<forall>g. recompute_preds f = Some g \<longrightarrow>
      g = f\<lparr>f_blocks := f_blocks g\<rparr> \<and> length (f_blocks g) = length (f_blocks f) \<and>
      (\<forall>s < length (f_blocks f).
         f_blocks g ! s = (f_blocks f ! s)
           \<lparr>bk_preds := filter (\<lambda>b. leads_to (f_blocks f ! b) s) [0..<length (f_blocks f)]\<rparr>))"
proof (cases "\<forall>b < length (f_blocks f). \<forall>s. leads_to (f_blocks f ! b) s \<longrightarrow> s < length (f_blocks f)")
  case True
  then show ?thesis unfolding recompute_preds_def all_preds by (auto simp: not_le [symmetric])
next
  case False
  then have "recompute_preds f = None" unfolding recompute_preds_def all_preds if_not_P [OF False] by simp
  moreover obtain b s where "b < length (f_blocks f)" "leads_to (f_blocks f ! b) s" "length (f_blocks f) \<le> s"
    using False not_le by blast
  ultimately show ?thesis by auto
qed

definition demo_func :: ssa_func where
  "demo_func = \<lparr>f_name = ''demo'', f_entry = 0,
     f_blocks = [empty_block\<lparr>bk_term := T_Branch 0 1 [] 1 []\<rparr>, empty_block],
     f_values = [Ty_Bool], f_is_async = False, f_is_generator = False, f_inline_scopes = []\<rparr>"

theorem recompute_preds_exact_witness:
  "\<exists>g. recompute_preds demo_func = Some g \<and> bk_preds (f_blocks g ! 1) = [0] \<and> bk_preds (f_blocks g ! 0) = []"
proof -
  have len: "length (f_blocks demo_func) = 2" by (simp add: demo_func_def)
  have edges: "leads_to (f_blocks demo_func ! b) s \<longleftrightarrow> b = 0 \<and> s = 1" if "b < 2" for b s
    using that by (auto simp: less_2_cases_iff demo_func_def leads_to_def empty_block_def)
  have two: "[0..<2] = [0, 1 :: nat]" by (simp add: upt_rec)
  note t = recompute_preds_exact [of demo_func]
  from t edges have "recompute_preds demo_func \<noteq> None" by (auto simp: len)
  then obtain g where g: "recompute_preds demo_func = Some g" by blast
  with t have row: "f_blocks g ! s = (f_blocks demo_func ! s)
      \<lparr>bk_preds := filter (\<lambda>b. leads_to (f_blocks demo_func ! b) s) [0..<2]\<rparr>" if "s < 2" for s
    using that unfolding len by blast
  have "filter (\<lambda>b. leads_to (f_blocks demo_func ! b) 1) [0..<2] = [0]"
    "filter (\<lambda>b. leads_to (f_blocks demo_func ! b) 0) [0..<2] = []"
    by (simp_all add: two edges)
  with g row [of 0] row [of 1] show ?thesis by simp
qed

end
