(* ===== verification/Big_Numeric.thy ===== *)
theory Big_Numeric
  imports Complex_Main Numeric
begin

text \<open>
  Arbitrary-precision arithmetic, \<open>crates/varn-core/src/numeric_big.rs\<close>. A \<open>BigInt\<close> is an
  \<open>int\<close>; a \<open>BigDecimal\<close> is the pair of its digits and its scale and stands for
  \<open>digits * 10 ^ - scale\<close>. The operations of the two crates whose choice of representation is
  not visible here (product, quotient, remainder, rescaling, rounding, normalisation, parsing
  in a radix) are fields of \<open>big_lib\<close>; what the code relies on is \<open>dec_lib_ok\<close>.
\<close>

type_synonym dec = "int \<times> int"

definition dec_val :: "dec \<Rightarrow> rat" where
  "dec_val d = of_int (fst d) * power_int 10 (- snd d)"

definition dec_eq :: "dec \<Rightarrow> dec \<Rightarrow> bool" where "dec_eq a b \<longleftrightarrow> dec_val a = dec_val b"
definition dec_lt :: "dec \<Rightarrow> dec \<Rightarrow> bool" where "dec_lt a b \<longleftrightarrow> dec_val a < dec_val b"
definition dec_is_zero :: "dec \<Rightarrow> bool" where "dec_is_zero d \<longleftrightarrow> fst d = 0"
definition dec_of_int :: "int \<Rightarrow> dec" where "dec_of_int n = (n, 0)"
definition dec_neg :: "dec \<Rightarrow> dec" where "dec_neg d = (- fst d, snd d)"
definition dec_abs :: "dec \<Rightarrow> dec" where "dec_abs d = (\<bar>fst d\<bar>, snd d)"
definition fractional_digit_count :: "dec \<Rightarrow> int" where "fractional_digit_count d = snd d"

definition dec_is_integer :: "dec \<Rightarrow> bool" where
  "dec_is_integer d \<longleftrightarrow> snd d \<le> 0 \<or> 10 ^ nat (snd d) dvd fst d"

text \<open>The integer part, cut toward zero (\<open>with_scale_round(0, Down)\<close>, \<open>to_i64\<close>).\<close>

definition dec_trunc :: "dec \<Rightarrow> int" where
  "dec_trunc d = (if snd d \<le> 0 then fst d * 10 ^ nat (- snd d) else fst d sdiv 10 ^ nat (snd d))"

definition dec_to_i64 :: "dec \<Rightarrow> i64 option" where
  "dec_to_i64 d = i64_checked (dec_trunc d)"

record big_lib =
  dc_add :: "dec \<Rightarrow> dec \<Rightarrow> dec"
  dc_sub :: "dec \<Rightarrow> dec \<Rightarrow> dec"
  dc_mul :: "dec \<Rightarrow> dec \<Rightarrow> dec"
  dc_quot :: "dec \<Rightarrow> dec \<Rightarrow> dec"
  dc_rem :: "dec \<Rightarrow> dec \<Rightarrow> dec"
  dc_with_scale :: "dec \<Rightarrow> int \<Rightarrow> dec"
  dc_precision_round :: "dec \<Rightarrow> nat \<Rightarrow> dec"
  dc_normalized :: "dec \<Rightarrow> dec"
  dc_digits :: "dec \<Rightarrow> nat"
  bi_from_radix :: "string \<Rightarrow> nat \<Rightarrow> int option"
  bi_parse :: "string \<Rightarrow> int option"
  bi_show :: "int \<Rightarrow> string"

text \<open>The documented behaviour the code relies on: products and rescaling keep the value.\<close>

definition dec_lib_ok :: "'a big_lib_scheme \<Rightarrow> bool" where
  "dec_lib_ok L \<longleftrightarrow>
     (\<forall>a b. dec_val (dc_mul L a b) = dec_val a * dec_val b) \<and>
     (\<forall>d s. snd d \<le> s \<longrightarrow> dec_val (dc_with_scale L d s) = dec_val d \<and>
                           snd (dc_with_scale L d s) = s)"

section \<open>The operations of the source\<close>

definition parse_bigint_literal :: "'a big_lib_scheme \<Rightarrow> string \<Rightarrow> int option" where
  "parse_bigint_literal L txt =
     (let clean = filter (\<lambda>c. c \<noteq> CHR ''_'') txt;
          (neg, body) = (if take 1 clean = ''-'' then (True, drop 1 clean) else (False, clean));
          prefix = take 2 body;
          (radix, digits) =
            (if prefix \<in> {''0x'', ''0X''} then (16, drop 2 body)
             else if prefix \<in> {''0o'', ''0O''} then (8, drop 2 body)
             else if prefix \<in> {''0b'', ''0B''} then (2, drop 2 body)
             else (10, body))
      in map_option (\<lambda>v. if neg then - v else v) (bi_from_radix L digits radix))"

definition div_big :: "int \<Rightarrow> int \<Rightarrow> int_div_fault + int" where
  "div_big a b = (if b = 0 then Inl DivisionByZero else Inr (a sdiv b))"

definition rem_big :: "int \<Rightarrow> int \<Rightarrow> int_div_fault + int" where
  "rem_big a b = (if b = 0 then Inl DivisionByZero else Inr (a smod b))"

definition DECIMAL_DIV_DIGITS :: nat where "DECIMAL_DIV_DIGITS = 34"

definition mul_decimal :: "'a big_lib_scheme \<Rightarrow> dec \<Rightarrow> dec \<Rightarrow> dec" where
  "mul_decimal L a b =
     (let wanted = fractional_digit_count a + fractional_digit_count b;
          product = dc_mul L a b
      in if 0 < wanted \<and> fractional_digit_count product < wanted
         then dc_with_scale L product wanted else product)"

definition normalized_if_exact :: "'a big_lib_scheme \<Rightarrow> dec \<Rightarrow> dec \<Rightarrow> dec \<Rightarrow> dec" where
  "normalized_if_exact L q a b =
     (let n = dc_normalized L q in if dec_eq (dc_mul L n b) a then n else q)"

definition div_decimal :: "'a big_lib_scheme \<Rightarrow> dec \<Rightarrow> dec \<Rightarrow> int_div_fault + dec" where
  "div_decimal L a b =
     (if dec_is_zero b then Inl DivisionByZero
      else Inr (normalized_if_exact L (dc_precision_round L (dc_quot L a b) DECIMAL_DIV_DIGITS) a b))"

definition rem_decimal :: "'a big_lib_scheme \<Rightarrow> dec \<Rightarrow> dec \<Rightarrow> int_div_fault + dec" where
  "rem_decimal L a b = (if dec_is_zero b then Inl DivisionByZero else Inr (dc_rem L a b))"

definition DECIMAL_POW_MAX_DIGITS :: nat where "DECIMAL_POW_MAX_DIGITS = 2 ^ 22"

datatype decimal_pow_fault = NonIntegral | TooLarge | ZeroToNegative

definition saturating_mul_u64 :: "nat \<Rightarrow> nat \<Rightarrow> nat" where
  "saturating_mul_u64 a b = min (a * b) (2 ^ 64 - 1)"

text \<open>The loop of \<open>pow_decimal\<close>: square and multiply over the bits of the exponent.\<close>

function pow_loop :: "'a big_lib_scheme \<Rightarrow> nat \<Rightarrow> dec \<Rightarrow> dec \<Rightarrow> dec" where
  "pow_loop L bits result square =
     (if bits = 0 then result
      else
        let result' = (if odd bits then mul_decimal L result square else result);
            bits' = bits div 2
        in pow_loop L bits' result' (if 0 < bits' then mul_decimal L square square else square))"
  by pat_completeness auto
termination by (relation "measure (\<lambda>(_, bits, _). bits)") auto

declare pow_loop.simps [simp del]

definition dec_recip :: "'a big_lib_scheme \<Rightarrow> dec \<Rightarrow> decimal_pow_fault + dec" where
  "dec_recip L d =
     (case div_decimal L (1, 0) d of Inl _ \<Rightarrow> Inl ZeroToNegative | Inr q \<Rightarrow> Inr q)"

definition pow_decimal :: "'a big_lib_scheme \<Rightarrow> dec \<Rightarrow> dec \<Rightarrow> decimal_pow_fault + dec" where
  "pow_decimal L base ex =
     (if \<not> dec_is_integer ex then Inl NonIntegral
      else case dec_to_i64 ex of
        None \<Rightarrow> Inl TooLarge
      | Some w \<Rightarrow>
          let e = sint w; magnitude = nat \<bar>e\<bar> in
          if dec_is_zero base
          then (if e = 0 then Inr (1, 0) else if 0 < e then Inr (0, 0) else Inl ZeroToNegative)
          else if e = 0 then Inr (1, 0)
          else if dec_eq (dec_abs base) (1, 0)
          then
            let target = saturating_mul_u64 (nat (fractional_digit_count base)) magnitude in
            if DECIMAL_POW_MAX_DIGITS < target then Inl TooLarge
            else
              let sign_kept = dec_lt base (0, 0) \<and> magnitude mod 2 = 1;
                  result = dc_with_scale L (if sign_kept then (-1, 0) else (1, 0)) (int target)
              in if e < 0 then dec_recip L result else Inr result
          else if DECIMAL_POW_MAX_DIGITS < saturating_mul_u64 (dc_digits L base) magnitude
          then Inl TooLarge
          else
            let result = pow_loop L magnitude (1, 0) base
            in if e < 0 then dec_recip L result else Inr result)"

section \<open>Values\<close>

lemma dec_val_simps [simp]: "dec_val (n, 0) = of_int n" "dec_val (dec_neg d) = - dec_val d"
  by (simp_all add: dec_val_def dec_neg_def)

lemma dec_val_zero_iff: "dec_val d = 0 \<longleftrightarrow> dec_is_zero d"
  by (simp add: dec_val_def dec_is_zero_def)

lemma dec_val_abs: "dec_val (dec_abs d) = \<bar>dec_val d\<bar>"
  by (simp add: dec_val_def dec_abs_def abs_mult)

lemma dec_lt_zero_iff: "dec_lt d (0, 0) \<longleftrightarrow> dec_val d < 0"
  by (simp add: dec_lt_def)

lemma dc_mul_val: "dec_lib_ok L \<Longrightarrow> dec_val (dc_mul L a b) = dec_val a * dec_val b"
  by (simp add: dec_lib_ok_def del: split_paired_All)

lemma dc_with_scale_ok:
  "dec_lib_ok L \<Longrightarrow> snd d \<le> s \<Longrightarrow>
   dec_val (dc_with_scale L d s) = dec_val d \<and> snd (dc_with_scale L d s) = s"
  by (simp add: dec_lib_ok_def del: split_paired_All)

lemma mul_decimal_val: "dec_lib_ok L \<Longrightarrow> dec_val (mul_decimal L a b) = dec_val a * dec_val b"
  by (simp add: mul_decimal_def Let_def fractional_digit_count_def dc_mul_val dc_with_scale_ok)

lemma mul_decimal_scale:
  "dec_lib_ok L \<Longrightarrow> 0 < snd a + snd b \<Longrightarrow> snd a + snd b \<le> snd (mul_decimal L a b)"
  by (simp add: mul_decimal_def Let_def fractional_digit_count_def dc_with_scale_ok)

lemma pow_loop_val:
  assumes "dec_lib_ok L"
  shows "dec_val (pow_loop L bits result square) = dec_val result * dec_val square ^ bits"
proof (induction bits arbitrary: result square rule: less_induct)
  case (less bits)
  show ?case
  proof (cases "bits = 0")
    case True
    then show ?thesis by (simp add: pow_loop.simps)
  next
    case False
    let ?sq = "if 0 < bits div 2 then mul_decimal L square square else square"
    let ?r = "if odd bits then mul_decimal L result square else result"
    have "dec_val (pow_loop L bits result square) = dec_val ?r * dec_val ?sq ^ (bits div 2)"
      using False less.IH [of "bits div 2" ?r ?sq]
      by (subst pow_loop.simps) (simp add: Let_def)
    also have "dec_val ?sq ^ (bits div 2) = dec_val square ^ (2 * (bits div 2))"
      using mul_decimal_val [OF assms]
      by (cases "bits div 2") (simp_all add: power_mult power2_eq_square)
    also have "dec_val ?r = dec_val result * dec_val square ^ (bits mod 2)"
      using mul_decimal_val [OF assms] by (simp add: mod2_eq_if)
    finally have "dec_val (pow_loop L bits result square)
        = dec_val result * (dec_val square ^ (bits mod 2) * dec_val square ^ (2 * (bits div 2)))"
      by simp
    also have "dec_val square ^ (bits mod 2) * dec_val square ^ (2 * (bits div 2))
        = dec_val square ^ bits"
      by (simp flip: power_add)
    finally show ?thesis .
  qed
qed

lemma dec_trunc_integer:
  assumes "dec_is_integer d"
  shows "of_int (dec_trunc d) = dec_val d"
proof (cases "snd d \<le> 0")
  case True
  then show ?thesis by (simp add: dec_trunc_def dec_val_def power_int_def)
next
  case False
  then obtain q where q: "fst d = 10 ^ nat (snd d) * q"
    using assms by (auto simp: dec_is_integer_def elim: dvdE)
  have "fst d sdiv 10 ^ nat (snd d) = q"
    unfolding q by (simp add: signed_divide_int_def sgn_mult abs_mult mult_sgn_abs)
  then show ?thesis
    using False q by (simp add: dec_trunc_def dec_val_def power_int_def field_simps)
qed

lemma unit_pow: "\<bar>x :: rat\<bar> = 1 \<Longrightarrow> x ^ n = (if x < 0 \<and> odd n then -1 else 1)"
  by (cases "x < 0") (auto simp: abs_if power_minus_odd power_minus_even
      dest!: minus_equation_iff [THEN iffD1])

lemma saturating_over:
  "DECIMAL_POW_MAX_DIGITS < saturating_mul_u64 a b \<longleftrightarrow> DECIMAL_POW_MAX_DIGITS < a * b"
  by (simp add: saturating_mul_u64_def DECIMAL_POW_MAX_DIGITS_def)

lemma unit_sign_pow:
  assumes "\<bar>dec_val base\<bar> = 1"
  shows "dec_val (if dec_lt base (0, 0) \<and> n mod 2 = 1 then (-1, 0) else (1, 0)) = dec_val base ^ n"
proof -
  have "n mod 2 = 1 \<longleftrightarrow> odd n" by (simp add: odd_iff_mod_2_eq_one)
  then show ?thesis using unit_pow [OF assms, of n] by (simp add: dec_lt_zero_iff)
qed

text \<open>The number of digits the guard of \<open>pow_decimal\<close> estimates.\<close>

definition pow_digits :: "'a big_lib_scheme \<Rightarrow> dec \<Rightarrow> int \<Rightarrow> nat" where
  "pow_digits L base e =
     (if \<bar>dec_val base\<bar> = 1 then nat (fractional_digit_count base) else dc_digits L base) * nat \<bar>e\<bar>"

lemma some_power:
  "dec_val p = v \<Longrightarrow> r = (if b then Inl TooLarge else if n then dec_recip L p else Inr p) \<Longrightarrow>
   if b then r = Inl TooLarge else \<exists>p. dec_val p = v \<and> r = (if n then dec_recip L p else Inr p)"
  by (cases b; cases n) (simp_all only: if_True if_False refl simp_thms, blast+)

lemma pow_decimal_nonzero:
  assumes L: "dec_lib_ok L" and int: "dec_is_integer ex" and w: "dec_to_i64 ex = Some w"
    and nz: "dec_val base \<noteq> 0"
  shows "if DECIMAL_POW_MAX_DIGITS < pow_digits L base (sint w) then pow_decimal L base ex = Inl TooLarge
         else \<exists>p. dec_val p = dec_val base ^ nat \<bar>sint w\<bar> \<and>
                pow_decimal L base ex = (if sint w < 0 then dec_recip L p else Inr p)"
proof (cases "sint w = 0")
  case True
  have "dec_val (1, 0) = dec_val base ^ nat \<bar>sint w\<bar>" using True by simp
  then show ?thesis
    using True int w nz
    by (intro some_power [of "(1, 0)"]) (simp_all add: pow_decimal_def Let_def pow_digits_def dec_val_zero_iff DECIMAL_POW_MAX_DIGITS_def)
next
  case e: False
  have z: "\<not> dec_is_zero base" using nz by (simp add: dec_val_zero_iff)
  show ?thesis
  proof (cases "dec_eq (dec_abs base) (1, 0)")
    case True
    then have unit: "\<bar>dec_val base\<bar> = 1" by (simp add: dec_eq_def dec_val_abs)
    let ?t = "saturating_mul_u64 (nat (fractional_digit_count base)) (nat \<bar>sint w\<bar>)"
    let ?s = "if dec_lt base (0, 0) \<and> nat \<bar>sint w\<bar> mod 2 = 1 then (-1, 0) else (1, 0) :: dec"
    have "dec_val (dc_with_scale L ?s (int ?t)) = dec_val ?s"
      by (simp add: dc_with_scale_ok [OF L])
    also have "dec_val ?s = dec_val base ^ nat \<bar>sint w\<bar>"
      by (rule unit_sign_pow [OF unit])
    finally have v: "dec_val (dc_with_scale L ?s (int ?t)) = dec_val base ^ nat \<bar>sint w\<bar>" .
    have "pow_decimal L base ex = (if DECIMAL_POW_MAX_DIGITS < pow_digits L base (sint w) then Inl TooLarge
        else if sint w < 0 then dec_recip L (dc_with_scale L ?s (int ?t))
        else Inr (dc_with_scale L ?s (int ?t)))"
      unfolding pow_decimal_def Let_def saturating_over
      using int w z e True unit by (simp add: pow_digits_def)
    with v show ?thesis by (rule some_power)
  next
    case False
    then have unit: "\<bar>dec_val base\<bar> \<noteq> 1" by (simp add: dec_eq_def dec_val_abs)
    let ?p = "pow_loop L (nat \<bar>sint w\<bar>) (1, 0) base"
    have v: "dec_val ?p = dec_val base ^ nat \<bar>sint w\<bar>" by (simp add: pow_loop_val [OF L])
    have "pow_decimal L base ex = (if DECIMAL_POW_MAX_DIGITS < pow_digits L base (sint w) then Inl TooLarge
        else if sint w < 0 then dec_recip L ?p else Inr ?p)"
      unfolding pow_decimal_def Let_def saturating_over
      using int w z e False unit by (simp add: pow_digits_def)
    with v show ?thesis by (rule some_power)
  qed
qed

lemma dec_recip_nonzero:
  "dec_val p \<noteq> 0 \<Longrightarrow> \<exists>q. dec_recip L p = Inr q \<and> div_decimal L (1, 0) p = Inr q"
  by (simp add: dec_recip_def div_decimal_def dec_val_zero_iff)


text \<open>A library that multiplies digits and adds scales, for the witness.\<close>

fun digit_count :: "nat \<Rightarrow> nat" where
  "digit_count n = (if n < 10 then 1 else Suc (digit_count (n div 10)))"

declare digit_count.simps [simp del]

definition plain_lib :: big_lib where
  "plain_lib =
     \<lparr>dc_add = \<lambda>a b. if snd a \<le> snd b then (fst a * 10 ^ nat (snd b - snd a) + fst b, snd b)
                     else (fst a + fst b * 10 ^ nat (snd a - snd b), snd a),
      dc_sub = \<lambda>a b. if snd a \<le> snd b then (fst a * 10 ^ nat (snd b - snd a) - fst b, snd b)
                     else (fst a - fst b * 10 ^ nat (snd a - snd b), snd a),
      dc_mul = \<lambda>a b. (fst a * fst b, snd a + snd b),
      dc_quot = \<lambda>a b. (fst a div fst b, snd a - snd b),
      dc_rem = \<lambda>a b. (fst a smod fst b, snd a),
      dc_with_scale = \<lambda>d s. if snd d \<le> s then (fst d * 10 ^ nat (s - snd d), s)
                            else (fst d sdiv 10 ^ nat (snd d - s), s),
      dc_precision_round = \<lambda>d n. d,
      dc_normalized = \<lambda>d. d,
      dc_digits = \<lambda>d. digit_count (nat \<bar>fst d\<bar>),
      bi_from_radix = \<lambda>s r. None,
      bi_parse = \<lambda>s. None,
      bi_show = \<lambda>n. []\<rparr>"

lemma plain_lib_ok: "dec_lib_ok plain_lib"
proof -
  have mul: "dec_val (dc_mul plain_lib a b) = dec_val a * dec_val b" for a b
    using power_int_add [of "10::rat" "- snd a" "- snd b"] by (simp add: plain_lib_def dec_val_def)
  have scale: "dec_val (dc_with_scale plain_lib d s) = dec_val d \<and>
      snd (dc_with_scale plain_lib d s) = s" if "snd d \<le> s" for d s
  proof -
    have "(10::rat) ^ nat (s - snd d) = power_int 10 (s - snd d)"
      using that by (simp add: power_int_def)
    then have "(10::rat) ^ nat (s - snd d) * power_int 10 (- s) = power_int 10 (- snd d)"
      by (simp flip: power_int_add)
    then show ?thesis using that by (simp add: plain_lib_def dec_val_def mult.assoc)
  qed
  show ?thesis unfolding dec_lib_ok_def using mul scale by blast
qed


end
