(* ===== verification/Vm_Arith.thy ===== *)
theory Vm_Arith
  imports Big_Numeric Floats Kinds Opcode
begin

text \<open>
  Arithmetic, comparison and conversion of the virtual machine: \<open>exec/arith.rs\<close>,
  \<open>exec/arith_big.rs\<close>, \<open>exec/compare.rs\<close>, \<open>exec/convert.rs\<close> of \<open>crates/varn-vm\<close> and the
  opcode handlers \<open>exec/dispatch/ops_math_cmp/*.rs\<close>. A value is what the heap shows for it:
  strings, characters, bigints and decimals are immutable heap objects and stand for their
  contents, any other object is a reference. A failing operation is \<open>Inl\<close> of the error it
  raises.
\<close>

datatype rval =
    R_Null
  | R_Bool bool
  | R_Int i64
  | R_Float f64
  | R_Str string
  | R_Char nat
  | R_BigInt int
  | R_Decimal dec
  | R_Ref nat

datatype vm_error =
    E_Overflow string i64 i64
  | E_OverflowNeg i64
  | E_DivByZero string
  | E_ShiftRange string i64 i64
  | E_NegExponent int
  | E_NegExponentBig int
  | E_BigTooLarge
  | E_BigOverflow
  | E_DecimalPow decimal_pow_fault
  | E_StrTooLong
  | E_OutOfInt rval
  | E_NoBigInt f64
  | E_NoDecimal f64
  | E_NotNumeric
  | E_TypeMismatch string bool string

text \<open>
  What the machine takes from outside the repository: the float unit, the conversions of the
  big-number crates, and the two questions about objects that arithmetic asks of the heap (the
  text of a value, and the structural equality of composite objects).
\<close>

record arith_lib = big_lib +
  fl_add :: "f64 \<Rightarrow> f64 \<Rightarrow> f64"
  fl_sub :: "f64 \<Rightarrow> f64 \<Rightarrow> f64"
  fl_mul :: "f64 \<Rightarrow> f64 \<Rightarrow> f64"
  fl_div :: "f64 \<Rightarrow> f64 \<Rightarrow> f64"
  fl_rem :: "f64 \<Rightarrow> f64 \<Rightarrow> f64"
  fl_pow :: "f64 \<Rightarrow> f64 \<Rightarrow> f64"
  big_to_f64 :: "int \<Rightarrow> f64 option"
  dec_to_f64 :: "dec \<Rightarrow> f64 option"
  f64_to_dec :: "f64 \<Rightarrow> dec option"
  str_repr :: "rval \<Rightarrow> string"
  ref_eq :: "nat \<Rightarrow> nat \<Rightarrow> bool"
  ref_type :: "nat \<Rightarrow> string"

type_synonym 'a lib = "'a arith_lib_scheme"

section \<open>Reading a value\<close>

fun val_is_int :: "rval \<Rightarrow> bool" where
  "val_is_int (R_Int _) = True"
| "val_is_int _ = False"

fun val_is_float :: "rval \<Rightarrow> bool" where
  "val_is_float (R_Float _) = True"
| "val_is_float _ = False"

definition val_is_number :: "rval \<Rightarrow> bool" where
  "val_is_number v \<longleftrightarrow> val_is_float v \<or> val_is_int v"

fun val_as_int :: "rval \<Rightarrow> i64" where
  "val_as_int (R_Int n) = n"
| "val_as_int _ = 0"

fun to_f64_val :: "rval \<Rightarrow> f64" where
  "to_f64_val (R_Float x) = x"
| "to_f64_val (R_Int n) = int_to_float n"
| "to_f64_val _ = F_ZERO"

fun val_is_str :: "rval \<Rightarrow> bool" where
  "val_is_str (R_Str _) = True"
| "val_is_str _ = False"

fun val_is_truthy :: "rval \<Rightarrow> bool" where
  "val_is_truthy R_Null = False"
| "val_is_truthy (R_Bool b) = b"
| "val_is_truthy _ = True"

fun typeof_val :: "'a lib \<Rightarrow> rval \<Rightarrow> string" where
  "typeof_val L R_Null = runtime_kind_name KNull"
| "typeof_val L (R_Bool _) = runtime_kind_name KBool"
| "typeof_val L (R_Int _) = runtime_kind_name KInt"
| "typeof_val L (R_Float _) = runtime_kind_name KFloat"
| "typeof_val L (R_Str _) = runtime_kind_name KStr"
| "typeof_val L (R_Char _) = runtime_kind_name KChar"
| "typeof_val L (R_BigInt _) = runtime_kind_name KBigInt"
| "typeof_val L (R_Decimal _) = runtime_kind_name KDecimal"
| "typeof_val L (R_Ref a) = ref_type L a"

text \<open>The guard \<open>is_int(a) && is_int(b)\<close> and the reading of both operands.\<close>

definition on_ints :: "rval \<Rightarrow> rval \<Rightarrow> (i64 \<Rightarrow> i64 \<Rightarrow> 'r) \<Rightarrow> 'r \<Rightarrow> 'r" where
  "on_ints a b f g =
     (if val_is_int a \<and> val_is_int b then f (val_as_int a) (val_as_int b) else g)"

lemma on_ints_idem [simp]: "on_ints a b f (on_ints a b f g) = on_ints a b f g"
  by (simp add: on_ints_def)

lemma on_ints_Int [simp]: "on_ints (R_Int x) (R_Int y) f g = f x y"
  by (simp add: on_ints_def)

section \<open>Bigint and decimal operands\<close>

datatype big_op = Big_Add | Big_Sub | Big_Mul | Big_Div | Big_Rem | Big_Pow

fun bigint_of :: "rval \<Rightarrow> int option" where
  "bigint_of (R_Int n) = Some (sint n)"
| "bigint_of (R_BigInt b) = Some b"
| "bigint_of _ = None"

fun is_bigint :: "rval \<Rightarrow> bool" where
  "is_bigint (R_BigInt _) = True"
| "is_bigint _ = False"

definition MAX_BITS :: nat where "MAX_BITS = 2 ^ 30"

definition big_bits :: "int \<Rightarrow> nat" where "big_bits x = bit_length (nat \<bar>x\<bar>)"

definition unit_power :: "int \<Rightarrow> int \<Rightarrow> int" where
  "unit_power x y =
     (if x = 1 then 1
      else if x = 0 then (if y = 0 then 1 else x)
      else if odd y then x else 1)"

definition big_fault :: "int_div_fault \<Rightarrow> string \<Rightarrow> vm_error" where
  "big_fault f op =
     (case f of
        DivisionByZero \<Rightarrow> E_DivByZero (if op = ''%'' then ''modulo by zero'' else ''division by zero'')
      | Overflow \<Rightarrow> E_BigOverflow)"

definition big_pow :: "int \<Rightarrow> int \<Rightarrow> vm_error + int" where
  "big_pow x y =
     (if y < 0 then Inl (E_NegExponentBig y)
      else if big_bits x \<le> 1 then Inr (unit_power x y)
      else if y < 2 ^ 32 \<and> saturating_mul_u64 (big_bits x) (nat y) \<le> MAX_BITS
      then Inr (x ^ nat y)
      else Inl E_BigTooLarge)"

fun big_apply :: "big_op \<Rightarrow> int \<Rightarrow> int \<Rightarrow> vm_error + int" where
  "big_apply Big_Add x y = Inr (x + y)"
| "big_apply Big_Sub x y = Inr (x - y)"
| "big_apply Big_Mul x y =
     (if MAX_BITS < big_bits x + big_bits y then Inl E_BigTooLarge else Inr (x * y))"
| "big_apply Big_Div x y = (case div_big x y of Inl f \<Rightarrow> Inl (big_fault f ''/'') | Inr q \<Rightarrow> Inr q)"
| "big_apply Big_Rem x y = (case rem_big x y of Inl f \<Rightarrow> Inl (big_fault f ''%'') | Inr r \<Rightarrow> Inr r)"
| "big_apply Big_Pow x y = big_pow x y"

definition big_binary :: "big_op \<Rightarrow> rval \<Rightarrow> rval \<Rightarrow> (vm_error + rval) option" where
  "big_binary op a b =
     (if \<not> is_bigint a \<and> \<not> is_bigint b then None
      else case (bigint_of a, bigint_of b) of
        (Some x, Some y) \<Rightarrow> Some (map_sum id R_BigInt (big_apply op x y))
      | _ \<Rightarrow> None)"

fun decimal_pair :: "rval \<Rightarrow> rval \<Rightarrow> (dec \<times> dec) option" where
  "decimal_pair (R_Decimal x) (R_Decimal y) = Some (x, y)"
| "decimal_pair (R_Decimal x) (R_Int n) = Some (x, dec_of_int (sint n))"
| "decimal_pair (R_Int n) (R_Decimal y) = Some (dec_of_int (sint n), y)"
| "decimal_pair _ _ = None"

section \<open>Generic arithmetic\<close>

definition MAX_STR_BYTES :: nat where "MAX_STR_BYTES = 2 ^ 29"

fun str_bytes :: "rval \<Rightarrow> nat" where
  "str_bytes (R_Str s) = length s"
| "str_bytes _ = 0"

text \<open>\<open>Heap::str_repr\<close>: a string is its own text.\<close>

definition text_of :: "'a lib \<Rightarrow> rval \<Rightarrow> string" where
  "text_of L v = (case v of R_Str s \<Rightarrow> s | _ \<Rightarrow> str_repr L v)"

definition str_concat :: "'a lib \<Rightarrow> rval \<Rightarrow> rval \<Rightarrow> vm_error + rval" where
  "str_concat L a b =
     (if MAX_STR_BYTES < str_bytes a + str_bytes b then Inl E_StrTooLong
      else Inr (R_Str (text_of L a @ text_of L b)))"

definition checked :: "string \<Rightarrow> i64 \<Rightarrow> i64 \<Rightarrow> i64 option \<Rightarrow> vm_error + rval" where
  "checked op x y r = (case r of Some v \<Rightarrow> Inr (R_Int v) | None \<Rightarrow> Inl (E_Overflow op x y))"

definition int_div_error :: "int_div_fault \<Rightarrow> string \<Rightarrow> i64 \<Rightarrow> i64 \<Rightarrow> vm_error" where
  "int_div_error f op a b =
     (case f of
        DivisionByZero \<Rightarrow> E_DivByZero (if op = ''%'' then ''modulo by zero'' else ''division by zero'')
      | Overflow \<Rightarrow> E_Overflow op a b)"

definition divided :: "string \<Rightarrow> i64 \<Rightarrow> i64 \<Rightarrow> int_div_fault + i64 \<Rightarrow> vm_error + rval" where
  "divided op x y r = (case r of Inl f \<Rightarrow> Inl (int_div_error f op x y) | Inr v \<Rightarrow> Inr (R_Int v))"

definition int_pow :: "i64 \<Rightarrow> i64 \<Rightarrow> vm_error + rval" where
  "int_pow x y =
     (if sint y < 0 then Inl (E_NegExponent (sint y)) else checked ''**'' x y (pow_int x y))"

definition vm_add :: "'a lib \<Rightarrow> rval \<Rightarrow> rval \<Rightarrow> vm_error + rval" where
  "vm_add L a b =
     (on_ints a b (\<lambda>x y. checked ''+'' x y (add_int x y))
        (if val_is_number a \<and> val_is_number b
        then Inr (R_Float (fl_add L (to_f64_val a) (to_f64_val b)))
        else if val_is_str a \<or> val_is_str b then str_concat L a b
        else case big_binary Big_Add a b of
          Some r \<Rightarrow> r
        | None \<Rightarrow>
          (case decimal_pair a b of
             Some (x, y) \<Rightarrow> Inr (R_Decimal (dc_add L x y))
           | None \<Rightarrow> Inr (R_Float (fl_add L (to_f64_val a) (to_f64_val b))))))"

definition vm_sub :: "'a lib \<Rightarrow> rval \<Rightarrow> rval \<Rightarrow> vm_error + rval" where
  "vm_sub L a b =
     (on_ints a b (\<lambda>x y. checked ''-'' x y (sub_int x y))
        (case big_binary Big_Sub a b of
          Some r \<Rightarrow> r
        | None \<Rightarrow>
          (case decimal_pair a b of
             Some (x, y) \<Rightarrow> Inr (R_Decimal (dc_sub L x y))
           | None \<Rightarrow> Inr (R_Float (fl_sub L (to_f64_val a) (to_f64_val b))))))"

definition vm_mul :: "'a lib \<Rightarrow> rval \<Rightarrow> rval \<Rightarrow> vm_error + rval" where
  "vm_mul L a b =
     (on_ints a b (\<lambda>x y. checked ''*'' x y (mul_int x y))
        (case big_binary Big_Mul a b of
          Some r \<Rightarrow> r
        | None \<Rightarrow>
          (case decimal_pair a b of
             Some (x, y) \<Rightarrow> Inr (R_Decimal (mul_decimal L x y))
           | None \<Rightarrow> Inr (R_Float (fl_mul L (to_f64_val a) (to_f64_val b))))))"

definition vm_div :: "'a lib \<Rightarrow> rval \<Rightarrow> rval \<Rightarrow> vm_error + rval" where
  "vm_div L a b =
     (on_ints a b (\<lambda>x y. divided ''/'' x y (div_int x y))
        (case big_binary Big_Div a b of
          Some r \<Rightarrow> r
        | None \<Rightarrow>
          (case decimal_pair a b of
             Some (x, y) \<Rightarrow>
               if dec_is_zero y then Inl (E_DivByZero ''division by zero'')
               else (case div_decimal L x y of
                       Inl f \<Rightarrow> Inl (int_div_error f ''/'' 0 0)
                     | Inr q \<Rightarrow> Inr (R_Decimal q))
           | None \<Rightarrow> Inr (R_Float (fl_div L (to_f64_val a) (to_f64_val b))))))"

definition vm_modulo :: "'a lib \<Rightarrow> rval \<Rightarrow> rval \<Rightarrow> vm_error + rval" where
  "vm_modulo L a b =
     (on_ints a b (\<lambda>x y. divided ''%'' x y (rem_int x y))
        (case big_binary Big_Rem a b of
          Some r \<Rightarrow> r
        | None \<Rightarrow>
          (case decimal_pair a b of
             Some (x, y) \<Rightarrow>
               if dec_is_zero y then Inl (E_DivByZero ''modulo by zero'')
               else Inr (R_Decimal (dc_rem L x y))
           | None \<Rightarrow> Inr (R_Float (fl_rem L (to_f64_val a) (to_f64_val b))))))"

definition vm_pow :: "'a lib \<Rightarrow> rval \<Rightarrow> rval \<Rightarrow> vm_error + rval" where
  "vm_pow L a b =
     (on_ints a b (\<lambda>x y. int_pow x y)
        (case big_binary Big_Pow a b of
          Some r \<Rightarrow> r
        | None \<Rightarrow>
          (case decimal_pair a b of
             Some (x, y) \<Rightarrow>
               (case pow_decimal L x y of
                  Inl f \<Rightarrow> Inl (E_DecimalPow f)
                | Inr r \<Rightarrow> Inr (R_Decimal r))
           | None \<Rightarrow> Inr (R_Float (fl_pow L (to_f64_val a) (to_f64_val b))))))"

fun vm_negate :: "rval \<Rightarrow> vm_error + rval" where
  "vm_negate (R_Int x) = (case neg_int x of Some r \<Rightarrow> Inr (R_Int r) | None \<Rightarrow> Inl (E_OverflowNeg x))"
| "vm_negate (R_Float x) = Inr (R_Float (f_neg x))"
| "vm_negate (R_Decimal d) = Inr (R_Decimal (dec_neg d))"
| "vm_negate (R_BigInt b) = Inr (R_BigInt (- b))"
| "vm_negate v = Inr (R_Float (f_neg (to_f64_val v)))"

definition vm_bit_and :: "rval \<Rightarrow> rval \<Rightarrow> rval" where
  "vm_bit_and a b = R_Int (val_as_int a AND val_as_int b)"
definition vm_bit_or :: "rval \<Rightarrow> rval \<Rightarrow> rval" where
  "vm_bit_or a b = R_Int (val_as_int a OR val_as_int b)"
definition vm_bit_xor :: "rval \<Rightarrow> rval \<Rightarrow> rval" where
  "vm_bit_xor a b = R_Int (val_as_int a XOR val_as_int b)"

definition vm_shift ::
  "string \<Rightarrow> (i64 \<Rightarrow> i64 \<Rightarrow> i64 option) \<Rightarrow> rval \<Rightarrow> rval \<Rightarrow> vm_error + rval" where
  "vm_shift op apply_op a b =
     (case apply_op (val_as_int a) (val_as_int b) of
        Some r \<Rightarrow> Inr (R_Int r)
      | None \<Rightarrow> Inl (E_ShiftRange op (val_as_int a) (val_as_int b)))"

definition vm_not :: "rval \<Rightarrow> rval" where
  "vm_not v = R_Bool (\<not> val_is_truthy v)"

section \<open>Comparison\<close>

fun vm_equal :: "'a lib \<Rightarrow> rval \<Rightarrow> rval \<Rightarrow> bool" where
  "vm_equal L (R_Int a) (R_Int b) = (a = b)"
| "vm_equal L (R_Float a) (R_Float b) = f_eq a b"
| "vm_equal L (R_Bool a) (R_Bool b) = (a = b)"
| "vm_equal L R_Null R_Null = True"
| "vm_equal L (R_Int a) (R_Float b) = f_eq (int_to_float a) b"
| "vm_equal L (R_Float a) (R_Int b) = f_eq a (int_to_float b)"
| "vm_equal L (R_Str a) (R_Str b) = (a = b)"
| "vm_equal L (R_Char a) (R_Char b) = (a = b)"
| "vm_equal L (R_BigInt a) (R_BigInt b) = (a = b)"
| "vm_equal L (R_Decimal a) (R_Decimal b) = dec_eq a b"
| "vm_equal L (R_Ref a) (R_Ref b) = (a = b \<or> ref_eq L a b)"
| "vm_equal L (R_BigInt a) (R_Int b) = (a = sint b)"
| "vm_equal L (R_Decimal a) (R_Int b) = dec_eq a (dec_of_int (sint b))"
| "vm_equal L (R_Int a) (R_BigInt b) = (b = sint a)"
| "vm_equal L (R_Int a) (R_Decimal b) = dec_eq (dec_of_int (sint a)) b"
| "vm_equal L _ _ = False"

text \<open>The UTF-8 bytes of a character (\<open>char::encode_utf8\<close>).\<close>

definition encode_utf8 :: "nat \<Rightarrow> nat list" where
  "encode_utf8 c =
     (if c < 0x80 then [c]
      else if c < 0x800 then [0xC0 + c div 64, 0x80 + c mod 64]
      else if c < 0x10000 then [0xE0 + c div 4096, 0x80 + c div 64 mod 64, 0x80 + c mod 64]
      else [0xF0 + c div 262144, 0x80 + c div 4096 mod 64, 0x80 + c div 64 mod 64,
            0x80 + c mod 64])"

fun text_bytes :: "rval \<Rightarrow> nat list option" where
  "text_bytes (R_Str s) = Some (map of_char s)"
| "text_bytes (R_Char c) = Some (encode_utf8 c)"
| "text_bytes _ = None"

fun bytes_less :: "nat list \<Rightarrow> nat list \<Rightarrow> bool" where
  "bytes_less _ [] = False"
| "bytes_less [] (_ # _) = True"
| "bytes_less (x # xs) (y # ys) = (x < y \<or> x = y \<and> bytes_less xs ys)"

definition text_order_less :: "rval \<Rightarrow> rval \<Rightarrow> bool option" where
  "text_order_less a b =
     (case (text_bytes a, text_bytes b) of
        (Some l, Some r) \<Rightarrow> Some (bytes_less l r)
      | _ \<Rightarrow> None)"

fun vm_lt :: "rval \<Rightarrow> rval \<Rightarrow> bool" where
  "vm_lt (R_Int a) (R_Int b) = (a <s b)"
| "vm_lt (R_Float a) (R_Float b) = f_lt a b"
| "vm_lt (R_Int a) (R_Float b) = f_lt (int_to_float a) b"
| "vm_lt (R_Float a) (R_Int b) = f_lt a (int_to_float b)"
| "vm_lt (R_BigInt a) (R_BigInt b) = (a < b)"
| "vm_lt (R_Decimal a) (R_Decimal b) = dec_lt a b"
| "vm_lt (R_Decimal a) (R_Int b) = dec_lt a (dec_of_int (sint b))"
| "vm_lt (R_Int a) (R_Decimal b) = dec_lt (dec_of_int (sint a)) b"
| "vm_lt a b =
     (case text_order_less a b of
        Some r \<Rightarrow> r
      | None \<Rightarrow> f_lt (to_f64_val a) (to_f64_val b))"

definition vm_gt :: "rval \<Rightarrow> rval \<Rightarrow> bool" where
  "vm_gt a b = vm_lt b a"

definition vm_lte :: "rval \<Rightarrow> rval \<Rightarrow> bool" where
  "vm_lte a b =
     on_ints a b (\<lambda>x y. x \<le>s y) (\<not> vm_gt a b)"

definition vm_gte :: "rval \<Rightarrow> rval \<Rightarrow> bool" where
  "vm_gte a b =
     on_ints a b (\<lambda>x y. y \<le>s x) (\<not> vm_lt a b)"

section \<open>Conversion\<close>

datatype numeric = N_Int i64 | N_Float f64 | N_Big int | N_Dec dec

fun numeric_of :: "rval \<Rightarrow> vm_error + numeric" where
  "numeric_of (R_Int n) = Inr (N_Int n)"
| "numeric_of (R_Float x) = Inr (N_Float x)"
| "numeric_of (R_BigInt b) = Inr (N_Big b)"
| "numeric_of (R_Decimal d) = Inr (N_Dec d)"
| "numeric_of _ = Inl E_NotNumeric"

definition int_or_fault :: "rval \<Rightarrow> i64 option \<Rightarrow> vm_error + rval" where
  "int_or_fault v r = (case r of Some n \<Rightarrow> Inr (R_Int n) | None \<Rightarrow> Inl (E_OutOfInt v))"

fun to_int :: "numeric \<Rightarrow> vm_error + rval" where
  "to_int (N_Int i) = Inr (R_Int i)"
| "to_int (N_Float f) = int_or_fault (R_Float f) (float_to_int f)"
| "to_int (N_Big b) = int_or_fault (R_BigInt b) (i64_checked b)"
| "to_int (N_Dec d) = int_or_fault (R_Decimal d) (dec_to_i64 d)"

fun to_float :: "'a lib \<Rightarrow> numeric \<Rightarrow> rval" where
  "to_float L (N_Int i) = R_Float (int_to_float i)"
| "to_float L (N_Float f) = R_Float f"
| "to_float L (N_Big b) = R_Float (case big_to_f64 L b of Some f \<Rightarrow> f | None \<Rightarrow> F_NAN)"
| "to_float L (N_Dec d) = R_Float (case dec_to_f64 L d of Some f \<Rightarrow> f | None \<Rightarrow> F_NAN)"

fun to_bigint :: "numeric \<Rightarrow> vm_error + rval" where
  "to_bigint (N_Int i) = Inr (R_BigInt (sint i))"
| "to_bigint (N_Big b) = Inr (R_BigInt b)"
| "to_bigint (N_Float f) =
     (if f_is_finite f then Inr (R_BigInt (f_trunc f)) else Inl (E_NoBigInt f))"
| "to_bigint (N_Dec d) = Inr (R_BigInt (dec_trunc d))"

fun to_decimal :: "'a lib \<Rightarrow> numeric \<Rightarrow> vm_error + rval" where
  "to_decimal L (N_Int i) = Inr (R_Decimal (dec_of_int (sint i)))"
| "to_decimal L (N_Big b) = Inr (R_Decimal (dec_of_int b))"
| "to_decimal L (N_Dec d) = Inr (R_Decimal d)"
| "to_decimal L (N_Float f) =
     (case f64_to_dec L f of Some d \<Rightarrow> Inr (R_Decimal d) | None \<Rightarrow> Inl (E_NoDecimal f))"

definition expect :: "'a lib \<Rightarrow> bool \<Rightarrow> string \<Rightarrow> bool \<Rightarrow> rval \<Rightarrow> vm_error + rval" where
  "expect L holds ty nullable v =
     (if holds \<or> nullable \<and> v = R_Null then Inr v
      else Inl (E_TypeMismatch ty nullable (typeof_val L v)))"

definition expect_float :: "'a lib \<Rightarrow> bool \<Rightarrow> rval \<Rightarrow> vm_error + rval" where
  "expect_float L nullable v =
     (if val_is_float v \<or> nullable \<and> v = R_Null then Inr v
      else if val_is_int v then Inr (R_Float (int_to_float (val_as_int v)))
      else Inl (E_TypeMismatch ''float'' nullable (typeof_val L v)))"

definition val_is_bool :: "rval \<Rightarrow> bool" where
  "val_is_bool v \<longleftrightarrow> v = R_Bool True \<or> v = R_Bool False"

text \<open>
  \<open>ExpectRef\<close> accepts any heap value. A string of at most eight bytes may live inline in the
  value; whether it does is not visible in its contents, so \<open>inline\<close> says which strings do.
\<close>

fun val_is_heap :: "(string \<Rightarrow> bool) \<Rightarrow> rval \<Rightarrow> bool" where
  "val_is_heap inl (R_Str s) = (\<not> inl s)"
| "val_is_heap inl (R_Char _) = True"
| "val_is_heap inl (R_BigInt _) = True"
| "val_is_heap inl (R_Decimal _) = True"
| "val_is_heap inl (R_Ref _) = True"
| "val_is_heap inl _ = False"

definition convert_number :: "'a lib \<Rightarrow> value_conv \<Rightarrow> numeric \<Rightarrow> vm_error + rval" where
  "convert_number L conv n =
     (if conv \<in> {FloatToInt, BigIntToInt, DecimalToInt, DynToInt} then to_int n
      else if conv \<in> {IntToFloat, DynToFloat, BigIntToFloat, DecimalToFloat} then Inr (to_float L n)
      else if conv \<in> {IntToBigInt, FloatToBigInt, DecimalToBigInt} then to_bigint n
      else to_decimal L n)"

definition convert :: "'a lib \<Rightarrow> (string \<Rightarrow> bool) \<Rightarrow> value_conv \<Rightarrow> rval \<Rightarrow> vm_error + rval" where
  "convert L inl conv v =
     (case conv of
        ExpectRef \<Rightarrow> (if val_is_heap inl v \<or> v = R_Null then Inr v
                      else Inl (E_TypeMismatch (runtime_kind_name KObject) False (typeof_val L v)))
      | ExpectStr \<Rightarrow> expect L (val_is_str v) ''str'' False v
      | ExpectStrOrNull \<Rightarrow> expect L (val_is_str v) ''str'' True v
      | ExpectBool \<Rightarrow> expect L (val_is_bool v) ''bool'' False v
      | ExpectBoolOrNull \<Rightarrow> expect L (val_is_bool v) ''bool'' True v
      | ExpectInt \<Rightarrow> expect L (val_is_int v) ''int'' False v
      | ExpectIntOrNull \<Rightarrow> expect L (val_is_int v) ''int'' True v
      | ExpectFloat \<Rightarrow> expect_float L False v
      | ExpectFloatOrNull \<Rightarrow> expect_float L True v
      | _ \<Rightarrow> (case numeric_of v of Inl e \<Rightarrow> Inl e | Inr n \<Rightarrow> convert_number L conv n))"

section \<open>The opcode handlers\<close>

text \<open>
  A handler reads its operands, from the class banks when both registers are unboxed and from
  the boxed values otherwise; both readings give the same values, so a handler is a function of
  them. An opcode outside its group is unreachable and answers \<open>None\<close>.
\<close>

definition exec_generic_binary :: "'a lib \<Rightarrow> opcode \<Rightarrow> rval \<Rightarrow> rval \<Rightarrow> (vm_error + rval) option" where
  "exec_generic_binary L op a b =
     (case op of
        O_Add \<Rightarrow> Some (vm_add L a b)
      | O_Sub \<Rightarrow> Some (vm_sub L a b)
      | O_Mul \<Rightarrow> Some (vm_mul L a b)
      | O_Div \<Rightarrow> Some (vm_div L a b)
      | O_Mod \<Rightarrow> Some (vm_modulo L a b)
      | O_Pow \<Rightarrow> Some (vm_pow L a b)
      | O_BitAnd \<Rightarrow> Some (Inr (vm_bit_and a b))
      | O_BitOr \<Rightarrow> Some (Inr (vm_bit_or a b))
      | O_BitXor \<Rightarrow> Some (Inr (vm_bit_xor a b))
      | O_Shl \<Rightarrow> Some (vm_shift ''<<'' shl_int a b)
      | O_Shr \<Rightarrow> Some (vm_shift ''>>'' shr_int a b)
      | O_Ushr \<Rightarrow> Some (vm_shift ''>>>'' ushr_int a b)
      | _ \<Rightarrow> None)"

definition exec_unary :: "opcode \<Rightarrow> rval \<Rightarrow> (vm_error + rval) option" where
  "exec_unary op v =
     (case op of O_Negate \<Rightarrow> Some (vm_negate v) | O_Not \<Rightarrow> Some (Inr (vm_not v)) | _ \<Rightarrow> None)"

definition exec_int_arith :: "'a lib \<Rightarrow> opcode \<Rightarrow> rval \<Rightarrow> rval \<Rightarrow> (vm_error + rval) option" where
  "exec_int_arith L op a b =
     (case op of
        O_AddInt \<Rightarrow> Some (on_ints a b (\<lambda>x y. checked ''+'' x y (add_int x y)) (vm_add L a b))
      | O_SubInt \<Rightarrow> Some (on_ints a b (\<lambda>x y. checked ''-'' x y (sub_int x y)) (vm_sub L a b))
      | O_MulInt \<Rightarrow> Some (on_ints a b (\<lambda>x y. checked ''*'' x y (mul_int x y)) (vm_mul L a b))
      | O_DivInt \<Rightarrow> Some (on_ints a b (\<lambda>x y. divided ''/'' x y (div_int x y)) (vm_div L a b))
      | O_ModInt \<Rightarrow> Some (on_ints a b (\<lambda>x y. divided ''%'' x y (rem_int x y)) (vm_modulo L a b))
      | O_PowInt \<Rightarrow> Some (on_ints a b (\<lambda>x y. int_pow x y) (vm_pow L a b))
      | _ \<Rightarrow> None)"

definition float_arith ::
  "(f64 \<Rightarrow> f64 \<Rightarrow> f64) \<Rightarrow> (rval \<Rightarrow> rval \<Rightarrow> vm_error + rval) \<Rightarrow> rval \<Rightarrow> rval \<Rightarrow> vm_error + rval" where
  "float_arith op generic a b =
     (if val_is_number a \<and> val_is_number b then Inr (R_Float (op (to_f64_val a) (to_f64_val b)))
      else generic a b)"

definition exec_float_arith :: "'a lib \<Rightarrow> opcode \<Rightarrow> rval \<Rightarrow> rval \<Rightarrow> (vm_error + rval) option" where
  "exec_float_arith L op a b =
     (case op of
        O_AddFloat \<Rightarrow> Some (float_arith (fl_add L) (vm_add L) a b)
      | O_SubFloat \<Rightarrow> Some (float_arith (fl_sub L) (vm_sub L) a b)
      | O_MulFloat \<Rightarrow> Some (float_arith (fl_mul L) (vm_mul L) a b)
      | O_DivFloat \<Rightarrow> Some (float_arith (fl_div L) (vm_div L) a b)
      | O_ModFloat \<Rightarrow> Some (float_arith (fl_rem L) (vm_modulo L) a b)
      | O_PowFloat \<Rightarrow> Some (float_arith (fl_pow L) (vm_pow L) a b)
      | _ \<Rightarrow> None)"

definition exec_int_cmp :: "'a lib \<Rightarrow> opcode \<Rightarrow> rval \<Rightarrow> rval \<Rightarrow> bool option" where
  "exec_int_cmp L op a b =
     (case op of
        O_LtInt \<Rightarrow> Some (on_ints a b (\<lambda>x y. x <s y) (vm_lt a b))
      | O_GtInt \<Rightarrow> Some (on_ints a b (\<lambda>x y. y <s x) (vm_gt a b))
      | O_LteInt \<Rightarrow> Some (on_ints a b (\<lambda>x y. x \<le>s y) (vm_lte a b))
      | O_GteInt \<Rightarrow> Some (on_ints a b (\<lambda>x y. y \<le>s x) (vm_gte a b))
      | O_EqInt \<Rightarrow> Some (on_ints a b (\<lambda>x y. x = y) (vm_equal L a b))
      | O_NeqInt \<Rightarrow> Some (on_ints a b (\<lambda>x y. x \<noteq> y) (\<not> vm_equal L a b))
      | _ \<Rightarrow> None)"

definition float_cmp ::
  "(f64 \<Rightarrow> f64 \<Rightarrow> bool) \<Rightarrow> (rval \<Rightarrow> rval \<Rightarrow> bool) \<Rightarrow> rval \<Rightarrow> rval \<Rightarrow> bool" where
  "float_cmp op generic a b =
     (if val_is_number a \<and> val_is_number b then op (to_f64_val a) (to_f64_val b) else generic a b)"

definition exec_float_cmp :: "'a lib \<Rightarrow> opcode \<Rightarrow> rval \<Rightarrow> rval \<Rightarrow> bool option" where
  "exec_float_cmp L op a b =
     (case op of
        O_LtFloat \<Rightarrow> Some (float_cmp f_lt vm_lt a b)
      | O_GtFloat \<Rightarrow> Some (float_cmp (\<lambda>x y. f_lt y x) vm_gt a b)
      | O_LteFloat \<Rightarrow> Some (float_cmp f_le vm_lte a b)
      | O_GteFloat \<Rightarrow> Some (float_cmp (\<lambda>x y. f_le y x) vm_gte a b)
      | O_EqFloat \<Rightarrow> Some (float_cmp f_eq (vm_equal L) a b)
      | O_NeqFloat \<Rightarrow> Some (float_cmp (\<lambda>x y. \<not> f_eq x y) (\<lambda>x y. \<not> vm_equal L x y) a b)
      | _ \<Rightarrow> None)"

definition exec_generic_cmp :: "'a lib \<Rightarrow> opcode \<Rightarrow> rval \<Rightarrow> rval \<Rightarrow> bool option" where
  "exec_generic_cmp L op a b =
     (case op of
        O_Eq \<Rightarrow> Some (vm_equal L a b)
      | O_EqStr \<Rightarrow> Some (vm_equal L a b)
      | O_Neq \<Rightarrow> Some (\<not> vm_equal L a b)
      | O_NeqStr \<Rightarrow> Some (\<not> vm_equal L a b)
      | O_Lt \<Rightarrow> Some (vm_lt a b)
      | O_Lte \<Rightarrow> Some (vm_lte a b)
      | O_Gt \<Rightarrow> Some (vm_gt a b)
      | O_Gte \<Rightarrow> Some (vm_gte a b)
      | _ \<Rightarrow> None)"

text \<open>The immediate is the low byte of the second word, read as \<open>i8\<close>.\<close>

definition exec_imm :: "'a lib \<Rightarrow> opcode \<Rightarrow> rval \<Rightarrow> u8 \<Rightarrow> (vm_error + rval) option" where
  "exec_imm L op v byte =
     (let imm = scast byte :: i64
      in case op of
           O_AddImm \<Rightarrow> Some (on_ints v (R_Int imm) (\<lambda>x y. checked ''+'' x y (add_int x y))
                              (vm_add L v (R_Int imm)))
         | O_SubImm \<Rightarrow> Some (on_ints v (R_Int imm) (\<lambda>x y. checked ''-'' x y (sub_int x y))
                              (vm_sub L v (R_Int imm)))
         | _ \<Rightarrow> None)"

definition bool_result :: "bool option \<Rightarrow> (vm_error + rval) option" where
  "bool_result r = map_option (\<lambda>b. Inr (R_Bool b)) r"

text \<open>\<open>exec_math_cmp_op\<close> on the two-operand opcodes: the dispatch to the groups.\<close>

definition exec_binary_op :: "'a lib \<Rightarrow> opcode \<Rightarrow> rval \<Rightarrow> rval \<Rightarrow> (vm_error + rval) option" where
  "exec_binary_op L op a b =
     (if op \<in> {O_Add, O_Sub, O_Mul, O_Div, O_Mod, O_Pow, O_BitAnd, O_BitOr, O_BitXor, O_Shl,
               O_Shr, O_Ushr}
      then exec_generic_binary L op a b
      else if op \<in> {O_AddInt, O_SubInt, O_MulInt, O_DivInt, O_ModInt, O_PowInt}
      then exec_int_arith L op a b
      else if op \<in> {O_LtInt, O_GtInt, O_LteInt, O_GteInt, O_EqInt, O_NeqInt}
      then bool_result (exec_int_cmp L op a b)
      else if op \<in> {O_AddFloat, O_SubFloat, O_MulFloat, O_DivFloat, O_ModFloat, O_PowFloat}
      then exec_float_arith L op a b
      else if op \<in> {O_LtFloat, O_GtFloat, O_LteFloat, O_GteFloat, O_EqFloat, O_NeqFloat}
      then bool_result (exec_float_cmp L op a b)
      else if op \<in> {O_Eq, O_Neq, O_Lt, O_Lte, O_Gt, O_Gte, O_EqStr, O_NeqStr}
      then bool_result (exec_generic_cmp L op a b)
      else if op = O_StrConcat then Some (str_concat L a b)
      else None)"

end
