(* ===== verification/Vm_Arith_Props.thy ===== *)
theory Vm_Arith_Props
  imports Vm_Arith
begin

text \<open>
  Properties of the machine's arithmetic: the typed opcodes agree with the generic ones, the
  conversions between numeric domains land where they say and fault only where
  \<open>can_fault\<close> admits it, equality is an equivalence away from NaN, and the two places where
  ordering is not what the operands' values suggest.
\<close>

text \<open>A library to evaluate examples with.\<close>

definition plain_arith :: arith_lib where
  "plain_arith = big_lib.extend plain_lib
     \<lparr>fl_add = \<lambda>x y. x, fl_sub = \<lambda>x y. x, fl_mul = \<lambda>x y. x, fl_div = \<lambda>x y. x, fl_rem = \<lambda>x y. x,
      fl_pow = \<lambda>x y. x, big_to_f64 = \<lambda>b. Some (int_to_float (word_of_int b)),
      dec_to_f64 = \<lambda>d. None, f64_to_dec = \<lambda>x. None, str_repr = \<lambda>v. [],
      ref_eq = (=), ref_type = \<lambda>a. ''object''\<rparr>"

text \<open>What each opcode computes, group by group.\<close>

lemma on_ints_same:
  "on_ints a b (\<lambda>x y. x <s y) (vm_lt a b) = vm_lt a b"
  "on_ints a b (\<lambda>x y. y <s x) (vm_gt a b) = vm_gt a b"
  "on_ints a b (\<lambda>x y. x = y) (vm_equal L a b) = vm_equal L a b"
  "on_ints a b (\<lambda>x y. x \<noteq> y) (\<not> vm_equal L a b) = (\<not> vm_equal L a b)"
  by (simp_all add: on_ints_def vm_gt_def; cases a; cases b; simp)+

lemma generic_opcode [simp]:
  "exec_binary_op L O_Add a b = Some (vm_add L a b)"
  "exec_binary_op L O_Sub a b = Some (vm_sub L a b)"
  "exec_binary_op L O_Mul a b = Some (vm_mul L a b)"
  "exec_binary_op L O_Div a b = Some (vm_div L a b)"
  "exec_binary_op L O_Mod a b = Some (vm_modulo L a b)"
  "exec_binary_op L O_Pow a b = Some (vm_pow L a b)"
  "exec_binary_op L O_Lt a b = Some (Inr (R_Bool (vm_lt a b)))"
  "exec_binary_op L O_Gt a b = Some (Inr (R_Bool (vm_gt a b)))"
  "exec_binary_op L O_Lte a b = Some (Inr (R_Bool (vm_lte a b)))"
  "exec_binary_op L O_Gte a b = Some (Inr (R_Bool (vm_gte a b)))"
  "exec_binary_op L O_Eq a b = Some (Inr (R_Bool (vm_equal L a b)))"
  "exec_binary_op L O_Neq a b = Some (Inr (R_Bool (\<not> vm_equal L a b)))"
  by (simp_all add: exec_binary_op_def exec_generic_binary_def exec_generic_cmp_def bool_result_def)

lemma int_opcode [simp]:
  "exec_binary_op L O_AddInt a b = Some (vm_add L a b)"
  "exec_binary_op L O_SubInt a b = Some (vm_sub L a b)"
  "exec_binary_op L O_MulInt a b = Some (vm_mul L a b)"
  "exec_binary_op L O_DivInt a b = Some (vm_div L a b)"
  "exec_binary_op L O_ModInt a b = Some (vm_modulo L a b)"
  "exec_binary_op L O_PowInt a b = Some (vm_pow L a b)"
  "exec_binary_op L O_LtInt a b = Some (Inr (R_Bool (vm_lt a b)))"
  "exec_binary_op L O_GtInt a b = Some (Inr (R_Bool (vm_gt a b)))"
  "exec_binary_op L O_LteInt a b = Some (Inr (R_Bool (vm_lte a b)))"
  "exec_binary_op L O_GteInt a b = Some (Inr (R_Bool (vm_gte a b)))"
  "exec_binary_op L O_EqInt a b = Some (Inr (R_Bool (vm_equal L a b)))"
  "exec_binary_op L O_NeqInt a b = Some (Inr (R_Bool (\<not> vm_equal L a b)))"
  by (simp_all add: exec_binary_op_def exec_int_arith_def exec_int_cmp_def bool_result_def
      vm_add_def vm_sub_def vm_mul_def vm_div_def vm_modulo_def vm_pow_def vm_lte_def vm_gte_def
      on_ints_same)

lemma float_opcode [simp]:
  "exec_binary_op L O_AddFloat a b = Some (float_arith (fl_add L) (vm_add L) a b)"
  "exec_binary_op L O_SubFloat a b = Some (float_arith (fl_sub L) (vm_sub L) a b)"
  "exec_binary_op L O_MulFloat a b = Some (float_arith (fl_mul L) (vm_mul L) a b)"
  "exec_binary_op L O_DivFloat a b = Some (float_arith (fl_div L) (vm_div L) a b)"
  "exec_binary_op L O_ModFloat a b = Some (float_arith (fl_rem L) (vm_modulo L) a b)"
  "exec_binary_op L O_PowFloat a b = Some (float_arith (fl_pow L) (vm_pow L) a b)"
  "exec_binary_op L O_LtFloat a b = Some (Inr (R_Bool (float_cmp f_lt vm_lt a b)))"
  "exec_binary_op L O_GtFloat a b = Some (Inr (R_Bool (float_cmp (\<lambda>x y. f_lt y x) vm_gt a b)))"
  "exec_binary_op L O_LteFloat a b = Some (Inr (R_Bool (float_cmp f_le vm_lte a b)))"
  "exec_binary_op L O_GteFloat a b = Some (Inr (R_Bool (float_cmp (\<lambda>x y. f_le y x) vm_gte a b)))"
  "exec_binary_op L O_EqFloat a b = Some (Inr (R_Bool (float_cmp f_eq (vm_equal L) a b)))"
  "exec_binary_op L O_NeqFloat a b = Some (Inr (R_Bool (float_cmp (\<lambda>x y. \<not> f_eq x y) (\<lambda>x y. \<not> vm_equal L x y) a b)))"
  by (simp_all add: exec_binary_op_def exec_float_arith_def exec_float_cmp_def bool_result_def)

definition int_opcodes :: "(opcode \<times> opcode) list" where
  "int_opcodes =
     [(O_AddInt, O_Add), (O_SubInt, O_Sub), (O_MulInt, O_Mul), (O_DivInt, O_Div),
      (O_ModInt, O_Mod), (O_PowInt, O_Pow), (O_LtInt, O_Lt), (O_GtInt, O_Gt), (O_LteInt, O_Lte),
      (O_GteInt, O_Gte), (O_EqInt, O_Eq), (O_NeqInt, O_Neq)]"

definition float_opcodes :: "(opcode \<times> opcode) list" where
  "float_opcodes =
     [(O_AddFloat, O_Add), (O_SubFloat, O_Sub), (O_MulFloat, O_Mul), (O_DivFloat, O_Div),
      (O_ModFloat, O_Mod), (O_PowFloat, O_Pow), (O_LtFloat, O_Lt), (O_GtFloat, O_Gt),
      (O_LteFloat, O_Lte), (O_GteFloat, O_Gte), (O_EqFloat, O_Eq), (O_NeqFloat, O_Neq)]"

text \<open>
  C34: an opcode specialised for ints computes what the generic opcode computes, on every pair
  of values, errors included.
\<close>

theorem int_opcodes_generic:
  assumes "(op, g) \<in> set int_opcodes"
  shows "exec_binary_op L op a b = exec_binary_op L g a b \<and> exec_binary_op L op a b \<noteq> None"
  using assms by (auto simp: int_opcodes_def)

theorem int_opcodes_generic_witness:
  "exec_binary_op plain_arith O_AddInt (R_Int 2) (R_Str ''s'') =
   exec_binary_op plain_arith O_Add (R_Int 2) (R_Str ''s'')"
  using int_opcodes_generic [of O_AddInt O_Add plain_arith "R_Int 2" "R_Str ''s''"]
  by (simp add: int_opcodes_def)

section \<open>Float opcodes\<close>

lemma round_even_le: "round_even m s \<le> m div 2 ^ s + 1"
  by (simp add: round_even_def Let_def)

lemma int_to_float_finite: "f_is_finite (int_to_float n)"
proof (cases "n = 0")
  case True
  then show ?thesis
    by (simp add: int_to_float_def F_ZERO_def f_is_finite_def f_exp_field_def)
next
  case False
  define m where "m = nat \<bar>sint n\<bar>"
  define k where "k = bit_length m - 1"
  define sig where "sig = (if k \<le> 52 then m * 2 ^ (52 - k) else round_even m (k - 52))"
  define N where "N = (k + 1022) * 2 ^ 52 + sig"
  have m: "0 < m" "m \<le> 2 ^ 63"
    using False in_i64_sint [of n] by (auto simp: m_def sint_eq_iff in_i64_def INT_MIN_def INT_MAX_def)
  note b = bit_length_bounds [OF m(1)]
  then have mk: "m < 2 ^ Suc k" "2 ^ k \<le> m" by (simp_all add: k_def)
  have "(2::nat) ^ k \<le> 2 ^ 63" using mk(2) m(2) by (rule le_trans)
  then have k: "k \<le> 63" using power_le_imp_le_exp [of "2::nat" k 63] by simp
  have sig: "sig \<le> 2 ^ 53"
  proof (cases "k \<le> 52")
    case True
    have "m * 2 ^ (52 - k) \<le> 2 ^ Suc k * 2 ^ (52 - k)" using mk(1) by simp
    also have "\<dots> = 2 ^ 53" using True by (simp flip: power_add)
    finally show ?thesis using True by (simp add: sig_def)
  next
    case False
    have "(2::nat) ^ Suc k = 2 ^ (53 + (k - 52))" using False by simp
    then have "(2::nat) ^ Suc k = 2 ^ 53 * 2 ^ (k - 52)" by (simp only: power_add)
    then have "m div 2 ^ (k - 52) < 2 ^ 53" using mk(1) by (simp add: less_mult_imp_div_less)
    then show ?thesis using False round_even_le [of m "k - 52"] by (simp add: sig_def)
  qed
  have N: "N < 2 ^ 63" "N div 2 ^ 52 < 2047"
    using k sig by (simp_all add: N_def less_mult_imp_div_less)
  have x: "int_to_float n = (if sint n < 0 then f_neg (word_of_nat N) else word_of_nat N)"
    by (simp only: int_to_float_def Let_def m_def [symmetric] k_def [symmetric]
        sig_def [symmetric] N_def [symmetric] False if_False)
  have "N div 2 ^ 52 mod 2048 \<noteq> 2047" using N(2) by simp
  then show ?thesis
    using float_fields(1,4) [OF N(1)] by (simp add: x f_is_finite_def)
qed

lemma int_to_float_not_nan [simp]: "\<not> f_is_nan (int_to_float n)"
  using int_to_float_finite [of n] by (simp add: f_is_finite_def f_is_nan_def)

fun is_nan_val :: "rval \<Rightarrow> bool" where
  "is_nan_val (R_Float x) = f_is_nan x"
| "is_nan_val _ = False"

lemma f_le_not_lt: "\<not> f_is_nan a \<Longrightarrow> \<not> f_is_nan b \<Longrightarrow> f_le a b \<longleftrightarrow> \<not> f_lt b a"
  by (auto simp: f_le_def f_lt_def)

lemma number_cases:
  assumes "val_is_number a" "val_is_number b" "\<not> (val_is_int a \<and> val_is_int b)"
  obtains x y where "a = R_Float x" "b = R_Float y" | x n where "a = R_Float x" "b = R_Int n"
    | n x where "a = R_Int n" "b = R_Float x"
  using assms by (cases a; cases b) (auto simp: val_is_number_def)

text \<open>Arithmetic on two numbers that are not both ints is float arithmetic in every opcode.\<close>

lemma generic_arith_float:
  assumes "val_is_number a" "val_is_number b" "\<not> (val_is_int a \<and> val_is_int b)"
  shows "vm_add L a b = Inr (R_Float (fl_add L (to_f64_val a) (to_f64_val b)))"
    "vm_sub L a b = Inr (R_Float (fl_sub L (to_f64_val a) (to_f64_val b)))"
    "vm_mul L a b = Inr (R_Float (fl_mul L (to_f64_val a) (to_f64_val b)))"
    "vm_div L a b = Inr (R_Float (fl_div L (to_f64_val a) (to_f64_val b)))"
    "vm_modulo L a b = Inr (R_Float (fl_rem L (to_f64_val a) (to_f64_val b)))"
    "vm_pow L a b = Inr (R_Float (fl_pow L (to_f64_val a) (to_f64_val b)))"
  by (rule number_cases [OF assms];
      simp add: vm_add_def vm_sub_def vm_mul_def vm_div_def vm_modulo_def vm_pow_def on_ints_def
        val_is_number_def big_binary_def)+

lemma generic_cmp_float:
  assumes "val_is_number a" "val_is_number b" "\<not> (val_is_int a \<and> val_is_int b)"
  shows "vm_lt a b = f_lt (to_f64_val a) (to_f64_val b)"
    "vm_gt a b = f_lt (to_f64_val b) (to_f64_val a)"
    "vm_equal L a b = f_eq (to_f64_val a) (to_f64_val b)"
    "\<not> is_nan_val a \<and> \<not> is_nan_val b \<Longrightarrow> vm_lte a b = f_le (to_f64_val a) (to_f64_val b)"
    "\<not> is_nan_val a \<and> \<not> is_nan_val b \<Longrightarrow> vm_gte a b = f_le (to_f64_val b) (to_f64_val a)"
  by (rule number_cases [OF assms];
      simp add: vm_gt_def vm_lte_def vm_gte_def on_ints_def f_le_not_lt)+

text \<open>
  C35: an opcode specialised for floats computes what the generic opcode computes, on every pair
  of values that are not two ints; for the two non-strict orders NaN is excepted.
\<close>

theorem float_opcodes_generic:
  assumes "(op, g) \<in> set float_opcodes" "\<not> (val_is_int a \<and> val_is_int b)"
    and "op \<in> {O_LteFloat, O_GteFloat} \<longrightarrow> \<not> is_nan_val a \<and> \<not> is_nan_val b"
  shows "exec_binary_op L op a b = exec_binary_op L g a b \<and> exec_binary_op L op a b \<noteq> None"
proof (cases "val_is_number a \<and> val_is_number b")
  case False
  then show ?thesis
    using assms(1) by (auto simp: float_opcodes_def float_arith_def float_cmp_def)
next
  case True
  then have n: "val_is_number a" "val_is_number b" by simp_all
  have nan: "vm_lte a b = f_le (to_f64_val a) (to_f64_val b) \<and>
      vm_gte a b = f_le (to_f64_val b) (to_f64_val a)" if "\<not> is_nan_val a \<and> \<not> is_nan_val b"
    using generic_cmp_float(4,5) [OF n assms(2) that] by simp
  note eqs = generic_arith_float [OF n assms(2)] generic_cmp_float(1-3) [OF n assms(2)]
  show ?thesis
    using assms(1,3) unfolding float_opcodes_def
    by (elim set_ConsD [elim_format] disjE; simp add: float_arith_def float_cmp_def n eqs nan)
qed

theorem float_opcodes_generic_witness:
  "exec_binary_op plain_arith O_LteFloat (R_Float F_ONE) (R_Int 1) =
   exec_binary_op plain_arith O_Lte (R_Float F_ONE) (R_Int 1)"
  using float_opcodes_generic [of O_LteFloat O_Lte "R_Float F_ONE" "R_Int 1" plain_arith]
  by (simp add: float_opcodes_def F_ONE_def f_is_nan_def f_exp_field_def)

section \<open>Where an order is not what the operands suggest\<close>

text \<open>
  The generic non-strict orders are negated strict ones: NaN is below and above everything,
  while the float opcode answers no.
\<close>

lemma nan_lte_generic:
  "exec_binary_op L O_Lte (R_Float F_NAN) (R_Float F_ONE) = Some (Inr (R_Bool True)) \<and>
   exec_binary_op L O_LteFloat (R_Float F_NAN) (R_Float F_ONE) = Some (Inr (R_Bool False))"
  by (simp add: vm_lte_def vm_gt_def on_ints_def float_cmp_def val_is_number_def f_lt_def f_le_def)

text \<open>
  A bigint compared with an int has no branch of its own in \<open>lt_heap\<close> and is read as \<open>0.0\<close>,
  although equality and arithmetic mix the two.
\<close>

lemma bigint_int_order:
  "exec_binary_op L O_Lt (R_BigInt 5) (R_Int 1) = Some (Inr (R_Bool True))"
proof -
  have "int_to_float 1 = F_ONE" by (simp add: int_to_float_def F_ONE_def bit_length.simps)
  then show ?thesis
    by (simp add: text_order_less_def f_lt_def F_ONE_def F_ZERO_def f_is_nan_def f_exp_field_def
        f_key_def f_magnitude_def f_sign_negative_def)
qed

section \<open>Immediates\<close>

text \<open>
  C36: \<open>AddImm\<close> and \<open>SubImm\<close> compute what \<open>Add\<close> and \<open>Sub\<close> compute with the immediate as an int
  operand, on every value and with the same errors; a constant from -128 to 127 survives the
  byte it is stored in.
\<close>

theorem exec_imm_generic:
  "exec_imm L O_AddImm v byte = exec_binary_op L O_Add v (R_Int (scast byte)) \<and>
   exec_imm L O_SubImm v byte = exec_binary_op L O_Sub v (R_Int (scast byte)) \<and>
   (-128 \<le> n \<and> n \<le> 127 \<longrightarrow> scast (word_of_int n :: u8) = (word_of_int n :: i64))"
proof -
  have "scast (word_of_int n :: u8) = (word_of_int n :: i64)" if "-128 \<le> n" "n \<le> 127"
    using that signed_take_bit_int_eq_self [of 7 n]
    by (simp only: scast_eq sint_sbintrunc') simp
  then show ?thesis by (simp add: exec_imm_def Let_def vm_add_def vm_sub_def)
qed

theorem exec_imm_generic_witness: "scast (word_of_int (-3) :: u8) = (word_of_int (-3) :: i64)"
  using exec_imm_generic [of undefined undefined undefined "-3"] by simp

section \<open>Equality\<close>

text \<open>
  The machine's equality is symmetric, given that structural equality of objects is, and
  every value equals itself except NaN.
\<close>

theorem vm_equal_sym_refl:
  assumes "\<forall>p q. ref_eq L p q = ref_eq L q p"
  shows "vm_equal L a b = vm_equal L b a \<and> (vm_equal L a a \<longleftrightarrow> \<not> is_nan_val a)"
proof
  show "vm_equal L a b = vm_equal L b a"
    using assms by (cases a; cases b) (auto simp: f_eq_def dec_eq_def)
  show "vm_equal L a a \<longleftrightarrow> \<not> is_nan_val a"
    by (cases a) (auto simp: f_eq_def dec_eq_def)
qed

theorem vm_equal_sym_refl_witness: "\<not> vm_equal plain_arith (R_Float F_NAN) (R_Float F_NAN)"
  using vm_equal_sym_refl [of plain_arith "R_Float F_NAN" R_Null]
  by (auto simp: plain_arith_def big_lib.defs)

section \<open>Conversion between numeric domains\<close>

fun in_domain :: "numeric_domain \<Rightarrow> rval \<Rightarrow> bool" where
  "in_domain DomInt (R_Int _) = True"
| "in_domain DomFloat (R_Float _) = True"
| "in_domain DomBigInt (R_BigInt _) = True"
| "in_domain DomDecimal (R_Decimal _) = True"
| "in_domain _ _ = False"

lemma convert_number_simps [simp]:
  "convert L inl IntToFloat v = (case numeric_of v of Inl e \<Rightarrow> Inl e | Inr n \<Rightarrow> Inr (to_float L n))"
  "convert L inl BigIntToFloat v = (case numeric_of v of Inl e \<Rightarrow> Inl e | Inr n \<Rightarrow> Inr (to_float L n))"
  "convert L inl DecimalToFloat v = (case numeric_of v of Inl e \<Rightarrow> Inl e | Inr n \<Rightarrow> Inr (to_float L n))"
  "convert L inl DynToFloat v = (case numeric_of v of Inl e \<Rightarrow> Inl e | Inr n \<Rightarrow> Inr (to_float L n))"
  "convert L inl FloatToInt v = (case numeric_of v of Inl e \<Rightarrow> Inl e | Inr n \<Rightarrow> to_int n)"
  "convert L inl BigIntToInt v = (case numeric_of v of Inl e \<Rightarrow> Inl e | Inr n \<Rightarrow> to_int n)"
  "convert L inl DecimalToInt v = (case numeric_of v of Inl e \<Rightarrow> Inl e | Inr n \<Rightarrow> to_int n)"
  "convert L inl DynToInt v = (case numeric_of v of Inl e \<Rightarrow> Inl e | Inr n \<Rightarrow> to_int n)"
  "convert L inl IntToBigInt v = (case numeric_of v of Inl e \<Rightarrow> Inl e | Inr n \<Rightarrow> to_bigint n)"
  "convert L inl FloatToBigInt v = (case numeric_of v of Inl e \<Rightarrow> Inl e | Inr n \<Rightarrow> to_bigint n)"
  "convert L inl DecimalToBigInt v = (case numeric_of v of Inl e \<Rightarrow> Inl e | Inr n \<Rightarrow> to_bigint n)"
  "convert L inl IntToDecimal v = (case numeric_of v of Inl e \<Rightarrow> Inl e | Inr n \<Rightarrow> to_decimal L n)"
  "convert L inl FloatToDecimal v = (case numeric_of v of Inl e \<Rightarrow> Inl e | Inr n \<Rightarrow> to_decimal L n)"
  "convert L inl BigIntToDecimal v = (case numeric_of v of Inl e \<Rightarrow> Inl e | Inr n \<Rightarrow> to_decimal L n)"
  by (simp_all add: convert_def convert_number_def split: sum.splits)

lemma int_or_fault_domain: "int_or_fault v r = Inr w \<Longrightarrow> in_domain DomInt w"
  by (auto simp: int_or_fault_def split: option.splits)

lemma to_int_domain: "to_int n = Inr w \<Longrightarrow> in_domain DomInt w"
  by (cases n) (auto dest: int_or_fault_domain)

lemma to_float_domain: "in_domain DomFloat (to_float L n)"
  by (cases n) auto

lemma to_bigint_domain: "to_bigint n = Inr w \<Longrightarrow> in_domain DomBigInt w"
  by (cases n) (auto split: if_splits)

lemma to_decimal_domain: "to_decimal L n = Inr w \<Longrightarrow> in_domain DomDecimal w"
  by (cases n) (auto split: option.splits)

lemma in_domain_numeric:
  "in_domain d v \<Longrightarrow> \<exists>n. numeric_of v = Inr n \<and>
     (d = DomInt \<longrightarrow> (\<exists>i. n = N_Int i)) \<and> (d = DomFloat \<longrightarrow> (\<exists>f. n = N_Float f)) \<and>
     (d = DomBigInt \<longrightarrow> (\<exists>b. n = N_Big b)) \<and> (d = DomDecimal \<longrightarrow> (\<exists>x. n = N_Dec x))"
  by (cases d; cases v) auto

text \<open>
  C37: the conversion between two numeric domains takes a value of the first to a value of the
  second, and it can only fail when \<open>can_fault\<close> says so.
\<close>

theorem convert_between_sound:
  assumes "value_conv_between d e = Some c" "in_domain d v"
  shows "(\<forall>w. convert L inl c v = Inr w \<longrightarrow> in_domain e w) \<and>
         (\<not> can_fault c \<longrightarrow> (\<exists>w. convert L inl c v = Inr w))"
proof -
  obtain n where n: "numeric_of v = Inr n"
    and kind: "d = DomInt \<longrightarrow> (\<exists>i. n = N_Int i)" "d = DomFloat \<longrightarrow> (\<exists>f. n = N_Float f)"
      "d = DomBigInt \<longrightarrow> (\<exists>b. n = N_Big b)" "d = DomDecimal \<longrightarrow> (\<exists>x. n = N_Dec x)"
    using in_domain_numeric [OF assms(2)] by blast
  show ?thesis
    using assms(1) kind n
    by (cases d; cases e)
       (auto simp: can_fault_def to_float_domain
          dest: to_int_domain to_bigint_domain to_decimal_domain)
qed

theorem convert_between_sound_witness:
  "\<exists>w. convert plain_arith (\<lambda>s. True) IntToFloat (R_Int 3) = Inr w \<and> in_domain DomFloat w"
  using convert_between_sound [of DomInt DomFloat IntToFloat "R_Int 3" plain_arith "\<lambda>s. True"]
  by (auto simp: can_fault_def)

text \<open>C38: an int survives the conversion to bigint or to decimal and back.\<close>

theorem int_conversion_round_trip:
  "(\<exists>w. convert L inl IntToBigInt (R_Int n) = Inr w \<and> convert L inl BigIntToInt w = Inr (R_Int n)) \<and>
   (\<exists>w. convert L inl IntToDecimal (R_Int n) = Inr w \<and> convert L inl DecimalToInt w = Inr (R_Int n))"
  by (simp add: int_or_fault_def dec_to_i64_def dec_trunc_def dec_of_int_def)

end
