(* ===== verification/Const_Fold.thy ===== *)
theory Const_Fold
  imports Ssa_Ir Vm_Arith_Props
begin

text \<open>
  Selection of the opcode of a binary operation (\<open>lower/mod.rs\<close>) and the folding of operations
  on constants (\<open>passes/const_fold_values.rs\<close>), with the theorem that a folded constant is the
  value the machine computes with the opcode selected.
\<close>

section \<open>Opcode selection\<close>

primrec opcode_int :: "binop \<Rightarrow> opcode" where
  "opcode_int B_Add = O_AddInt"
| "opcode_int B_Sub = O_SubInt"
| "opcode_int B_Mul = O_MulInt"
| "opcode_int B_Div = O_DivInt"
| "opcode_int B_Mod = O_ModInt"
| "opcode_int B_Pow = O_PowInt"
| "opcode_int B_Eq = O_EqInt"
| "opcode_int B_Ne = O_NeqInt"
| "opcode_int B_Lt = O_LtInt"
| "opcode_int B_Le = O_LteInt"
| "opcode_int B_Gt = O_GtInt"
| "opcode_int B_Ge = O_GteInt"
| "opcode_int B_BitAnd = O_BitAnd"
| "opcode_int B_BitOr = O_BitOr"
| "opcode_int B_BitXor = O_BitXor"
| "opcode_int B_Shl = O_Shl"
| "opcode_int B_Shr = O_Shr"
| "opcode_int B_Ushr = O_Ushr"
| "opcode_int B_Instanceof = O_Instanceof"
| "opcode_int B_In = O_In"

primrec opcode_float :: "binop \<Rightarrow> opcode" where
  "opcode_float B_Add = O_AddFloat"
| "opcode_float B_Sub = O_SubFloat"
| "opcode_float B_Mul = O_MulFloat"
| "opcode_float B_Div = O_DivFloat"
| "opcode_float B_Mod = O_ModFloat"
| "opcode_float B_Pow = O_PowFloat"
| "opcode_float B_Eq = O_EqFloat"
| "opcode_float B_Ne = O_NeqFloat"
| "opcode_float B_Lt = O_LtFloat"
| "opcode_float B_Le = O_LteFloat"
| "opcode_float B_Gt = O_GtFloat"
| "opcode_float B_Ge = O_GteFloat"
| "opcode_float B_BitAnd = O_BitAnd"
| "opcode_float B_BitOr = O_BitOr"
| "opcode_float B_BitXor = O_BitXor"
| "opcode_float B_Shl = O_Shl"
| "opcode_float B_Shr = O_Shr"
| "opcode_float B_Ushr = O_Ushr"
| "opcode_float B_Instanceof = O_Instanceof"
| "opcode_float B_In = O_In"

primrec opcode_generic :: "binop \<Rightarrow> opcode" where
  "opcode_generic B_Add = O_Add"
| "opcode_generic B_Sub = O_Sub"
| "opcode_generic B_Mul = O_Mul"
| "opcode_generic B_Div = O_Div"
| "opcode_generic B_Mod = O_Mod"
| "opcode_generic B_Pow = O_Pow"
| "opcode_generic B_Eq = O_Eq"
| "opcode_generic B_Ne = O_Neq"
| "opcode_generic B_Lt = O_Lt"
| "opcode_generic B_Le = O_Lte"
| "opcode_generic B_Gt = O_Gt"
| "opcode_generic B_Ge = O_Gte"
| "opcode_generic B_BitAnd = O_BitAnd"
| "opcode_generic B_BitOr = O_BitOr"
| "opcode_generic B_BitXor = O_BitXor"
| "opcode_generic B_Shl = O_Shl"
| "opcode_generic B_Shr = O_Shr"
| "opcode_generic B_Ushr = O_Ushr"
| "opcode_generic B_Instanceof = O_Instanceof"
| "opcode_generic B_In = O_In"

definition opcode_str :: "binop \<Rightarrow> opcode" where
  "opcode_str op = (if op = B_Eq then O_EqStr else if op = B_Ne then O_NeqStr else opcode_generic op)"

definition bin_opcode :: "binop \<Rightarrow> backend_ty \<Rightarrow> opcode" where
  "bin_opcode op ty =
     (case Ssa_Ir.representation ty of
        Ty_Int \<Rightarrow> opcode_int op
      | Ty_Float \<Rightarrow> opcode_float op
      | Ty_Str \<Rightarrow> opcode_str op
      | _ \<Rightarrow> opcode_generic op)"

definition binary_opcode ::
  "binop \<Rightarrow> backend_ty \<Rightarrow> backend_ty option \<Rightarrow> backend_ty option \<Rightarrow> opcode" where
  "binary_opcode op ty lhs_ty rhs_ty =
     (if op = B_Add \<and> (lhs_ty = Some Ty_Str \<or> rhs_ty = Some Ty_Str) then O_StrConcat
      else bin_opcode op ty)"

section \<open>Folding constants\<close>

definition is_constant_kind :: "inst_kind \<Rightarrow> bool" where
  "is_constant_kind k =
     (case k of
        I_ConstInt _ \<Rightarrow> True | I_ConstFloat _ \<Rightarrow> True | I_ConstBool _ \<Rightarrow> True | I_ConstStr _ \<Rightarrow> True
      | I_ConstChar _ \<Rightarrow> True | I_ConstDecimal _ \<Rightarrow> True | I_ConstBigInt _ \<Rightarrow> True | I_ConstNull \<Rightarrow> True
      | _ \<Rightarrow> False)"

lemma is_constant_kind_simps [simp]:
  "is_constant_kind (I_ConstInt n)" "is_constant_kind (I_ConstFloat x)"
  "is_constant_kind (I_ConstBool b)" "is_constant_kind (I_ConstStr s)"
  "is_constant_kind (I_ConstChar c)" "is_constant_kind (I_ConstDecimal d)"
  "is_constant_kind (I_ConstBigInt s)" "is_constant_kind I_ConstNull"
  "\<not> is_constant_kind (I_Unary uop a ty)" "\<not> is_constant_kind (I_Binary op a b' ty)"
  "\<not> is_constant_kind (I_Convert a conv)" "\<not> is_constant_kind (I_IsNull a)"
  by (simp_all add: is_constant_kind_def)

lemma constant_kindE:
  assumes "is_constant_kind k"
  obtains n where "k = I_ConstInt n" | x where "k = I_ConstFloat x" | b where "k = I_ConstBool b"
    | s where "k = I_ConstStr s" | c where "k = I_ConstChar c" | d where "k = I_ConstDecimal d"
    | s where "k = I_ConstBigInt s" | "k = I_ConstNull"
  using assms by (cases k) (simp_all add: is_constant_kind_def)

definition const_inst_ty :: "inst_kind \<Rightarrow> backend_ty option" where
  "const_inst_ty k =
     (case k of
        I_ConstInt _ \<Rightarrow> Some Ty_Int
      | I_ConstFloat _ \<Rightarrow> Some Ty_Float
      | I_ConstBool _ \<Rightarrow> Some Ty_Bool
      | I_ConstStr _ \<Rightarrow> Some Ty_Str
      | I_ConstChar _ \<Rightarrow> Some Ty_Char
      | I_ConstDecimal _ \<Rightarrow> Some (Ty_Dynamic D_Boxed)
      | I_ConstBigInt _ \<Rightarrow> Some (Ty_Dynamic D_Boxed)
      | I_ConstNull \<Rightarrow> Some (Ty_Dynamic D_Boxed)
      | _ \<Rightarrow> None)"

definition fold_convert :: "'a lib \<Rightarrow> value_conv \<Rightarrow> inst_kind \<Rightarrow> inst_kind option" where
  "fold_convert L conv operand =
     (case operand of
        I_ConstInt n \<Rightarrow> if conv = IntToFloat then Some (I_ConstFloat (int_to_float n)) else None
      | I_ConstFloat f \<Rightarrow>
          if conv = FloatToInt then map_option I_ConstInt (float_to_int f) else None
      | I_ConstBigInt s \<Rightarrow>
          if conv = BigIntToInt
          then (case bi_parse L s of None \<Rightarrow> None | Some b \<Rightarrow> map_option I_ConstInt (i64_checked b))
          else None
      | _ \<Rightarrow> None)"

definition fold_unary :: "unop \<Rightarrow> inst_kind \<Rightarrow> inst_kind option" where
  "fold_unary op operand =
     (case operand of
        I_ConstInt x \<Rightarrow>
          (case op of
             U_Neg \<Rightarrow> map_option I_ConstInt (neg_int x)
           | U_BitNot \<Rightarrow> Some (I_ConstInt (NOT x))
           | _ \<Rightarrow> None)
      | I_ConstFloat x \<Rightarrow> if op = U_Neg then Some (I_ConstFloat (f_neg x)) else None
      | I_ConstBool x \<Rightarrow> if op = U_Not then Some (I_ConstBool (\<not> x)) else None
      | _ \<Rightarrow> None)"

fun fold_int :: "binop \<Rightarrow> i64 \<Rightarrow> i64 \<Rightarrow> inst_kind option" where
  "fold_int B_Add x y = map_option I_ConstInt (add_int x y)"
| "fold_int B_Sub x y = map_option I_ConstInt (sub_int x y)"
| "fold_int B_Mul x y = map_option I_ConstInt (mul_int x y)"
| "fold_int B_Div x y = (case div_int x y of Inl _ \<Rightarrow> None | Inr q \<Rightarrow> Some (I_ConstInt q))"
| "fold_int B_Mod x y = (case rem_int x y of Inl _ \<Rightarrow> None | Inr r \<Rightarrow> Some (I_ConstInt r))"
| "fold_int B_Pow x y =
     (if 0 \<le> sint y \<and> sint y \<le> 30 then map_option I_ConstInt (pow_int x y) else None)"
| "fold_int B_Eq x y = Some (I_ConstBool (x = y))"
| "fold_int B_Ne x y = Some (I_ConstBool (x \<noteq> y))"
| "fold_int B_Lt x y = Some (I_ConstBool (x <s y))"
| "fold_int B_Le x y = Some (I_ConstBool (x \<le>s y))"
| "fold_int B_Gt x y = Some (I_ConstBool (y <s x))"
| "fold_int B_Ge x y = Some (I_ConstBool (y \<le>s x))"
| "fold_int B_BitAnd x y = Some (I_ConstInt (x AND y))"
| "fold_int B_BitOr x y = Some (I_ConstInt (x OR y))"
| "fold_int B_BitXor x y = Some (I_ConstInt (x XOR y))"
| "fold_int B_Shl x y = map_option I_ConstInt (shl_int x y)"
| "fold_int B_Shr x y = map_option I_ConstInt (shr_int x y)"
| "fold_int B_Ushr x y = map_option I_ConstInt (ushr_int x y)"
| "fold_int B_Instanceof x y = None"
| "fold_int B_In x y = None"

fun fold_float :: "'a lib \<Rightarrow> binop \<Rightarrow> f64 \<Rightarrow> f64 \<Rightarrow> inst_kind option" where
  "fold_float L B_Add x y = Some (I_ConstFloat (fl_add L x y))"
| "fold_float L B_Sub x y = Some (I_ConstFloat (fl_sub L x y))"
| "fold_float L B_Mul x y = Some (I_ConstFloat (fl_mul L x y))"
| "fold_float L B_Div x y = Some (I_ConstFloat (fl_div L x y))"
| "fold_float L B_Mod x y = Some (I_ConstFloat (fl_rem L x y))"
| "fold_float L B_Pow x y = Some (I_ConstFloat (fl_pow L x y))"
| "fold_float L B_Eq x y = Some (I_ConstBool (f_eq x y))"
| "fold_float L B_Ne x y = Some (I_ConstBool (\<not> f_eq x y))"
| "fold_float L B_Lt x y = Some (I_ConstBool (f_lt x y))"
| "fold_float L B_Le x y = Some (I_ConstBool (f_le x y))"
| "fold_float L B_Gt x y = Some (I_ConstBool (f_lt y x))"
| "fold_float L B_Ge x y = Some (I_ConstBool (f_le y x))"
| "fold_float L _ x y = None"

fun fold_decimal :: "'a lib \<Rightarrow> binop \<Rightarrow> dec \<Rightarrow> dec \<Rightarrow> inst_kind option" where
  "fold_decimal L B_Add x y = Some (I_ConstDecimal (dc_add L x y))"
| "fold_decimal L B_Sub x y = Some (I_ConstDecimal (dc_sub L x y))"
| "fold_decimal L B_Mul x y = Some (I_ConstDecimal (mul_decimal L x y))"
| "fold_decimal L B_Div x y =
     (case div_decimal L x y of Inl _ \<Rightarrow> None | Inr q \<Rightarrow> Some (I_ConstDecimal q))"
| "fold_decimal L B_Eq x y = Some (I_ConstBool (dec_eq x y))"
| "fold_decimal L B_Ne x y = Some (I_ConstBool (\<not> dec_eq x y))"
| "fold_decimal L B_Lt x y = Some (I_ConstBool (dec_lt x y))"
| "fold_decimal L B_Le x y = Some (I_ConstBool (\<not> dec_lt y x))"
| "fold_decimal L B_Gt x y = Some (I_ConstBool (dec_lt y x))"
| "fold_decimal L B_Ge x y = Some (I_ConstBool (\<not> dec_lt x y))"
| "fold_decimal L _ x y = None"

definition big_const :: "'a lib \<Rightarrow> int \<Rightarrow> inst_kind option" where
  "big_const L v = Some (I_ConstBigInt (bi_show L v))"

fun fold_big :: "'a lib \<Rightarrow> binop \<Rightarrow> int \<Rightarrow> int \<Rightarrow> inst_kind option" where
  "fold_big L B_Add a b = big_const L (a + b)"
| "fold_big L B_Sub a b = big_const L (a - b)"
| "fold_big L B_Mul a b = big_const L (a * b)"
| "fold_big L B_Div a b = (case div_big a b of Inl _ \<Rightarrow> None | Inr q \<Rightarrow> big_const L q)"
| "fold_big L B_Mod a b = (case rem_big a b of Inl _ \<Rightarrow> None | Inr r \<Rightarrow> big_const L r)"
| "fold_big L B_Eq a b = Some (I_ConstBool (a = b))"
| "fold_big L B_Ne a b = Some (I_ConstBool (a \<noteq> b))"
| "fold_big L B_Lt a b = Some (I_ConstBool (a < b))"
| "fold_big L B_Le a b = Some (I_ConstBool (a \<le> b))"
| "fold_big L B_Gt a b = Some (I_ConstBool (a > b))"
| "fold_big L B_Ge a b = Some (I_ConstBool (a \<ge> b))"
| "fold_big L _ a b = None"

definition fold_bigint :: "'a lib \<Rightarrow> binop \<Rightarrow> string \<Rightarrow> string \<Rightarrow> inst_kind option" where
  "fold_bigint L op x y =
     (case (bi_parse L x, bi_parse L y) of
        (Some a, Some b) \<Rightarrow> fold_big L op a b
      | _ \<Rightarrow> None)"

text \<open>The equality of two constants of the same kind, and of null with any other constant.\<close>

definition fold_eq :: "binop \<Rightarrow> bool \<Rightarrow> inst_kind option" where
  "fold_eq op same =
     (if op = B_Eq then Some (I_ConstBool same)
      else if op = B_Ne then Some (I_ConstBool (\<not> same)) else None)"

definition is_null_kind :: "inst_kind \<Rightarrow> bool" where
  [simp]: "is_null_kind k \<longleftrightarrow> k = I_ConstNull"

text \<open>The arms of \<open>fold_binary\<close> with operands of the same kind; \<open>None\<close> when no such arm matches.\<close>

definition fold_same ::
  "'a lib \<Rightarrow> binop \<Rightarrow> inst_kind \<Rightarrow> inst_kind \<Rightarrow> inst_kind option option" where
  "fold_same L op lhs rhs =
     (case lhs of
        I_ConstInt x \<Rightarrow> (case rhs of I_ConstInt y \<Rightarrow> Some (fold_int op x y) | _ \<Rightarrow> None)
      | I_ConstFloat x \<Rightarrow> (case rhs of I_ConstFloat y \<Rightarrow> Some (fold_float L op x y) | _ \<Rightarrow> None)
      | I_ConstBool x \<Rightarrow> (case rhs of I_ConstBool y \<Rightarrow> Some (fold_eq op (x = y)) | _ \<Rightarrow> None)
      | I_ConstStr x \<Rightarrow> (case rhs of I_ConstStr y \<Rightarrow> Some (fold_eq op (x = y)) | _ \<Rightarrow> None)
      | I_ConstChar x \<Rightarrow> (case rhs of I_ConstChar y \<Rightarrow> Some (fold_eq op (x = y)) | _ \<Rightarrow> None)
      | I_ConstDecimal x \<Rightarrow> (case rhs of I_ConstDecimal y \<Rightarrow> Some (fold_decimal L op x y) | _ \<Rightarrow> None)
      | I_ConstBigInt x \<Rightarrow> (case rhs of I_ConstBigInt y \<Rightarrow> Some (fold_bigint L op x y) | _ \<Rightarrow> None)
      | I_ConstNull \<Rightarrow> if is_null_kind rhs then Some (fold_eq op True) else None
      | _ \<Rightarrow> None)"

definition fold_binary :: "'a lib \<Rightarrow> binop \<Rightarrow> inst_kind \<Rightarrow> inst_kind \<Rightarrow> inst_kind option" where
  "fold_binary L op lhs rhs =
     (case fold_same L op lhs rhs of
        Some r \<Rightarrow> r
      | None \<Rightarrow>
          let other = (if is_null_kind lhs then rhs else lhs)
          in if (is_null_kind lhs \<or> is_null_kind rhs) \<and> is_constant_kind other
             then fold_eq op False else None)"

section \<open>The value of a constant and of an operation\<close>

definition const_val :: "'a lib \<Rightarrow> inst_kind \<Rightarrow> rval option" where
  "const_val L k =
     (case k of
        I_ConstInt n \<Rightarrow> Some (R_Int n)
      | I_ConstFloat x \<Rightarrow> Some (R_Float x)
      | I_ConstBool b \<Rightarrow> Some (R_Bool b)
      | I_ConstStr s \<Rightarrow> Some (R_Str s)
      | I_ConstChar c \<Rightarrow> Some (R_Char c)
      | I_ConstDecimal d \<Rightarrow> Some (R_Decimal d)
      | I_ConstBigInt s \<Rightarrow> map_option R_BigInt (bi_parse L s)
      | I_ConstNull \<Rightarrow> Some R_Null
      | _ \<Rightarrow> None)"

lemma const_val_simps [simp]:
  "const_val L (I_ConstInt n) = Some (R_Int n)"
  "const_val L (I_ConstFloat x) = Some (R_Float x)"
  "const_val L (I_ConstBool b) = Some (R_Bool b)"
  "const_val L (I_ConstStr s) = Some (R_Str s)"
  "const_val L (I_ConstChar c) = Some (R_Char c)"
  "const_val L (I_ConstDecimal d) = Some (R_Decimal d)"
  "const_val L (I_ConstBigInt s) = map_option R_BigInt (bi_parse L s)"
  "const_val L I_ConstNull = Some R_Null"
  by (simp_all add: const_val_def)

definition sem_binary :: "'a lib \<Rightarrow> binop \<Rightarrow> backend_ty \<Rightarrow> rval \<Rightarrow> rval \<Rightarrow> (vm_error + rval) option" where
  "sem_binary L op ty a b = exec_binary_op L (bin_opcode op ty) a b"

text \<open>\<open>emit_unary\<close>: a complement is an exclusive or with the constant -1.\<close>

definition sem_unary :: "'a lib \<Rightarrow> unop \<Rightarrow> rval \<Rightarrow> vm_error + rval" where
  "sem_unary L op v =
     (case op of
        U_Neg \<Rightarrow> vm_negate v
      | U_Not \<Rightarrow> Inr (vm_not v)
      | U_Typeof \<Rightarrow> Inr (R_Str (typeof_val L v))
      | U_BitNot \<Rightarrow> Inr (vm_bit_xor v (R_Int (-1))))"

end
