(* ===== verification/Const_Fold_Sound.thy ===== *)
theory Const_Fold_Sound
  imports Const_Fold Show_Text
begin

text \<open>
  A constant the folder produces is the value the machine computes. The three situations where
  it is not are named by \<open>fold_guard\<close>.
\<close>

lemma bit_opcode [simp]:
  "exec_binary_op L O_BitAnd a b = Some (Inr (vm_bit_and a b))"
  "exec_binary_op L O_BitOr a b = Some (Inr (vm_bit_or a b))"
  "exec_binary_op L O_BitXor a b = Some (Inr (vm_bit_xor a b))"
  "exec_binary_op L O_Shl a b = Some (vm_shift ''<<'' shl_int a b)"
  "exec_binary_op L O_Shr a b = Some (vm_shift ''>>'' shr_int a b)"
  "exec_binary_op L O_Ushr a b = Some (vm_shift ''>>>'' ushr_int a b)"
  by (simp_all add: exec_binary_op_def exec_generic_binary_def)

lemma str_opcode [simp]:
  "exec_binary_op L O_EqStr a b = Some (Inr (R_Bool (vm_equal L a b)))"
  "exec_binary_op L O_NeqStr a b = Some (Inr (R_Bool (\<not> vm_equal L a b)))"
  "exec_binary_op L O_StrConcat a b = Some (str_concat L a b)"
  by (simp_all add: exec_binary_op_def exec_generic_cmp_def bool_result_def)

lemma bin_opcode_cases:
  "bin_opcode op ty = opcode_int op \<or> bin_opcode op ty = opcode_str op \<or>
   bin_opcode op ty = opcode_generic op \<or>
   Ssa_Ir.representation ty = Ty_Float \<and> bin_opcode op ty = opcode_float op"
  by (cases "Ssa_Ir.representation ty") (simp_all add: bin_opcode_def)

lemma exec_opcode_int:
  "op \<noteq> B_Instanceof \<Longrightarrow> op \<noteq> B_In \<Longrightarrow>
   exec_binary_op L (opcode_int op) a b = exec_binary_op L (opcode_generic op) a b"
  by (cases op) simp_all

lemma exec_opcode_str:
  "exec_binary_op L (opcode_str op) a b = exec_binary_op L (opcode_generic op) a b"
  by (cases op) (simp_all add: opcode_str_def)

lemma exec_opcode_float:
  "\<not> (val_is_number a \<and> val_is_number b) \<Longrightarrow> op \<noteq> B_Instanceof \<Longrightarrow> op \<noteq> B_In \<Longrightarrow>
   exec_binary_op L (opcode_float op) a b = exec_binary_op L (opcode_generic op) a b"
  by (cases op) (auto simp: float_arith_def float_cmp_def)

lemma sem_binary_generic:
  assumes "\<not> (Ssa_Ir.representation ty = Ty_Float \<and> val_is_number a \<and> val_is_number b)"
    and "op \<noteq> B_Instanceof" "op \<noteq> B_In"
  shows "sem_binary L op ty a b = exec_binary_op L (opcode_generic op) a b"
  using bin_opcode_cases [of op ty] assms
  by (auto simp: sem_binary_def exec_opcode_int exec_opcode_str exec_opcode_float)

text \<open>When an operand is a string the concatenation opcode computes what \<open>Add\<close> computes.\<close>

lemma binary_opcode_str:
  assumes "lt = Some Ty_Str \<longrightarrow> val_is_str a" "rt = Some Ty_Str \<longrightarrow> val_is_str b"
  shows "exec_binary_op L (binary_opcode op ty lt rt) a b = sem_binary L op ty a b"
proof (cases "op = B_Add \<and> (lt = Some Ty_Str \<or> rt = Some Ty_Str)")
  case False
  then show ?thesis by (simp only: binary_opcode_def sem_binary_def if_False)
next
  case True
  with assms have s: "val_is_str a \<or> val_is_str b" by auto
  then have "\<not> (val_is_number a \<and> val_is_number b)"
    by (cases a; cases b) (simp_all add: val_is_number_def)
  then have "sem_binary L B_Add ty a b = Some (vm_add L a b)"
    using sem_binary_generic [of ty a b B_Add L] by auto
  moreover have "vm_add L a b = str_concat L a b"
    using s by (cases a; cases b) (simp_all add: vm_add_def on_ints_def val_is_number_def)
  ultimately show ?thesis using True by (simp add: binary_opcode_def)
qed

section \<open>Soundness of the folded constants\<close>

definition computes :: "'a lib \<Rightarrow> inst_kind \<Rightarrow> (vm_error + rval) option \<Rightarrow> bool" where
  "computes L k r \<longleftrightarrow> (\<exists>v. const_val L k = Some v \<and> r = Some (Inr v))"

lemma fold_int_sound:
  "fold_int op x y = Some k \<Longrightarrow>
   computes L k (exec_binary_op L (opcode_generic op) (R_Int x) (R_Int y))"
  by (cases op)
     (auto simp: computes_def vm_add_def vm_sub_def vm_mul_def vm_div_def vm_modulo_def vm_pow_def
        checked_def divided_def int_pow_def vm_bit_and_def vm_bit_or_def vm_bit_xor_def
        vm_shift_def vm_lte_def vm_gt_def vm_gte_def split: sum.splits if_splits)

lemma fold_float_sound:
  assumes "fold_float L op x y = Some k"
    and "Ssa_Ir.representation ty = Ty_Float \<or> \<not> (op \<in> {B_Le, B_Ge} \<and> (f_is_nan x \<or> f_is_nan y))"
  shows "computes L k (sem_binary L op ty (R_Float x) (R_Float y))"
proof (cases "Ssa_Ir.representation ty = Ty_Float")
  case True
  then have op: "bin_opcode o' ty = opcode_float o'" for o' by (simp add: bin_opcode_def)
  show ?thesis
    using assms(1)
    by (cases op)
       (auto simp: sem_binary_def op computes_def float_arith_def float_cmp_def val_is_number_def)
next
  case False
  have "op \<noteq> B_Instanceof" "op \<noteq> B_In" using assms(1) by auto
  with False have "sem_binary L op ty (R_Float x) (R_Float y)
      = exec_binary_op L (opcode_generic op) (R_Float x) (R_Float y)"
    by (intro sem_binary_generic) auto
  moreover have "computes L k (exec_binary_op L (opcode_generic op) (R_Float x) (R_Float y))"
    using assms False generic_arith_float [of "R_Float x" "R_Float y" L]
      generic_cmp_float [of "R_Float x" "R_Float y"]
    by (cases op) (auto simp: computes_def val_is_number_def)
  ultimately show ?thesis by simp
qed

lemma dec_le_not_lt: "dec_eq a b \<or> dec_lt a b \<longleftrightarrow> \<not> dec_lt b a"
  by (auto simp: dec_eq_def dec_lt_def)

lemma fold_decimal_sound:
  "fold_decimal L op x y = Some k \<Longrightarrow>
   computes L k (exec_binary_op L (opcode_generic op) (R_Decimal x) (R_Decimal y))"
  by (cases op)
     (auto simp: computes_def vm_add_def vm_sub_def vm_mul_def vm_div_def vm_lte_def vm_gt_def
        vm_gte_def on_ints_def big_binary_def val_is_number_def div_decimal_def
        split: sum.splits if_splits)

definition big_text_ok :: "'a lib \<Rightarrow> bool" where
  "big_text_ok L \<longleftrightarrow> (\<forall>n. bi_parse L (bi_show L n) = Some n)"

lemma fold_big_sound:
  assumes "big_text_ok L" "fold_big L op a b = Some k"
    and "op = B_Mul \<longrightarrow> big_bits a + big_bits b \<le> MAX_BITS"
  shows "computes L k (exec_binary_op L (opcode_generic op) (R_BigInt a) (R_BigInt b))"
  using assms
  by (cases op)
     (auto simp: computes_def vm_add_def vm_sub_def vm_mul_def vm_div_def vm_modulo_def vm_lte_def
        vm_gt_def vm_gte_def on_ints_def big_binary_def val_is_number_def big_const_def
        big_text_ok_def split: sum.splits if_splits)

lemma fold_eq_sound:
  assumes "fold_eq op same = Some k" "\<not> (val_is_number a \<and> val_is_number b)"
    and "vm_equal L a b = same"
  shows "computes L k (sem_binary L op ty a b)"
proof -
  have "op = B_Eq \<or> op = B_Ne" using assms(1) by (auto simp: fold_eq_def split: if_splits)
  then show ?thesis
    using assms sem_binary_generic [of ty a b op L]
    by (auto simp: fold_eq_def computes_def)
qed

definition fold_guard :: "binop \<Rightarrow> backend_ty \<Rightarrow> rval \<Rightarrow> rval \<Rightarrow> bool" where
  "fold_guard op ty a b \<longleftrightarrow>
     (if Ssa_Ir.representation ty = Ty_Float then \<not> (val_is_int a \<and> val_is_int b)
      else \<not> (op \<in> {B_Le, B_Ge} \<and> (is_nan_val a \<or> is_nan_val b))) \<and>
     (op = B_Mul \<longrightarrow>
        (case (a, b) of
           (R_BigInt x, R_BigInt y) \<Rightarrow> big_bits x + big_bits y \<le> MAX_BITS
         | _ \<Rightarrow> True))"

lemma fold_same_inv:
  assumes "fold_same L op lhs rhs = Some r"
  shows "(\<exists>x y. lhs = I_ConstInt x \<and> rhs = I_ConstInt y \<and> r = fold_int op x y) \<or>
    (\<exists>x y. lhs = I_ConstFloat x \<and> rhs = I_ConstFloat y \<and> r = fold_float L op x y) \<or>
    (\<exists>x y. lhs = I_ConstBool x \<and> rhs = I_ConstBool y \<and> r = fold_eq op (x = y)) \<or>
    (\<exists>x y. lhs = I_ConstStr x \<and> rhs = I_ConstStr y \<and> r = fold_eq op (x = y)) \<or>
    (\<exists>x y. lhs = I_ConstChar x \<and> rhs = I_ConstChar y \<and> r = fold_eq op (x = y)) \<or>
    (\<exists>x y. lhs = I_ConstDecimal x \<and> rhs = I_ConstDecimal y \<and> r = fold_decimal L op x y) \<or>
    (\<exists>x y. lhs = I_ConstBigInt x \<and> rhs = I_ConstBigInt y \<and> r = fold_bigint L op x y) \<or>
    (lhs = I_ConstNull \<and> rhs = I_ConstNull \<and> r = fold_eq op True)"
  using assms unfolding fold_same_def
  by (cases lhs; simp) (auto split: inst_kind.splits if_splits)

lemma fold_arith_ops:
  "fold_int op x y = Some k \<Longrightarrow> op \<noteq> B_Instanceof \<and> op \<noteq> B_In"
  "fold_decimal L op p q = Some k \<Longrightarrow> op \<noteq> B_Instanceof \<and> op \<noteq> B_In"
  "fold_big L op a b = Some k \<Longrightarrow> op \<noteq> B_Instanceof \<and> op \<noteq> B_In"
  by auto

lemma fold_same_sound:
  assumes L: "big_text_ok L" and k: "fold_same L op lhs rhs = Some (Some k)"
    and a: "const_val L lhs = Some a" and b: "const_val L rhs = Some b"
    and g: "fold_guard op ty a b"
  shows "computes L k (sem_binary L op ty a b)"
  using fold_same_inv [OF k]
proof (elim disjE exE conjE)
  fix x y assume s: "lhs = I_ConstInt x" "rhs = I_ConstInt y" "Some k = fold_int op x y"
  then have ab: "a = R_Int x" "b = R_Int y" using a b by simp_all
  then have "Ssa_Ir.representation ty \<noteq> Ty_Float" using g by (auto simp: fold_guard_def)
  then have "sem_binary L op ty a b = exec_binary_op L (opcode_generic op) a b"
    using s(3) by (intro sem_binary_generic) (auto dest: fold_arith_ops(1) [OF sym])
  then show ?thesis using fold_int_sound [OF s(3) [symmetric], of L] ab by simp
next
  fix x y assume s: "lhs = I_ConstFloat x" "rhs = I_ConstFloat y" "Some k = fold_float L op x y"
  then show ?thesis
    using a b g fold_float_sound [of L op x y k ty] by (auto simp: fold_guard_def split: if_splits)
next
  fix x y assume s: "lhs = I_ConstDecimal x" "rhs = I_ConstDecimal y"
    "Some k = fold_decimal L op x y"
  then have ab: "a = R_Decimal x" "b = R_Decimal y" using a b by simp_all
  then have "sem_binary L op ty a b = exec_binary_op L (opcode_generic op) a b"
    using s(3) by (intro sem_binary_generic) (auto simp: val_is_number_def dest: fold_arith_ops(2) [OF sym])
  then show ?thesis using fold_decimal_sound [OF s(3) [symmetric]] ab by simp
next
  fix x y assume s: "lhs = I_ConstBigInt x" "rhs = I_ConstBigInt y"
    "Some k = fold_bigint L op x y"
  then obtain m n where mn: "bi_parse L x = Some m" "bi_parse L y = Some n"
    "fold_big L op m n = Some k"
    by (auto simp: fold_bigint_def split: option.splits)
  then have ab: "a = R_BigInt m" "b = R_BigInt n" using a b s by simp_all
  then have "sem_binary L op ty a b = exec_binary_op L (opcode_generic op) a b"
    using mn(3) by (intro sem_binary_generic) (auto simp: val_is_number_def dest: fold_arith_ops(3))
  moreover have "op = B_Mul \<longrightarrow> big_bits m + big_bits n \<le> MAX_BITS"
    using g ab by (simp add: fold_guard_def)
  ultimately show ?thesis using fold_big_sound [OF L mn(3)] ab by simp
qed (use a b in \<open>auto simp: val_is_number_def intro!: fold_eq_sound [OF sym]\<close>)

lemma const_val_null: "const_val L k = Some v \<Longrightarrow> v = R_Null \<longleftrightarrow> k = I_ConstNull"
  by (cases k) (auto simp: const_val_def)

lemma vm_equal_null: "vm_equal L R_Null v \<longleftrightarrow> v = R_Null" "vm_equal L v R_Null \<longleftrightarrow> v = R_Null"
  by (cases v; simp)+

lemma fold_binary_computes:
  assumes "big_text_ok L" "fold_binary L op lhs rhs = Some k"
    and "const_val L lhs = Some a" "const_val L rhs = Some b" "fold_guard op ty a b"
  shows "\<exists>v. const_val L k = Some v \<and> sem_binary L op ty a b = Some (Inr v)"
proof (cases "fold_same L op lhs rhs")
  case (Some r)
  then show ?thesis
    using assms fold_same_sound [of L op lhs rhs k a b ty]
    by (simp add: fold_binary_def computes_def)
next
  case None
  then have k: "fold_eq op False = Some k" and n: "lhs = I_ConstNull \<or> rhs = I_ConstNull"
    and nn: "\<not> (lhs = I_ConstNull \<and> rhs = I_ConstNull)"
    using assms(2) None by (auto simp: fold_binary_def fold_same_def Let_def split: if_splits)
  have "a = R_Null \<or> b = R_Null" "\<not> (a = R_Null \<and> b = R_Null)"
    using n nn const_val_null assms(3,4) by blast+
  then have "vm_equal L a b = False" "\<not> (val_is_number a \<and> val_is_number b)"
    by (auto simp: vm_equal_null val_is_number_def)
  then show ?thesis
    using fold_eq_sound [OF k] by (simp add: computes_def)
qed

lemma fold_unary_sound:
  assumes "fold_unary op c = Some k" "const_val L c = Some a"
  shows "\<exists>v. const_val L k = Some v \<and> sem_unary L op a = Inr v"
  using assms
  by (cases c; cases op)
     (auto simp: fold_unary_def sem_unary_def vm_not_def vm_bit_xor_def
        split: option.splits)

lemma fold_convert_sound:
  assumes "fold_convert L conv c = Some k" "const_val L c = Some a"
  shows "\<exists>v. const_val L k = Some v \<and> convert L inl conv a = Inr v"
  using assms
  by (cases c)
     (auto simp: fold_convert_def convert_def convert_number_def int_or_fault_def split: if_splits option.splits)

text \<open>A library whose big integers are printed and read in decimal.\<close>

definition text_lib :: arith_lib where
  "text_lib = plain_arith\<lparr>bi_parse := parse_int, bi_show := show_int\<rparr>"

lemma text_lib_ok: "big_text_ok text_lib"
  by (simp add: big_text_ok_def text_lib_def parse_show_int)

end
