(* ===== verification/Ssa_Sem.thy ===== *)
theory Ssa_Sem
  imports Const_Fold
begin

text \<open>
  What a function in SSA form does. The passes of \<open>crates/varn-compiler/src/passes\<close> are stated
  against it: a pass is correct when the function it returns behaves as the one it was given.

  An environment gives the values defined so far; reading an undefined one is \<open>Stuck\<close>, and so
  is leaving the block vector or passing a wrong number of arguments, which the verifier
  excludes. Constants, arithmetic, conversions and copies mean what the machine computes; every
  other instruction is an effect of the host, a function of the instruction with its operands
  blanked, of the operands' values and of the state of the world. A \<open>Try\<close> pushes its handler;
  an exception writes the exception to the destination of the \<open>Try\<close> that catches it and enters
  the handler.
\<close>

type_synonym env = "val \<Rightarrow> rval option"

record 'w host =
  h_effect :: "inst_kind \<Rightarrow> rval list \<Rightarrow> 'w \<Rightarrow> (rval + rval) \<times> 'w"
  h_error :: "vm_error \<Rightarrow> 'w \<Rightarrow> rval \<times> 'w"
  h_inline :: "string \<Rightarrow> bool"

datatype 'w outcome =
    Returned "rval option" 'w
  | Raised rval 'w
  | Stuck

type_synonym handlers = "(block_id \<times> val option) list"

text \<open>An instruction without its operands, which are passed by value.\<close>

definition shape :: "inst_kind \<Rightarrow> inst_kind" where
  "shape k = map_uses (\<lambda>_. 0) k"

lemma shape_map_uses [simp]: "shape (map_uses f k) = shape k"
  by (simp add: shape_def)

definition raise_or :: "'w host \<Rightarrow> 'w \<Rightarrow> vm_error + rval \<Rightarrow> (rval + rval) \<times> 'w" where
  "raise_or H w r =
     (case r of
        Inr v \<Rightarrow> (Inr v, w)
      | Inl e \<Rightarrow> (let (ex, w') = h_error H e w in (Inl ex, w')))"

fun read_env :: "env \<Rightarrow> val list \<Rightarrow> rval list option" where
  "read_env env [] = Some []"
| "read_env env (v # vs) =
     (case env v of None \<Rightarrow> None | Some x \<Rightarrow> map_option ((#) x) (read_env env vs))"

text \<open>The kinds whose meaning is computed here; \<open>None\<close> leaves the kind to the host.\<close>

definition local_sem ::
  "'a lib \<Rightarrow> (string \<Rightarrow> bool) \<Rightarrow> inst_kind \<Rightarrow> rval list \<Rightarrow> (vm_error + rval) option" where
  "local_sem L inl k args =
     (case k of
        I_Binary op _ _ ty \<Rightarrow> sem_binary L op ty (args ! 0) (args ! 1)
      | I_Unary op _ _ \<Rightarrow> Some (sem_unary L op (args ! 0))
      | I_Convert _ conv \<Rightarrow> Some (convert L inl conv (args ! 0))
      | I_IsNull _ \<Rightarrow> Some (Inr (R_Bool (args ! 0 = R_Null)))
      | I_Cast _ _ \<Rightarrow> Some (Inr (args ! 0))
      | _ \<Rightarrow> None)"

lemma local_sem_simps [simp]:
  "local_sem L inl (I_Binary op a b ty) args = sem_binary L op ty (args ! 0) (args ! 1)"
  "local_sem L inl (I_Unary uop a ty) args = Some (sem_unary L uop (args ! 0))"
  "local_sem L inl (I_Convert a conv) args = Some (convert L inl conv (args ! 0))"
  "local_sem L inl (I_IsNull a) args = Some (Inr (R_Bool (args ! 0 = R_Null)))"
  "local_sem L inl (I_Cast a ty) args = Some (Inr (args ! 0))"
  by (simp_all add: local_sem_def)

text \<open>A constant that has no value (a malformed big integer) is rejected by the code generator.\<close>

definition exec_kind ::
  "'a lib \<Rightarrow> 'w host \<Rightarrow> inst_kind \<Rightarrow> rval list \<Rightarrow> 'w \<Rightarrow> ((rval + rval) \<times> 'w) option" where
  "exec_kind L H k args w =
     (if is_constant_kind k then map_option (\<lambda>v. (Inr v, w)) (const_val L k)
      else case local_sem L (h_inline H) k args of
             Some r \<Rightarrow> Some (raise_or H w r)
           | None \<Rightarrow> Some (h_effect H (shape k) args w))"

definition bind_dest :: "val option \<Rightarrow> rval \<Rightarrow> env \<Rightarrow> env" where
  "bind_dest d v env = (case d of None \<Rightarrow> env | Some x \<Rightarrow> env(x \<mapsto> v))"

datatype 'w step = Fell env handlers 'w | Threw rval env handlers 'w | Blocked

definition is_pop :: "inst_kind \<Rightarrow> bool" where
  [simp]: "is_pop k \<longleftrightarrow> k = I_PopTry"

definition exec_inst :: "'a lib \<Rightarrow> 'w host \<Rightarrow> inst \<Rightarrow> env \<Rightarrow> handlers \<Rightarrow> 'w \<Rightarrow> 'w step" where
  "exec_inst L H i env hs w =
     (case try_handler (i_kind i) of
        Some h \<Rightarrow> Fell env ((h, i_dest i) # hs) w
      | None \<Rightarrow>
        if is_pop (i_kind i) then (case hs of [] \<Rightarrow> Blocked | _ # hs' \<Rightarrow> Fell env hs' w)
        else
          (case read_env env (inst_uses (i_kind i)) of
             None \<Rightarrow> Blocked
           | Some args \<Rightarrow>
             (case exec_kind L H (i_kind i) args w of
                None \<Rightarrow> Blocked
              | Some (Inl ex, w') \<Rightarrow> Threw ex env hs w'
              | Some (Inr v, w') \<Rightarrow> Fell (bind_dest (i_dest i) v env) hs w')))"

fun exec_insts :: "'a lib \<Rightarrow> 'w host \<Rightarrow> inst list \<Rightarrow> env \<Rightarrow> handlers \<Rightarrow> 'w \<Rightarrow> 'w step" where
  "exec_insts L H [] env hs w = Fell env hs w"
| "exec_insts L H (i # rest) env hs w =
     (case exec_inst L H i env hs w of
        Fell env' hs' w' \<Rightarrow> exec_insts L H rest env' hs' w'
      | r \<Rightarrow> r)"

text \<open>Where control goes at the end of a block.\<close>

datatype 'w flow = Enter block_id "rval list" env handlers 'w | Done "'w outcome"

definition unwind :: "rval \<Rightarrow> env \<Rightarrow> handlers \<Rightarrow> 'w \<Rightarrow> 'w flow" where
  "unwind ex env hs w =
     (case hs of
        [] \<Rightarrow> Done (Raised ex w)
      | (h, d) # hs' \<Rightarrow> Enter h [] (bind_dest d ex env) hs' w)"

definition goto :: "block_id \<Rightarrow> val list \<Rightarrow> env \<Rightarrow> handlers \<Rightarrow> 'w \<Rightarrow> 'w flow" where
  "goto t args env hs w =
     (case read_env env args of None \<Rightarrow> Done Stuck | Some vs \<Rightarrow> Enter t vs env hs w)"

fun exec_term :: "terminator \<Rightarrow> env \<Rightarrow> handlers \<Rightarrow> 'w \<Rightarrow> 'w flow" where
  "exec_term (T_Return None) env hs w = Done (Returned None w)"
| "exec_term (T_Return (Some v)) env hs w =
     (case env v of None \<Rightarrow> Done Stuck | Some x \<Rightarrow> Done (Returned (Some x) w))"
| "exec_term (T_Throw v) env hs w =
     (case env v of None \<Rightarrow> Done Stuck | Some x \<Rightarrow> unwind x env hs w)"
| "exec_term (T_Jump t args) env hs w = goto t args env hs w"
| "exec_term (T_Branch c t targs e eargs) env hs w =
     (case env c of
        None \<Rightarrow> Done Stuck
      | Some x \<Rightarrow> if val_is_truthy x then goto t targs env hs w else goto e eargs env hs w)"
| "exec_term T_Unreachable env hs w = Done Stuck"

definition exec_body :: "'a lib \<Rightarrow> 'w host \<Rightarrow> block \<Rightarrow> env \<Rightarrow> handlers \<Rightarrow> 'w \<Rightarrow> 'w flow" where
  "exec_body L H b env hs w =
     (case exec_insts L H (bk_insts b) env hs w of
        Fell env' hs' w' \<Rightarrow> exec_term (bk_term b) env' hs' w'
      | Threw ex env' hs' w' \<Rightarrow> unwind ex env' hs' w'
      | Blocked \<Rightarrow> Done Stuck)"

definition enter_block :: "block list \<Rightarrow> block_id \<Rightarrow> rval list \<Rightarrow> env \<Rightarrow> env option" where
  "enter_block bs t vs env =
     (if t < length bs \<and> length vs = length (bk_params (bs ! t))
      then Some (env(bk_params (bs ! t) [\<mapsto>] vs)) else None)"

text \<open>
  At most \<open>n\<close> blocks are executed; \<open>None\<close> is a run cut short. \<open>behaves\<close> is a run that ends.
\<close>

fun run_blocks ::
  "'a lib \<Rightarrow> 'w host \<Rightarrow> block list \<Rightarrow> nat \<Rightarrow> block_id \<Rightarrow> rval list \<Rightarrow> env \<Rightarrow> handlers \<Rightarrow> 'w
   \<Rightarrow> 'w outcome option" where
  "run_blocks L H bs 0 t vs env hs w = None"
| "run_blocks L H bs (Suc n) t vs env hs w =
     (case enter_block bs t vs env of
        None \<Rightarrow> Some Stuck
      | Some env' \<Rightarrow>
        (case exec_body L H (bs ! t) env' hs w of
           Done r \<Rightarrow> Some r
         | Enter t' vs' env'' hs' w' \<Rightarrow> run_blocks L H bs n t' vs' env'' hs' w'))"

definition run_func ::
  "'a lib \<Rightarrow> 'w host \<Rightarrow> ssa_func \<Rightarrow> nat \<Rightarrow> rval list \<Rightarrow> 'w \<Rightarrow> 'w outcome option" where
  "run_func L H f n args w = run_blocks L H (f_blocks f) n (f_entry f) args Map.empty [] w"

definition behaves :: "'a lib \<Rightarrow> 'w host \<Rightarrow> ssa_func \<Rightarrow> rval list \<Rightarrow> 'w \<Rightarrow> 'w outcome \<Rightarrow> bool" where
  "behaves L H f args w r \<longleftrightarrow> (\<exists>n. run_func L H f n args w = Some r)"

section \<open>Laws of execution\<close>

lemma read_env_Some_iff: "read_env env vs = Some xs \<longleftrightarrow> map env vs = map Some xs"
  by (induction vs arbitrary: xs) (auto simp: Cons_eq_map_conv split: option.splits)

lemma read_env_None_iff: "read_env env vs = None \<longleftrightarrow> (\<exists>v \<in> set vs. env v = None)"
  by (induction vs) (auto split: option.splits)

lemma read_env_cong: "(\<And>v. v \<in> set vs \<Longrightarrow> env v = env' v) \<Longrightarrow> read_env env vs = read_env env' vs"
  by (induction vs) (auto split: option.splits)

lemma read_env_map: "read_env env (map f vs) = read_env (\<lambda>v. env (f v)) vs"
  by (induction vs) (auto split: option.splits)

lemma read_env_length: "read_env env vs = Some xs \<Longrightarrow> length xs = length vs"
  by (induction vs arbitrary: xs) (auto split: option.splits)

lemma exec_insts_append:
  "exec_insts L H (xs @ ys) env hs w =
     (case exec_insts L H xs env hs w of
        Fell env' hs' w' \<Rightarrow> exec_insts L H ys env' hs' w'
      | r \<Rightarrow> r)"
  by (induction xs arbitrary: env hs w) (auto split: step.splits)

text \<open>A run that ends within a bound ends the same way within any larger one.\<close>

lemma run_blocks_mono:
  "run_blocks L H bs n t vs env hs w = Some r \<Longrightarrow> n \<le> m \<Longrightarrow>
   run_blocks L H bs m t vs env hs w = Some r"
proof (induction n arbitrary: m t vs env hs w)
  case (Suc n)
  then obtain m' where m: "m = Suc m'" by (cases m) auto
  with Suc show ?case by (auto split: option.splits flow.splits)
qed simp

lemma behaves_deterministic:
  assumes "behaves L H f args w r" "behaves L H f args w r'"
  shows "r = r'"
proof -
  from assms obtain n m where
    "run_func L H f n args w = Some r" "run_func L H f m args w = Some r'"
    by (auto simp: behaves_def)
  then have "run_func L H f (max n m) args w = Some r" "run_func L H f (max n m) args w = Some r'"
    unfolding run_func_def by (auto elim: run_blocks_mono)
  then show ?thesis by simp
qed

end
