(* ===== verification/Pass_Sim.thy ===== *)
theory Pass_Sim
  imports Ssa_Sem
begin

text \<open>
  The contract a pass has to meet when it keeps the block numbering: its input and its output
  run in step. The passes are proved correct by interpreting the locale below.
\<close>

definition run_one ::
  "'a lib \<Rightarrow> 'w host \<Rightarrow> block list \<Rightarrow> block_id \<Rightarrow> rval list \<Rightarrow> env \<Rightarrow> handlers \<Rightarrow> 'w \<Rightarrow> 'w flow" where
  "run_one L H bs t vs env hs w =
     (case enter_block bs t vs env of
        None \<Rightarrow> Done Stuck
      | Some env' \<Rightarrow> exec_body L H (bs ! t) env' hs w)"

lemma run_blocks_Suc:
  "run_blocks L H bs (Suc n) t vs env hs w =
     (case run_one L H bs t vs env hs w of
        Done r \<Rightarrow> Some r
      | Enter t' vs' env' hs' w' \<Rightarrow> run_blocks L H bs n t' vs' env' hs' w')"
  by (simp add: run_one_def split: option.splits)

text \<open>The states in which a block is about to be entered.\<close>

type_synonym entry_state = "rval list \<times> env \<times> handlers"

definition flow_sim :: "(block_id \<Rightarrow> entry_state \<Rightarrow> entry_state \<Rightarrow> bool) \<Rightarrow> 'w flow \<Rightarrow> 'w flow \<Rightarrow> bool" where
  "flow_sim sim fl fl' \<longleftrightarrow>
     (case fl of
        Done r \<Rightarrow> fl' = Done r
      | Enter t vs env hs w \<Rightarrow>
          \<exists>vs' env' hs'. fl' = Enter t vs' env' hs' w \<and> sim t (vs, env, hs) (vs', env', hs'))"

locale block_simulation =
  fixes L :: "'a lib" and H :: "'w host"
    and rel :: "block list \<Rightarrow> block list \<Rightarrow> bool"
    and sim :: "block list \<Rightarrow> block list \<Rightarrow> block_id \<Rightarrow> entry_state \<Rightarrow> entry_state \<Rightarrow> bool"
  assumes step: "rel bs bs' \<Longrightarrow> sim bs bs' t (vs, env, hs) (vs', env', hs') \<Longrightarrow>
      run_one L H bs t vs env hs w \<noteq> Done Stuck \<Longrightarrow>
      flow_sim (sim bs bs') (run_one L H bs t vs env hs w) (run_one L H bs' t vs' env' hs' w)"
begin

theorem runs_agree:
  "rel bs bs' \<Longrightarrow> sim bs bs' t (vs, env, hs) (vs', env', hs') \<Longrightarrow>
   run_blocks L H bs n t vs env hs w \<noteq> Some Stuck \<Longrightarrow>
   run_blocks L H bs' n t vs' env' hs' w = run_blocks L H bs n t vs env hs w"
proof (induction n arbitrary: t vs env hs vs' env' hs' w)
  case (Suc n)
  have "run_one L H bs t vs env hs w \<noteq> Done Stuck"
    using Suc.prems(3) unfolding run_blocks_Suc by auto
  from step [OF Suc.prems(1,2) this] Suc.prems(3) Suc.IH Suc.prems(1)
  show ?case
    by (auto simp del: run_blocks.simps simp: run_blocks_Suc flow_sim_def split: flow.splits)
qed simp

end

end
