(* ===== verification/Ssa_Verify.thy ===== *)
theory Ssa_Verify
  imports Ssa_Ir
begin

text \<open>
  The verifier of SSA functions (\<open>ssa/verify/structural.rs\<close>, \<open>dominance.rs\<close>, \<open>type_rules.rs\<close>)
  over the dominance queries of the next component, which are passed in. A message of the
  verifier is a constructor of \<open>verify_fault\<close>, with the values the message prints.
\<close>

record def_site =
  ds_block :: block_id
  ds_order :: nat

datatype verify_fault =
    F_OutOfRange val
  | F_DefinedTwice val
  | F_JumpOutOfRange block_id block_id
  | F_PredOutOfRange block_id block_id
  | F_EdgeArity block_id block_id nat nat
  | F_NoEdge block_id block_id
  | F_Undefined val
  | F_UsedBefore val
  | F_NotDominated val block_id block_id
  | F_BinaryOperand binop backend_ty val backend_ty
  | F_UnaryOperand unop backend_ty val backend_ty
  | F_ResultType val backend_ty backend_ty
  | F_ConvertOperand val backend_ty backend_ty
  | F_IndexType val backend_ty

type_synonym defs = "def_site option list"

section \<open>Definitions\<close>

definition define_value :: "val \<Rightarrow> def_site \<Rightarrow> defs \<Rightarrow> verify_fault + defs" where
  "define_value v site ds =
     (case list_get ds v of
        None \<Rightarrow> Inl (F_OutOfRange v)
      | Some (Some _) \<Rightarrow> Inl (F_DefinedTwice v)
      | Some None \<Rightarrow> Inr (ds[v := Some site]))"

fun define_all :: "(val \<times> def_site) list \<Rightarrow> defs \<Rightarrow> verify_fault + defs" where
  "define_all [] ds = Inr ds"
| "define_all ((v, site) # rest) ds =
     (case define_value v site ds of Inl e \<Rightarrow> Inl e | Inr ds' \<Rightarrow> define_all rest ds')"

text \<open>The definitions in the order the verifier visits them, each with its site.\<close>

definition block_defs :: "block_id \<Rightarrow> block \<Rightarrow> (val \<times> def_site) list" where
  "block_defs b blk =
     map (\<lambda>p. (p, \<lparr>ds_block = b, ds_order = 0\<rparr>)) (bk_params blk) @
     List.map_filter
       (\<lambda>(n, i). map_option (\<lambda>d. (d, \<lparr>ds_block = b, ds_order = n + 1\<rparr>)) (i_dest i))
       (List.enumerate 0 (bk_insts blk))"

definition func_defs :: "ssa_func \<Rightarrow> (val \<times> def_site) list" where
  "func_defs f = concat (map (\<lambda>(b, blk). block_defs b blk) (List.enumerate 0 (f_blocks f)))"

definition verify_defs :: "ssa_func \<Rightarrow> verify_fault + defs" where
  "verify_defs f = define_all (func_defs f) (replicate (length (f_values f)) None)"

section \<open>Edges\<close>

definition edge_arg_count :: "block list \<Rightarrow> block_id \<Rightarrow> block_id \<Rightarrow> verify_fault + nat" where
  "edge_arg_count bs pred b =
     (if b \<in> set (block_handlers (bs ! pred)) then Inr 0
      else
        (case bk_term (bs ! pred) of
           T_Jump t args \<Rightarrow> if t = b then Inr (length args) else Inl (F_NoEdge pred b)
         | T_Branch _ t targs e eargs \<Rightarrow>
             if t = b then Inr (length targs)
             else if e = b then Inr (length eargs) else Inl (F_NoEdge pred b)
         | _ \<Rightarrow> Inl (F_NoEdge pred b)))"

fun check_succs :: "nat \<Rightarrow> block_id \<Rightarrow> block_id list \<Rightarrow> verify_fault + unit" where
  "check_succs n b [] = Inr ()"
| "check_succs n b (s # ss) = (if n \<le> s then Inl (F_JumpOutOfRange b s) else check_succs n b ss)"

fun check_preds :: "block list \<Rightarrow> block_id \<Rightarrow> block_id list \<Rightarrow> verify_fault + unit" where
  "check_preds bs b [] = Inr ()"
| "check_preds bs b (p # ps) =
     (if length bs \<le> p then Inl (F_PredOutOfRange b p)
      else
        (case edge_arg_count bs p b of
           Inl e \<Rightarrow> Inl e
         | Inr got \<Rightarrow>
             if got \<noteq> length (bk_params (bs ! b))
             then Inl (F_EdgeArity p b got (length (bk_params (bs ! b))))
             else check_preds bs b ps))"

fun check_edges :: "block list \<Rightarrow> block_id list \<Rightarrow> verify_fault + unit" where
  "check_edges bs [] = Inr ()"
| "check_edges bs (b # rest) =
     (case check_succs (length bs) b (block_successors (bs ! b)) of
        Inl e \<Rightarrow> Inl e
      | Inr _ \<Rightarrow>
        (case check_preds bs b (bk_preds (bs ! b)) of
           Inl e \<Rightarrow> Inl e
         | Inr _ \<Rightarrow> check_edges bs rest))"

section \<open>Types of the instructions\<close>

fun is_boxed :: "backend_ty \<Rightarrow> bool" where
  "is_boxed Ty_Decimal = True"
| "is_boxed Ty_BigInt = True"
| "is_boxed Ty_Void = True"
| "is_boxed Ty_Never = True"
| "is_boxed (Ty_Dynamic _) = True"
| "is_boxed _ = False"

fun binary_result_ty :: "binop \<Rightarrow> backend_ty \<Rightarrow> backend_ty" where
  "binary_result_ty op ty =
     (if op \<in> {B_Eq, B_Ne, B_Lt, B_Le, B_Gt, B_Ge, B_Instanceof, B_In} then Ty_Bool else ty)"

primrec unary_result_ty :: "unop \<Rightarrow> backend_ty \<Rightarrow> backend_ty" where
  "unary_result_ty U_Not ty = Ty_Bool"
| "unary_result_ty U_Typeof ty = Ty_Str"
| "unary_result_ty U_Neg ty = ty"
| "unary_result_ty U_BitNot ty = ty"

definition convert_result_ty :: "value_conv \<Rightarrow> backend_ty" where
  "convert_result_ty conv =
     (if conv \<in> {IntToFloat, DynToFloat, BigIntToFloat, DecimalToFloat} then Ty_Float
      else if conv \<in> {FloatToInt, BigIntToInt, DecimalToInt, DynToInt} then Ty_Int
      else if conv \<in> {IntToBigInt, IntToDecimal, FloatToBigInt, FloatToDecimal, BigIntToDecimal,
                      DecimalToBigInt} then Ty_Dynamic D_Boxed
      else if conv = ExpectStr then Ty_Str
      else if conv = ExpectBool then Ty_Bool
      else if conv \<in> {ExpectStrOrNull, ExpectBoolOrNull, ExpectIntOrNull, ExpectFloatOrNull,
                      ExpectRef} then Ty_Dynamic D_Boxed
      else if conv = ExpectInt then Ty_Int
      else Ty_Float)"

definition convert_operand_ty :: "value_conv \<Rightarrow> backend_ty option" where
  "convert_operand_ty conv =
     (if conv = IntToFloat then Some Ty_Int
      else if conv \<in> {FloatToInt, FloatToBigInt, FloatToDecimal} then Some Ty_Float
      else None)"

definition expect_dest :: "ssa_func \<Rightarrow> val option \<Rightarrow> backend_ty \<Rightarrow> verify_fault + unit" where
  "expect_dest f dest ty =
     (case dest of
        None \<Rightarrow> Inr ()
      | Some d \<Rightarrow> if value_ty f d \<noteq> ty then Inl (F_ResultType d (value_ty f d) ty) else Inr ())"

definition check_binary ::
  "ssa_func \<Rightarrow> val option \<Rightarrow> binop \<Rightarrow> val \<Rightarrow> val \<Rightarrow> backend_ty \<Rightarrow> verify_fault + unit" where
  "check_binary f dest op lhs rhs ty =
     (if is_boxed ty then Inr ()
      else if value_ty f lhs \<noteq> ty then Inl (F_BinaryOperand op ty lhs (value_ty f lhs))
      else if value_ty f rhs \<noteq> ty then Inl (F_BinaryOperand op ty rhs (value_ty f rhs))
      else
        (case dest of
           None \<Rightarrow> Inr ()
         | Some d \<Rightarrow>
             let dty = value_ty f d;
                 res = binary_result_ty op ty;
                 is_str_concat =
                   op = B_Add \<and> (value_ty f lhs = Ty_Str \<or> value_ty f rhs = Ty_Str) \<and> dty = Ty_Str
             in if dty \<noteq> res \<and> \<not> is_str_concat then Inl (F_ResultType d dty res) else Inr ()))"

definition check_unary ::
  "ssa_func \<Rightarrow> val option \<Rightarrow> unop \<Rightarrow> val \<Rightarrow> backend_ty \<Rightarrow> verify_fault + unit" where
  "check_unary f dest op operand ty =
     (if op \<in> {U_Neg, U_BitNot} \<and> \<not> is_boxed ty \<and> value_ty f operand \<noteq> ty
      then Inl (F_UnaryOperand op ty operand (value_ty f operand))
      else
        (case dest of
           None \<Rightarrow> Inr ()
         | Some d \<Rightarrow>
             let dty = value_ty f d; res = unary_result_ty op ty
             in if dty \<noteq> res \<and> \<not> is_boxed res then Inl (F_ResultType d dty res) else Inr ()))"

definition check_convert ::
  "ssa_func \<Rightarrow> val option \<Rightarrow> val \<Rightarrow> value_conv \<Rightarrow> verify_fault + unit" where
  "check_convert f dest operand conv =
     (case expect_dest f dest (convert_result_ty conv) of
        Inl e \<Rightarrow> Inl e
      | Inr _ \<Rightarrow>
        (case convert_operand_ty conv of
           None \<Rightarrow> Inr ()
         | Some want \<Rightarrow>
             if value_ty f operand \<noteq> want
             then Inl (F_ConvertOperand operand (value_ty f operand) want) else Inr ()))"

definition check_index :: "ssa_func \<Rightarrow> val \<Rightarrow> verify_fault + unit" where
  "check_index f index =
     (let ity = value_ty f index
      in if ity \<noteq> Ty_Int \<and> \<not> is_boxed ity then Inl (F_IndexType index ity) else Inr ())"

definition check_inst_types :: "ssa_func \<Rightarrow> val option \<Rightarrow> inst_kind \<Rightarrow> verify_fault + unit" where
  "check_inst_types f dest k =
     (case k of
        I_Binary op lhs rhs ty \<Rightarrow> check_binary f dest op lhs rhs ty
      | I_Unary op operand ty \<Rightarrow> check_unary f dest op operand ty
      | I_ConstInt _ \<Rightarrow> expect_dest f dest Ty_Int
      | I_ConstFloat _ \<Rightarrow> expect_dest f dest Ty_Float
      | I_ConstBool _ \<Rightarrow> expect_dest f dest Ty_Bool
      | I_ConstStr _ \<Rightarrow> expect_dest f dest Ty_Str
      | I_ConstChar _ \<Rightarrow> expect_dest f dest Ty_Char
      | I_IsNull _ \<Rightarrow> expect_dest f dest Ty_Bool
      | I_Cast _ ty \<Rightarrow> expect_dest f dest ty
      | I_Convert operand conv \<Rightarrow> check_convert f dest operand conv
      | I_ArrayGetIndex _ index \<Rightarrow> check_index f index
      | I_ArraySetIndex _ index _ \<Rightarrow> check_index f index
      | I_BytesGetIndex _ index \<Rightarrow> check_index f index
      | I_BytesSetIndex _ index _ \<Rightarrow> check_index f index
      | _ \<Rightarrow> Inr ())"

lemma check_inst_types_simps [simp]:
  "check_inst_types f dest (I_Binary op lhs rhs ty) = check_binary f dest op lhs rhs ty"
  "check_inst_types f dest (I_ConstInt n) = expect_dest f dest Ty_Int"
  "check_inst_types f dest (I_ConstBool b) = expect_dest f dest Ty_Bool"
  by (simp_all add: check_inst_types_def)

section \<open>Uses\<close>

text \<open>The dominator tree's two queries, \<open>reachable\<close> and \<open>dominates\<close>.\<close>

record dom_query =
  dq_reachable :: "block_id \<Rightarrow> bool"
  dq_dominates :: "block_id \<Rightarrow> block_id \<Rightarrow> bool"

definition check_use ::
  "defs \<Rightarrow> dom_query \<Rightarrow> val \<Rightarrow> block_id \<Rightarrow> nat \<Rightarrow> verify_fault + unit" where
  "check_use ds dt v use_block use_order =
     (case list_get ds v of
        Some (Some site) \<Rightarrow>
          if ds_block site = use_block
          then if use_order \<le> ds_order site then Inl (F_UsedBefore v) else Inr ()
          else if dq_reachable dt use_block \<and> dq_dominates dt (ds_block site) use_block
          then Inr () else Inl (F_NotDominated v (ds_block site) use_block)
      | _ \<Rightarrow> Inl (F_Undefined v))"

fun check_uses ::
  "defs \<Rightarrow> dom_query \<Rightarrow> val list \<Rightarrow> block_id \<Rightarrow> nat \<Rightarrow> verify_fault + unit" where
  "check_uses ds dt [] b order = Inr ()"
| "check_uses ds dt (v # vs) b order =
     (case check_use ds dt v b order of Inl e \<Rightarrow> Inl e | Inr _ \<Rightarrow> check_uses ds dt vs b order)"

fun check_insts ::
  "ssa_func \<Rightarrow> defs \<Rightarrow> dom_query \<Rightarrow> block_id \<Rightarrow> nat \<Rightarrow> inst list \<Rightarrow> verify_fault + unit" where
  "check_insts f ds dt b n [] = Inr ()"
| "check_insts f ds dt b n (i # rest) =
     (case check_inst_types f (i_dest i) (i_kind i) of
        Inl e \<Rightarrow> Inl e
      | Inr _ \<Rightarrow>
        (case check_uses ds dt (inst_uses (i_kind i)) b (n + 1) of
           Inl e \<Rightarrow> Inl e
         | Inr _ \<Rightarrow> check_insts f ds dt b (n + 1) rest))"

text \<open>Arguments of the edges are used last: their order is \<open>u32::MAX\<close>.\<close>

definition edge_order :: nat where
  "edge_order = 2 ^ 32 - 1"

definition check_block ::
  "ssa_func \<Rightarrow> defs \<Rightarrow> dom_query \<Rightarrow> block_id \<Rightarrow> verify_fault + unit" where
  "check_block f ds dt b =
     (let blk = f_blocks f ! b in
      case check_insts f ds dt b 0 (bk_insts blk) of
        Inl e \<Rightarrow> Inl e
      | Inr _ \<Rightarrow>
        (case check_uses ds dt (term_value_uses (bk_term blk)) b (length (bk_insts blk) + 1) of
           Inl e \<Rightarrow> Inl e
         | Inr _ \<Rightarrow>
             check_uses ds dt (concat (map snd (out_edges (bk_term blk)))) b edge_order))"

fun check_blocks ::
  "ssa_func \<Rightarrow> defs \<Rightarrow> dom_query \<Rightarrow> block_id list \<Rightarrow> verify_fault + unit" where
  "check_blocks f ds dt [] = Inr ()"
| "check_blocks f ds dt (b # rest) =
     (case check_block f ds dt b of Inl e \<Rightarrow> Inl e | Inr _ \<Rightarrow> check_blocks f ds dt rest)"

definition verify :: "dom_query \<Rightarrow> ssa_func \<Rightarrow> verify_fault + unit" where
  "verify dt f =
     (case verify_defs f of
        Inl e \<Rightarrow> Inl e
      | Inr ds \<Rightarrow>
        (case check_edges (f_blocks f) [0..<length (f_blocks f)] of
           Inl e \<Rightarrow> Inl e
         | Inr _ \<Rightarrow> check_blocks f ds dt [0..<length (f_blocks f)]))"

section \<open>What acceptance means\<close>

lemma define_value_Inr:
  "define_value v site ds = Inr ds' \<longleftrightarrow>
     v < length ds \<and> ds ! v = None \<and> ds' = ds[v := Some site]"
  by (auto simp: define_value_def list_get_def split: option.splits if_splits)

lemma define_all_ok:
  "define_all vs ds = Inr ds' \<Longrightarrow>
   distinct (map fst vs) \<and> (\<forall>v \<in> fst ` set vs. v < length ds \<and> ds ! v = None) \<and>
   length ds' = length ds \<and>
   (\<forall>v < length ds. ds' ! v = (case map_of vs v of Some s \<Rightarrow> Some s | None \<Rightarrow> ds ! v))"
proof (induction vs ds arbitrary: ds' rule: define_all.induct)
  case (2 v site rest ds)
  then obtain d where d: "define_value v site ds = Inr d" "define_all rest d = Inr ds'"
    by (auto split: sum.splits)
  from d(1) have v: "v < length ds" "ds ! v = None" "d = ds[v := Some site]"
    by (auto simp: define_value_Inr)
  from "2.IH" [OF d] have IH: "distinct (map fst rest)"
    "\<forall>u \<in> fst ` set rest. u < length d \<and> d ! u = None" "length ds' = length d"
    "\<forall>u < length d. ds' ! u = (case map_of rest u of Some s \<Rightarrow> Some s | None \<Rightarrow> d ! u)"
    by auto
  have notin: "v \<notin> fst ` set rest" using IH(2) v by auto
  then have "map_of rest v = None" by (simp add: map_of_eq_None_iff)
  moreover have "\<forall>u \<in> fst ` set rest. u < length ds \<and> ds ! u = None"
    using IH(2) v notin by (metis length_list_update nth_list_update_neq)
  ultimately show ?case using IH v notin by (auto simp: nth_list_update split: option.splits)
qed simp

definition defined_values :: "block list \<Rightarrow> val list" where
  "defined_values bs = concat (map (\<lambda>b. bk_params b @ List.map_filter i_dest (bk_insts b)) bs)"

lemma map_fst_block_defs:
  "map fst (block_defs b blk) = bk_params blk @ List.map_filter i_dest (bk_insts blk)"
proof -
  have "map fst (List.map_filter
          (\<lambda>(n, i). map_option (\<lambda>d. (d, \<lparr>ds_block = b, ds_order = n + 1\<rparr>)) (i_dest i))
          (List.enumerate k is)) = List.map_filter i_dest is" for k "is"
    by (induction "is" arbitrary: k) (auto simp: List.map_filter_def split: option.splits)
  then show ?thesis by (simp add: block_defs_def comp_def)
qed

lemma map_fst_func_defs: "map fst (func_defs f) = defined_values (f_blocks f)"
proof -
  have "map fst (concat (map (\<lambda>(b, blk). block_defs b blk) (List.enumerate k bs))) =
        defined_values bs" for k bs
    by (induction bs arbitrary: k) (auto simp: defined_values_def map_fst_block_defs)
  then show ?thesis by (simp add: func_defs_def)
qed

lemma verify_defs_distinct:
  assumes "verify_defs f = Inr ds"
  shows "distinct (defined_values (f_blocks f))"
  using define_all_ok [OF assms [unfolded verify_defs_def]] by (simp add: map_fst_func_defs)

lemma verify_parts:
  assumes "verify dt f = Inr ()"
  obtains ds where "verify_defs f = Inr ds"
    "check_edges (f_blocks f) [0..<length (f_blocks f)] = Inr ()"
    "check_blocks f ds dt [0..<length (f_blocks f)] = Inr ()"
  using assms by (auto simp: verify_def split: sum.splits)

lemma check_succs_ok: "check_succs n b ss = Inr () \<longleftrightarrow> (\<forall>s \<in> set ss. s < n)"
  by (induction ss) auto

lemma check_preds_ok:
  "check_preds bs b ps = Inr () \<Longrightarrow> p \<in> set ps \<Longrightarrow>
   p < length bs \<and> edge_arg_count bs p b = Inr (length (bk_params (bs ! b)))"
  by (induction ps) (auto split: if_splits sum.splits)

lemma check_edges_ok:
  "check_edges bs ns = Inr () \<Longrightarrow> b \<in> set ns \<Longrightarrow>
   (\<forall>s \<in> set (block_successors (bs ! b)). s < length bs) \<and>
   (\<forall>p \<in> set (bk_preds (bs ! b)).
      p < length bs \<and> edge_arg_count bs p b = Inr (length (bk_params (bs ! b))))"
  by (induction ns) (auto split: sum.splits simp: check_succs_ok dest: check_preds_ok)

lemma verify_edge:
  assumes "verify dt f = Inr ()" "b < length (f_blocks f)"
    and "s \<in> set (block_successors (f_blocks f ! b))" "b \<in> set (bk_preds (f_blocks f ! s))"
  shows "s < length (f_blocks f)"
    and "edge_arg_count (f_blocks f) b s = Inr (length (bk_params (f_blocks f ! s)))"
proof -
  from assms(1) have e: "check_edges (f_blocks f) [0..<length (f_blocks f)] = Inr ()"
    by (rule verify_parts)
  show s: "s < length (f_blocks f)" using check_edges_ok [OF e, of b] assms by auto
  show "edge_arg_count (f_blocks f) b s = Inr (length (bk_params (f_blocks f ! s)))"
    using check_edges_ok [OF e, of s] assms s by auto
qed

text \<open>An edge: an arm of the terminator with the arguments it passes, or a handler with none.\<close>

definition block_edges :: "block \<Rightarrow> (block_id \<times> val list) list" where
  "block_edges b = out_edges (bk_term b) @ map (\<lambda>h. (h, [])) (block_handlers b)"

lemma block_successors_edges: "set (block_successors b) = fst ` set (block_edges b)"
proof -
  have "term_succs t = map fst (out_edges t)" for t by (cases t) auto
  then show ?thesis by (force simp: block_successors_def block_edges_def image_iff)
qed

text \<open>
  The arguments of the first edge from a block to a target: of its handlers, which pass none,
  then of the arms of its terminator in order.
\<close>

definition first_args :: "block \<Rightarrow> block_id \<Rightarrow> val list option" where
  "first_args b s = map_of (map (\<lambda>h. (h, [])) (block_handlers b) @ out_edges (bk_term b)) s"

lemma edge_arg_count_first:
  "edge_arg_count bs p s =
     (case first_args (bs ! p) s of Some args \<Rightarrow> Inr (length args) | None \<Rightarrow> Inl (F_NoEdge p s))"
proof -
  have "map_of (map (\<lambda>h. (h, [] :: val list)) hs) s = (if s \<in> set hs then Some [] else None)" for hs
    by (induction hs) auto
  then show ?thesis
    by (cases "bk_term (bs ! p)")
       (auto simp: edge_arg_count_def first_args_def map_add_def split: option.splits)
qed

text \<open>
  C22: in a function the verifier accepts, whose predecessor lists are complete, no value is
  defined twice, every edge out of a block leads to a block of the function, and the first edge
  from a block to each of its targets passes as many arguments as the target has parameters. A
  second edge from the same block to the same target is not checked (\<open>verify_gap\<close> below).
\<close>

theorem verify_sound_edges:
  assumes "verify dt f = Inr ()" "b < length (f_blocks f)"
    and "(s, args) \<in> set (block_edges (f_blocks f ! b))" "b \<in> set (bk_preds (f_blocks f ! s))"
  shows "distinct (defined_values (f_blocks f)) \<and> s < length (f_blocks f) \<and>
         (\<exists>firsts. first_args (f_blocks f ! b) s = Some firsts \<and>
            length firsts = length (bk_params (f_blocks f ! s)))"
proof -
  have s: "s \<in> set (block_successors (f_blocks f ! b))"
    using assms(3) by (force simp: block_successors_edges)
  note v = verify_edge [OF assms(1,2) s assms(4)]
  have "distinct (defined_values (f_blocks f))"
    using assms(1) by (elim verify_parts) (rule verify_defs_distinct)
  with v show ?thesis by (auto simp: edge_arg_count_first split: option.splits)
qed

text \<open>
  This is a gap: of a branch whose two arms lead to the same block only the arguments
  of the first are counted.
\<close>

definition two_blocks :: "val list \<Rightarrow> ssa_func" where
  "two_blocks eargs = \<lparr>f_name = ''gap'', f_entry = 0,
     f_blocks =
       [empty_block\<lparr>bk_params := [0], bk_term := T_Branch 0 1 [0] 1 eargs\<rparr>,
        empty_block\<lparr>bk_preds := [0], bk_params := [1], bk_term := T_Return (Some 1)\<rparr>],
     f_values = [Ty_Bool, Ty_Bool], f_is_async = False, f_is_generator = False,
     f_inline_scopes = []\<rparr>"

definition all_dominated :: dom_query where
  "all_dominated = \<lparr>dq_reachable = \<lambda>_. True, dq_dominates = \<lambda>a b. a \<le> b\<rparr>"

lemmas verify_defs_simps = verify_def verify_defs_def func_defs_def block_defs_def
  define_value_def list_get_def edge_arg_count_def block_successors_def block_handlers_def
  check_block_def check_use_def edge_order_def List.map_filter_def empty_block_def

lemma verify_two_blocks: "length eargs \<le> 1 \<Longrightarrow> set eargs \<subseteq> {0} \<Longrightarrow>
  verify all_dominated (two_blocks eargs) = Inr ()"
  by (cases eargs) (auto simp: verify_defs_simps two_blocks_def all_dominated_def upt_rec)

lemma verify_gap: "verify all_dominated (two_blocks []) = Inr ()"
  by (rule verify_two_blocks) simp_all

theorem verify_sound_edges_witness:
  "\<exists>firsts. first_args (f_blocks (two_blocks [0]) ! 0) 1 = Some firsts \<and> length firsts = 1"
proof -
  have "verify all_dominated (two_blocks [0]) = Inr ()" by (rule verify_two_blocks) simp_all
  moreover have "0 < length (f_blocks (two_blocks [0]))" by (simp add: two_blocks_def)
  moreover have "(1, [0]) \<in> set (block_edges (f_blocks (two_blocks [0]) ! 0))"
    by (simp add: two_blocks_def block_edges_def)
  moreover have "0 \<in> set (bk_preds (f_blocks (two_blocks [0]) ! 1))"
    by (simp add: two_blocks_def)
  moreover have "length (bk_params (f_blocks (two_blocks [0]) ! 1)) = 1"
    by (simp add: two_blocks_def)
  ultimately show ?thesis using verify_sound_edges [of all_dominated "two_blocks [0]" 0 1 "[0]"] by simp
qed

end
