(* ===== verification/Const_Fold_Pass.thy ===== *)
theory Const_Fold_Pass
  imports Const_Fold_Sound Pass_Sim Ssa_Verify
begin

text \<open>
  The pass \<open>passes/const_fold.rs\<close>: one walk over the blocks that collects the constants, folds
  the instructions whose operands are constants and turns a branch on a constant into a jump;
  and the proof that the function it returns behaves as the one it was given.
\<close>

type_synonym const_map = "val \<rightharpoonup> inst_kind"

definition fold_inst :: "'a lib \<Rightarrow> inst_kind \<Rightarrow> const_map \<Rightarrow> inst_kind option" where
  "fold_inst L k cm =
     (case k of
        I_Unary op operand ty \<Rightarrow>
          (case cm operand of None \<Rightarrow> None | Some c \<Rightarrow> fold_unary op c)
      | I_Binary op lhs rhs ty \<Rightarrow>
          (case (cm lhs, cm rhs) of
             (Some l, Some r) \<Rightarrow> fold_binary L op l r
           | _ \<Rightarrow> None)
      | I_Convert operand conv \<Rightarrow>
          (case cm operand of None \<Rightarrow> None | Some c \<Rightarrow> fold_convert L conv c)
      | I_IsNull operand \<Rightarrow>
          (case cm operand of None \<Rightarrow> None | Some c \<Rightarrow> Some (I_ConstBool (is_null_kind c)))
      | _ \<Rightarrow> None)"

text \<open>The instructions of one block, with the types of the values and whether anything changed.\<close>

fun fold_insts ::
  "'a lib \<Rightarrow> const_map \<Rightarrow> backend_ty list \<Rightarrow> inst list
   \<Rightarrow> inst list \<times> const_map \<times> backend_ty list \<times> bool" where
  "fold_insts L cm tys [] = ([], cm, tys, False)"
| "fold_insts L cm tys (i # rest) =
     (case i_dest i of
        None \<Rightarrow>
          (let (rest', cm', tys', ch) = fold_insts L cm tys rest in (i # rest', cm', tys', ch))
      | Some d \<Rightarrow>
          if is_constant_kind (i_kind i)
          then let (rest', cm', tys', ch) = fold_insts L (cm(d \<mapsto> i_kind i)) tys rest
               in (i # rest', cm', tys', ch)
          else
            (case fold_inst L (i_kind i) cm of
               None \<Rightarrow>
                 (let (rest', cm', tys', ch) = fold_insts L cm tys rest in (i # rest', cm', tys', ch))
             | Some k \<Rightarrow>
                 let tys1 = (case const_inst_ty k of Some ty \<Rightarrow> tys[d := ty] | None \<Rightarrow> tys);
                     (rest', cm', tys', ch) = fold_insts L (cm(d \<mapsto> k)) tys1 rest
                 in (i\<lparr>i_kind := k\<rparr> # rest', cm', tys', True)))"

definition drop_pred :: "block_id \<Rightarrow> block_id \<Rightarrow> block list \<Rightarrow> block list" where
  "drop_pred dead b bs = bs[dead := (bs ! dead)\<lparr>bk_preds := remove1 b (bk_preds (bs ! dead))\<rparr>]"

text \<open>A branch on a known constant becomes a jump, and the block leaves the other arm's list.\<close>

definition fold_term :: "const_map \<Rightarrow> block_id \<Rightarrow> block list \<Rightarrow> block list \<times> bool" where
  "fold_term cm b bs =
     (case bk_term (bs ! b) of
        T_Branch c t targs e eargs \<Rightarrow>
          (case cm c of
             Some (I_ConstBool v) \<Rightarrow>
               if v then (drop_pred e b (bs[b := (bs ! b)\<lparr>bk_term := T_Jump t targs\<rparr>]), True)
               else (drop_pred t b (bs[b := (bs ! b)\<lparr>bk_term := T_Jump e eargs\<rparr>]), True)
           | _ \<Rightarrow> (bs, False))
      | _ \<Rightarrow> (bs, False))"

definition fold_block ::
  "'a lib \<Rightarrow> block_id \<Rightarrow> ssa_func \<times> const_map \<times> bool \<Rightarrow> ssa_func \<times> const_map \<times> bool" where
  "fold_block L b s =
     (let (f, cm, ch) = s;
          (insts, cm1, tys, ch1) = fold_insts L cm (f_values f) (bk_insts (f_blocks f ! b));
          bs1 = (f_blocks f)[b := (f_blocks f ! b)\<lparr>bk_insts := insts\<rparr>];
          (bs2, ch2) = fold_term cm1 b bs1
      in (f\<lparr>f_blocks := bs2, f_values := tys\<rparr>, cm1, ch \<or> ch1 \<or> ch2))"

definition const_fold_state :: "'a lib \<Rightarrow> ssa_func \<Rightarrow> ssa_func \<times> const_map \<times> bool" where
  "const_fold_state L f = fold (fold_block L) [0..<length (f_blocks f)] (f, Map.empty, False)"

definition const_fold :: "'a lib \<Rightarrow> ssa_func \<Rightarrow> ssa_func \<times> bool" where
  "const_fold L f = (case const_fold_state L f of (f', _, ch) \<Rightarrow> (f', ch))"

section \<open>What the pass changes\<close>

text \<open>The constants defined by a list of instructions, and by a function.\<close>

definition const_pairs :: "inst list \<Rightarrow> (val \<times> inst_kind) set" where
  "const_pairs is = {(d, k). \<exists>i \<in> set is. i_dest i = Some d \<and> i_kind i = k \<and> is_constant_kind k}"

definition block_consts :: "block list \<Rightarrow> (val \<times> inst_kind) set" where
  "block_consts bs = const_pairs (concat (map bk_insts bs))"

definition inst_rel :: "'a lib \<Rightarrow> (val \<times> inst_kind) set \<Rightarrow> inst \<Rightarrow> inst \<Rightarrow> bool" where
  "inst_rel L P i i' \<longleftrightarrow>
     i' = i \<or>
     (\<exists>d k cm. i_dest i = Some d \<and> Map.graph cm \<subseteq> P \<and> fold_inst L (i_kind i) cm = Some k \<and>
        is_constant_kind k \<and> i' = i\<lparr>i_kind := k\<rparr>)"

definition term_rel :: "(val \<times> inst_kind) set \<Rightarrow> terminator \<Rightarrow> terminator \<Rightarrow> bool" where
  "term_rel P t t' \<longleftrightarrow>
     t' = t \<or>
     (\<exists>c tb targs eb eargs v. t = T_Branch c tb targs eb eargs \<and> (c, I_ConstBool v) \<in> P \<and>
        t' = (if v then T_Jump tb targs else T_Jump eb eargs))"

definition block_rel :: "'a lib \<Rightarrow> (val \<times> inst_kind) set \<Rightarrow> block \<Rightarrow> block \<Rightarrow> bool" where
  "block_rel L P b b' \<longleftrightarrow>
     bk_params b' = bk_params b \<and> list_all2 (inst_rel L P) (bk_insts b) (bk_insts b') \<and>
     term_rel P (bk_term b) (bk_term b')"

definition same_code :: "block \<Rightarrow> block \<Rightarrow> bool" where
  "same_code b b' \<longleftrightarrow>
     bk_params b' = bk_params b \<and> bk_insts b' = bk_insts b \<and> bk_term b' = bk_term b"

lemma same_code_refl [simp]: "same_code b b"
  by (simp add: same_code_def)

lemma fold_eq_constant: "fold_eq op s = Some k \<Longrightarrow> is_constant_kind k"
  by (auto simp: fold_eq_def split: if_splits)

lemma fold_arith_constant:
  "fold_int op x y = Some k \<Longrightarrow> is_constant_kind k"
  "fold_float L op p q = Some k \<Longrightarrow> is_constant_kind k"
  "fold_decimal L op r s = Some k \<Longrightarrow> is_constant_kind k"
  "fold_bigint L op u v = Some k \<Longrightarrow> is_constant_kind k"
  by (cases op; auto simp: fold_bigint_def big_const_def split: option.splits sum.splits if_splits)+

lemma fold_same_constant: "fold_same L op l r = Some (Some k) \<Longrightarrow> is_constant_kind k"
  by (drule fold_same_inv, elim disjE exE conjE) (metis fold_eq_constant fold_arith_constant)+

lemma fold_binary_constant: "fold_binary L op l r = Some k \<Longrightarrow> is_constant_kind k"
  by (auto simp: fold_binary_def Let_def split: option.splits if_splits
      dest: fold_eq_constant fold_same_constant)

lemma fold_inst_constant:
  assumes "fold_inst L k cm = Some k'"
  shows "is_constant_kind k'"
proof -
  have un: "is_constant_kind c'" if "fold_unary op c = Some c'" for op c c'
    using that by (auto simp: fold_unary_def split: inst_kind.splits unop.splits if_splits)
  have cv: "is_constant_kind c'" if "fold_convert L conv c = Some c'" for conv c c'
    using that by (auto simp: fold_convert_def split: inst_kind.splits if_splits option.splits)
  show ?thesis
    using assms
    by (auto simp: fold_inst_def split: inst_kind.splits option.splits
        dest: fold_binary_constant un cv)
qed

lemma graph_upd_subset: "Map.graph cm \<subseteq> P \<Longrightarrow> (d, k) \<in> P \<Longrightarrow> Map.graph (cm(d \<mapsto> k)) \<subseteq> P"
  by (auto simp: Map.graph_def split: if_splits)

lemma const_pairs_Cons:
  "const_pairs (i # rest) =
     (case i_dest i of
        Some d \<Rightarrow> if is_constant_kind (i_kind i) then {(d, i_kind i)} else {}
      | None \<Rightarrow> {}) \<union> const_pairs rest"
  by (auto simp: const_pairs_def split: option.splits)

lemma fold_insts_rel:
  assumes "fold_insts L cm tys is = (is', cm', tys', ch)"
    and "Map.graph cm \<subseteq> P" "const_pairs is' \<subseteq> P"
  shows "list_all2 (inst_rel L P) is is' \<and> Map.graph cm' \<subseteq> P"
  using assms
proof (induction L cm tys "is" arbitrary: is' cm' tys' ch rule: fold_insts.induct)
  case (1 L cm tys)
  then show ?case by simp
next
  case (2 L cm tys i rest)
  show ?case
  proof (cases "i_dest i")
    case None
    obtain r' c' t' h' where r: "fold_insts L cm tys rest = (r', c', t', h')"
      by (metis prod_cases4)
    show ?thesis
      using 2(1) [OF None r] 2(5-) None r by (auto simp: inst_rel_def const_pairs_Cons)
  next
    case (Some d)
    show ?thesis
    proof (cases "is_constant_kind (i_kind i)")
      case True
      obtain r' c' t' h' where r: "fold_insts L (cm(d \<mapsto> i_kind i)) tys rest = (r', c', t', h')"
        by (metis prod_cases4)
      have res: "is' = i # r'" "cm' = c'" using 2(5) Some True r by simp_all
      then have P: "(d, i_kind i) \<in> P" "const_pairs r' \<subseteq> P"
        using 2(7) Some True by (auto simp: const_pairs_Cons)
      show ?thesis
        using 2(2) [OF Some True r graph_upd_subset [OF 2(6) P(1)] P(2)]
        by (simp add: res inst_rel_def)
    next
      case False
      show ?thesis
      proof (cases "fold_inst L (i_kind i) cm")
        case None
        obtain r' c' t' h' where r: "fold_insts L cm tys rest = (r', c', t', h')"
          by (metis prod_cases4)
        show ?thesis
          using 2(3) [OF Some False None r] 2(5-) Some False None r
          by (auto simp: inst_rel_def const_pairs_Cons)
      next
        case k: (Some k)
        define tys1 where "tys1 = (case const_inst_ty k of Some ty \<Rightarrow> tys[d := ty] | None \<Rightarrow> tys)"
        obtain r' c' t' h' where r: "fold_insts L (cm(d \<mapsto> k)) tys1 rest = (r', c', t', h')"
          by (metis prod_cases4)
        have res: "is' = i\<lparr>i_kind := k\<rparr> # r'" "cm' = c'"
          using 2(5) Some False k r by (simp_all add: tys1_def [symmetric] Let_def)
        have "is_constant_kind k" using k by (rule fold_inst_constant)
        then have P: "(d, k) \<in> P" "const_pairs r' \<subseteq> P"
          using 2(7) Some by (auto simp: res const_pairs_Cons)
        have "list_all2 (inst_rel L P) rest r' \<and> Map.graph c' \<subseteq> P"
          by (rule 2(4) [OF Some False k tys1_def r graph_upd_subset [OF 2(6) P(1)] P(2)])
        moreover have "inst_rel L P i (i\<lparr>i_kind := k\<rparr>)"
          using Some k 2(6) \<open>is_constant_kind k\<close> by (auto simp: inst_rel_def)
        ultimately show ?thesis by (simp add: res)
      qed
    qed
  qed
qed

lemma not_const_bool:
  "(\<nexists>v. c = Some (I_ConstBool v)) \<Longrightarrow> (case c of Some (I_ConstBool v) \<Rightarrow> A v | _ \<Rightarrow> B) = B"
proof (cases c)
  case (Some k)
  then show "(\<nexists>v. c = Some (I_ConstBool v)) \<Longrightarrow> ?thesis" by (cases k) simp_all
qed simp

lemma fold_term_rel:
  assumes "fold_term cm b bs = (bs', ch)" "b < length bs" "Map.graph cm \<subseteq> P"
  shows "length bs' = length bs" "\<And>j. j < length bs \<Longrightarrow> j \<noteq> b \<Longrightarrow> same_code (bs ! j) (bs' ! j)"
    and "bk_params (bs' ! b) = bk_params (bs ! b)" "bk_insts (bs' ! b) = bk_insts (bs ! b)"
    and "term_rel P (bk_term (bs ! b)) (bk_term (bs' ! b))"
proof -
  have same: "same_code (bs ! j) (drop_pred d b bs ! j)" if "j < length bs" for d j bs
    using that by (cases "d = j") (simp_all add: drop_pred_def same_code_def)
  have len: "length (drop_pred d b bs) = length bs" for d bs
    by (simp add: drop_pred_def)
  have cases: "bs' = bs \<or>
      (\<exists>c t targs e eargs v d. bk_term (bs ! b) = T_Branch c t targs e eargs \<and>
         (c, I_ConstBool v) \<in> P \<and>
         bs' = drop_pred d b (bs[b := (bs ! b)\<lparr>bk_term :=
                 (if v then T_Jump t targs else T_Jump e eargs)\<rparr>]))"
    using assms(1)
  proof (cases "bk_term (bs ! b)")
    case (T_Branch c t targs e eargs)
    show ?thesis
    proof (cases "\<exists>v. cm c = Some (I_ConstBool v)")
      case True
      then obtain v where v: "cm c = Some (I_ConstBool v)" by blast
      then have "(c, I_ConstBool v) \<in> P" using assms(3) by (auto simp: Map.graph_def)
      moreover have "bs' = drop_pred (if v then e else t) b (bs[b := (bs ! b)\<lparr>bk_term :=
                 (if v then T_Jump t targs else T_Jump e eargs)\<rparr>])"
        using assms(1) v T_Branch by (cases v) (simp_all add: fold_term_def)
      ultimately show ?thesis using T_Branch by blast
    next
      case False
      with assms(1) T_Branch show ?thesis by (simp add: fold_term_def not_const_bool)
    qed
  qed (simp_all add: fold_term_def)
  then show "length bs' = length bs" by (auto simp: len)
  show "same_code (bs ! j) (bs' ! j)" if j: "j < length bs" "j \<noteq> b" for j
    using cases
  proof (elim disjE exE conjE)
    fix c t targs e eargs v d
    assume "bs' = drop_pred d b (bs[b := (bs ! b)\<lparr>bk_term :=
              (if v then T_Jump t targs else T_Jump e eargs)\<rparr>])"
    then show ?thesis
      using same [of j "bs[b := (bs ! b)\<lparr>bk_term := (if v then T_Jump t targs else T_Jump e eargs)\<rparr>]" d] j
      by simp
  qed simp
  have "bk_params (bs' ! b) = bk_params (bs ! b) \<and> bk_insts (bs' ! b) = bk_insts (bs ! b) \<and>
        term_rel P (bk_term (bs ! b)) (bk_term (bs' ! b))"
    using cases
  proof (elim disjE exE conjE)
    fix c t targs e eargs v d
    assume t: "bk_term (bs ! b) = T_Branch c t targs e eargs" "(c, I_ConstBool v) \<in> P"
      "bs' = drop_pred d b (bs[b := (bs ! b)\<lparr>bk_term :=
              (if v then T_Jump t targs else T_Jump e eargs)\<rparr>])"
    have "same_code ((bs ! b)\<lparr>bk_term := (if v then T_Jump t targs else T_Jump e eargs)\<rparr>) (bs' ! b)"
      using same [of b "bs[b := (bs ! b)\<lparr>bk_term := (if v then T_Jump t targs else T_Jump e eargs)\<rparr>]" d]
        assms(2) t(3) by simp
    moreover have "term_rel P (bk_term (bs ! b)) (if v then T_Jump t targs else T_Jump e eargs)"
      unfolding term_rel_def using t(1,2) by blast
    ultimately show ?thesis by (simp add: same_code_def)
  qed (simp add: term_rel_def)
  then show "bk_params (bs' ! b) = bk_params (bs ! b)" "bk_insts (bs' ! b) = bk_insts (bs ! b)"
    "term_rel P (bk_term (bs ! b)) (bk_term (bs' ! b))" by simp_all
qed

text \<open>After the first \<open>n\<close> blocks: these are related to the originals, the others untouched.\<close>

definition folded_upto :: "'a lib \<Rightarrow> nat \<Rightarrow> block list \<Rightarrow> block list \<Rightarrow> const_map \<Rightarrow> bool" where
  "folded_upto L n bs bs' cm \<longleftrightarrow>
     length bs' = length bs \<and> (\<forall>j. n \<le> j \<longrightarrow> j < length bs \<longrightarrow> same_code (bs ! j) (bs' ! j)) \<and>
     (\<forall>P. block_consts (take n bs') \<subseteq> P \<longrightarrow>
        Map.graph cm \<subseteq> P \<and> (\<forall>j<n. block_rel L P (bs ! j) (bs' ! j)))"

lemma const_pairs_append: "const_pairs (xs @ ys) = const_pairs xs \<union> const_pairs ys"
  by (auto simp: const_pairs_def)

lemma block_consts_Suc:
  "n < length bs \<Longrightarrow>
   block_consts (take (Suc n) bs) = block_consts (take n bs) \<union> const_pairs (bk_insts (bs ! n))"
  by (simp add: block_consts_def take_Suc_conv_app_nth const_pairs_append)

lemma block_consts_cong:
  "map bk_insts bs = map bk_insts bs' \<Longrightarrow> block_consts bs = block_consts bs'"
  by (simp add: block_consts_def)

lemma block_rel_same_code:
  "block_rel L P b b' \<Longrightarrow> same_code b' b'' \<Longrightarrow> block_rel L P b b''"
  by (simp add: block_rel_def same_code_def)

lemma fold_block_upto:
  assumes u: "folded_upto L n bs (f_blocks g) cm" and n: "n < length bs"
    and s: "fold_block L n (g, cm, ch) = (g', cm', ch')"
  shows "folded_upto L (Suc n) bs (f_blocks g') cm'"
proof -
  let ?b = "f_blocks g ! n"
  obtain insts cm1 tys ch1 where fi: "fold_insts L cm (f_values g) (bk_insts ?b) = (insts, cm1, tys, ch1)"
    by (metis prod_cases4)
  define bs1 where "bs1 = (f_blocks g)[n := ?b\<lparr>bk_insts := insts\<rparr>]"
  obtain bs2 ch2 where ft: "fold_term cm1 n bs1 = (bs2, ch2)" by fastforce
  have g': "f_blocks g' = bs2" "cm' = cm1"
    using s by (auto simp: fold_block_def fi ft bs1_def [symmetric])
  have len: "length (f_blocks g) = length bs" "length bs1 = length bs"
    using u by (simp_all add: folded_upto_def bs1_def)
  have n1: "n < length bs1" using n len by simp
  note t1 = fold_term_rel(1-2) [OF ft n1 subset_refl] and t2 = fold_term_rel(3-5) [OF ft n1]
  have nb: "same_code (bs ! n) ?b" using u n by (simp add: folded_upto_def)
  have rest: "same_code (f_blocks g ! j) (bs2 ! j)" if "j < length bs" "j \<noteq> n" for j
    using t1(2) [of j] that len by (simp add: bs1_def)
  have ins: "bk_insts (bs2 ! n) = insts"
    using t2(2) [OF subset_refl] n len by (simp add: bs1_def)
  have "map bk_insts (take n bs2) = map bk_insts (take n (f_blocks g))"
    using rest n t1(1) len by (intro nth_equalityI) (auto simp: same_code_def)
  then have "block_consts (take n bs2) = block_consts (take n (f_blocks g))"
    by (rule block_consts_cong)
  then have c: "block_consts (take (Suc n) bs2) = block_consts (take n (f_blocks g)) \<union> const_pairs insts"
    using n t1(1) len ins by (simp add: block_consts_Suc)
  have step: "Map.graph cm1 \<subseteq> P \<and> (\<forall>j < Suc n. block_rel L P (bs ! j) (bs2 ! j))"
    if P: "block_consts (take (Suc n) bs2) \<subseteq> P" for P
  proof -
    have old: "Map.graph cm \<subseteq> P" "\<forall>j<n. block_rel L P (bs ! j) (f_blocks g ! j)"
      using u P c by (auto simp: folded_upto_def)
    have fr: "list_all2 (inst_rel L P) (bk_insts ?b) insts" "Map.graph cm1 \<subseteq> P"
      using fold_insts_rel [OF fi old(1)] P c by auto
    have "block_rel L P (bs ! n) (bs2 ! n)"
      using fr nb t2 [OF fr(2)] n len by (simp add: block_rel_def same_code_def bs1_def)
    moreover have "block_rel L P (bs ! j) (bs2 ! j)" if "j < n" for j
      using old(2) rest [of j] n that by (auto intro: block_rel_same_code)
    ultimately show ?thesis using fr(2) by (auto simp: less_Suc_eq)
  qed
  have same: "same_code (bs ! j) (bs2 ! j)" if "Suc n \<le> j" "j < length bs" for j
    using rest [of j] u that by (auto simp: folded_upto_def same_code_def)
  show ?thesis
    unfolding folded_upto_def g'
    by (intro conjI allI impI) (simp_all add: t1(1) len same step)
qed

lemma const_fold_state_upto:
  assumes "const_fold_state L f = (f', cm, ch)"
  shows "folded_upto L (length (f_blocks f)) (f_blocks f) (f_blocks f') cm"
proof -
  have "folded_upto L n (f_blocks f) (f_blocks (fst s)) (fst (snd s))"
    if "n \<le> length (f_blocks f)" "s = fold (fold_block L) [0..<n] (f, Map.empty, False)" for n s
    using that
  proof (induction n arbitrary: s)
    case 0
    then show ?case by (simp add: folded_upto_def)
  next
    case (Suc n)
    obtain g cm ch where g: "fold (fold_block L) [0..<n] (f, Map.empty, False) = (g, cm, ch)"
      by (metis prod_cases3)
    obtain g' cm' ch' where g': "fold_block L n (g, cm, ch) = (g', cm', ch')"
      by (metis prod_cases3)
    have "folded_upto L n (f_blocks f) (f_blocks g) cm"
      using Suc.IH [OF _ refl] Suc.prems(1) g by simp
    from fold_block_upto [OF this _ g'] show ?case using Suc.prems g g' by simp
  qed
  from this [OF le_refl refl] show ?thesis
    using assms by (simp add: const_fold_state_def)
qed

lemma const_fold_blocks:
  assumes "f' = fst (const_fold L f)"
  shows "list_all2 (block_rel L (block_consts (f_blocks f'))) (f_blocks f) (f_blocks f')"
proof -
  obtain g cm ch where s: "const_fold_state L f = (g, cm, ch)" by (metis prod_cases3)
  then have "f' = g" using assms by (simp add: const_fold_def)
  with const_fold_state_upto [OF s] show ?thesis
    by (auto simp: folded_upto_def list_all2_conv_all_nth)
qed

lemma const_fold_entry [simp]: "f_entry (fst (const_fold L f)) = f_entry f"
proof -
  have "f_entry (fst (fold (fold_block L) ns s)) = f_entry (fst s)" for ns s
    by (induction ns arbitrary: s) (auto simp: fold_block_def Let_def split: prod.splits)
  from this [of _ "(f, Map.empty, False)"] show ?thesis
    by (simp add: const_fold_def const_fold_state_def split: prod.splits)
       (metis fst_conv)
qed

section \<open>The pass preserves behaviour\<close>

text \<open>
  Every constant the environment holds has its value, and no pending handler writes the
  destination of one.
\<close>

definition consts_ok :: "'a lib \<Rightarrow> (val \<times> inst_kind) set \<Rightarrow> env \<Rightarrow> bool" where
  "consts_ok L P env \<longleftrightarrow> (\<forall>(d, k) \<in> P. env d = None \<or> env d = const_val L k)"

definition handlers_ok :: "(val \<times> inst_kind) set \<Rightarrow> handlers \<Rightarrow> bool" where
  "handlers_ok P hs \<longleftrightarrow> (\<forall>h x k. (h, Some x) \<in> set hs \<longrightarrow> (x, k) \<notin> P)"

text \<open>The operations on two constants stay clear of the situations \<open>fold_guard\<close> names.\<close>

definition inst_guarded :: "'a lib \<Rightarrow> (val \<times> inst_kind) set \<Rightarrow> inst \<Rightarrow> bool" where
  "inst_guarded L P i \<longleftrightarrow>
     (\<forall>op l r ty lk rk a b.
        i_kind i = I_Binary op l r ty \<longrightarrow> (l, lk) \<in> P \<longrightarrow> (r, rk) \<in> P \<longrightarrow>
        const_val L lk = Some a \<longrightarrow> const_val L rk = Some b \<longrightarrow> fold_guard op ty a b)"

lemma const_fold_inst_sound:
  assumes L: "big_text_ok L" and P: "consts_ok L P env" "inst_guarded L P i" "Map.graph cm \<subseteq> P"
    and k: "fold_inst L (i_kind i) cm = Some k" "is_constant_kind k"
    and ok: "exec_inst L H i env hs w \<noteq> Blocked"
  shows "\<exists>v. const_val L k = Some v \<and> exec_inst L H i env hs w = Fell (bind_dest (i_dest i) v env) hs w"
proof -
  have val: "env x = const_val L c" if "cm x = Some c" "env x \<noteq> None" for x c
    using that P(1,3) by (fastforce simp: consts_ok_def Map.graph_def)
  have run: "exec_inst L H i env hs w = Fell (bind_dest (i_dest i) v env) hs w"
    if "try_handler (i_kind i) = None" "\<not> is_pop (i_kind i)" "\<not> is_constant_kind (i_kind i)"
      "read_env env (inst_uses (i_kind i)) = Some args"
      "local_sem L (h_inline H) (i_kind i) args = Some (Inr v)" for args v
    using that by (simp add: exec_inst_def exec_kind_def raise_or_def)
  show ?thesis
    using k(1)
  proof (cases "i_kind i")
    case (I_Unary op x ty)
    with k(1) obtain c where c: "cm x = Some c" "fold_unary op c = Some k"
      by (auto simp: fold_inst_def split: option.splits)
    from ok I_Unary obtain a where a: "env x = Some a"
      by (auto simp: exec_inst_def split: option.splits)
    with val [OF c(1)] have "const_val L c = Some a" by simp
    from fold_unary_sound [OF c(2) this] show ?thesis
      using run [of "[a]"] I_Unary a by auto
  next
    case (I_Binary op x y ty)
    with k(1) obtain c d where c: "cm x = Some c" "cm y = Some d" "fold_binary L op c d = Some k"
      by (auto simp: fold_inst_def split: option.splits)
    from ok I_Binary obtain a b where a: "env x = Some a" "env y = Some b"
      by (auto simp: exec_inst_def split: option.splits)
    with val [OF c(1)] val [OF c(2)] have ab: "const_val L c = Some a" "const_val L d = Some b"
      by auto
    have "(x, c) \<in> P" "(y, d) \<in> P" using c P(3) by (auto simp: Map.graph_def)
    then have "fold_guard op ty a b" using P(2) I_Binary ab by (auto simp: inst_guarded_def)
    from fold_binary_computes [OF L c(3) ab this] show ?thesis
      using run [of "[a, b]"] I_Binary a by auto
  next
    case (I_Convert x conv)
    with k(1) obtain c where c: "cm x = Some c" "fold_convert L conv c = Some k"
      by (auto simp: fold_inst_def split: option.splits)
    from ok I_Convert obtain a where a: "env x = Some a"
      by (auto simp: exec_inst_def split: option.splits)
    with val [OF c(1)] have "const_val L c = Some a" by simp
    from fold_convert_sound [OF c(2) this] show ?thesis
      using run [of "[a]"] I_Convert a by auto
  next
    case (I_IsNull x)
    with k(1) obtain c where c: "cm x = Some c" "k = I_ConstBool (is_null_kind c)"
      by (auto simp: fold_inst_def split: option.splits)
    from ok I_IsNull obtain a where a: "env x = Some a"
      by (auto simp: exec_inst_def split: option.splits)
    with val [OF c(1)] have "const_val L c = Some a" by simp
    then have "is_null_kind c = (a = R_Null)" using const_val_null by force
    with c(2) show ?thesis
      using run [of "[a]"] I_IsNull a by auto
  qed (simp_all add: fold_inst_def)
qed

lemma consts_ok_bind:
  assumes "consts_ok L P env" "\<And>x k. d = Some x \<Longrightarrow> (x, k) \<in> P \<Longrightarrow> const_val L k = Some v"
  shows "consts_ok L P (bind_dest d v env)"
  using assms by (force simp: consts_ok_def bind_dest_def split: option.splits)

lemma consts_ok_params:
  assumes "consts_ok L P env" "set ps \<inter> fst ` P = {}" "length ps = length vs"
  shows "consts_ok L P (env(ps [\<mapsto>] vs))"
proof -
  have "(env(ps [\<mapsto>] vs)) d = env d" if "(d, k) \<in> P" for d k
    using that assms(2) by (intro map_upds_apply_nontin) force
  with assms(1) show ?thesis by (fastforce simp: consts_ok_def)
qed

text \<open>What the proof needs of the blocks the pass returned.\<close>

definition consts_unique :: "(val \<times> inst_kind) set \<Rightarrow> block list \<Rightarrow> bool" where
  "consts_unique P bs \<longleftrightarrow>
     (\<forall>b \<in> set bs. set (bk_params b) \<inter> fst ` P = {} \<and>
        (\<forall>i \<in> set (bk_insts b). \<forall>d k. i_dest i = Some d \<longrightarrow> (d, k) \<in> P \<longrightarrow> i_kind i = k))"

lemma step_inst:
  assumes L: "big_text_ok L" and env: "consts_ok L P env" "handlers_ok P hs"
    and r: "inst_rel L P i i'" "inst_guarded L P i"
    and u: "\<And>d k. i_dest i' = Some d \<Longrightarrow> (d, k) \<in> P \<Longrightarrow> i_kind i' = k \<and> is_constant_kind k"
    and ok: "exec_inst L H i env hs w \<noteq> Blocked"
  shows "exec_inst L H i' env hs w = exec_inst L H i env hs w" (is ?same)
    and "exec_inst L H i env hs w = Fell env' hs' w' \<Longrightarrow> consts_ok L P env' \<and> handlers_ok P hs'"
    and "exec_inst L H i env hs w = Threw ex env' hs' w' \<Longrightarrow> consts_ok L P env' \<and> handlers_ok P hs'"
proof -
  have const: "\<exists>v. const_val L (i_kind i') = Some v \<and>
      exec_inst L H i env hs w = Fell (bind_dest (i_dest i') v env) hs w \<and> ?same"
    if "is_constant_kind (i_kind i')"
  proof (cases "i' = i")
    case True
    from that have c: "try_handler (i_kind i') = None" "\<not> is_pop (i_kind i')" "inst_uses (i_kind i') = []"
      by (rule constant_kindE; simp)+
    show ?thesis
      using ok True that c by (auto simp: exec_inst_def exec_kind_def split: option.splits)
  next
    case False
    then obtain d k cm where k: "i_dest i = Some d" "Map.graph cm \<subseteq> P"
      "fold_inst L (i_kind i) cm = Some k" "is_constant_kind k" "i' = i\<lparr>i_kind := k\<rparr>"
      using r(1) by (auto simp: inst_rel_def)
    from const_fold_inst_sound [OF L env(1) r(2) k(2-4) ok] obtain v where
      v: "const_val L k = Some v" "exec_inst L H i env hs w = Fell (bind_dest (i_dest i) v env) hs w"
      by blast
    have c: "try_handler k = None" "\<not> is_pop k" "inst_uses k = []"
      by (rule constant_kindE [OF k(4)]; simp)+
    have "exec_inst L H i' env hs w = Fell (bind_dest (i_dest i) v env) hs w"
      using c k(4,5) v(1) by (simp add: exec_inst_def exec_kind_def)
    with v k(5) show ?thesis by simp
  qed
  show ?same
    using const r(1) by (auto simp: inst_rel_def)
  have keep: "(x, k) \<notin> P" if "i_dest i' = Some x" "\<not> is_constant_kind (i_kind i')" for x k
    using that u by blast
  have res: "consts_ok L P env' \<and> handlers_ok P hs'"
    if e: "exec_inst L H i' env hs w = Fell env' hs' w'" for env' hs' w'
  proof (cases "is_constant_kind (i_kind i')")
    case True
    with const e \<open>?same\<close> obtain v where "const_val L (i_kind i') = Some v"
      "env' = bind_dest (i_dest i') v env" "hs' = hs" by auto
    then show ?thesis using env u by (auto intro!: consts_ok_bind)
  next
    case False
    have *: "consts_ok L P (bind_dest (i_dest i') v env)" for v
      using env(1) keep [OF _ False] by (intro consts_ok_bind) simp_all
    show ?thesis
      using e env keep [OF _ False] *
      by (auto simp: exec_inst_def handlers_ok_def split: option.splits if_splits list.splits
          prod.splits sum.splits)
  qed
  then show "exec_inst L H i env hs w = Fell env' hs' w' \<Longrightarrow> consts_ok L P env' \<and> handlers_ok P hs'"
    using \<open>?same\<close> by simp
  show "exec_inst L H i env hs w = Threw ex env' hs' w' \<Longrightarrow> consts_ok L P env' \<and> handlers_ok P hs'"
    using env
    by (auto simp: exec_inst_def split: option.splits if_splits list.splits prod.splits sum.splits)
qed

lemma step_insts:
  assumes "big_text_ok L" "consts_ok L P env" "handlers_ok P hs"
    and "list_all2 (inst_rel L P) is is'" "\<forall>i \<in> set is. inst_guarded L P i"
    and "\<forall>i' \<in> set is'. \<forall>d k. i_dest i' = Some d \<longrightarrow> (d, k) \<in> P \<longrightarrow> i_kind i' = k \<and> is_constant_kind k"
    and "exec_insts L H is env hs w \<noteq> Blocked"
  shows "exec_insts L H is' env hs w = exec_insts L H is env hs w \<and>
    (\<forall>env' hs' w' ex. exec_insts L H is env hs w = Fell env' hs' w' \<or>
        exec_insts L H is env hs w = Threw ex env' hs' w' \<longrightarrow>
        consts_ok L P env' \<and> handlers_ok P hs')"
  using assms(4,2,3,5-)
proof (induction "is" is' arbitrary: env hs w rule: list_all2_induct)
  case (Cons i rest i' rest')
  have u: "i_dest i' = Some d \<Longrightarrow> (d, k) \<in> P \<Longrightarrow> i_kind i' = k \<and> is_constant_kind k" for d k
    using Cons.prems(4) by simp
  have g: "inst_guarded L P i" using Cons.prems(3) by simp
  have ok: "exec_inst L H i env hs w \<noteq> Blocked" using Cons.prems(5) by auto
  note s = step_inst [OF assms(1) Cons.prems(1,2) Cons.hyps(1) g u ok]
  show ?case
  proof (cases "exec_inst L H i env hs w")
    case (Fell env1 hs1 w1)
    with s(2) [OF _ _ Fell] have "consts_ok L P env1" "handlers_ok P hs1" by simp_all
    from Cons.IH [OF this] Cons.prems(3-5) Fell s(1) show ?thesis by simp
  next
    case (Threw ex env1 hs1 w1)
    with s(3) [OF _ _ Threw] s(1) show ?thesis by simp
  next
    case Blocked
    with ok show ?thesis by simp
  qed
qed simp

definition const_fold_rel :: "'a lib \<Rightarrow> block list \<Rightarrow> block list \<Rightarrow> bool" where
  "const_fold_rel L bs bs' \<longleftrightarrow>
     big_text_ok L \<and> list_all2 (block_rel L (block_consts bs')) bs bs' \<and>
     consts_unique (block_consts bs') bs' \<and>
     (\<forall>b \<in> set bs. \<forall>i \<in> set (bk_insts b). inst_guarded L (block_consts bs') i)"

definition const_fold_sim ::
  "'a lib \<Rightarrow> block list \<Rightarrow> block list \<Rightarrow> block_id \<Rightarrow> entry_state \<Rightarrow> entry_state \<Rightarrow> bool" where
  "const_fold_sim L bs bs' t s s' \<longleftrightarrow>
     s' = s \<and> consts_ok L (block_consts bs') (fst (snd s)) \<and> handlers_ok (block_consts bs') (snd (snd s))"

lemma block_consts_constant: "(d, k) \<in> block_consts bs \<Longrightarrow> is_constant_kind k"
  by (auto simp: block_consts_def const_pairs_def)

text \<open>Leaving a block: the terminators agree, and the handler entered keeps the invariant.\<close>

lemma unwind_ok:
  assumes "consts_ok L P env" "handlers_ok P hs" "unwind ex env hs w = Enter t vs env' hs' w'"
  shows "consts_ok L P env' \<and> handlers_ok P hs'"
  using assms
  by (cases hs) (auto simp: unwind_def handlers_ok_def intro!: consts_ok_bind)

lemma exec_term_agree:
  assumes "consts_ok L P env" "handlers_ok P hs" "term_rel P t t'"
    and ok: "exec_term t env hs w \<noteq> Done Stuck"
  shows "exec_term t' env hs w = exec_term t env hs w"
    and "exec_term t env hs w = Enter b vs env' hs' w' \<Longrightarrow> consts_ok L P env' \<and> handlers_ok P hs'"
proof -
  show "exec_term t' env hs w = exec_term t env hs w"
  proof (cases "t' = t")
    case False
    then obtain c tb targs eb eargs v where t: "t = T_Branch c tb targs eb eargs"
      "(c, I_ConstBool v) \<in> P" "t' = (if v then T_Jump tb targs else T_Jump eb eargs)"
      using assms(3) by (auto simp: term_rel_def)
    have "env c = Some (R_Bool v)"
      using t(1,2) ok assms(1) by (fastforce simp: consts_ok_def split: option.splits)
    with t show ?thesis by simp
  qed simp
  show "exec_term t env hs w = Enter b vs env' hs' w' \<Longrightarrow> consts_ok L P env' \<and> handlers_ok P hs'"
    using assms(1,2)
    by (cases "(t, env, hs, w)" rule: exec_term.cases)
       (auto simp: goto_def split: option.splits if_splits dest: unwind_ok [rotated 2])
qed

lemma const_fold_step:
  assumes r: "const_fold_rel L bs bs'" and s: "const_fold_sim L bs bs' t (vs, env, hs) (vs', env', hs')"
    and ok: "run_one L H bs t vs env hs w \<noteq> Done Stuck"
  shows "flow_sim (const_fold_sim L bs bs') (run_one L H bs t vs env hs w)
           (run_one L H bs' t vs' env' hs' w)"
proof -
  let ?P = "block_consts bs'"
  from s have eq: "vs' = vs" "env' = env" "hs' = hs" and env: "consts_ok L ?P env" "handlers_ok ?P hs"
    by (auto simp: const_fold_sim_def)
  from ok obtain env1 where e1: "enter_block bs t vs env = Some env1"
    by (auto simp: run_one_def split: option.splits)
  then have t: "t < length bs" "length vs = length (bk_params (bs ! t))"
    and env1: "env1 = env(bk_params (bs ! t) [\<mapsto>] vs)"
    by (auto simp: enter_block_def split: if_splits)
  from r t have b: "block_rel L ?P (bs ! t) (bs' ! t)" "length bs' = length bs"
    and g: "\<forall>i \<in> set (bk_insts (bs ! t)). inst_guarded L ?P i" and L: "big_text_ok L"
    by (auto simp: const_fold_rel_def list_all2_conv_all_nth)
  have u: "set (bk_params (bs' ! t)) \<inter> fst ` ?P = {}"
    "\<forall>i \<in> set (bk_insts (bs' ! t)). \<forall>d k. i_dest i = Some d \<longrightarrow> (d, k) \<in> ?P \<longrightarrow>
       i_kind i = k \<and> is_constant_kind k"
  proof -
    have "bs' ! t \<in> set bs'" using t b(2) by simp
    with r have c: "set (bk_params (bs' ! t)) \<inter> fst ` ?P = {}"
      "\<And>i d k. i \<in> set (bk_insts (bs' ! t)) \<Longrightarrow> i_dest i = Some d \<Longrightarrow> (d, k) \<in> ?P \<Longrightarrow> i_kind i = k"
      unfolding const_fold_rel_def consts_unique_def by blast+
    then show "set (bk_params (bs' ! t)) \<inter> fst ` ?P = {}"
      "\<forall>i \<in> set (bk_insts (bs' ! t)). \<forall>d k. i_dest i = Some d \<longrightarrow> (d, k) \<in> ?P \<longrightarrow>
         i_kind i = k \<and> is_constant_kind k"
      using block_consts_constant by blast+
  qed
  have e1': "enter_block bs' t vs env = Some env1"
    using t b by (simp add: enter_block_def block_rel_def env1)
  have c1: "consts_ok L ?P env1"
    using u(1) b(1) t(2) env(1) by (simp add: env1 block_rel_def consts_ok_params)
  have run: "run_one L H bs t vs env hs w = exec_body L H (bs ! t) env1 hs w"
    "run_one L H bs' t vs env hs w = exec_body L H (bs' ! t) env1 hs w"
    by (simp_all add: run_one_def e1 e1')
  have nb: "exec_insts L H (bk_insts (bs ! t)) env1 hs w \<noteq> Blocked"
    using ok by (auto simp: run exec_body_def)
  have ins: "list_all2 (inst_rel L ?P) (bk_insts (bs ! t)) (bk_insts (bs' ! t))"
    and tm: "term_rel ?P (bk_term (bs ! t)) (bk_term (bs' ! t))"
    using b(1) by (simp_all add: block_rel_def)
  note si = step_insts [OF L c1 env(2) ins g u(2) nb]
  show ?thesis
  proof (cases "exec_insts L H (bk_insts (bs ! t)) env1 hs w")
    case (Fell env2 hs2 w2)
    with si have c2: "consts_ok L ?P env2" "handlers_ok ?P hs2" by auto
    have nt: "exec_term (bk_term (bs ! t)) env2 hs2 w2 \<noteq> Done Stuck"
      using ok Fell by (simp add: run exec_body_def)
    from exec_term_agree [OF c2 tm nt] Fell si show ?thesis
      by (auto simp: flow_sim_def eq run exec_body_def const_fold_sim_def split: flow.splits)
  next
    case (Threw ex env2 hs2 w2)
    with si have "consts_ok L ?P env2" "handlers_ok ?P hs2" by auto
    from unwind_ok [OF this, of ex w2] Threw si show ?thesis
      by (cases "unwind ex env2 hs2 w2")
         (auto simp: flow_sim_def eq run exec_body_def const_fold_sim_def)
  next
    case Blocked
    with nb show ?thesis by simp
  qed
qed

interpretation const_fold: block_simulation L H "const_fold_rel L" "const_fold_sim L"
  for L :: "'a lib" and H :: "'w host"
  by unfold_locales (rule const_fold_step)

section \<open>The theorem\<close>

lemma map_filter_inj:
  assumes "distinct (List.map_filter g xs)" "x \<in> set xs" "y \<in> set xs" "g x = Some d" "g y = Some d"
  shows "x = y"
proof -
  have "distinct (map (the \<circ> g) (filter (\<lambda>x. g x \<noteq> None) xs))"
    using assms(1) by (simp add: List.map_filter_def comp_def)
  then have "inj_on (the \<circ> g) (set (filter (\<lambda>x. g x \<noteq> None) xs))" by (simp add: distinct_map)
  from inj_onD [OF this, of x y] assms(2-) show ?thesis by simp
qed

lemma map_filter_append: "List.map_filter g (xs @ ys) = List.map_filter g xs @ List.map_filter g ys"
  by (simp add: List.map_filter_def)

definition inst_dests :: "block list \<Rightarrow> val list" where
  "inst_dests bs = List.map_filter i_dest (concat (map bk_insts bs))"

lemma inst_dests_Cons:
  "inst_dests (b # bs) = List.map_filter i_dest (bk_insts b) @ inst_dests bs"
  by (simp add: inst_dests_def map_filter_append)

lemma defined_values_dests: "set (inst_dests bs) \<subseteq> set (defined_values bs)"
  by (induction bs) (auto simp: inst_dests_Cons defined_values_def, auto simp: inst_dests_def)

lemma defined_values_parts:
  assumes "distinct (defined_values bs)"
  shows "distinct (inst_dests bs) \<and> (\<forall>b \<in> set bs. set (bk_params b) \<inter> set (inst_dests bs) = {})"
  using assms
proof (induction bs)
  case (Cons b bs)
  have split: "defined_values (b # bs) =
      bk_params b @ List.map_filter i_dest (bk_insts b) @ defined_values bs"
    by (simp add: defined_values_def)
  have "set (bk_params c) \<subseteq> set (defined_values bs)" if "c \<in> set bs" for c
    using that by (auto simp: defined_values_def)
  with Cons defined_values_dests [of bs] show ?case
    unfolding split inst_dests_Cons by fastforce
qed (simp add: inst_dests_def)

lemma consts_dest: "(d, k) \<in> block_consts bs \<Longrightarrow> d \<in> set (inst_dests bs)"
  by (force simp: block_consts_def const_pairs_def inst_dests_def List.map_filter_def)

lemma consts_unique_distinct:
  assumes "distinct (defined_values bs)"
  shows "consts_unique (block_consts bs) bs"
  unfolding consts_unique_def
proof (intro ballI conjI allI impI)
  note d = defined_values_parts [OF assms]
  fix b assume b: "b \<in> set bs"
  then show "set (bk_params b) \<inter> fst ` block_consts bs = {}" using d consts_dest by fastforce
  fix i v k assume i: "i \<in> set (bk_insts b)" "i_dest i = Some v" "(v, k) \<in> block_consts bs"
  then obtain j where j: "j \<in> set (concat (map bk_insts bs))" "i_dest j = Some v" "i_kind j = k"
    by (auto simp: block_consts_def const_pairs_def)
  have "i \<in> set (concat (map bk_insts bs))" using b i by auto
  from map_filter_inj [OF d [THEN conjunct1, unfolded inst_dests_def] this j(1) i(2) j(2)] j(3)
  show "i_kind i = k" by simp
qed

lemma defined_values_rel:
  assumes "list_all2 (block_rel L P) bs bs'"
  shows "defined_values bs' = defined_values bs"
proof -
  have "List.map_filter i_dest ys = List.map_filter i_dest xs"
    if "list_all2 (inst_rel L P) xs ys" for xs ys
    using that by (induction rule: list_all2_induct) (auto simp: inst_rel_def List.map_filter_def)
  with assms show ?thesis
    by (induction rule: list_all2_induct) (auto simp: block_rel_def defined_values_def)
qed

definition folds_guarded :: "'a lib \<Rightarrow> ssa_func \<Rightarrow> bool" where
  "folds_guarded L f \<longleftrightarrow>
     (\<forall>b \<in> set (f_blocks f). \<forall>i \<in> set (bk_insts b).
        inst_guarded L (block_consts (f_blocks (fst (const_fold L f)))) i)"

text \<open>
  C1: constant folding preserves behaviour where its folds agree with the virtual machine. On a
  function the verifier accepts and in which no folded operation is one of those \<open>fold_guard\<close>
  excludes, every run that does not get stuck has the same outcome, effects and exceptions after
  the pass, after as many blocks. The excluded folds are those on which the pass does change what
  the program does: an order \<open><=\<close> or \<open>>=\<close> with a NaN, an operation typed as one on floats whose
  two constants are ints, and a product of big integers longer than the machine allows.
\<close>

theorem const_fold_preserves:
  assumes "big_text_ok L" "verify dt f = Inr ()" "folds_guarded L f"
    and "run_func L H f n args w \<noteq> Some Stuck"
  shows "run_func L H (fst (const_fold L f)) n args w = run_func L H f n args w"
proof -
  let ?f = "fst (const_fold L f)"
  note b = const_fold_blocks [OF refl, of L f]
  obtain ds where "verify_defs f = Inr ds" using assms(2) by (rule verify_parts)
  then have "distinct (defined_values (f_blocks ?f))"
    using verify_defs_distinct defined_values_rel [OF b] by simp
  then have "const_fold_rel L (f_blocks f) (f_blocks ?f)"
    using assms(1,3) b
    by (simp add: const_fold_rel_def consts_unique_distinct folds_guarded_def)
  moreover have "const_fold_sim L (f_blocks f) (f_blocks ?f) (f_entry f) (args, Map.empty, [])
      (args, Map.empty, [])"
    by (simp add: const_fold_sim_def consts_ok_def handlers_ok_def)
  ultimately show ?thesis
    using const_fold.runs_agree assms(4) by (simp add: run_func_def)
qed

text \<open>A function that compares two constants and returns the smaller.\<close>

definition const_inst :: "val \<Rightarrow> inst_kind \<Rightarrow> inst" where
  "const_inst d k = \<lparr>i_dest = Some d, i_kind = k, i_line = 1, i_scope = 0\<rparr>"

definition min_func :: ssa_func where
  "min_func = \<lparr>f_name = ''min'', f_entry = 0,
     f_blocks =
       [empty_block\<lparr>bk_insts := [const_inst 0 (I_ConstInt 2), const_inst 1 (I_ConstInt 3),
            const_inst 2 (I_Binary B_Lt 0 1 Ty_Int)], bk_term := T_Branch 2 1 [0] 2 [1]\<rparr>,
        empty_block\<lparr>bk_preds := [0], bk_params := [3], bk_term := T_Return (Some 3)\<rparr>,
        empty_block\<lparr>bk_preds := [0], bk_params := [4], bk_term := T_Return (Some 4)\<rparr>],
     f_values = [Ty_Int, Ty_Int, Ty_Bool, Ty_Int, Ty_Int], f_is_async = False,
     f_is_generator = False, f_inline_scopes = []\<rparr>"

definition quiet_host :: "unit host" where
  "quiet_host = \<lparr>h_effect = \<lambda>_ _ w. (Inr R_Null, w), h_error = \<lambda>_ w. (R_Null, w),
     h_inline = \<lambda>_. False\<rparr>"

lemma verify_min: "verify all_dominated min_func = Inr ()"
  by (simp add: verify_defs_simps min_func_def all_dominated_def upt_rec const_inst_def
      expect_dest_def check_binary_def value_ty_def)

lemma folds_guarded_min: "folds_guarded text_lib min_func"
proof -
  have "fold_guard B_Lt Ty_Int a b" for a b by (simp add: fold_guard_def)
  then show ?thesis
    by (auto simp: folds_guarded_def min_func_def inst_guarded_def const_inst_def empty_block_def)
qed

lemma run_min: "run_func text_lib quiet_host min_func 2 [] () = Some (Returned (Some (R_Int 2)) ())"
  by (simp add: run_func_def min_func_def numeral_2_eq_2 enter_block_def exec_body_def
      exec_inst_def const_inst_def exec_kind_def raise_or_def bind_dest_def goto_def empty_block_def
      sem_binary_def bin_opcode_def)

theorem const_fold_preserves_witness:
  "run_func text_lib quiet_host (fst (const_fold text_lib min_func)) 2 [] () =
     Some (Returned (Some (R_Int 2)) ()) \<and>
   bk_term (f_blocks (fst (const_fold text_lib min_func)) ! 0) = T_Jump 1 [0]"
proof
  show "run_func text_lib quiet_host (fst (const_fold text_lib min_func)) 2 [] () =
     Some (Returned (Some (R_Int 2)) ())"
    using const_fold_preserves [OF text_lib_ok verify_min folds_guarded_min, of quiet_host 2 "[]" "()"]
    by (simp add: run_min)
  show "bk_term (f_blocks (fst (const_fold text_lib min_func)) ! 0) = T_Jump 1 [0]"
    by (simp add: const_fold_def const_fold_state_def fold_block_def fold_term_def min_func_def
        const_inst_def fold_inst_def fold_binary_def fold_same_def const_inst_ty_def drop_pred_def empty_block_def upt_rec)
qed

end
