(* ===== verification/Gc_State.thy ===== *)
theory Gc_State
  imports Value
begin

text \<open>
  The state byte of a heap cell and the write barrier (\<open>heap/cells/mod.rs\<close>, \<open>heap/gc.rs\<close>). A
  heap reference is the address of its cell; the top bit of the byte is the mark of a major
  collection, the rest is the state.
\<close>

datatype slot_state = Free | Old | Remembered | Young | Marked

definition MAJOR_MARK :: u8 where "MAJOR_MARK = 0x80"

primrec slot_as_u8 :: "slot_state \<Rightarrow> u8" where
  "slot_as_u8 Free = 0"
| "slot_as_u8 Old = 1"
| "slot_as_u8 Remembered = 2"
| "slot_as_u8 Young = 3"
| "slot_as_u8 Marked = 4"

definition slot_from_byte :: "u8 \<Rightarrow> slot_state" where
  "slot_from_byte b =
     (let s = b AND NOT MAJOR_MARK
      in if s = 1 then Old else if s = 2 then Remembered else if s = 3 then Young
         else if s = 4 then Marked else Free)"

record gc_headers =
  gh_state :: "u64 \<Rightarrow> u8"
  gh_remembered :: "u64 list"

definition state_of :: "gc_headers \<Rightarrow> u64 \<Rightarrow> slot_state" where
  "state_of h r = slot_from_byte (gh_state h r)"

definition set_state :: "u64 \<Rightarrow> slot_state \<Rightarrow> gc_headers \<Rightarrow> gc_headers" where
  "set_state r st h = h\<lparr>gh_state := (gh_state h)(r := slot_as_u8 st)\<rparr>"

definition is_young :: "gc_headers \<Rightarrow> vm_value \<Rightarrow> bool" where
  "is_young h v \<longleftrightarrow> is_heap v \<and> state_of h (as_heap v) = Young"

definition write_barrier :: "u64 \<Rightarrow> vm_value \<Rightarrow> gc_headers \<Rightarrow> gc_headers" where
  "write_barrier parent v h =
     (if state_of h parent = Old \<and> is_young h v
      then (set_state parent Remembered h)\<lparr>gh_remembered := gh_remembered h @ [parent]\<rparr> else h)"

lemma slot_from_as [simp]: "slot_from_byte (slot_as_u8 st) = st"
  by (cases st) (simp_all add: slot_from_byte_def MAJOR_MARK_def)

lemma slot_from_marked [simp]: "slot_from_byte (b OR MAJOR_MARK) = slot_from_byte b"
proof -
  have "(b OR MAJOR_MARK) AND NOT MAJOR_MARK = b AND NOT MAJOR_MARK"
    by (rule bit_word_eqI) (auto simp: bit_simps)
  then show ?thesis by (simp add: slot_from_byte_def)
qed

lemma state_set [simp]: "state_of (set_state r st h) q = (if q = r then st else state_of h q)"
  by (simp add: state_of_def set_state_def)

lemma state_remembered [simp]: "state_of (h\<lparr>gh_remembered := xs\<rparr>) = state_of h"
  by (simp add: state_of_def fun_eq_iff)

text \<open>The barrier changes no young cell and no young value.\<close>

lemma is_young_barrier [simp]: "is_young (write_barrier p v h) = is_young h"
  by (auto simp: is_young_def write_barrier_def fun_eq_iff)

text \<open>After the barrier an old cell that was given a young value is on the remembered list.\<close>

lemma barrier_remembers:
  "state_of h p = Old \<Longrightarrow> is_young h v \<Longrightarrow>
   state_of (write_barrier p v h) p = Remembered \<and> p \<in> set (gh_remembered (write_barrier p v h))"
  by (simp add: write_barrier_def)

end
