(* ===== verification/Task_Cells.thy ===== *)
theory Task_Cells
  imports Vm_Array Gc_State
begin

text \<open>
  Task cells: \<open>crates/varn-vm/src/task.rs\<close> and the registration loop of \<open>gather_tasks\<close>
  (\<open>exec/host/isolates.rs\<close>). A cell is a position in the store of the cells, an inbox is named
  by a number, and the heap is what these operations read and write of it: the arrays, the
  remembered young cells and the rejections nobody observed. The text under which a rejection
  is reported is computed from its value, which is what the model keeps.
\<close>

type_synonym cell_id = nat
type_synonym inbox_id = nat

datatype status = Pending | Resolved | Rejected

datatype waiter = W_Resume inbox_id u64 | W_Gather cell_id nat

record waiters =
  ws_first :: "waiter option"
  ws_more :: "waiter list"

definition no_waiters :: waiters where
  "no_waiters = \<lparr>ws_first = None, ws_more = []\<rparr>"

definition waiters_push :: "waiter \<Rightarrow> waiters \<Rightarrow> waiters" where
  "waiters_push w ws =
     (if ws_first ws = None then ws\<lparr>ws_first := Some w\<rparr> else ws\<lparr>ws_more := ws_more ws @ [w]\<rparr>)"

definition waiters_drain :: "waiters \<Rightarrow> waiter list" where
  "waiters_drain ws = (case ws_first ws of None \<Rightarrow> [] | Some w \<Rightarrow> [w]) @ ws_more ws"

record gather_state =
  g_remaining :: nat
  g_has_error :: bool
  g_error :: vm_value

record task_cell =
  tc_status :: status
  tc_yielded :: bool
  tc_value :: vm_value
  tc_observed :: bool
  tc_waiters :: waiters
  tc_gather :: "gather_state option"

record task_heap =
  th_cells :: "task_cell list"
  th_arrays :: "u64 \<Rightarrow> array_repr option"
  th_inbox :: "inbox_id \<Rightarrow> u64 list"
  th_unobserved :: "(cell_id \<times> vm_value) list"
  th_gc :: gc_headers
  th_young_cells :: "cell_id list"

text \<open>An error is a \<open>Inl\<close>.\<close>

type_synonym outcome = "vm_value + vm_value"

definition cell_new :: "bool \<Rightarrow> gather_state option \<Rightarrow> vm_value \<Rightarrow> task_cell" where
  "cell_new yielded g v =
     \<lparr>tc_status = Pending, tc_yielded = yielded, tc_value = v, tc_observed = False,
      tc_waiters = no_waiters, tc_gather = g\<rparr>"

definition cell_gather :: "vm_value \<Rightarrow> nat \<Rightarrow> task_cell" where
  "cell_gather results count =
     cell_new False (Some \<lparr>g_remaining = count, g_has_error = False, g_error = vv_null\<rparr>) results"

definition alloc_cell :: "task_cell \<Rightarrow> task_heap \<Rightarrow> task_heap" where
  "alloc_cell tc s = s\<lparr>th_cells := th_cells s @ [tc]\<rparr>"

definition upd_cell :: "cell_id \<Rightarrow> (task_cell \<Rightarrow> task_cell) \<Rightarrow> task_heap \<Rightarrow> task_heap" where
  "upd_cell c f s = s\<lparr>th_cells := (th_cells s)[c := f (th_cells s ! c)]\<rparr>"

definition is_pending :: "task_heap \<Rightarrow> cell_id \<Rightarrow> bool" where
  "is_pending s c \<longleftrightarrow> c < length (th_cells s) \<and> tc_status (th_cells s ! c) = Pending"

definition rejection_unobserved :: "task_heap \<Rightarrow> cell_id \<Rightarrow> bool" where
  "rejection_unobserved s c \<longleftrightarrow>
     c < length (th_cells s) \<and> tc_status (th_cells s ! c) = Rejected \<and> \<not> tc_observed (th_cells s ! c)"

text \<open>Reading the value of a cell observes it.\<close>

definition read_value :: "cell_id \<Rightarrow> task_heap \<Rightarrow> vm_value \<times> task_heap" where
  "read_value c s = (tc_value (th_cells s ! c), upd_cell c (tc_observed_update (\<lambda>_. True)) s)"

definition acknowledge :: "cell_id \<Rightarrow> task_heap \<Rightarrow> task_heap" where
  "acknowledge c s = upd_cell c (tc_observed_update (\<lambda>_. True)) s"

definition push_inbox :: "inbox_id \<Rightarrow> u64 \<Rightarrow> task_heap \<Rightarrow> task_heap" where
  "push_inbox i t s = s\<lparr>th_inbox := (th_inbox s)(i := th_inbox s i @ [t])\<rparr>"

definition add_waiter :: "cell_id \<Rightarrow> waiter \<Rightarrow> task_heap \<Rightarrow> task_heap" where
  "add_waiter c w s = upd_cell c (tc_waiters_update (waiters_push w)) s"

definition watch :: "cell_id \<Rightarrow> inbox_id \<Rightarrow> u64 \<Rightarrow> task_heap \<Rightarrow> task_heap" where
  "watch c i t s = (if is_pending s c then add_waiter c (W_Resume i t) s else push_inbox i t s)"

definition gather_into :: "cell_id \<Rightarrow> cell_id \<Rightarrow> nat \<Rightarrow> task_heap \<Rightarrow> task_heap \<times> bool" where
  "gather_into c parent index s =
     (if is_pending s c then (add_waiter c (W_Gather parent index) s, True) else (s, False))"

definition cell_values :: "task_cell \<Rightarrow> vm_value list" where
  "cell_values tc = tc_value tc # (case tc_gather tc of None \<Rightarrow> [] | Some g \<Rightarrow> [g_error g])"

definition track_cell :: "cell_id \<Rightarrow> task_heap \<Rightarrow> task_heap" where
  "track_cell c s =
     (if list_ex (is_young (th_gc s)) (cell_values (th_cells s ! c))
      then s\<lparr>th_young_cells := th_young_cells s @ [c]\<rparr> else s)"

definition outcome_of :: "cell_id \<Rightarrow> task_heap \<Rightarrow> outcome \<times> task_heap" where
  "outcome_of c s =
     (let (v, s') = read_value c s
      in (if tc_status (th_cells s ! c) = Resolved then Inr v else Inl v, s'))"

section \<open>Settling\<close>

text \<open>
  \<open>settle\<close> and \<open>gather_one\<close> call each other: settling a cell notifies its waiters in order, and
  the last child of a group settles the group at once, before the waiters that come after it.
  \<open>settle_cell\<close> and \<open>gather_step\<close> are the two bodies up to the notifications; \<open>notify\<close> runs the
  notifications still to be made, those of a cell settled on the way first.
\<close>

definition settle_cell :: "cell_id \<Rightarrow> outcome \<Rightarrow> task_heap \<Rightarrow> task_heap \<times> waiter list" where
  "settle_cell c out s =
     (if \<not> is_pending s c then (s, [])
      else
        let (st, v) = (case out of Inr v \<Rightarrow> (Resolved, v) | Inl e \<Rightarrow> (Rejected, e));
            s1 = track_cell c (upd_cell c (\<lambda>tc. tc\<lparr>tc_status := st, tc_value := v\<rparr>) s);
            ws = tc_waiters (th_cells s1 ! c);
            s2 = upd_cell c (tc_waiters_update (\<lambda>_. no_waiters)) s1;
            s3 = (if st = Rejected
                  then if ws_first ws \<noteq> None then upd_cell c (tc_observed_update (\<lambda>_. True)) s2
                       else s2\<lparr>th_unobserved := th_unobserved s2 @ [(c, v)]\<rparr>
                  else s2)
        in (s3, waiters_drain ws))"

definition store_result :: "cell_id \<Rightarrow> nat \<Rightarrow> vm_value \<Rightarrow> task_heap \<Rightarrow> task_heap" where
  "store_result parent index v s =
     (let results = tc_value (th_cells s ! parent)
      in if is_heap results
         then (case th_arrays s (as_heap results) of
                 None \<Rightarrow> s
               | Some a \<Rightarrow>
                   s\<lparr>th_arrays := (th_arrays s)(as_heap results \<mapsto> fst (set_vm a index v)),
                     th_gc := write_barrier (as_heap results) v (th_gc s)\<rparr>)
         else s)"

definition upd_gather :: "cell_id \<Rightarrow> gather_state \<Rightarrow> task_heap \<Rightarrow> task_heap" where
  "upd_gather c g s = upd_cell c (tc_gather_update (\<lambda>_. Some g)) s"

definition gather_of :: "task_heap \<Rightarrow> cell_id \<Rightarrow> gather_state option" where
  "gather_of s c = (if c < length (th_cells s) then tc_gather (th_cells s ! c) else None)"

definition gather_record :: "cell_id \<Rightarrow> nat \<Rightarrow> outcome \<Rightarrow> gather_state \<Rightarrow> task_heap
    \<Rightarrow> gather_state \<times> task_heap" where
  "gather_record parent index out g s =
     (case out of
        Inr v \<Rightarrow> (g, store_result parent index v s)
      | Inl e \<Rightarrow>
          if g_has_error g then (g, s)
          else let g' = g\<lparr>g_has_error := True, g_error := e\<rparr>
               in (g', track_cell parent (upd_gather parent g' s)))"

definition gather_step ::
  "cell_id \<Rightarrow> nat \<Rightarrow> outcome \<Rightarrow> task_heap \<Rightarrow> task_heap \<times> waiter list" where
  "gather_step parent index out s =
     (case gather_of s parent of
        None \<Rightarrow> (s, [])
      | Some g \<Rightarrow>
          let (g1, s1) = gather_record parent index out g s;
              remaining = g_remaining g1 - 1;
              s2 = upd_gather parent (g1\<lparr>g_remaining := remaining\<rparr>) s1
          in if remaining = 0
             then settle_cell parent
                    (if g_has_error g1 then Inl (g_error g1) else Inr (tc_value (th_cells s2 ! parent))) s2
             else (s2, []))"

definition pending_count :: "task_heap \<Rightarrow> nat" where
  "pending_count s = length (filter (\<lambda>tc. tc_status tc = Pending) (th_cells s))"

section \<open>What the bodies change\<close>

text \<open>Three views of the cells; every operation is described by what it does to them.\<close>

definition statuses :: "task_heap \<Rightarrow> status list" where
  "statuses s = map tc_status (th_cells s)"

definition wlists :: "task_heap \<Rightarrow> waiter list list" where
  "wlists s = map (\<lambda>tc. waiters_drain (tc_waiters tc)) (th_cells s)"

definition gathers :: "task_heap \<Rightarrow> gather_state option list" where
  "gathers s = map tc_gather (th_cells s)"

lemmas view_defs = statuses_def wlists_def gathers_def

lemma length_views [simp]:
  "length (statuses s) = length (th_cells s)" "length (wlists s) = length (th_cells s)"
  "length (gathers s) = length (th_cells s)"
  by (simp_all add: view_defs)

lemma is_pending_iff: "is_pending s c \<longleftrightarrow> c < length (th_cells s) \<and> statuses s ! c = Pending"
  by (auto simp: is_pending_def statuses_def)

lemma gather_of_iff: "gather_of s c = Some g \<longleftrightarrow> c < length (th_cells s) \<and> gathers s ! c = Some g"
  by (auto simp: gather_of_def gathers_def)

lemma gather_of_views: "gather_of s c = (if c < length (th_cells s) then gathers s ! c else None)"
  by (simp add: gather_of_def gathers_def)

lemma pending_count_statuses: "pending_count s = length (filter (\<lambda>st. st = Pending) (statuses s))"
  by (simp add: pending_count_def statuses_def filter_map comp_def)

lemma map_upd_same: "f y = f (xs ! i) \<Longrightarrow> map f (xs[i := y]) = map f xs"
  by (cases "i < length xs") (metis list_update_id map_update nth_map, simp add: not_less list_update_beyond)

lemma cells_frame [simp]:
  "th_cells (upd_cell c f s) = (th_cells s)[c := f (th_cells s ! c)]"
  "th_cells (track_cell c s) = th_cells s" "th_cells (store_result p i v s) = th_cells s"
  "th_cells (push_inbox i t s) = th_cells s"
  by (simp_all add: upd_cell_def track_cell_def store_result_def push_inbox_def Let_def
      split: option.splits)

lemma inbox_frame [simp]:
  "th_inbox (upd_cell c f s) = th_inbox s" "th_inbox (track_cell c s) = th_inbox s"
  "th_inbox (store_result p i v s) = th_inbox s" "th_inbox (upd_gather c g s) = th_inbox s"
  by (simp_all add: upd_cell_def track_cell_def store_result_def upd_gather_def Let_def
      split: option.splits)

lemma views_frame [simp]:
  "statuses (track_cell c s) = statuses s" "wlists (track_cell c s) = wlists s"
  "gathers (track_cell c s) = gathers s"
  "statuses (store_result p i v s) = statuses s" "wlists (store_result p i v s) = wlists s"
  "gathers (store_result p i v s) = gathers s"
  "statuses (push_inbox j t s) = statuses s" "wlists (push_inbox j t s) = wlists s"
  "gathers (push_inbox j t s) = gathers s"
  by (simp_all add: view_defs)

lemma views_gather [simp]:
  "statuses (upd_gather c g s) = statuses s" "wlists (upd_gather c g s) = wlists s"
  "gathers (upd_gather c g s) = (gathers s)[c := Some g]"
  by (simp_all add: view_defs upd_gather_def map_upd_same) (simp add: map_update)

lemma views_read [simp]:
  "statuses (snd (read_value c s)) = statuses s" "wlists (snd (read_value c s)) = wlists s"
  "gathers (snd (read_value c s)) = gathers s" "th_inbox (snd (read_value c s)) = th_inbox s"
  by (simp_all add: view_defs read_value_def map_upd_same)

lemma drain_no_waiters [simp]: "waiters_drain no_waiters = []"
  by (simp add: waiters_drain_def no_waiters_def)

definition settled_as :: "outcome \<Rightarrow> status" where
  "settled_as out = (case out of Inr _ \<Rightarrow> Resolved | Inl _ \<Rightarrow> Rejected)"

lemma settled_as_not_pending [simp]: "settled_as out \<noteq> Pending" "Pending \<noteq> settled_as out"
  by (cases out; simp add: settled_as_def)+

lemma settle_cell_skip: "\<not> is_pending s c \<Longrightarrow> settle_cell c out s = (s, [])"
  by (simp add: settle_cell_def)

text \<open>The whole effect of settling a pending cell on the store of the cells.\<close>

lemma settle_cell_cells:
  assumes "is_pending s c" "settle_cell c out s = (s', ws)"
  shows "ws = wlists s ! c \<and> th_inbox s' = th_inbox s \<and>
    (\<exists>ob. th_cells s' = (th_cells s)[c := (th_cells s ! c)
       \<lparr>tc_status := settled_as out, tc_value := (case out of Inr v \<Rightarrow> v | Inl e \<Rightarrow> e),
        tc_observed := ob, tc_waiters := no_waiters\<rparr>])"
proof -
  have c: "c < length (th_cells s)" using assms(1) by (simp add: is_pending_def)
  let ?w = "tc_waiters (th_cells s ! c)"
  let ?obs = "case out of Inr _ \<Rightarrow> tc_observed (th_cells s ! c)
      | Inl _ \<Rightarrow> tc_observed (th_cells s ! c) \<or> ws_first ?w \<noteq> None"
  have "th_cells s' = (th_cells s)[c := (th_cells s ! c)
       \<lparr>tc_status := settled_as out, tc_value := (case out of Inr v \<Rightarrow> v | Inl e \<Rightarrow> e),
        tc_observed := ?obs, tc_waiters := no_waiters\<rparr>]"
    using assms c
    by (cases "th_cells s ! c"; cases out; cases "ws_first ?w = None")
       (auto simp: settle_cell_def settled_as_def Let_def)
  moreover have "ws = wlists s ! c" "th_inbox s' = th_inbox s"
    using assms c
    by (cases out; auto simp: settle_cell_def wlists_def Let_def split: if_splits)+
  ultimately show ?thesis by blast
qed

lemma settle_cell_views:
  assumes "is_pending s c" "settle_cell c out s = (s', ws)"
  shows "ws = wlists s ! c" "th_inbox s' = th_inbox s" "length (th_cells s') = length (th_cells s)"
    "statuses s' = (statuses s)[c := settled_as out]" "wlists s' = (wlists s)[c := []]"
    "gathers s' = gathers s"
proof -
  from settle_cell_cells [OF assms] obtain ob where
    s': "ws = wlists s ! c" "th_inbox s' = th_inbox s"
    "th_cells s' = (th_cells s)[c := (th_cells s ! c)
       \<lparr>tc_status := settled_as out, tc_value := (case out of Inr v \<Rightarrow> v | Inl e \<Rightarrow> e),
        tc_observed := ob, tc_waiters := no_waiters\<rparr>]" by blast
  show "ws = wlists s ! c" "th_inbox s' = th_inbox s" by (fact s')+
  show "length (th_cells s') = length (th_cells s)" using s'(3) by simp
  show "statuses s' = (statuses s)[c := settled_as out]" "wlists s' = (wlists s)[c := []]"
    "gathers s' = gathers s"
    using s'(3) by (simp_all add: view_defs map_upd_same) (simp_all add: map_update)
qed

lemma filter_length_update:
  assumes "i < length xs" "P (xs ! i)" "\<not> P y"
  shows "length (filter P (xs[i := y])) < length (filter P xs)"
  using assms
proof (induction xs arbitrary: i)
  case (Cons x xs)
  then show ?case by (cases i) auto
qed simp

lemma pending_count_settled:
  assumes "is_pending s c" "statuses s' = (statuses s)[c := st]" "st \<noteq> Pending"
  shows "pending_count s' < pending_count s"
  using assms filter_length_update [of c "statuses s" "\<lambda>st. st = Pending" st]
  by (simp add: pending_count_statuses is_pending_iff)

lemma gather_record_views:
  assumes "gather_record p i out g s = (g', s')"
  shows "th_inbox s' = th_inbox s" "length (th_cells s') = length (th_cells s)"
    "statuses s' = statuses s" "wlists s' = wlists s" "g_remaining g' = g_remaining g"
    "\<exists>o'. gathers s' = (gathers s)[p := o'] \<or> gathers s' = gathers s"
  using assms
  by (auto simp: gather_record_def Let_def split: sum.splits if_splits) (simp add: upd_gather_def)

text \<open>
  A step of a group decrements its counter; the group settles when the counter is spent.
\<close>

lemma gather_step_cases:
  assumes "gather_step p i out s = (s', ws)"
  obtains (none) "gather_of s p = None" "s' = s" "ws = []"
  | (more) g where "gather_of s p = Some g" "g_remaining g - 1 \<noteq> 0" "ws = []"
      "statuses s' = statuses s" "wlists s' = wlists s" "th_inbox s' = th_inbox s"
      "length (th_cells s') = length (th_cells s)"
      "\<exists>g'. g_remaining g' = g_remaining g - 1 \<and> gathers s' = (gathers s)[p := Some g']"
  | (last) g s2 out' where "gather_of s p = Some g" "g_remaining g - 1 = 0"
      "statuses s2 = statuses s" "wlists s2 = wlists s" "th_inbox s2 = th_inbox s"
      "length (th_cells s2) = length (th_cells s)"
      "\<exists>g'. g_remaining g' = g_remaining g - 1 \<and> gathers s2 = (gathers s)[p := Some g']"
      "settle_cell p out' s2 = (s', ws)"
proof (cases "gather_of s p")
  case None
  moreover from None assms have "s' = s" "ws = []" by (simp_all add: gather_step_def)
  ultimately show ?thesis by (rule none)
next
  case (Some g)
  obtain g1 s1 where r: "gather_record p i out g s = (g1, s1)" by fastforce
  note v = gather_record_views [OF r]
  define s2 where "s2 = upd_gather p (g1\<lparr>g_remaining := g_remaining g1 - 1\<rparr>) s1"
  have len: "length (th_cells (upd_gather p g' s')) = length (th_cells s')" for g' s'
    by (simp add: upd_gather_def)
  have "gathers s2 = (gathers s)[p := Some (g1\<lparr>g_remaining := g_remaining g1 - 1\<rparr>)]"
    using v(6) by (auto simp: s2_def)
  moreover have "g_remaining (g1\<lparr>g_remaining := g_remaining g1 - 1\<rparr>) = g_remaining g - 1"
    using v(5) by simp
  ultimately have g2: "\<exists>g'. g_remaining g' = g_remaining g - 1 \<and> gathers s2 = (gathers s)[p := Some g']"
    by blast
  have s2: "statuses s2 = statuses s" "wlists s2 = wlists s" "th_inbox s2 = th_inbox s"
    "length (th_cells s2) = length (th_cells s)"
    using v(1-4) len by (simp_all add: s2_def)
  have step: "gather_step p i out s =
     (if g_remaining g1 - 1 = 0
      then settle_cell p (if g_has_error g1 then Inl (g_error g1) else Inr (tc_value (th_cells s2 ! p))) s2
      else (s2, []))"
    by (simp only: gather_step_def Some option.case r prod.case Let_def s2_def)
  show ?thesis
  proof (cases "g_remaining g - 1 = 0")
    case True
    with assms step v(5) have "settle_cell p
        (if g_has_error g1 then Inl (g_error g1) else Inr (tc_value (th_cells s2 ! p))) s2 = (s', ws)"
      by simp
    with True Some s2 g2 show ?thesis using last by blast
  next
    case False
    with assms Some r v(5) have "s' = s2" "ws = []" by (auto simp: step)
    with False Some s2 g2 more show ?thesis by blast
  qed
qed

lemma pending_count_cong: "statuses s' = statuses s \<Longrightarrow> pending_count s' = pending_count s"
  by (simp add: pending_count_statuses)

lemma settle_cell_count:
  assumes "settle_cell c out s = (s', ws)"
  shows "pending_count s' < pending_count s \<or> s' = s \<and> ws = []"
proof (cases "is_pending s c")
  case True
  from settle_cell_views(4) [OF True assms] pending_count_settled [OF True] show ?thesis by auto
next
  case False
  with assms show ?thesis by (simp add: settle_cell_skip)
qed

lemma gather_step_count:
  assumes "gather_step p i out s = (s', ws)"
  shows "pending_count s' < pending_count s \<or> pending_count s' = pending_count s \<and> ws = []"
  using assms
proof (cases rule: gather_step_cases)
  case (last g s2 out')
  from settle_cell_count [OF last(8)] pending_count_cong [OF last(3)] show ?thesis by auto
qed (auto dest: pending_count_cong)

lemma outcome_of_views:
  assumes "outcome_of c s = (out, s')"
  shows "statuses s' = statuses s" "wlists s' = wlists s" "gathers s' = gathers s"
    "th_inbox s' = th_inbox s" "length (th_cells s') = length (th_cells s)"
  using assms by (auto simp: outcome_of_def read_value_def view_defs map_upd_same)

section \<open>Notification\<close>

function notify :: "(cell_id \<times> waiter) list \<Rightarrow> task_heap \<Rightarrow> task_heap" where
  "notify [] s = s"
| "notify ((c, W_Resume i t) # rest) s = notify rest (push_inbox i t s)"
| "notify ((c, W_Gather p index) # rest) s =
     (let (out, s1) = outcome_of c s; (s2, ws) = gather_step p index out s1
      in notify (map (Pair p) ws @ rest) s2)"
  by pat_completeness auto
termination
proof (relation "measures [\<lambda>(work, s). pending_count s, \<lambda>(work, s). length work]")
  show "((rest, push_inbox i t s), (c, W_Resume i t) # rest, s)
      \<in> measures [\<lambda>(work, s). pending_count s, \<lambda>(work, s). length work]" for c i t rest s
    using pending_count_cong [of "push_inbox i t s" s] by simp
  fix c p index rest s x out s1 y s2 ws
  assume "x = outcome_of c s" "(out, s1) = x" "y = gather_step p index out s1" "(s2, ws) = y"
  then have g: "gather_step p index out s1 = (s2, ws)" and "outcome_of c s = (out, s1)" by simp_all
  then have "statuses s1 = statuses s" using outcome_of_views(1) by blast
  with gather_step_count [OF g] pending_count_cong [of s1 s]
  show "((map (Pair p) ws @ rest, s2), (c, W_Gather p index) # rest, s)
      \<in> measures [\<lambda>(work, s). pending_count s, \<lambda>(work, s). length work]" by auto
qed simp

definition settle :: "cell_id \<Rightarrow> outcome \<Rightarrow> task_heap \<Rightarrow> task_heap" where
  "settle c out s = (let (s', ws) = settle_cell c out s in notify (map (Pair c) ws) s')"

definition gather_one :: "cell_id \<Rightarrow> nat \<Rightarrow> outcome \<Rightarrow> task_heap \<Rightarrow> task_heap" where
  "gather_one p index out s = (let (s', ws) = gather_step p index out s in notify (map (Pair p) ws) s')"

text \<open>
  The loop of \<open>gather_tasks\<close>, one iteration at a time: the child is what spawning the item of
  the array returned, a task cell or a plain value, and \<open>None\<close> an item that is gone.
\<close>

datatype child = Child_Cell cell_id | Child_Value vm_value

definition gather_child :: "cell_id \<Rightarrow> nat \<Rightarrow> child option \<Rightarrow> task_heap \<Rightarrow> task_heap" where
  "gather_child parent index ch s =
     (case ch of
        None \<Rightarrow> gather_one parent index (Inr vv_null) s
      | Some (Child_Value v) \<Rightarrow> gather_one parent index (Inr v) s
      | Some (Child_Cell c) \<Rightarrow>
          (let (s1, waits) = gather_into c parent index s
           in if waits then s1
              else let (out, s2) = outcome_of c s1 in gather_one parent index out s2))"

definition gather_begin :: "vm_value \<Rightarrow> nat \<Rightarrow> task_heap \<Rightarrow> cell_id \<times> task_heap" where
  "gather_begin results count s =
     (let p = length (th_cells s) in (p, track_cell p (alloc_cell (cell_gather results count) s)))"

definition gather_end :: "cell_id \<Rightarrow> nat \<Rightarrow> task_heap \<Rightarrow> task_heap" where
  "gather_end p count s =
     (if count = 0 then let (v, s') = read_value p s in settle p (Inr v) s' else s)"

end
