(* ===== verification/Task_Inv.thy ===== *)
theory Task_Inv
  imports Task_Cells
begin

text \<open>
  The laws of task cells over any sequence of operations: a settled cell keeps its status and its
  value, every watcher is woken, a group waits for as many registered children as its counter
  says, and a rejection nobody awaits is reported.
\<close>

section \<open>Waking\<close>

text \<open>A token that waits on \<open>c\<close>: registered with the pending cell, on its way, or delivered.\<close>

definition awake :: "task_heap \<Rightarrow> (cell_id \<times> waiter) list \<Rightarrow> cell_id \<Rightarrow> inbox_id \<Rightarrow> u64 \<Rightarrow> bool" where
  "awake s work c i t \<longleftrightarrow>
     is_pending s c \<and> W_Resume i t \<in> set (wlists s ! c) \<or>
     t \<in> set (th_inbox s i) \<or> W_Resume i t \<in> set (map snd work)"

lemma awake_cong:
  "statuses s' = statuses s \<Longrightarrow> wlists s' = wlists s \<Longrightarrow> th_inbox s' = th_inbox s \<Longrightarrow>
   length (th_cells s') = length (th_cells s) \<Longrightarrow> awake s' work c i t = awake s work c i t"
  by (simp add: awake_def is_pending_iff)

lemma awake_settle:
  assumes "settle_cell p out s = (s', ws)" "awake s work c i t"
  shows "awake s' (map (Pair p) ws @ work) c i t"
proof (cases "is_pending s p")
  case False
  with assms show ?thesis by (simp add: settle_cell_skip)
next
  case True
  note v = settle_cell_views [OF True assms(1)]
  show ?thesis
    using assms(2) True v
    by (cases "c = p") (auto simp: awake_def is_pending_iff comp_def)
qed

lemma awake_gather:
  assumes "gather_step p index out s = (s', ws)" "awake s work c i t"
  shows "awake s' (map (Pair p) ws @ work) c i t"
  using assms(1)
proof (cases rule: gather_step_cases)
  case none
  with assms(2) show ?thesis by simp
next
  case (more g)
  with assms(2) show ?thesis using awake_cong [of s' s] by simp
next
  case (last g s2 out')
  with assms(2) have "awake s2 work c i t" using awake_cong [of s2 s] by simp
  from awake_settle [OF last(8) this] show ?thesis .
qed

lemma awake_notify: "awake s work c i t \<Longrightarrow> awake (notify work s) [] c i t"
proof (induction work s rule: notify.induct)
  case (2 d j u rest s)
  have "awake (push_inbox j u s) rest c i t"
    using 2(2) by (auto simp: awake_def is_pending_iff push_inbox_def view_defs)
  with 2(1) show ?case by simp
next
  case (3 d p index rest s)
  obtain out s1 where o: "outcome_of d s = (out, s1)" by fastforce
  obtain s2 ws where g: "gather_step p index out s1 = (s2, ws)" by fastforce
  have "awake s1 rest c i t"
    using 3(2) outcome_of_views [OF o] by (auto simp: awake_def is_pending_iff)
  from awake_gather [OF g this] 3(1) [OF o [symmetric] refl g [symmetric] refl] show ?case
    by (simp add: o g)
qed simp

lemma settle_wakes: "awake s [] c i t \<Longrightarrow> awake (settle d out s) [] c i t"
  using awake_settle [of d out s _ _ "[]"]
  by (auto simp: settle_def split: prod.splits intro: awake_notify)

lemma gather_one_wakes: "awake s [] c i t \<Longrightarrow> awake (gather_one p k out s) [] c i t"
  using awake_gather [of p k out s _ _ "[]"]
  by (auto simp: gather_one_def split: prod.splits intro: awake_notify)

section \<open>Settled cells\<close>

definition same_settled :: "task_heap \<Rightarrow> task_heap \<Rightarrow> bool" where
  "same_settled s s' \<longleftrightarrow>
     length (th_cells s) \<le> length (th_cells s') \<and>
     (\<forall>c < length (th_cells s). tc_status (th_cells s ! c) \<noteq> Pending \<longrightarrow>
        tc_status (th_cells s' ! c) = tc_status (th_cells s ! c) \<and>
        tc_value (th_cells s' ! c) = tc_value (th_cells s ! c))"

lemma same_settled_refl [simp]: "same_settled s s"
  by (simp add: same_settled_def)

lemma same_settled_trans [trans]: "same_settled a b \<Longrightarrow> same_settled b c \<Longrightarrow> same_settled a c"
  by (auto simp: same_settled_def)

lemma same_settled_upd:
  "(\<And>tc. tc_status (f tc) = tc_status tc \<and> tc_value (f tc) = tc_value tc) \<Longrightarrow>
   same_settled s (upd_cell c f s)"
  by (cases "c < length (th_cells s)")
     (auto simp: same_settled_def nth_list_update not_less list_update_beyond)

lemma same_settled_eq: "th_cells s' = th_cells s \<Longrightarrow> same_settled s s'"
  by (simp add: same_settled_def)

lemma same_settled_outcome: "outcome_of c s = (out, s') \<Longrightarrow> same_settled s s'"
  by (auto simp: outcome_of_def read_value_def intro!: same_settled_upd)

lemma same_settled_settle_cell: "settle_cell c out s = (s', ws) \<Longrightarrow> same_settled s s'"
proof (cases "is_pending s c")
  case True
  assume "settle_cell c out s = (s', ws)"
  from settle_cell_cells [OF True this] True show ?thesis
    by (auto simp: same_settled_def is_pending_def nth_list_update)
qed (simp add: settle_cell_skip)

lemma same_settled_record: "gather_record p k out g s = (g', s') \<Longrightarrow> same_settled s s'"
proof -
  have "same_settled s (track_cell p (upd_gather p h s))" for h
    by (rule same_settled_trans [OF same_settled_upd same_settled_eq])
       (auto simp: upd_gather_def)
  then show "gather_record p k out g s = (g', s') \<Longrightarrow> same_settled s s'"
    by (auto simp: gather_record_def Let_def split: sum.splits if_splits intro: same_settled_eq)
qed

lemma same_settled_gather_step: "gather_step p k out s = (s', ws) \<Longrightarrow> same_settled s s'"
proof -
  assume a: "gather_step p k out s = (s', ws)"
  show ?thesis
  proof (cases "gather_of s p")
    case (Some g)
    obtain g1 s1 where r: "gather_record p k out g s = (g1, s1)" by fastforce
    have "same_settled s (upd_gather p g' s1)" for g'
      using same_settled_record [OF r] same_settled_trans same_settled_upd [of _ s1 p]
      by (auto simp: upd_gather_def)
    with a Some r show ?thesis
      by (auto simp: gather_step_def Let_def split: if_splits
          dest!: same_settled_settle_cell intro: same_settled_trans)
  qed (use a in \<open>simp add: gather_step_def\<close>)
qed

lemma same_settled_notify: "same_settled s (notify work s)"
proof (induction work s rule: notify.induct)
  case (2 d j u rest s)
  have "same_settled s (push_inbox j u s)" by (simp add: same_settled_eq)
  with 2 show ?case by (auto intro: same_settled_trans)
next
  case (3 d p index rest s)
  obtain out s1 where o: "outcome_of d s = (out, s1)" by fastforce
  obtain s2 ws where g: "gather_step p index out s1 = (s2, ws)" by fastforce
  show ?case
    using 3 [OF o [symmetric] refl g [symmetric] refl] same_settled_outcome [OF o]
      same_settled_gather_step [OF g]
    by (auto simp: o g intro: same_settled_trans)
qed simp

lemma same_settled_settle: "same_settled s (settle c out s)"
  by (auto simp: settle_def split: prod.splits
      intro: same_settled_trans [OF same_settled_settle_cell same_settled_notify])

lemma same_settled_gather_one: "same_settled s (gather_one p k out s)"
  by (auto simp: gather_one_def split: prod.splits
      intro: same_settled_trans [OF same_settled_gather_step same_settled_notify])

section \<open>Groups\<close>

fun for_group :: "cell_id \<Rightarrow> waiter \<Rightarrow> bool" where
  "for_group p (W_Gather q _) = (q = p)"
| "for_group p (W_Resume _ _) = False"

definition gcount :: "task_heap \<Rightarrow> (cell_id \<times> waiter) list \<Rightarrow> cell_id \<Rightarrow> nat" where
  "gcount s work p =
     length (filter (for_group p) (concat (wlists s))) +
     length (filter (for_group p) (map snd work))"

text \<open>
  The counter of a pending group is the number of its children that are registered, on their
  way or still to be looked at (\<open>todo\<close>); settled cells have no waiters.
\<close>

definition no_stray :: "task_heap \<Rightarrow> bool" where
  "no_stray s \<longleftrightarrow> (\<forall>c < length (th_cells s). statuses s ! c \<noteq> Pending \<longrightarrow> wlists s ! c = [])"

definition group_ok :: "task_heap \<Rightarrow> (cell_id \<times> waiter) list \<Rightarrow> (cell_id \<Rightarrow> nat) \<Rightarrow> cell_id \<Rightarrow> bool" where
  "group_ok s work todo p \<longleftrightarrow>
     (\<forall>g. is_pending s p \<longrightarrow> gather_of s p = Some g \<longrightarrow>
        g_remaining g = gcount s work p + todo p \<and> 0 < g_remaining g) \<and>
     (length (th_cells s) \<le> p \<longrightarrow> gcount s work p = 0 \<and> todo p = 0)"

definition groups_ok :: "task_heap \<Rightarrow> (cell_id \<times> waiter) list \<Rightarrow> (cell_id \<Rightarrow> nat) \<Rightarrow> bool" where
  "groups_ok s work todo \<longleftrightarrow> no_stray s \<and> (\<forall>p. group_ok s work todo p)"

text \<open>The obligation of one group is suspended while its counter is being decremented.\<close>

definition groups_ok_but :: "cell_id \<Rightarrow> task_heap \<Rightarrow> (cell_id \<times> waiter) list \<Rightarrow> (cell_id \<Rightarrow> nat) \<Rightarrow> bool" where
  "groups_ok_but q s work todo \<longleftrightarrow> no_stray s \<and> (\<forall>p. p \<noteq> q \<longrightarrow> group_ok s work todo p)"

lemma groups_ok_split:
  "groups_ok s work todo \<longleftrightarrow> groups_ok_but q s work todo \<and> group_ok s work todo q"
  by (auto simp: groups_ok_def groups_ok_but_def)

lemma group_ok_cong:
  "statuses s' = statuses s \<Longrightarrow> wlists s' = wlists s \<Longrightarrow> length (th_cells s') = length (th_cells s) \<Longrightarrow>
   gather_of s' p = gather_of s p \<Longrightarrow> group_ok s' work todo p = group_ok s work todo p"
  by (simp add: group_ok_def is_pending_iff gcount_def)

lemma group_ok_work:
  "gcount s work p = gcount s work' p \<Longrightarrow> group_ok s work todo p = group_ok s work' todo p"
  by (simp add: group_ok_def)

lemma no_stray_cong:
  "statuses s' = statuses s \<Longrightarrow> wlists s' = wlists s \<Longrightarrow> length (th_cells s') = length (th_cells s) \<Longrightarrow>
   no_stray s' = no_stray s"
  by (simp add: no_stray_def)

lemma groups_ok_cong:
  assumes "statuses s' = statuses s" "wlists s' = wlists s" "gathers s' = gathers s"
    "length (th_cells s') = length (th_cells s)"
  shows "groups_ok s' work todo = groups_ok s work todo"
proof -
  have "group_ok s' work todo p = group_ok s work todo p" for p
    using assms by (intro group_ok_cong) (simp_all add: gather_of_views)
  then show ?thesis using no_stray_cong [OF assms(1,2,4)] by (simp add: groups_ok_def)
qed

lemma concat_filter_update:
  "c < length xs \<Longrightarrow>
   length (filter P (concat (xs[c := ys]))) + length (filter P (xs ! c)) =
   length (filter P (concat xs)) + length (filter P ys)"
proof (induction xs arbitrary: c)
  case (Cons x xs)
  then show ?case by (cases c) auto
qed simp

lemma gcount_settle:
  assumes "is_pending s c" "settle_cell c out s = (s', ws)"
  shows "gcount s' (map (Pair c) ws @ work) p = gcount s work p"
proof -
  note v = settle_cell_views [OF assms]
  have "c < length (wlists s)" using assms(1) by (simp add: is_pending_iff)
  from concat_filter_update [OF this, of "for_group p" "[]"] show ?thesis
    by (simp add: gcount_def v comp_def)
qed

lemma groups_ok_settle:
  assumes "settle_cell q out s = (s', ws)" "groups_ok_but q s work todo"
  shows "groups_ok s' (map (Pair q) ws @ work) todo \<or> \<not> is_pending s q \<and> s' = s \<and> ws = []"
proof (cases "is_pending s q")
  case True
  note v = settle_cell_views [OF True assms(1)]
  have p: "is_pending s' p \<longleftrightarrow> p \<noteq> q \<and> is_pending s p" for p
    using True v by (auto simp: is_pending_iff nth_list_update)
  have g: "gather_of s' p = gather_of s p" for p
    using v by (simp add: gather_of_views)
  have "no_stray s'"
    using assms(2) v True
    by (auto simp: groups_ok_but_def no_stray_def nth_list_update is_pending_iff)
  moreover have "group_ok s' (map (Pair q) ws @ work) todo p" for p
    using assms(2) gcount_settle [OF True assms(1), of work p] p g v(3) True
    by (cases "p = q") (auto simp: group_ok_def groups_ok_but_def is_pending_iff)
  ultimately show ?thesis by (simp add: groups_ok_def)
next
  case False
  with assms show ?thesis by (simp add: settle_cell_skip)
qed

lemma groups_ok_gather_step:
  assumes g: "gather_step q k out s = (s', ws)"
    and ok: "groups_ok_but q s work todo" and ql: "q < length (th_cells s)"
    and q: "\<And>g. is_pending s q \<Longrightarrow> gather_of s q = Some g \<Longrightarrow>
      g_remaining g = Suc (gcount s work q + todo q)"
  shows "groups_ok s' (map (Pair q) ws @ work) todo"
  using g
proof (cases rule: gather_step_cases)
  case none
  then have "groups_ok s work todo"
    using ok ql by (simp add: groups_ok_split [of _ _ _ q] group_ok_def)
  then show ?thesis using none by simp
next
  case (more g)
  then obtain g' where g': "g_remaining g' = g_remaining g - 1" "gathers s' = (gathers s)[q := Some g']"
    by blast
  have of_p: "gather_of s' p = gather_of s p" if "p \<noteq> q" for p
    using that more(7) g'(2) by (simp add: gather_of_views)
  then have "groups_ok_but q s' work todo"
    using ok more group_ok_cong [of s' s] no_stray_cong [of s' s] by (simp add: groups_ok_but_def)
  moreover have "gather_of s' q = Some g'"
    using more(1,7) g'(2) by (auto simp: gather_of_views split: if_splits)
  then have "group_ok s' work todo q"
    using q [OF _ more(1)] more g'(1) ql by (auto simp: group_ok_def is_pending_iff gcount_def)
  ultimately show ?thesis using more(3) by (simp add: groups_ok_split [of _ _ _ q])
next
  case (last g s2 out')
  then obtain g' where g': "gathers s2 = (gathers s)[q := Some g']" by blast
  have "gather_of s2 p = gather_of s p" if "p \<noteq> q" for p
    using that last(6) g' by (auto simp: gather_of_views)
  then have but: "groups_ok_but q s2 work todo"
    using ok last group_ok_cong [of s2 s] no_stray_cong [of s2 s] by (simp add: groups_ok_but_def)
  from groups_ok_settle [OF last(8) this] show ?thesis
  proof
    assume "\<not> is_pending s2 q \<and> s' = s2 \<and> ws = []"
    with but ql last(6) show ?thesis by (simp add: groups_ok_split [of _ _ _ q] group_ok_def)
  qed
qed

lemma groups_ok_drop:
  assumes "groups_ok s ((d, W_Gather p k) # rest) todo"
  shows "groups_ok_but p s rest todo" and "p < length (th_cells s)"
    and "is_pending s p \<Longrightarrow> gather_of s p = Some g \<Longrightarrow> g_remaining g = Suc (gcount s rest p + todo p)"
proof -
  have *: "gcount s ((d, W_Gather p k) # rest) q = (if q = p then Suc (gcount s rest q) else gcount s rest q)" for q
    by (simp add: gcount_def)
  show "groups_ok_but p s rest todo"
    using assms group_ok_work [of s "(d, W_Gather p k) # rest" _ rest todo] *
    by (simp add: groups_ok_def groups_ok_but_def)
  have "gcount s ((d, W_Gather p k) # rest) p \<noteq> 0" using * by simp
  then show "p < length (th_cells s)"
    using assms by (auto simp: groups_ok_def group_ok_def not_less [symmetric])
  show "is_pending s p \<Longrightarrow> gather_of s p = Some g \<Longrightarrow> g_remaining g = Suc (gcount s rest p + todo p)"
    using assms * by (simp add: groups_ok_def group_ok_def)
qed

lemma groups_ok_notify: "groups_ok s work todo \<Longrightarrow> groups_ok (notify work s) [] todo"
proof (induction work s rule: notify.induct)
  case (2 d j u rest s)
  have "gcount s ((d, W_Resume j u) # rest) p = gcount s rest p" for p by (simp add: gcount_def)
  with 2(2) have "groups_ok s rest todo"
    using group_ok_work [of s "(d, W_Resume j u) # rest" _ rest todo] by (simp add: groups_ok_def)
  then have "groups_ok (push_inbox j u s) rest todo"
    using groups_ok_cong [of "push_inbox j u s" s rest todo] by simp
  with 2(1) show ?case by simp
next
  case (3 d p index rest s)
  obtain out s1 where o: "outcome_of d s = (out, s1)" by fastforce
  obtain s2 ws where g: "gather_step p index out s1 = (s2, ws)" by fastforce
  note v = outcome_of_views [OF o]
  have "groups_ok s1 ((d, W_Gather p index) # rest) todo"
    using 3(2) groups_ok_cong [OF v(1-3,5)] by simp
  note d = groups_ok_drop [OF this]
  from 3(1) [OF o [symmetric] refl g [symmetric] refl groups_ok_gather_step [OF g d]]
  show ?case by (simp add: o g)
qed simp

section \<open>Reported rejections and remembered young values\<close>

text \<open>
  A rejected cell nobody observed is on the list of unobserved rejections, and a cell that holds
  a young value is among the cells the minor collection visits.
\<close>

definition cell_ok :: "task_heap \<Rightarrow> cell_id \<Rightarrow> task_cell \<Rightarrow> bool" where
  "cell_ok s c tc \<longleftrightarrow>
     (tc_status tc = Rejected \<and> \<not> tc_observed tc \<longrightarrow> c \<in> fst ` set (th_unobserved s)) \<and>
     (list_ex (is_young (th_gc s)) (cell_values tc) \<longrightarrow> c \<in> set (th_young_cells s))"

definition cells_ok :: "task_heap \<Rightarrow> bool" where
  "cells_ok s \<longleftrightarrow> (\<forall>c < length (th_cells s). cell_ok s c (th_cells s ! c))"

definition lists_grow :: "task_heap \<Rightarrow> task_heap \<Rightarrow> bool" where
  "lists_grow s s' \<longleftrightarrow> set (th_unobserved s) \<subseteq> set (th_unobserved s') \<and>
     set (th_young_cells s) \<subseteq> set (th_young_cells s') \<and> is_young (th_gc s') = is_young (th_gc s)"

lemma lists_frame [simp]:
  "th_unobserved (upd_cell c f s) = th_unobserved s" "th_young_cells (upd_cell c f s) = th_young_cells s"
  "th_gc (upd_cell c f s) = th_gc s" "th_unobserved (track_cell c s) = th_unobserved s"
  "th_gc (track_cell c s) = th_gc s"
  "th_young_cells (track_cell c s) =
     th_young_cells s @ (if list_ex (is_young (th_gc s)) (cell_values (th_cells s ! c)) then [c] else [])"
  by (simp_all add: upd_cell_def track_cell_def)

lemma cell_ok_grow: "lists_grow s s' \<Longrightarrow> cell_ok s c tc \<Longrightarrow> cell_ok s' c tc"
  by (auto simp: cell_ok_def lists_grow_def)

lemma cells_ok_update:
  assumes "cells_ok s" "lists_grow s s'" "th_cells s' = (th_cells s)[c := tc]"
    and "c < length (th_cells s) \<Longrightarrow> cell_ok s' c tc"
  shows "cells_ok s'"
  using assms cell_ok_grow [OF assms(2)]
  by (cases "c < length (th_cells s)") (auto simp: cells_ok_def nth_list_update list_update_beyond)

lemma cells_ok_upd:
  assumes "cells_ok s"
    and "\<And>tc. tc_status (f tc) = tc_status tc \<and> cell_values (f tc) = cell_values tc \<and>
           (tc_observed tc \<longrightarrow> tc_observed (f tc))"
  shows "cells_ok (upd_cell c f s)"
  using assms
  by (intro cells_ok_update [OF assms(1), of _ c "f (th_cells s ! c)"])
     (auto simp: lists_grow_def upd_cell_def cell_ok_def cells_ok_def)

lemma cells_ok_read: "cells_ok s \<Longrightarrow> cells_ok (snd (read_value c s))"
  by (auto simp: read_value_def cell_values_def intro: cells_ok_upd)

lemma cells_ok_outcome: "outcome_of c s = (out, s') \<Longrightarrow> cells_ok s \<Longrightarrow> cells_ok s'"
  using cells_ok_read [of s c] by (auto simp: outcome_of_def split: prod.splits)

text \<open>A tracked cell is remembered, whatever was written to it.\<close>

lemma cells_ok_track:
  assumes "cells_ok s" "tc_status (f (th_cells s ! c)) = tc_status (th_cells s ! c)"
    "tc_observed (f (th_cells s ! c)) = tc_observed (th_cells s ! c)"
  shows "cells_ok (track_cell c (upd_cell c f s))"
  using assms
  by (intro cells_ok_update [OF assms(1), of _ c "f (th_cells s ! c)"])
     (auto simp: lists_grow_def upd_cell_def cell_ok_def cells_ok_def track_cell_def)

lemma cells_ok_settle_cell:
  assumes "settle_cell c out s = (s', ws)" "cells_ok s"
  shows "cells_ok s'"
proof (cases "is_pending s c")
  case True
  then have c: "c < length (th_cells s)" "cell_ok s c (th_cells s ! c)"
    using assms(2) by (simp_all add: is_pending_def cells_ok_def)
  from settle_cell_cells [OF True assms(1)] obtain ob where
    s': "th_cells s' = (th_cells s)[c := (th_cells s ! c)
       \<lparr>tc_status := settled_as out, tc_value := (case out of Inr v \<Rightarrow> v | Inl e \<Rightarrow> e),
        tc_observed := ob, tc_waiters := no_waiters\<rparr>]" by blast
  have "lists_grow s s' \<and> cell_ok s' c (th_cells s' ! c)"
  proof (cases out)
    case (Inl e)
    with assms(1) True c show ?thesis
      by (cases "ws_first (tc_waiters (th_cells s ! c)) = None")
         (auto simp: settle_cell_def Let_def lists_grow_def cell_ok_def cell_values_def)
  next
    case (Inr v)
    with assms(1) True c show ?thesis
      by (auto simp: settle_cell_def Let_def lists_grow_def cell_ok_def cell_values_def)
  qed
  then show ?thesis
    using cells_ok_update [OF assms(2) _ s'] c(1) by (simp add: s')
next
  case False
  with assms show ?thesis by (simp add: settle_cell_skip)
qed

lemma cells_ok_eq:
  "th_cells s' = th_cells s \<Longrightarrow> lists_grow s s' \<Longrightarrow> cells_ok s \<Longrightarrow> cells_ok s'"
  by (auto simp: cells_ok_def intro: cell_ok_grow)

lemma cells_ok_gather_step:
  assumes "gather_step p k out s = (s', ws)" "cells_ok s"
  shows "cells_ok s'"
proof (cases "gather_of s p")
  case (Some g)
  obtain g1 s1 where r: "gather_record p k out g s = (g1, s1)" by fastforce
  have "cells_ok (store_result p k v s)" for v
    using assms(2) by (rule cells_ok_eq [rotated 2])
      (auto simp: store_result_def lists_grow_def Let_def split: option.splits)
  moreover have "cells_ok (track_cell p (upd_gather p h s))" for h
    unfolding upd_gather_def by (rule cells_ok_track [OF assms(2)]) simp_all
  ultimately have s1: "cells_ok s1"
    using r assms(2) by (auto simp: gather_record_def Let_def split: sum.splits if_splits)
  have g1: "p < length (th_cells s1) \<Longrightarrow> \<exists>h. tc_gather (th_cells s1 ! p) = Some h \<and> g_error h = g_error g1"
    using r Some
    by (auto simp: gather_record_def Let_def gather_of_def upd_gather_def split: sum.splits if_splits)
  have "cells_ok (upd_gather p (g1\<lparr>g_remaining := n\<rparr>) s1)" for n
    unfolding upd_gather_def
    using s1 g1 by (intro cells_ok_update [OF s1, of _ p])
      (auto simp: lists_grow_def upd_cell_def cell_ok_def cells_ok_def cell_values_def)
  with assms(1) Some r show ?thesis
    by (auto simp: gather_step_def Let_def split: if_splits dest: cells_ok_settle_cell)
qed (use assms in \<open>simp add: gather_step_def\<close>)

lemma cells_ok_notify: "cells_ok s \<Longrightarrow> cells_ok (notify work s)"
proof (induction work s rule: notify.induct)
  case (2 d j u rest s)
  have "cells_ok (push_inbox j u s)"
    using 2(2) by (rule cells_ok_eq [rotated 2]) (auto simp: push_inbox_def lists_grow_def)
  with 2(1) show ?case by simp
next
  case (3 d p index rest s)
  obtain out s1 where o: "outcome_of d s = (out, s1)" by fastforce
  obtain s2 ws where g: "gather_step p index out s1 = (s2, ws)" by fastforce
  from cells_ok_gather_step [OF g cells_ok_outcome [OF o 3(2)]]
    3(1) [OF o [symmetric] refl g [symmetric] refl]
  show ?case by (simp add: o g)
qed simp

lemma cells_ok_settle: "cells_ok s \<Longrightarrow> cells_ok (settle c out s)"
  by (auto simp: settle_def split: prod.splits dest: cells_ok_settle_cell intro: cells_ok_notify)

lemma cells_ok_gather_one: "cells_ok s \<Longrightarrow> cells_ok (gather_one p k out s)"
  by (auto simp: gather_one_def split: prod.splits dest: cells_ok_gather_step intro: cells_ok_notify)

end
