(* ===== verification/Task_Queue.thy ===== *)
theory Task_Queue
  imports Task_Inv
begin

text \<open>
  The queue of tasks, \<open>exec/scheduler/queue.rs\<close>: the slots of parked tasks with their
  generations, the tokens that name them, the ready queue and \<open>collect_resumes\<close>, which turns
  the tokens of the inbox into ready tasks. A frozen task is opaque; lazy tasks
  and generators are numbers.
\<close>

section \<open>Tokens\<close>

definition token :: "nat \<Rightarrow> 32 word \<Rightarrow> u64" where
  "token index generation = push_bit 32 (ucast generation) OR word_of_nat index"

definition token_index :: "u64 \<Rightarrow> nat" where
  "token_index raw = unat (raw AND 0xFFFFFFFF)"

definition token_generation :: "u64 \<Rightarrow> 32 word" where
  "token_generation raw = ucast (drop_bit 32 raw)"

lemma low_word: "(0xFFFFFFFF :: u64) = mask 32"
  by (simp add: mask_eq_exp_minus_1)

lemma bit_small_nat: "(i::nat) < 2 ^ 32 \<Longrightarrow> bit i n \<Longrightarrow> n < 32"
proof (rule ccontr)
  assume i: "i < 2 ^ 32" "bit i n" "\<not> n < 32"
  have "(2::nat) ^ 32 \<le> 2 ^ n" using i(3) by (intro power_increasing) simp_all
  then have "i div 2 ^ n = 0" using i(1) by simp
  then show False using i(2) by (simp add: bit_iff_odd)
qed

lemma token_parts:
  assumes "i < 2 ^ 32"
  shows "token_index (token i g) = i" "token_generation (token i g) = g"
proof -
  have "token i g AND mask 32 = word_of_nat i"
    using bit_small_nat [OF assms] by (auto intro!: bit_word_eqI simp: token_def bit_simps)
  then show "token_index (token i g) = i"
    using assms by (simp add: token_index_def low_word unsigned_of_nat take_bit_nat_eq_self)
  have "\<not> bit i (32 + n)" for n using bit_small_nat [OF assms, of "32 + n"] by auto
  then show "token_generation (token i g) = g"
    using bit_small_nat [OF assms]
    by (auto intro!: bit_word_eqI simp: token_generation_def token_def bit_simps)
qed

section \<open>Parked tasks\<close>

definition SWEEP_FLOOR :: nat where "SWEEP_FLOOR = 1024"

record 'f parked_task =
  pk_output :: cell_id
  pk_waiting_on :: cell_id
  pk_frozen :: 'f
  pk_step :: "nat option"

record 'f slot =
  sl_generation :: "32 word"
  sl_task :: "'f parked_task option"

record 'f parked =
  pd_cells :: "'f slot list"
  pd_free :: "nat list"
  pd_live :: nat
  pd_sweep_at :: nat

definition parked_default :: "'f parked" where
  "parked_default = \<lparr>pd_cells = [], pd_free = [], pd_live = 0, pd_sweep_at = SWEEP_FLOOR\<rparr>"

text \<open>The free list is a vector that is pushed and popped at its end.\<close>

definition free_slot :: "nat \<Rightarrow> 'f parked \<Rightarrow> 'f parked" where
  "free_slot i p =
     p\<lparr>pd_cells := (pd_cells p)[i := \<lparr>sl_generation = sl_generation (pd_cells p ! i) + 1, sl_task = None\<rparr>],
       pd_free := pd_free p @ [i], pd_live := pd_live p - 1\<rparr>"

definition sweep_slot :: "(cell_id \<Rightarrow> bool) \<Rightarrow> nat \<Rightarrow> 'f parked \<Rightarrow> 'f parked" where
  "sweep_slot pending i p =
     (case sl_task (pd_cells p ! i) of
        None \<Rightarrow> p
      | Some t \<Rightarrow> if pending (pk_output t) then p else free_slot i p)"

definition sweep_abandoned :: "(cell_id \<Rightarrow> bool) \<Rightarrow> 'f parked \<Rightarrow> 'f parked" where
  "sweep_abandoned pending p =
     (let p' = fold (sweep_slot pending) [0..<length (pd_cells p)] p
      in p'\<lparr>pd_sweep_at := max SWEEP_FLOOR (pd_live p' * 2)\<rparr>)"

definition parked_insert ::
  "(cell_id \<Rightarrow> bool) \<Rightarrow> 'f parked_task \<Rightarrow> 'f parked \<Rightarrow> (nat \<times> 32 word) \<times> 'f parked" where
  "parked_insert pending t p0 =
     (let p1 = (if pd_sweep_at p0 \<le> pd_live p0 then sweep_abandoned pending p0 else p0);
          p = p1\<lparr>pd_live := pd_live p1 + 1\<rparr>
      in if pd_free p = []
         then ((as_u32 (length (pd_cells p)), 0),
               p\<lparr>pd_cells := pd_cells p @ [\<lparr>sl_generation = 0, sl_task = Some t\<rparr>]\<rparr>)
         else let i = last (pd_free p); cell = pd_cells p ! i
              in ((i, sl_generation cell),
                  p\<lparr>pd_free := butlast (pd_free p), pd_cells := (pd_cells p)[i := cell\<lparr>sl_task := Some t\<rparr>]\<rparr>))"

definition parked_remove ::
  "nat \<Rightarrow> 32 word \<Rightarrow> 'f parked \<Rightarrow> 'f parked_task option \<times> 'f parked" where
  "parked_remove i g p =
     (if i < length (pd_cells p) \<and> sl_generation (pd_cells p ! i) = g
      then (case sl_task (pd_cells p ! i) of
              None \<Rightarrow> (None, p)
            | Some t \<Rightarrow> (Some t, free_slot i p))
      else (None, p))"

subsection \<open>The slots are a map from tokens to tasks\<close>

definition parked_map :: "'f parked \<Rightarrow> nat \<times> 32 word \<Rightarrow> 'f parked_task option" where
  "parked_map p = (\<lambda>(i, g).
     if i < length (pd_cells p) \<and> sl_generation (pd_cells p ! i) = g then sl_task (pd_cells p ! i)
     else None)"

definition live_slots :: "'f parked \<Rightarrow> nat set" where
  "live_slots p = {i. i < length (pd_cells p) \<and> sl_task (pd_cells p ! i) \<noteq> None}"

definition parked_ok :: "'f parked \<Rightarrow> bool" where
  "parked_ok p \<longleftrightarrow>
     length (pd_cells p) \<le> 2 ^ 32 \<and> distinct (pd_free p) \<and>
     set (pd_free p) = {i. i < length (pd_cells p) \<and> sl_task (pd_cells p ! i) = None} \<and>
     pd_live p = card (live_slots p)"

lemma finite_live [simp]: "finite (live_slots p)"
  by (simp add: live_slots_def)

lemma live_slots_update:
  "i < length (pd_cells p) \<Longrightarrow> pd_cells p' = (pd_cells p)[i := c] \<Longrightarrow>
   live_slots p' = (if sl_task c = None then live_slots p - {i} else insert i (live_slots p))"
  by (auto simp: live_slots_def nth_list_update split: if_splits)

lemma free_slot_ok:
  assumes "parked_ok p" "i < length (pd_cells p)" "sl_task (pd_cells p ! i) = Some t"
  shows "parked_ok (free_slot i p)"
    and "parked_map (free_slot i p) = (parked_map p)((i, sl_generation (pd_cells p ! i)) := None)"
proof -
  have live: "live_slots (free_slot i p) = live_slots p - {i}" "i \<in> live_slots p"
    using live_slots_update [OF assms(2), of "free_slot i p"] assms(2,3)
    by (simp_all add: free_slot_def) (simp add: live_slots_def)
  then show "parked_ok (free_slot i p)"
    using assms by (auto simp: parked_ok_def free_slot_def nth_list_update)
  show "parked_map (free_slot i p) = (parked_map p)((i, sl_generation (pd_cells p ! i)) := None)"
    using assms(2) by (auto simp: parked_map_def free_slot_def nth_list_update fun_eq_iff)
qed

lemma parked_sweep_at [simp]:
  "parked_ok (p\<lparr>pd_sweep_at := n\<rparr>) = parked_ok p" "parked_map (p\<lparr>pd_sweep_at := n\<rparr>) = parked_map p"
  by (simp_all add: parked_ok_def live_slots_def parked_map_def fun_eq_iff)

lemma free_slot_length [simp]: "length (pd_cells (free_slot i p)) = length (pd_cells p)"
  by (simp add: free_slot_def)

text \<open>A sweep drops the tasks whose output is settled and keeps the others.\<close>

definition keep_pending :: "(cell_id \<Rightarrow> bool) \<Rightarrow> ('k \<Rightarrow> 'f parked_task option) \<Rightarrow> 'k \<Rightarrow> 'f parked_task option" where
  "keep_pending pending m k =
     (case m k of None \<Rightarrow> None | Some t \<Rightarrow> if pending (pk_output t) then Some t else None)"

lemma sweep_slot_ok:
  assumes "parked_ok p" "i < length (pd_cells p)"
  shows "parked_ok (sweep_slot pending i p)"
    and "length (pd_cells (sweep_slot pending i p)) = length (pd_cells p)"
    and "parked_map (sweep_slot pending i p) k =
      (if fst k = i then keep_pending pending (parked_map p) k else parked_map p k)"
proof -
  show "parked_ok (sweep_slot pending i p)"
    "length (pd_cells (sweep_slot pending i p)) = length (pd_cells p)"
    using assms by (auto simp: sweep_slot_def free_slot_ok split: option.splits)
  show "parked_map (sweep_slot pending i p) k =
      (if fst k = i then keep_pending pending (parked_map p) k else parked_map p k)"
  proof (cases "\<exists>t. sl_task (pd_cells p ! i) = Some t \<and> \<not> pending (pk_output t)")
    case True
    then obtain t where t: "sl_task (pd_cells p ! i) = Some t" "\<not> pending (pk_output t)" by blast
    then have "parked_map (sweep_slot pending i p) k =
        ((parked_map p)((i, sl_generation (pd_cells p ! i)) := None)) k"
      by (simp add: sweep_slot_def free_slot_ok(2) [OF assms t(1)])
    with t show ?thesis by (cases k) (auto simp: keep_pending_def parked_map_def)
  next
    case False
    then have "sweep_slot pending i p = p" by (auto simp: sweep_slot_def split: option.splits)
    with False show ?thesis
      by (cases k) (auto simp: keep_pending_def parked_map_def split: option.splits)
  qed
qed

lemma sweep_abandoned_ok:
  assumes "parked_ok p"
  shows "parked_ok (sweep_abandoned pending p)"
    and "length (pd_cells (sweep_abandoned pending p)) = length (pd_cells p)"
    and "parked_map (sweep_abandoned pending p) = keep_pending pending (parked_map p)"
proof -
  have *: "parked_ok (fold (sweep_slot pending) [0..<n] p) \<and>
      length (pd_cells (fold (sweep_slot pending) [0..<n] p)) = length (pd_cells p) \<and>
      (\<forall>k. parked_map (fold (sweep_slot pending) [0..<n] p) k =
        (if fst k < n then keep_pending pending (parked_map p) k else parked_map p k))"
    if "n \<le> length (pd_cells p)" for n
    using that
  proof (induction n)
    case (Suc n)
    let ?q = "fold (sweep_slot pending) [0..<n] p"
    have q: "parked_ok ?q" "n < length (pd_cells ?q)" "length (pd_cells ?q) = length (pd_cells p)"
      "\<And>k. parked_map ?q k = (if fst k < n then keep_pending pending (parked_map p) k else parked_map p k)"
      using Suc by auto
    show ?case
      using sweep_slot_ok [OF q(1,2), of pending] q(3,4)
      by (auto simp: keep_pending_def)
  qed (simp add: assms)
  have out: "parked_map p k = None" if "length (pd_cells p) \<le> fst k" for k
    using that by (cases k) (simp add: parked_map_def)
  show "parked_ok (sweep_abandoned pending p)"
    "length (pd_cells (sweep_abandoned pending p)) = length (pd_cells p)"
    using * [OF le_refl] by (simp_all add: sweep_abandoned_def Let_def)
  show "parked_map (sweep_abandoned pending p) = keep_pending pending (parked_map p)"
    using * [OF le_refl] out
    by (auto simp: sweep_abandoned_def Let_def keep_pending_def fun_eq_iff not_less)
qed

text \<open>Insertion uses a token no live task has; removal takes the task of its token.\<close>

lemma parked_insert_free:
  assumes ok: "parked_ok p" and len: "length (pd_cells p) < 2 ^ 32"
    and at: "at = (if pd_free p = [] then length (pd_cells p) else last (pd_free p))"
    and g: "g = (if pd_free p = [] then 0 else sl_generation (pd_cells p ! at))"
    and cs: "pd_cells p' = (if pd_free p = [] then pd_cells p @ [\<lparr>sl_generation = 0, sl_task = Some t\<rparr>]
        else (pd_cells p)[at := (pd_cells p ! at)\<lparr>sl_task := Some t\<rparr>])"
    and fr: "pd_free p' = butlast (pd_free p)" and lv: "pd_live p' = pd_live p + 1"
  shows "parked_ok p' \<and> parked_map p (at, g) = None \<and> parked_map p' = (parked_map p)((at, g) \<mapsto> t) \<and>
    at < 2 ^ 32"
proof (cases "pd_free p = []")
  case True
  have live: "live_slots p' = insert at (live_slots p)" "at \<notin> live_slots p"
    using True at cs by (auto simp: live_slots_def nth_append less_Suc_eq)
  have "\<forall>i < length (pd_cells p). sl_task (pd_cells p ! i) \<noteq> None"
    using ok True by (auto simp: parked_ok_def)
  with True ok at g cs fr lv len live show ?thesis
    by (auto simp: parked_ok_def parked_map_def nth_append less_Suc_eq fun_eq_iff)
next
  case False
  then have "at \<in> set (pd_free p)" using at by simp
  then have at': "at < length (pd_cells p)" "sl_task (pd_cells p ! at) = None"
    using ok by (auto simp: parked_ok_def)
  have live: "live_slots p' = insert at (live_slots p)" "at \<notin> live_slots p"
    using False cs at' by (auto simp: live_slots_def nth_list_update split: if_splits)
  have split: "pd_free p = butlast (pd_free p) @ [at]" using False at by simp
  then have d: "distinct (butlast (pd_free p))" "at \<notin> set (butlast (pd_free p))"
    "set (pd_free p) = insert at (set (butlast (pd_free p)))"
    using ok by (metis distinct_append parked_ok_def) (metis split ok distinct_append parked_ok_def
      disjoint_insert(1) empty_set list.simps(15), metis split set_append Un_insert_right
      empty_set list.simps(15) sup_bot.right_neutral)
  then have "set (butlast (pd_free p)) = {i. i < length (pd_cells p) \<and> sl_task (pd_cells p ! i) = None} - {at}"
    using ok by (auto simp: parked_ok_def)
  with d(1) False ok g cs fr lv len live at' show ?thesis
    by (auto simp: parked_ok_def parked_map_def nth_list_update fun_eq_iff)
qed

text \<open>What an insertion leaves: the tasks a sweep keeps, and the new one under a fresh token.\<close>

lemma parked_insert_ok:
  assumes "parked_ok p" "length (pd_cells p) < 2 ^ 32" "parked_insert pending t p = (k, p')"
  shows "parked_ok p' \<and> fst k < 2 ^ 32 \<and>
    (\<exists>m. m = (if pd_sweep_at p \<le> pd_live p then keep_pending pending (parked_map p) else parked_map p) \<and>
       m k = None \<and> parked_map p' = m(k \<mapsto> t))"
proof -
  define p1 where "p1 = (if pd_sweep_at p \<le> pd_live p then sweep_abandoned pending p else p)"
  have p1: "parked_ok p1" "length (pd_cells p1) = length (pd_cells p)"
    "parked_map p1 = (if pd_sweep_at p \<le> pd_live p then keep_pending pending (parked_map p) else parked_map p)"
    using sweep_abandoned_ok [OF assms(1), of pending] assms(1) by (auto simp: p1_def)
  define at g where "at = (if pd_free p1 = [] then length (pd_cells p1) else last (pd_free p1))"
    and "g = (if pd_free p1 = [] then 0 else sl_generation (pd_cells p1 ! at))"
  have k: "k = (at, g)"
    using assms(2,3) p1(2)
    by (auto simp: parked_insert_def Let_def p1_def [symmetric] at_def g_def as_u32_small split: if_splits)
  have "parked_ok p' \<and> parked_map p1 (at, g) = None \<and> parked_map p' = (parked_map p1)((at, g) \<mapsto> t) \<and>
      at < 2 ^ 32"
    using assms(2,3) p1
    by (intro parked_insert_free)
       (auto simp: parked_insert_def Let_def p1_def [symmetric] at_def g_def split: if_splits)
  with p1(3) show ?thesis unfolding k by auto
qed

lemma parked_remove_ok:
  assumes "parked_ok p" "parked_remove i g p = (r, p')"
  shows "parked_ok p' \<and> r = parked_map p (i, g) \<and> parked_map p' = (parked_map p)((i, g) := None)"
proof (cases "parked_map p (i, g)")
  case None
  with assms show ?thesis
    by (auto simp: parked_remove_def parked_map_def split: if_splits option.splits)
next
  case (Some t)
  then have i: "i < length (pd_cells p)" "sl_generation (pd_cells p ! i) = g" "sl_task (pd_cells p ! i) = Some t"
    by (auto simp: parked_map_def split: if_splits)
  with assms(2) Some free_slot_ok [OF assms(1) i(1,3)] show ?thesis
    by (auto simp: parked_remove_def)
qed

subsection \<open>No token is handed out twice\<close>

text \<open>
  Any sequence of insertions and removals from the empty slots, with the tokens handed out so far.
\<close>

datatype 'f parked_op = P_Insert "cell_id \<Rightarrow> bool" "'f parked_task" | P_Remove nat "32 word"

fun parked_turn ::
  "'f parked_op \<Rightarrow> 'f parked \<times> (nat \<times> 32 word) list \<Rightarrow> 'f parked \<times> (nat \<times> 32 word) list" where
  "parked_turn (P_Insert pending t) (p, ks) =
     (let (k, p') = parked_insert pending t p in (p', ks @ [k]))"
| "parked_turn (P_Remove i g) (p, ks) = (snd (parked_remove i g p), ks)"

definition parked_run :: "'f parked_op list \<Rightarrow> 'f parked \<times> (nat \<times> 32 word) list" where
  "parked_run ops = fold parked_turn ops (parked_default, [])"

text \<open>
  A slot is freed at most once for every insertion, so its generation does not exceed the number of
  the operations; a token that was handed out has an older generation than its slot, unless its
  task is still there.
\<close>

definition tokens_old :: "nat \<Rightarrow> 'f parked \<Rightarrow> (nat \<times> 32 word) set \<Rightarrow> bool" where
  "tokens_old n p K \<longleftrightarrow>
     length (pd_cells p) \<le> n \<and>
     (\<forall>i < length (pd_cells p). unat (sl_generation (pd_cells p ! i)) +
        (if sl_task (pd_cells p ! i) = None then 0 else 1) \<le> n) \<and>
     (\<forall>i g. (i, g) \<in> K \<longrightarrow> i < length (pd_cells p) \<and>
        (unat g < unat (sl_generation (pd_cells p ! i)) \<or>
         g = sl_generation (pd_cells p ! i) \<and> sl_task (pd_cells p ! i) \<noteq> None))"

lemma tokens_old_free_slot:
  assumes "tokens_old n p K" "n < 2 ^ 32" "i < length (pd_cells p)" "sl_task (pd_cells p ! i) = Some t"
  shows "tokens_old n (free_slot i p) K"
proof -
  let ?g = "sl_generation (pd_cells p ! i)"
  have "unat ?g + 1 \<le> n" using assms by (auto simp: tokens_old_def)
  then have "unat (?g + 1) = unat ?g + 1" using assms(2) by (simp add: unat_word_ariths)
  with \<open>unat ?g + 1 \<le> n\<close> assms(1,3) show ?thesis
    by (fastforce simp: tokens_old_def free_slot_def nth_list_update)
qed

lemma tokens_old_sweep_slot:
  "tokens_old n p K \<Longrightarrow> n < 2 ^ 32 \<Longrightarrow> i < length (pd_cells p) \<Longrightarrow>
   tokens_old n (sweep_slot pending i p) K \<and>
   length (pd_cells (sweep_slot pending i p)) = length (pd_cells p)"
  using tokens_old_free_slot by (auto simp: sweep_slot_def split: option.splits)

lemma tokens_old_sweep:
  assumes "tokens_old n p K" "n < 2 ^ 32"
  shows "tokens_old n (sweep_abandoned pending p) K"
proof -
  have *: "tokens_old n (fold (sweep_slot pending) [0..<m] p) K \<and>
      length (pd_cells (fold (sweep_slot pending) [0..<m] p)) = length (pd_cells p)"
    if "m \<le> length (pd_cells p)" for m
    using that
  proof (induction m)
    case (Suc m)
    then show ?case
      using tokens_old_sweep_slot [OF _ assms(2), of "fold (sweep_slot pending) [0..<m] p" K m pending]
      by simp
  qed (simp add: assms)
  have swept: "tokens_old n (q\<lparr>pd_sweep_at := m\<rparr>) K = tokens_old n q K" for q m
    by (simp add: tokens_old_def)
  show ?thesis
    unfolding sweep_abandoned_def Let_def swept using * [OF le_refl] by blast
qed

lemma parked_insert_new:
  assumes ok: "parked_ok p" and old: "tokens_old n p K" and n: "n < 2 ^ 32"
    and ins: "parked_insert pending t p = (k, p')"
  shows "k \<notin> K \<and> tokens_old (Suc n) p' (insert k K)"
proof -
  define p1 where "p1 = (if pd_sweep_at p \<le> pd_live p then sweep_abandoned pending p else p)"
  have p1: "parked_ok p1" "tokens_old n p1 K"
    using sweep_abandoned_ok(1) [OF ok] tokens_old_sweep [OF old n] ok old by (simp_all add: p1_def)
  show ?thesis
  proof (cases "pd_free p1 = []")
    case True
    have "length (pd_cells p1) < 2 ^ 32" using p1(2) n by (simp add: tokens_old_def)
    then have "k = (length (pd_cells p1), 0)"
      "pd_cells p' = pd_cells p1 @ [\<lparr>sl_generation = 0, sl_task = Some t\<rparr>]"
      using ins True by (auto simp: parked_insert_def Let_def p1_def [symmetric] as_u32_small)
    then show ?thesis
      using p1(2) by (fastforce simp: tokens_old_def nth_append less_Suc_eq)
  next
    case False
    let ?i = "last (pd_free p1)"
    have i: "?i < length (pd_cells p1)" "sl_task (pd_cells p1 ! ?i) = None"
      using p1(1) last_in_set [OF False] by (auto simp: parked_ok_def)
    have "k = (?i, sl_generation (pd_cells p1 ! ?i))"
      "pd_cells p' = (pd_cells p1)[?i := (pd_cells p1 ! ?i)\<lparr>sl_task := Some t\<rparr>]"
      using ins False by (auto simp: parked_insert_def Let_def p1_def [symmetric])
    then show ?thesis
      using p1(2) i by (fastforce simp: tokens_old_def nth_list_update)
  qed
qed

lemma parked_remove_old:
  assumes "tokens_old n p K" "n < 2 ^ 32"
  shows "tokens_old (Suc n) (snd (parked_remove i g p)) K"
proof -
  have "tokens_old n (snd (parked_remove i g p)) K"
    using assms tokens_old_free_slot [OF assms] by (auto simp: parked_remove_def split: option.splits)
  then show ?thesis by (fastforce simp: tokens_old_def)
qed

lemma parked_run_ok:
  assumes "parked_run ops = (p, ks)" "length ops \<le> 2 ^ 32"
  shows "parked_ok p \<and> distinct ks \<and> tokens_old (length ops) p (set ks) \<and>
    (\<forall>k. k \<notin> set ks \<longrightarrow> parked_map p k = None)"
  using assms
proof (induction ops arbitrary: p ks rule: rev_induct)
  case Nil
  then show ?case
    by (auto simp: parked_run_def parked_default_def parked_ok_def live_slots_def tokens_old_def parked_map_def)
next
  case (snoc op ops)
  obtain q ls where q: "parked_run ops = (q, ls)" by fastforce
  then have IH: "parked_ok q" "distinct ls" "tokens_old (length ops) q (set ls)"
    "\<And>k. k \<notin> set ls \<Longrightarrow> parked_map q k = None"
    using snoc by auto
  have n: "length ops < 2 ^ 32" using snoc.prems(2) by simp
  have turn: "parked_turn op (q, ls) = (p, ks)" using snoc.prems(1) q by (simp add: parked_run_def)
  show ?case
  proof (cases op)
    case (P_Insert pending t)
    obtain k p' where ins: "parked_insert pending t q = (k, p')" by fastforce
    have eq: "p = p'" "ks = ls @ [k]" using turn P_Insert ins by auto
    have "length (pd_cells q) < 2 ^ 32" using IH(3) n by (simp add: tokens_old_def)
    from parked_insert_ok [OF IH(1) this ins] parked_insert_new [OF IH(1,3) n ins] IH(2,4) show ?thesis
      by (auto simp: eq keep_pending_def split: if_splits)
  next
    case (P_Remove i g)
    obtain r p' where rem: "parked_remove i g q = (r, p')" by fastforce
    have eq: "p = p'" "ks = ls" using turn P_Remove rem by auto
    from parked_remove_ok [OF IH(1) rem] parked_remove_old [OF IH(3) n, of i g] IH(2,4) show ?thesis
      by (auto simp: eq rem)
  qed
qed

section \<open>The queue\<close>

datatype delivery = D_Nothing | D_Settled cell_id

datatype 'f start = S_Fresh nat | S_Resume 'f delivery | S_Step nat

record 'f ready_task =
  rd_start :: "'f start"
  rd_output :: cell_id
  rd_step :: "nat option"

record 'f task_queue =
  tq_ready :: "'f ready_task list"
  tq_parked :: "'f parked"
  tq_inbox :: inbox_id

definition push_ready :: "'f ready_task \<Rightarrow> 'f task_queue \<Rightarrow> 'f task_queue" where
  "push_ready r q = q\<lparr>tq_ready := tq_ready q @ [r]\<rparr>"

definition pop_ready :: "'f task_queue \<Rightarrow> 'f ready_task option \<times> 'f task_queue" where
  "pop_ready q =
     (case tq_ready q of [] \<Rightarrow> (None, q) | r # rest \<Rightarrow> (Some r, q\<lparr>tq_ready := rest\<rparr>))"

definition has_inbox :: "'f task_queue \<Rightarrow> task_heap \<Rightarrow> bool" where
  "has_inbox q s \<longleftrightarrow> th_inbox s (tq_inbox q) \<noteq> []"

definition park :: "'f parked_task \<Rightarrow> 'f task_queue \<Rightarrow> task_heap \<Rightarrow> 'f task_queue \<times> task_heap" where
  "park t q s =
     (let ((i, g), p) = parked_insert (is_pending s) t (tq_parked q)
      in (q\<lparr>tq_parked := p\<rparr>, watch (pk_waiting_on t) (tq_inbox q) (token i g) s))"

definition take_token :: "inbox_id \<Rightarrow> task_heap \<Rightarrow> task_heap" where
  "take_token i s = s\<lparr>th_inbox := (th_inbox s)(i := tl (th_inbox s i))\<rparr>"

definition resume_of :: "'f parked_task \<Rightarrow> 'f ready_task" where
  "resume_of t =
     \<lparr>rd_start = S_Resume (pk_frozen t) (D_Settled (pk_waiting_on t)), rd_output = pk_output t, rd_step = pk_step t\<rparr>"

text \<open>One iteration of the loop of \<open>collect_resumes\<close>.\<close>

definition resume_one :: "u64 \<Rightarrow> 'f task_queue \<Rightarrow> task_heap \<Rightarrow> 'f task_queue \<times> task_heap" where
  "resume_one raw q s =
     (case parked_remove (token_index raw) (token_generation raw) (tq_parked q) of
        (None, _) \<Rightarrow> (q, s)
      | (Some t, p) \<Rightarrow>
          let q' = q\<lparr>tq_parked := p\<rparr>
          in if \<not> is_pending s (pk_output t) then (q', s)
             else if is_pending s (pk_waiting_on t) then park t q' s
             else (push_ready (resume_of t) q', s))"

lemma park_inbox [simp]: "tq_inbox (fst (park t q s)) = tq_inbox q"
  by (simp add: park_def split: prod.splits)

lemma resume_one_inbox [simp]: "tq_inbox (fst (resume_one raw q s)) = tq_inbox q"
  using park_inbox by (auto simp: resume_one_def push_ready_def Let_def split: prod.splits option.splits)

lemma watch_pending_inbox: "is_pending s c \<Longrightarrow> th_inbox (watch c i t s) = th_inbox s"
  by (simp add: watch_def add_waiter_def)

lemma resume_one_keeps: "th_inbox (snd (resume_one raw q s)) = th_inbox s"
  by (auto simp: resume_one_def Let_def park_def watch_pending_inbox split: prod.splits option.splits)

function collect_resumes :: "'f task_queue \<Rightarrow> task_heap \<Rightarrow> 'f task_queue \<times> task_heap" where
  "collect_resumes q s =
     (case th_inbox s (tq_inbox q) of
        [] \<Rightarrow> (q, s)
      | raw # _ \<Rightarrow>
          (let (q', s') = resume_one raw q (take_token (tq_inbox q) s) in collect_resumes q' s'))"
  by pat_completeness auto
termination
proof (relation "measure (\<lambda>(q, s). length (th_inbox s (tq_inbox q)))")
  fix q :: "'f task_queue" and s raw rest x q' s'
  assume i: "th_inbox s (tq_inbox q) = raw # rest"
    and x: "x = resume_one raw q (take_token (tq_inbox q) s)" "(q', s') = x"
  from x have r: "resume_one raw q (take_token (tq_inbox q) s) = (q', s')" by simp
  have "tq_inbox q' = tq_inbox q" "th_inbox s' = th_inbox (take_token (tq_inbox q) s)"
    using resume_one_inbox [of raw q "take_token (tq_inbox q) s"]
      resume_one_keeps [of raw q "take_token (tq_inbox q) s"] by (simp_all add: r)
  with i show "((q', s'), q, s) \<in> measure (\<lambda>(q, s). length (th_inbox s (tq_inbox q)))"
    by (simp add: take_token_def)
qed simp

declare collect_resumes.simps [simp del]

section \<open>No wake-up is lost\<close>

text \<open>
  Every parked task is awake: its token is registered with the cell it waits on, or delivered.
\<close>

definition queue_ok_but :: "u64 set \<Rightarrow> 'f task_queue \<Rightarrow> task_heap \<Rightarrow> bool" where
  "queue_ok_but X q s \<longleftrightarrow>
     parked_ok (tq_parked q) \<and>
     (\<forall>i g t. parked_map (tq_parked q) (i, g) = Some t \<longrightarrow>
        i < 2 ^ 32 \<and> pk_waiting_on t < length (th_cells s) \<and>
        (token i g \<notin> X \<longrightarrow> awake s [] (pk_waiting_on t) (tq_inbox q) (token i g)))"

abbreviation queue_ok :: "'f task_queue \<Rightarrow> task_heap \<Rightarrow> bool" where
  "queue_ok \<equiv> queue_ok_but {}"

text \<open>Waiters are pushed behind the first one.\<close>

definition waiters_ok :: "task_heap \<Rightarrow> bool" where
  "waiters_ok s \<longleftrightarrow>
     (\<forall>tc \<in> set (th_cells s). ws_first (tc_waiters tc) = None \<longrightarrow> ws_more (tc_waiters tc) = [])"

lemma drain_push:
  "(ws_first ws = None \<longrightarrow> ws_more ws = []) \<Longrightarrow> waiters_drain (waiters_push w ws) = waiters_drain ws @ [w]"
  by (auto simp: waiters_drain_def waiters_push_def split: option.splits)

lemma add_waiter_views:
  assumes "waiters_ok s" "c < length (th_cells s)"
  shows "statuses (add_waiter c w s) = statuses s" "gathers (add_waiter c w s) = gathers s"
    "th_inbox (add_waiter c w s) = th_inbox s" "length (th_cells (add_waiter c w s)) = length (th_cells s)"
    "wlists (add_waiter c w s) = (wlists s)[c := wlists s ! c @ [w]]"
    "waiters_ok (add_waiter c w s)"
proof -
  have "ws_first (tc_waiters (th_cells s ! c)) = None \<longrightarrow> ws_more (tc_waiters (th_cells s ! c)) = []"
    using assms by (simp add: waiters_ok_def)
  then show "wlists (add_waiter c w s) = (wlists s)[c := wlists s ! c @ [w]]"
    using assms(2) drain_push by (simp add: add_waiter_def wlists_def map_update)
  show "waiters_ok (add_waiter c w s)"
    using assms by (auto simp: waiters_ok_def add_waiter_def waiters_push_def split: if_splits
        dest!: set_update_subset_insert [THEN subsetD])
qed (simp_all add: add_waiter_def view_defs map_upd_same)

lemma push_inbox_at [simp]:
  "th_inbox (push_inbox i t s) = (th_inbox s)(i := th_inbox s i @ [t])"
  by (simp add: push_inbox_def)

lemma awake_watch:
  assumes "waiters_ok s"
  shows "c < length (th_cells s) \<Longrightarrow> awake (watch c i t s) work c i t"
    and "awake s work d j u \<Longrightarrow> awake (watch c i t s) work d j u"
    and "waiters_ok (watch c i t s)"
    and "is_pending (watch c i t s) d = is_pending s d"
proof -
  show "c < length (th_cells s) \<Longrightarrow> awake (watch c i t s) work c i t"
    "awake s work d j u \<Longrightarrow> awake (watch c i t s) work d j u"
    "is_pending (watch c i t s) d = is_pending s d"
    using add_waiter_views [OF assms, of c]
    by (auto simp: watch_def awake_def is_pending_iff nth_list_update)
  show "waiters_ok (watch c i t s)"
    using assms add_waiter_views(6) [OF assms, of c]
    by (auto simp: watch_def is_pending_def waiters_ok_def push_inbox_def)
qed

lemma watch_length [simp]: "length (th_cells (watch c i t s)) = length (th_cells s)"
  by (simp add: watch_def add_waiter_def)

lemma parked_free_iff:
  "parked_ok p \<Longrightarrow> i \<in> set (pd_free p) \<longleftrightarrow> i < length (pd_cells p) \<and> (\<forall>g. parked_map p (i, g) = None)"
  by (auto simp: parked_ok_def parked_map_def)

lemma parked_insert_length:
  assumes "parked_ok p" "pd_free p \<noteq> []" "parked_insert pending t p = (k, p')"
  shows "length (pd_cells p') = length (pd_cells p)"
proof -
  define p1 where "p1 = (if pd_sweep_at p \<le> pd_live p then sweep_abandoned pending p else p)"
  have p1: "parked_ok p1" "length (pd_cells p1) = length (pd_cells p)"
    "parked_map p1 = parked_map p \<or> parked_map p1 = keep_pending pending (parked_map p)"
    using sweep_abandoned_ok [OF assms(1), of pending] assms(1) by (auto simp: p1_def)
  obtain i where "i \<in> set (pd_free p)" using assms(2) by (cases "pd_free p") auto
  then have "i \<in> set (pd_free p1)"
    using p1 assms(1) by (auto simp: parked_free_iff keep_pending_def)
  then have "pd_free p1 \<noteq> []" by auto
  with assms(3) p1(2) show ?thesis
    by (auto simp: parked_insert_def Let_def p1_def [symmetric])
qed

lemma park_ok:
  assumes q: "queue_ok q s" and w: "waiters_ok s" and len: "length (pd_cells (tq_parked q)) < 2 ^ 32"
    and t: "pk_waiting_on t < length (th_cells s)" and p: "park t q s = (q', s')"
  shows "queue_ok q' s'" "waiters_ok s'" "length (th_cells s') = length (th_cells s)"
    "is_pending s' c = is_pending s c" "tq_ready q' = tq_ready q"
    "parked_map (tq_parked q) k = Some u \<Longrightarrow> is_pending s (pk_output u) \<Longrightarrow> parked_map (tq_parked q') k = Some u"
proof -
  obtain i g P where ins: "parked_insert (is_pending s) t (tq_parked q) = ((i, g), P)"
    by (metis prod.exhaust)
  have qs: "q' = q\<lparr>tq_parked := P\<rparr>" "s' = watch (pk_waiting_on t) (tq_inbox q) (token i g) s"
    using p by (simp_all add: park_def ins)
  have ok: "parked_ok (tq_parked q)" using q by (simp add: queue_ok_but_def)
  from parked_insert_ok [OF ok len ins] obtain m where
    P: "parked_ok P" "i < 2 ^ 32" "m (i, g) = None" "parked_map P = m((i, g) \<mapsto> t)"
    and m: "m = parked_map (tq_parked q) \<or> m = keep_pending (is_pending s) (parked_map (tq_parked q))"
    by auto
  have sub: "parked_map (tq_parked q) k = Some u" if "m k = Some u" for k u
    using that m by (auto simp: keep_pending_def split: option.splits if_splits)
  show "queue_ok q' s'"
    unfolding queue_ok_but_def
  proof (intro conjI allI impI)
    fix j h u assume u: "parked_map (tq_parked q') (j, h) = Some u"
    show "j < 2 ^ 32" "pk_waiting_on u < length (th_cells s')"
      "awake s' [] (pk_waiting_on u) (tq_inbox q') (token j h)"
      using u P q t sub [of "(j, h)" u] awake_watch(1,2) [OF w, where c = "pk_waiting_on t"]
      by (auto simp: qs queue_ok_but_def split: if_splits)
  qed (simp add: qs P)
  show "waiters_ok s'" "length (th_cells s') = length (th_cells s)" "is_pending s' c = is_pending s c"
    "tq_ready q' = tq_ready q"
    using awake_watch(3,4) [OF w] by (simp_all add: qs)
  show "parked_map (tq_parked q) k = Some u \<Longrightarrow> is_pending s (pk_output u) \<Longrightarrow> parked_map (tq_parked q') k = Some u"
    using P(3,4) m by (auto simp: qs keep_pending_def)
qed

lemma resume_one_ok:
  assumes q: "queue_ok_but {raw} q s" and w: "waiters_ok s"
    and len: "length (pd_cells (tq_parked q)) < 2 ^ 32" and r: "resume_one raw q s = (q', s')"
  shows "queue_ok q' s' \<and> waiters_ok s' \<and> length (pd_cells (tq_parked q')) < 2 ^ 32 \<and>
    length (th_cells s') = length (th_cells s) \<and> (\<forall>c. is_pending s' c = is_pending s c) \<and>
    set (tq_ready q) \<subseteq> set (tq_ready q') \<and>
    (\<forall>k t. parked_map (tq_parked q) k = Some t \<longrightarrow> is_pending s (pk_output t) \<longrightarrow>
       \<not> is_pending s (pk_waiting_on t) \<longrightarrow>
       parked_map (tq_parked q') k = Some t \<or> resume_of t \<in> set (tq_ready q'))"
proof -
  let ?i = "token_index raw" and ?g = "token_generation raw"
  obtain o1 P where rem: "parked_remove ?i ?g (tq_parked q) = (o1, P)" by fastforce
  have ok: "parked_ok (tq_parked q)" using q by (simp add: queue_ok_but_def)
  from parked_remove_ok [OF ok rem] have P: "parked_ok P" "o1 = parked_map (tq_parked q) (?i, ?g)"
    "parked_map P = (parked_map (tq_parked q))((?i, ?g) := None)" by auto
  have lenP: "length (pd_cells P) = length (pd_cells (tq_parked q))"
    using rem by (auto simp: parked_remove_def split: if_splits option.splits)
  have key: "token j h = raw \<Longrightarrow> j = ?i \<and> h = ?g"
    if "parked_map (tq_parked q) (j, h) = Some u" for j h u
    using q that token_parts [of j h] by (auto simp: queue_ok_but_def)
  have q1: "queue_ok (q\<lparr>tq_parked := P\<rparr>) s"
  proof -
    have "token j h \<noteq> raw" if "parked_map P (j, h) = Some u" for j h u
      using that key [of j h u] P(3) by (auto split: if_splits)
    then show ?thesis using q P by (auto simp: queue_ok_but_def split: if_splits)
  qed
  show ?thesis
  proof (cases o1)
    case None
    with P(3) have "parked_map P = parked_map (tq_parked q)" by (simp add: P(2) fun_upd_idem)
    with q1 have "queue_ok q s" by (simp add: queue_ok_but_def ok)
    with None rem r w len show ?thesis by (auto simp: resume_one_def)
  next
    case (Some t)
    then have t: "pk_waiting_on t < length (th_cells s)" using q P(2) by (auto simp: queue_ok_but_def)
    have other: "parked_map P k = Some u \<or> u = t" if "parked_map (tq_parked q) k = Some u" for k u
      using that P Some by auto
    show ?thesis
    proof (cases "is_pending s (pk_output t) \<and> is_pending s (pk_waiting_on t)")
      case True
      with r rem Some have pk: "park t (q\<lparr>tq_parked := P\<rparr>) s = (q', s')"
        by (simp add: resume_one_def)
      have "length (pd_cells (tq_parked (q\<lparr>tq_parked := P\<rparr>))) < 2 ^ 32" using len lenP by simp
      note k = park_ok [OF q1 w this t pk]
      have "pd_free P \<noteq> []"
        using rem Some by (auto simp: parked_remove_def free_slot_def split: if_splits option.splits)
      with pk lenP len have "length (pd_cells (tq_parked q')) < 2 ^ 32"
        using parked_insert_length [OF P(1)] by (auto simp: park_def split: prod.splits)
      with k True other show ?thesis by (auto, blast)
    next
      case False
      then show ?thesis
        using r rem Some q1 w len lenP
        by (auto simp: resume_one_def Let_def push_ready_def queue_ok_but_def split: if_splits
            dest!: other)
    qed
  qed
qed

lemma take_token_frame:
  "th_cells (take_token j s) = th_cells s" "waiters_ok (take_token j s) = waiters_ok s"
  "is_pending (take_token j s) c = is_pending s c"
  by (simp_all add: take_token_def waiters_ok_def is_pending_def)

lemma queue_ok_take:
  assumes "queue_ok q s" "th_inbox s (tq_inbox q) = raw # rest"
  shows "queue_ok_but {raw} q (take_token (tq_inbox q) s)"
proof -
  have "awake (take_token (tq_inbox q) s) [] c (tq_inbox q) u"
    if "awake s [] c (tq_inbox q) u" "u \<noteq> raw" for c u
    using that assms(2)
    by (auto simp: awake_def take_token_frame) (auto simp: take_token_def wlists_def)
  then show ?thesis using assms(1) by (auto simp: queue_ok_but_def take_token_frame)
qed

lemma collect_resumes_ok:
  assumes "queue_ok q s" "waiters_ok s" "length (pd_cells (tq_parked q)) < 2 ^ 32"
    and "collect_resumes q s = (q', s')"
  shows "queue_ok q' s' \<and> waiters_ok s' \<and> th_inbox s' (tq_inbox q') = [] \<and>
    (\<forall>c. is_pending s' c = is_pending s c) \<and> set (tq_ready q) \<subseteq> set (tq_ready q') \<and>
    (\<forall>k t. parked_map (tq_parked q) k = Some t \<longrightarrow> is_pending s (pk_output t) \<longrightarrow>
       \<not> is_pending s (pk_waiting_on t) \<longrightarrow> resume_of t \<in> set (tq_ready q'))"
  using assms
proof (induction q s rule: collect_resumes.induct)
  case (1 q s)
  show ?case
  proof (cases "th_inbox s (tq_inbox q)")
    case Nil
    with 1 show ?thesis
      by (auto simp: collect_resumes.simps [of q s] queue_ok_but_def awake_def)
  next
    case (Cons raw rest)
    obtain q1 s1 where r: "resume_one raw q (take_token (tq_inbox q) s) = (q1, s1)" by fastforce
    have "waiters_ok (take_token (tq_inbox q) s)" using 1(3) by (simp add: take_token_frame)
    note k = resume_one_ok [OF queue_ok_take [OF 1(2) Cons] this 1(4) r]
    have "collect_resumes q1 s1 = (q', s')"
      using 1(5) Cons r by (simp add: collect_resumes.simps [of q s])
    with 1(1) [OF Cons r [symmetric] refl] k
    have n: "queue_ok q' s' \<and> waiters_ok s' \<and> th_inbox s' (tq_inbox q') = []"
      "\<forall>c. is_pending s' c = is_pending s c" "set (tq_ready q1) \<subseteq> set (tq_ready q')"
      "\<And>k t. parked_map (tq_parked q1) k = Some t \<Longrightarrow> is_pending s (pk_output t) \<Longrightarrow>
         \<not> is_pending s (pk_waiting_on t) \<Longrightarrow> resume_of t \<in> set (tq_ready q')"
      by (auto simp: take_token_frame)
    have "resume_of t \<in> set (tq_ready q')"
      if "parked_map (tq_parked q) k = Some t" "is_pending s (pk_output t)"
        "\<not> is_pending s (pk_waiting_on t)" for k t
    proof -
      have "parked_map (tq_parked q1) k = Some t \<or> resume_of t \<in> set (tq_ready q1)"
        using k that by (cases k) (auto simp: take_token_frame)
      with n(3) n(4) [OF _ that(2,3)] show ?thesis by blast
    qed
    with n k show ?thesis by blast
  qed
qed

end
