(* ===== verification/Task_System.thy ===== *)
theory Task_System
  imports Task_Queue
begin

text \<open>
  The cells and a queue as one transition system: a step is one operation of \<open>task.rs\<close>, of
  \<open>queue.rs\<close> or one iteration of \<open>gather_tasks\<close>, in any order. The ghost component counts,
  for every group, the children its loop has still to register.
\<close>

type_synonym 'f sys = "'f task_queue \<times> task_heap \<times> (cell_id \<Rightarrow> nat)"

definition sys_init :: "inbox_id \<Rightarrow> gc_headers \<Rightarrow> (u64 \<Rightarrow> array_repr option) \<Rightarrow> 'f sys" where
  "sys_init i gc arrays =
     (\<lparr>tq_ready = [], tq_parked = parked_default, tq_inbox = i\<rparr>,
      \<lparr>th_cells = [], th_arrays = arrays, th_inbox = \<lambda>_. [], th_unobserved = [], th_gc = gc,
       th_young_cells = []\<rparr>,
      \<lambda>_. 0)"

definition child_ok :: "task_heap \<Rightarrow> child option \<Rightarrow> bool" where
  "child_ok s ch = (case ch of Some (Child_Cell c) \<Rightarrow> c < length (th_cells s) | _ \<Rightarrow> True)"

inductive task_step :: "'f sys \<Rightarrow> 'f sys \<Rightarrow> bool" where
  New: "task_step (q, s, T) (q, alloc_cell (cell_new yielded None vv_null) s, T)"
| Settle: "c < length (th_cells s) \<Longrightarrow> task_step (q, s, T) (q, settle c out s, T)"
| Read: "c < length (th_cells s) \<Longrightarrow> task_step (q, s, T) (q, snd (read_value c s), T)"
| Watch: "c < length (th_cells s) \<Longrightarrow> task_step (q, s, T) (q, watch c i t s, T)"
| Other_Inbox: "i \<noteq> tq_inbox q \<Longrightarrow> task_step (q, s, T) (q, take_token i s, T)"
| Push: "task_step (q, s, T) (push_ready r q, s, T)"
| Pop: "task_step (q, s, T) (snd (pop_ready q), s, T)"
| Park: "pk_waiting_on t < length (th_cells s) \<Longrightarrow> length (pd_cells (tq_parked q)) + 1 < 2 ^ 32 \<Longrightarrow>
    task_step (q, s, T) (fst (park t q s), snd (park t q s), T)"
| Collect: "task_step (q, s, T) (fst (collect_resumes q s), snd (collect_resumes q s), T)"
| Gather_Empty: "gather_begin results 0 s = (p, s') \<Longrightarrow>
    task_step (q, s, T) (q, gather_end p 0 s', T)"
| Gather_Begin: "gather_begin results count s = (p, s') \<Longrightarrow> 0 < count \<Longrightarrow>
    task_step (q, s, T) (q, s', T(p := count))"
| Gather_Child: "p < length (th_cells s) \<Longrightarrow> T p = Suc n \<Longrightarrow> child_ok s ch \<Longrightarrow>
    task_step (q, s, T) (q, gather_child p index ch s, T(p := n))"

inductive task_reach :: "'f sys \<Rightarrow> bool" where
  Init: "task_reach (sys_init i gc arrays)"
| Step: "task_reach a \<Longrightarrow> task_step a b \<Longrightarrow> task_reach b"

inductive_cases task_stepE: "task_step (q, s, T) b"

section \<open>The invariant\<close>

definition sys_ok :: "'f sys \<Rightarrow> bool" where
  "sys_ok a = (case a of (q, s, T) \<Rightarrow>
     queue_ok q s \<and> length (pd_cells (tq_parked q)) < 2 ^ 32 \<and> waiters_ok s \<and>
     groups_ok s [] T \<and> cells_ok s)"

lemma waiters_ok_upd:
  assumes "waiters_ok s" "\<And>tc. tc_waiters (f tc) = tc_waiters tc \<or> tc_waiters (f tc) = no_waiters"
  shows "waiters_ok (upd_cell c f s)"
proof (cases "c < length (th_cells s)")
  case True
  have "ws_first (tc_waiters (f (th_cells s ! c))) = None \<longrightarrow> ws_more (tc_waiters (f (th_cells s ! c))) = []"
    using assms(1) assms(2) [of "th_cells s ! c"] True by (auto simp: waiters_ok_def no_waiters_def)
  with assms(1) show ?thesis
    by (auto simp: waiters_ok_def dest!: set_update_subset_insert [THEN subsetD])
qed (use assms in \<open>simp add: waiters_ok_def not_less list_update_beyond\<close>)

lemma waiters_ok_eq: "th_cells s' = th_cells s \<Longrightarrow> waiters_ok s \<Longrightarrow> waiters_ok s'"
  by (simp add: waiters_ok_def)

lemma waiters_ok_frame [simp]:
  "waiters_ok (track_cell c s) = waiters_ok s" "waiters_ok (store_result p k v s) = waiters_ok s"
  "waiters_ok (push_inbox i t s) = waiters_ok s"
  by (simp_all add: waiters_ok_def)

lemma group_ok_todo: "T p = T' p \<Longrightarrow> group_ok s work T p = group_ok s work T' p"
  by (simp add: group_ok_def)

lemma waiters_ok_settle_cell:
  assumes "settle_cell c out s = (s', ws)" "waiters_ok s"
  shows "waiters_ok s'"
proof (cases "is_pending s c")
  case True
  from settle_cell_cells [OF True assms(1)] obtain tc where
    "th_cells s' = (th_cells s)[c := tc]" "tc_waiters tc = no_waiters" by force
  then show ?thesis
    using assms(2) by (auto simp: waiters_ok_def no_waiters_def dest!: set_update_subset_insert [THEN subsetD])
qed (use assms in \<open>simp add: settle_cell_skip\<close>)

lemma waiters_ok_gather_step:
  assumes "gather_step p k out s = (s', ws)" "waiters_ok s"
  shows "waiters_ok s'"
proof (cases "gather_of s p")
  case (Some g)
  obtain g1 s1 where r: "gather_record p k out g s = (g1, s1)" by fastforce
  have up: "waiters_ok (upd_gather p h t)" if "waiters_ok t" for h t
    unfolding upd_gather_def using that by (intro waiters_ok_upd) simp_all
  have "waiters_ok s1"
    using r assms(2) up [OF assms(2)]
    by (auto simp: gather_record_def Let_def split: sum.splits if_splits)
  with up assms(1) Some r show ?thesis
    by (auto simp: gather_step_def Let_def split: if_splits dest: waiters_ok_settle_cell)
qed (use assms in \<open>simp add: gather_step_def\<close>)

lemma waiters_ok_read: "waiters_ok s \<Longrightarrow> waiters_ok (snd (read_value c s))"
  by (auto simp: read_value_def intro: waiters_ok_upd)

lemma waiters_ok_notify: "waiters_ok s \<Longrightarrow> waiters_ok (notify work s)"
proof (induction work s rule: notify.induct)
  case (2 d j u rest s)
  have "waiters_ok (push_inbox j u s)" using 2(2) by (rule waiters_ok_eq [rotated]) simp
  with 2(1) show ?case by simp
next
  case (3 d p index rest s)
  obtain out s1 where o: "outcome_of d s = (out, s1)" by fastforce
  obtain s2 ws where g: "gather_step p index out s1 = (s2, ws)" by fastforce
  have "waiters_ok s1"
    using o waiters_ok_read [OF 3(2), of d] by (auto simp: outcome_of_def split: prod.splits)
  from waiters_ok_gather_step [OF g this] 3(1) [OF o [symmetric] refl g [symmetric] refl]
  show ?case by (simp add: o g)
qed simp

lemma settle_ok_but:
  assumes "waiters_ok s" "groups_ok_but c s [] T" "cells_ok s" "groups_ok s [] T \<or> is_pending s c"
  shows "waiters_ok (settle c out s) \<and> groups_ok (settle c out s) [] T \<and> cells_ok (settle c out s)"
proof -
  obtain s' ws where c: "settle_cell c out s = (s', ws)" by fastforce
  from groups_ok_settle [OF c assms(2)] assms(4) have "groups_ok s' (map (Pair c) ws) T" by auto
  then show ?thesis
    using waiters_ok_settle_cell [OF c assms(1)] cells_ok_settle [OF assms(3), of c out]
    by (simp add: settle_def c waiters_ok_notify groups_ok_notify)
qed

lemma settle_ok:
  assumes "waiters_ok s" "groups_ok s [] T" "cells_ok s"
  shows "waiters_ok (settle c out s) \<and> groups_ok (settle c out s) [] T \<and> cells_ok (settle c out s)"
  using assms by (intro settle_ok_but) (simp_all add: groups_ok_split [of _ _ _ c])

lemma gather_one_ok:
  assumes "waiters_ok s" "groups_ok s [] T" "cells_ok s" "T p = Suc n"
  shows "waiters_ok (gather_one p k out s) \<and> groups_ok (gather_one p k out s) [] (T(p := n)) \<and>
    cells_ok (gather_one p k out s)"
proof -
  obtain s' ws where g: "gather_step p k out s = (s', ws)" by fastforce
  have "groups_ok_but p s [] (T(p := n))"
    using assms(2) group_ok_todo [of "T(p := n)" _ T s "[]"]
    by (simp add: groups_ok_def groups_ok_but_def)
  moreover have "g_remaining g = Suc (gcount s [] p + (T(p := n)) p)"
    if "is_pending s p" "gather_of s p = Some g" for g
    using that assms(2,4) by (simp add: groups_ok_def group_ok_def)
  moreover have "p < length (th_cells s)"
    using assms(2,4) by (cases "p < length (th_cells s)") (simp_all add: groups_ok_def group_ok_def not_less)
  ultimately have "groups_ok s' (map (Pair p) ws) (T(p := n))"
    using groups_ok_gather_step [OF g, of "[]" "T(p := n)"] by simp
  then show ?thesis
    using waiters_ok_gather_step [OF g assms(1)] cells_ok_gather_one [OF assms(3), of p k out]
    by (simp add: gather_one_def g waiters_ok_notify groups_ok_notify)
qed

lemma groups_ok_add_resume:
  assumes "waiters_ok s" "is_pending s c" "groups_ok s [] T"
  shows "groups_ok (add_waiter c (W_Resume i t) s) [] T"
proof -
  let ?s = "add_waiter c (W_Resume i t) s"
  have c: "c < length (th_cells s)" "statuses s ! c = Pending" using assms(2) by (simp_all add: is_pending_iff)
  note v = add_waiter_views [OF assms(1) c(1), of "W_Resume i t"]
  have "gcount ?s [] p = gcount s [] p" for p
    using concat_filter_update [of c "wlists s" "for_group p" "wlists s ! c @ [W_Resume i t]"] c(1)
    by (simp add: gcount_def v)
  then have "group_ok ?s [] T p = group_ok s [] T p" for p
    using v by (simp add: group_ok_def is_pending_iff gather_of_views)
  moreover have "no_stray ?s"
    using assms(3) v c by (auto simp: groups_ok_def no_stray_def nth_list_update)
  ultimately show ?thesis using assms(3) by (simp add: groups_ok_def)
qed

lemma groups_ok_add_gather:
  assumes "waiters_ok s" "is_pending s c" "groups_ok s [] T" "T p = Suc n"
  shows "groups_ok (add_waiter c (W_Gather p k) s) [] (T(p := n))"
proof -
  let ?s = "add_waiter c (W_Gather p k) s"
  have c: "c < length (th_cells s)" "statuses s ! c = Pending" using assms(2) by (simp_all add: is_pending_iff)
  note v = add_waiter_views [OF assms(1) c(1), of "W_Gather p k"]
  have "gcount ?s [] q = (if q = p then Suc (gcount s [] q) else gcount s [] q)" for q
    using concat_filter_update [of c "wlists s" "for_group q" "wlists s ! c @ [W_Gather p k]"] c(1)
    by (auto simp: gcount_def v)
  then have "group_ok ?s [] (T(p := n)) q = group_ok s [] T q" for q
    using v assms(4) by (simp add: group_ok_def is_pending_iff gather_of_views)
  moreover have "no_stray ?s"
    using assms(3) v c by (auto simp: groups_ok_def no_stray_def nth_list_update)
  ultimately show ?thesis using assms(3) by (simp add: groups_ok_def)
qed

lemma cells_ok_add_waiter: "cells_ok s \<Longrightarrow> cells_ok (add_waiter c w s)"
  by (auto simp: add_waiter_def cell_values_def intro: cells_ok_upd)

lemma cells_ok_push: "cells_ok s \<Longrightarrow> cells_ok (push_inbox i t s)"
  by (rule cells_ok_eq) (auto simp: push_inbox_def lists_grow_def)

lemma groups_ok_push: "groups_ok (push_inbox i t s) [] T = groups_ok s [] T"
  by (rule groups_ok_cong) simp_all

lemma watch_ok:
  assumes "waiters_ok s" "groups_ok s [] T" "cells_ok s"
  shows "waiters_ok (watch c i t s) \<and> groups_ok (watch c i t s) [] T \<and> cells_ok (watch c i t s)"
  using assms awake_watch(3) [OF assms(1)]
  by (auto simp: watch_def groups_ok_add_resume groups_ok_push cells_ok_add_waiter cells_ok_push)

text \<open>Steps that leave the queue and its inbox alone keep its tasks awake.\<close>

lemma queue_ok_heap:
  assumes "queue_ok q s" "length (th_cells s) \<le> length (th_cells s')"
    and "\<And>c t. awake s [] c (tq_inbox q) t \<Longrightarrow> awake s' [] c (tq_inbox q) t"
  shows "queue_ok q s'"
  using assms by (fastforce simp: queue_ok_but_def)

lemma queue_ok_settle: "queue_ok q s \<Longrightarrow> queue_ok q (settle c out s)"
  using same_settled_settle [of s c out]
  by (auto simp: same_settled_def intro: queue_ok_heap settle_wakes)

lemma queue_ok_gather_one: "queue_ok q s \<Longrightarrow> queue_ok q (gather_one p k out s)"
  using same_settled_gather_one [of s p k out]
  by (auto simp: same_settled_def intro: queue_ok_heap gather_one_wakes)

lemma queue_ok_read: "queue_ok q s \<Longrightarrow> queue_ok q (snd (read_value c s))"
  by (erule queue_ok_heap) (simp_all add: read_value_def awake_def is_pending_iff view_defs map_upd_same)

lemma queue_ok_watch: "waiters_ok s \<Longrightarrow> queue_ok q s \<Longrightarrow> queue_ok q (watch c i t s)"
  by (erule queue_ok_heap) (auto intro: awake_watch)

lemma alloc_views [simp]:
  "statuses (alloc_cell tc s) = statuses s @ [tc_status tc]"
  "wlists (alloc_cell tc s) = wlists s @ [waiters_drain (tc_waiters tc)]"
  "gathers (alloc_cell tc s) = gathers s @ [tc_gather tc]"
  "th_inbox (alloc_cell tc s) = th_inbox s"
  "length (th_cells (alloc_cell tc s)) = Suc (length (th_cells s))"
  by (simp_all add: alloc_cell_def view_defs)

lemma queue_ok_alloc: "queue_ok q s \<Longrightarrow> queue_ok q (alloc_cell tc s)"
  by (erule queue_ok_heap) (auto simp: awake_def is_pending_iff nth_append)

lemma queue_ok_track: "queue_ok q s \<Longrightarrow> queue_ok q (track_cell c s)"
  by (erule queue_ok_heap) (auto simp: awake_def is_pending_iff)

lemma heap_ok_alloc:
  assumes "waiters_ok s" "groups_ok s [] T" "cells_ok s"
    and g: "tc_gather tc = map_option (\<lambda>n. \<lparr>g_remaining = n, g_has_error = False, g_error = vv_null\<rparr>) n"
    and tc: "tc_status tc = Pending" "tc_waiters tc = no_waiters"
  shows "waiters_ok (track_cell (length (th_cells s)) (alloc_cell tc s)) \<and>
    groups_ok_but (length (th_cells s)) (track_cell (length (th_cells s)) (alloc_cell tc s)) []
      (case n of None \<Rightarrow> T | Some m \<Rightarrow> T(length (th_cells s) := m)) \<and>
    (n \<noteq> Some 0 \<longrightarrow> group_ok (track_cell (length (th_cells s)) (alloc_cell tc s)) []
      (case n of None \<Rightarrow> T | Some m \<Rightarrow> T(length (th_cells s) := m)) (length (th_cells s))) \<and>
    cells_ok (track_cell (length (th_cells s)) (alloc_cell tc s))"
proof (intro conjI)
  let ?p = "length (th_cells s)" and ?s = "track_cell (length (th_cells s)) (alloc_cell tc s)"
  let ?T = "case n of None \<Rightarrow> T | Some m \<Rightarrow> T(?p := m)"
  show "waiters_ok ?s" using assms(1) tc by (auto simp: waiters_ok_def alloc_cell_def no_waiters_def)
  show "cells_ok ?s"
    using assms(3) tc
    by (auto simp: cells_ok_def cell_ok_def alloc_cell_def track_cell_def nth_append less_Suc_eq)
  have gc: "gcount ?s [] q = gcount s [] q" for q using tc by (simp add: gcount_def)
  have zero: "gcount s [] ?p = 0" "T ?p = 0"
    using assms(2) by (simp_all add: groups_ok_def group_ok_def)
  have "group_ok ?s [] ?T q" if "q \<noteq> ?p" for q
  proof -
    have "group_ok ?s [] T q = group_ok s [] T q"
      using gc that by (auto simp: group_ok_def is_pending_iff gather_of_views nth_append)
    moreover have "?T q = T q" using that by (cases n) simp_all
    ultimately show ?thesis
      using assms(2) group_ok_todo [of ?T q T ?s "[]"] by (simp add: groups_ok_def)
  qed
  moreover have "no_stray ?s"
    using assms(2) tc by (auto simp: groups_ok_def no_stray_def nth_append less_Suc_eq)
  ultimately show "groups_ok_but ?p ?s [] ?T" by (simp add: groups_ok_but_def)
  have "gather_of ?s ?p = tc_gather tc" by (simp add: gather_of_views nth_append)
  then show "n \<noteq> Some 0 \<longrightarrow> group_ok ?s [] ?T ?p"
    using g gc zero by (cases n) (auto simp: group_ok_def)
qed

lemma read_ok:
  assumes "waiters_ok s" "groups_ok s [] T" "cells_ok s"
  shows "waiters_ok (snd (read_value c s)) \<and> groups_ok (snd (read_value c s)) [] T \<and>
    cells_ok (snd (read_value c s))"
  using assms groups_ok_cong [of "snd (read_value c s)" s "[]" T]
  by (simp add: waiters_ok_read cells_ok_read) (simp add: read_value_def)

lemma outcome_snd: "snd (outcome_of c s) = snd (read_value c s)"
  by (simp add: outcome_of_def split: prod.splits)

lemma gather_child_ok:
  assumes "waiters_ok s" "groups_ok s [] T" "cells_ok s" "T p = Suc n" "child_ok s ch"
  shows "waiters_ok (gather_child p k ch s) \<and> groups_ok (gather_child p k ch s) [] (T(p := n)) \<and>
    cells_ok (gather_child p k ch s)"
proof -
  have read: "waiters_ok (gather_one p k out (snd (outcome_of c s))) \<and>
      groups_ok (gather_one p k out (snd (outcome_of c s))) [] (T(p := n)) \<and>
      cells_ok (gather_one p k out (snd (outcome_of c s)))" for c out
    using read_ok [OF assms(1-3), of c] unfolding outcome_snd by (intro gather_one_ok) (simp_all add: assms(4))
  show ?thesis
    using gather_one_ok [OF assms(1-4)] read add_waiter_views(6) [OF assms(1)]
      groups_ok_add_gather [OF assms(1) _ assms(2,4)] cells_ok_add_waiter [OF assms(3)]
    by (auto simp: gather_child_def gather_into_def is_pending_def split: option.splits child.splits prod.splits)
       (metis snd_conv)+
qed

lemma queue_ok_gather_child:
  assumes "waiters_ok s" "queue_ok q s"
  shows "queue_ok q (gather_child p k ch s)"
proof -
  have "queue_ok q (add_waiter c (W_Gather p k) s)" if "is_pending s c" for c
    using assms(2)
  proof (rule queue_ok_heap)
    have c: "c < length (th_cells s)" using that by (simp add: is_pending_def)
    note v = add_waiter_views [OF assms(1) c, of "W_Gather p k"]
    show "length (th_cells s) \<le> length (th_cells (add_waiter c (W_Gather p k) s))" by (simp add: v)
    show "awake s [] d (tq_inbox q) t \<Longrightarrow> awake (add_waiter c (W_Gather p k) s) [] d (tq_inbox q) t" for d t
      using c by (auto simp: awake_def is_pending_iff v nth_list_update)
  qed
  moreover have "queue_ok q (gather_one p k out (snd (outcome_of c s)))" for c out
    unfolding outcome_snd by (intro queue_ok_gather_one queue_ok_read assms)
  ultimately show ?thesis
    using queue_ok_gather_one [OF assms(2)]
    by (auto simp: gather_child_def gather_into_def split: option.splits child.splits prod.splits)
       (metis snd_conv)+
qed

lemma take_token_ok:
  "groups_ok (take_token i s) [] T = groups_ok s [] T" "cells_ok s \<Longrightarrow> cells_ok (take_token i s)"
proof -
  show "groups_ok (take_token i s) [] T = groups_ok s [] T"
    by (rule groups_ok_cong) (simp_all add: view_defs take_token_frame)
  show "cells_ok s \<Longrightarrow> cells_ok (take_token i s)"
    by (rule cells_ok_eq) (auto simp: take_token_def lists_grow_def)
qed

lemma collect_resumes_frame:
  assumes "collect_resumes q s = (q', s')" "queue_ok q s" "waiters_ok s" "groups_ok s [] T" "cells_ok s"
    and "length (pd_cells (tq_parked q)) < 2 ^ 32"
  shows "groups_ok s' [] T \<and> cells_ok s' \<and> length (pd_cells (tq_parked q')) < 2 ^ 32"
  using assms
proof (induction q s rule: collect_resumes.induct)
  case (1 q s)
  show ?case
  proof (cases "th_inbox s (tq_inbox q)")
    case Nil
    with 1 show ?thesis by (simp add: collect_resumes.simps [of q s])
  next
    case (Cons raw rest)
    let ?s = "take_token (tq_inbox q) s"
    obtain q1 s1 where r: "resume_one raw q ?s = (q1, s1)" by fastforce
    have t: "waiters_ok ?s" "cells_ok ?s" "groups_ok ?s [] T"
      using 1(4-6) by (simp_all add: take_token_frame take_token_ok)
    have "groups_ok s1 [] T \<and> cells_ok s1"
      using r t watch_ok [OF t(1,3,2)]
      by (auto simp: resume_one_def park_def Let_def split: prod.splits option.splits if_splits)
    moreover note resume_one_ok [OF queue_ok_take [OF 1(3) Cons] t(1) 1(7) r]
    moreover have "collect_resumes q1 s1 = (q', s')"
      using 1(2) Cons r by (simp add: collect_resumes.simps [of q s])
    ultimately show ?thesis using 1(1) [OF Cons r [symmetric] refl] by simp
  qed
qed

lemma park_length:
  assumes "parked_ok p" "parked_insert pending t p = (k, p')"
  shows "length (pd_cells p') \<le> length (pd_cells p) + 1"
  using sweep_abandoned_ok(2) [OF assms(1), of pending] assms(2)
  by (auto simp: parked_insert_def Let_def split: if_splits)

lemma sys_ok_step:
  assumes "task_step a b" "sys_ok a"
  shows "sys_ok b"
  using assms
proof (induction rule: task_step.induct)
  case (New q s T yielded)
  let ?c = "cell_new yielded None vv_null" and ?p = "length (th_cells s)"
  have "track_cell ?p (alloc_cell ?c s) = alloc_cell ?c s"
    by (simp add: track_cell_def alloc_cell_def cell_new_def cell_values_def is_young_def is_heap_def
        vv_null_def vv_kind_def KIND_NULL_def KIND_HEAP_def)
  with New heap_ok_alloc [of s T ?c None] show ?case
    by (simp add: sys_ok_def queue_ok_alloc cell_new_def groups_ok_split [of _ _ _ ?p])
next
  case (Settle c s q T out)
  then show ?case using settle_ok [of s T c out] by (simp add: sys_ok_def queue_ok_settle)
next
  case (Read c s q T)
  then show ?case using read_ok [of s T c] by (simp add: sys_ok_def queue_ok_read)
next
  case (Watch c s q T i t)
  then show ?case using watch_ok [of s T c i t] by (simp add: sys_ok_def queue_ok_watch)
next
  case (Other_Inbox i q s T)
  have "queue_ok q s \<Longrightarrow> queue_ok q (take_token i s)"
    using Other_Inbox(1)
    by (elim queue_ok_heap) (auto simp: take_token_def awake_def is_pending_def wlists_def)
  with Other_Inbox show ?case by (simp add: sys_ok_def take_token_frame take_token_ok)
next
  case (Push q s T r)
  then show ?case by (simp add: sys_ok_def push_ready_def queue_ok_but_def)
next
  case (Pop q s T)
  then show ?case
    by (cases "tq_ready q") (simp_all add: sys_ok_def pop_ready_def queue_ok_but_def)
next
  case (Park t s q T)
  obtain q' s' where p: "park t q s = (q', s')" by fastforce
  have s': "\<exists>i u. s' = watch (pk_waiting_on t) i u s"
    using p by (auto simp: park_def split: prod.splits)
  have "length (pd_cells (tq_parked q')) < 2 ^ 32"
    using p park_length Park by (fastforce simp: park_def sys_ok_def queue_ok_but_def split: prod.splits)
  then show ?case
    using Park park_ok [OF _ _ _ _ p] watch_ok s' p by (auto simp: sys_ok_def)
next
  case (Collect q s T)
  obtain q' s' where p: "collect_resumes q s = (q', s')" by fastforce
  then show ?case
    using Collect collect_resumes_ok [OF _ _ _ p] collect_resumes_frame [OF p, of T] by (simp add: sys_ok_def)
next
  case (Gather_Empty results s p s' q T)
  let ?c = "cell_gather results 0" and ?r = "snd (read_value p s')"
  have p: "p = length (th_cells s)" "s' = track_cell p (alloc_cell ?c s)"
    using Gather_Empty(1) by (auto simp: gather_begin_def Let_def)
  have "T p = 0" using Gather_Empty(2) by (simp add: sys_ok_def p(1) groups_ok_def group_ok_def)
  then have T: "T(p := 0) = T" by (simp add: fun_upd_idem)
  have "tc_gather ?c = map_option (\<lambda>n. \<lparr>g_remaining = n, g_has_error = False, g_error = vv_null\<rparr>) (Some 0)"
    "tc_status ?c = Pending" "tc_waiters ?c = no_waiters"
    by (simp_all add: cell_gather_def cell_new_def)
  from heap_ok_alloc [OF _ _ _ this, of s T] Gather_Empty(2) T
  have ok: "waiters_ok s'" "groups_ok_but p s' [] T" "cells_ok s'"
    unfolding p(2) unfolding p(1) by (auto simp: sys_ok_def)
  have len: "length (th_cells ?r) = length (th_cells s')" by (simp add: read_value_def)
  then have "gather_of ?r k = gather_of s' k" for k by (simp add: gather_of_views)
  with len have gb: "groups_ok_but p ?r [] T"
    using ok(2) group_ok_cong [of ?r s'] no_stray_cong [of ?r s'] by (simp add: groups_ok_but_def)
  have pend: "is_pending ?r p"
    by (simp add: is_pending_iff p nth_append cell_gather_def cell_new_def) (simp add: read_value_def)
  have "queue_ok q ?r"
    using Gather_Empty(2) by (auto simp: sys_ok_def p intro: queue_ok_read queue_ok_track queue_ok_alloc)
  then show ?case
    using Gather_Empty(2) settle_ok_but [OF waiters_ok_read [OF ok(1)] gb cells_ok_read [OF ok(3)]] pend
    by (simp add: sys_ok_def gather_end_def queue_ok_settle split: prod.splits)
       (metis queue_ok_settle snd_conv)
next
  case (Gather_Begin results count s p s' q T)
  let ?c = "cell_gather results count"
  show ?case
    using Gather_Begin heap_ok_alloc [of s T ?c "Some count"]
    by (auto simp: sys_ok_def gather_begin_def Let_def cell_gather_def cell_new_def
        groups_ok_split [of _ _ _ "length (th_cells s)"] intro: queue_ok_track queue_ok_alloc)
next
  case (Gather_Child p s T n ch q index)
  then show ?case
    using gather_child_ok [of s T p n ch index] by (simp add: sys_ok_def queue_ok_gather_child)
qed

text \<open>The first state has no cell and no task.\<close>

lemma sys_ok_init: "sys_ok (sys_init i gc arrays)"
  by (simp add: sys_ok_def sys_init_def queue_ok_but_def parked_ok_def live_slots_def parked_default_def
      parked_map_def waiters_ok_def groups_ok_def group_ok_def gcount_def no_stray_def wlists_def
      gather_of_def is_pending_def cells_ok_def)

lemma task_reach_ok: "task_reach a \<Longrightarrow> sys_ok a"
  by (induction rule: task_reach.induct) (auto intro: sys_ok_init sys_ok_step)

lemma task_reach_parts:
  assumes "task_reach (q, s, T)"
  shows "queue_ok q s" "waiters_ok s" "length (pd_cells (tq_parked q)) < 2 ^ 32" "groups_ok s [] T"
    "cells_ok s"
  using task_reach_ok [OF assms] by (simp_all add: sys_ok_def)

end
