(* ===== verification/Task_Props.thy ===== *)
theory Task_Props
  imports Task_System
begin

text \<open>
  What holds in every state the tasks of a queue can reach: no wake-up and no join is lost, a
  settled cell never changes, a rejection nobody observed is reported, and the slots of the
  parked tasks are a map from tokens to tasks.
\<close>

section \<open>Lemmas\<close>

lemma same_settled_watch: "same_settled s (watch c i t s)"
proof (cases "is_pending s c")
  case True
  then show ?thesis by (auto simp: watch_def add_waiter_def intro!: same_settled_upd)
qed (auto simp: watch_def intro!: same_settled_eq)

lemma same_settled_park: "same_settled s (snd (park t q s))"
  by (auto simp: park_def same_settled_watch split: prod.splits)

lemma same_settled_resume: "same_settled s (snd (resume_one raw q s))"
  by (auto simp: resume_one_def Let_def same_settled_park split: prod.splits option.splits)

lemma same_settled_collect: "same_settled s (snd (collect_resumes q s))"
proof (induction q s rule: collect_resumes.induct)
  case (1 q s)
  show ?case
  proof (cases "th_inbox s (tq_inbox q)")
    case Nil
    then show ?thesis by (simp add: collect_resumes.simps [of q s])
  next
    case (Cons raw rest)
    obtain q1 s1 where r: "resume_one raw q (take_token (tq_inbox q) s) = (q1, s1)" by fastforce
    have "same_settled s (take_token (tq_inbox q) s)"
      by (rule same_settled_eq) (simp add: take_token_frame)
    also have "same_settled (take_token (tq_inbox q) s) s1"
      using same_settled_resume [of "take_token (tq_inbox q) s" raw q] by (simp add: r)
    also have "same_settled s1 (snd (collect_resumes q1 s1))"
      using 1 [OF Cons r [symmetric] refl] .
    finally show ?thesis by (simp add: collect_resumes.simps [of q s] Cons r)
  qed
qed

lemma same_settled_alloc: "same_settled s (alloc_cell tc s)"
  by (simp add: same_settled_def alloc_cell_def nth_append)

lemma same_settled_read: "same_settled s (snd (read_value c s))"
  by (auto simp: read_value_def intro!: same_settled_upd)

lemma same_settled_child: "same_settled s (gather_child p k ch s)"
proof -
  have "same_settled s (gather_one p k out (snd (outcome_of c s)))" for c out
    using same_settled_read same_settled_gather_one same_settled_trans unfolding outcome_snd by blast
  then show ?thesis
    by (auto simp: gather_child_def gather_into_def add_waiter_def same_settled_gather_one
        split: option.splits child.splits prod.splits intro!: same_settled_upd)
       (metis snd_conv)+
qed

lemma same_settled_begin:
  assumes "gather_begin results n s = (p, s')"
  shows "same_settled s s'"
proof -
  have "same_settled s (alloc_cell (cell_gather results n) s)" by (rule same_settled_alloc)
  also have "same_settled \<dots> s'"
    using assms by (intro same_settled_eq) (auto simp: gather_begin_def Let_def)
  finally show ?thesis .
qed

lemma same_settled_end: "same_settled s (gather_end p n s)"
  using same_settled_trans [OF same_settled_read same_settled_settle]
  by (auto simp: gather_end_def read_value_def)

lemma task_step_settled: "task_step a b \<Longrightarrow> same_settled (fst (snd a)) (fst (snd b))"
proof (induction rule: task_step.induct)
  case (Gather_Empty results s p s' q T)
  then show ?case using same_settled_trans [OF same_settled_begin same_settled_end] by simp
qed (simp_all add: same_settled_alloc same_settled_settle same_settled_read same_settled_watch
    same_settled_eq take_token_frame same_settled_park same_settled_collect same_settled_begin
    same_settled_child)


section \<open>Runs used as examples\<close>

text \<open>
  A task that waits on another one, which is then settled, and a group of one child. The headers
  of the collector say that no value is young.
\<close>

definition demo_gc :: gc_headers where
  "demo_gc = \<lparr>gh_state = \<lambda>_. 1, gh_remembered = []\<rparr>"

definition demo_task :: "nat parked_task" where
  "demo_task = \<lparr>pk_output = 0, pk_waiting_on = 1, pk_frozen = 7, pk_step = None\<rparr>"

definition demo_start :: "nat sys" where
  "demo_start = sys_init 0 demo_gc (\<lambda>_. None)"

definition demo_cells :: task_heap where
  "demo_cells = alloc_cell (cell_new False None vv_null)
     (alloc_cell (cell_new False None vv_null) (fst (snd demo_start)))"

lemma demo_cells_reach: "task_reach (fst demo_start, demo_cells, \<lambda>_. 0)"
proof -
  have "task_reach (fst demo_start, fst (snd demo_start), \<lambda>_. 0 :: nat)"
    using task_reach.Init [of 0 demo_gc "\<lambda>_. None"] by (simp add: demo_start_def sys_init_def)
  from Step [OF Step [OF this New] New] show ?thesis by (simp add: demo_cells_def)
qed

lemmas demo_defs = demo_cells_def demo_start_def sys_init_def alloc_cell_def cell_new_def demo_task_def
  parked_default_def SWEEP_FLOOR_def no_waiters_def

lemma demo_park_reach:
  "task_reach (fst (park demo_task (fst demo_start) demo_cells), snd (park demo_task (fst demo_start) demo_cells), \<lambda>_. 0)"
  by (rule Step [OF demo_cells_reach Park]) (simp_all add: demo_defs)

definition demo_settled :: "nat sys" where
  "demo_settled = (fst (park demo_task (fst demo_start) demo_cells),
     settle 1 (Inl vv_null) (snd (park demo_task (fst demo_start) demo_cells)), \<lambda>_. 0)"

lemma demo_settled_reach: "task_reach demo_settled"
proof -
  have "1 < length (th_cells (snd (park demo_task (fst demo_start) demo_cells)))"
    by (simp add: demo_defs park_def split: prod.splits)
  from Step [OF demo_park_reach Settle [OF this]] show ?thesis by (simp add: demo_settled_def)
qed

lemmas demo_eval = demo_settled_def demo_defs park_def parked_insert_def as_u32_def watch_def
  is_pending_def add_waiter_def upd_cell_def waiters_push_def settle_def settle_cell_def track_cell_def
  cell_values_def is_young_def is_heap_def vv_null_def vv_kind_def KIND_NULL_def KIND_HEAP_def Let_def
  waiters_drain_def token_def push_inbox_def

lemma demo_rejected_reach: "task_reach (fst demo_start, settle 1 (Inl vv_null) demo_cells, \<lambda>_. 0)"
  by (rule Step [OF demo_cells_reach Settle]) (simp add: demo_defs)

definition demo_group :: task_heap where
  "demo_group = snd (gather_begin vv_null 1 demo_cells)"

lemma demo_group_reach:
  "task_reach (fst demo_start, gather_child 2 0 (Some (Child_Cell 0)) demo_group, (\<lambda>_. 0)(2 := 0))"
proof -
  have b: "gather_begin vv_null 1 demo_cells = (2, demo_group)"
    by (simp add: demo_group_def gather_begin_def Let_def demo_defs)
  have "task_reach (fst demo_start, demo_group, (\<lambda>_. 0)(2 := 1))"
    by (rule Step [OF demo_cells_reach Gather_Begin [OF b]]) simp
  then have "task_reach (fst demo_start, gather_child 2 0 (Some (Child_Cell 0)) demo_group,
      ((\<lambda>_. 0)(2 := 1))(2 := 0))"
    by (rule Step [OF _ Gather_Child [of _ _ _ 0]])
       (simp_all add: demo_group_def gather_begin_def Let_def child_ok_def demo_defs)
  then show ?thesis by simp
qed

section \<open>Properties\<close>

text \<open>
  C9: No wake-up is lost. After the queue has collected its resumes, its inbox is empty, every
  task that is still parked waits on a pending cell, with its token registered there, and every
  parked task whose awaited cell was settled and whose own output was not is ready to resume.
\<close>

theorem no_lost_wakeup:
  assumes "task_reach (q, s, T)" "collect_resumes q s = (q', s')"
  shows "th_inbox s' (tq_inbox q') = [] \<and>
    (\<forall>i g t. parked_map (tq_parked q') (i, g) = Some t \<longrightarrow>
       is_pending s' (pk_waiting_on t) \<and>
       W_Resume (tq_inbox q') (token i g) \<in> set (wlists s' ! pk_waiting_on t)) \<and>
    (\<forall>i g t. parked_map (tq_parked q) (i, g) = Some t \<longrightarrow> is_pending s (pk_output t) \<longrightarrow>
       \<not> is_pending s (pk_waiting_on t) \<longrightarrow> resume_of t \<in> set (tq_ready q'))"
proof -
  note k = collect_resumes_ok [OF task_reach_parts(1-3) [OF assms(1)] assms(2)]
  then have "awake s' [] (pk_waiting_on t) (tq_inbox q') (token i g)"
    if "parked_map (tq_parked q') (i, g) = Some t" for i g t
    using that by (auto simp: queue_ok_but_def)
  with k show ?thesis by (fastforce simp: awake_def)
qed

theorem no_lost_wakeup_witness:
  "parked_map (tq_parked (fst demo_settled)) (0, 0) = Some demo_task \<and>
   resume_of demo_task \<in> set (tq_ready (fst (collect_resumes (fst demo_settled) (fst (snd demo_settled)))))"
proof -
  have m: "parked_map (tq_parked (fst demo_settled)) (0, 0) = Some demo_task"
    "is_pending (fst (snd demo_settled)) (pk_output demo_task)"
    "\<not> is_pending (fst (snd demo_settled)) (pk_waiting_on demo_task)"
    by (simp_all add: demo_eval parked_map_def)
  show ?thesis
    using no_lost_wakeup [of "fst demo_settled" "fst (snd demo_settled)" "snd (snd demo_settled)"]
      demo_settled_reach m
    by (metis prod.collapse)
qed

text \<open>
  C20: No step changes the status or the value of a settled cell, whatever its waiters do when
  they are notified.
\<close>

theorem settled_cells_stay:
  assumes "task_step (q, s, T) (q', s', T')" "c < length (th_cells s)" "tc_status (th_cells s ! c) \<noteq> Pending"
  shows "c < length (th_cells s') \<and> tc_status (th_cells s' ! c) = tc_status (th_cells s ! c) \<and>
    tc_value (th_cells s' ! c) = tc_value (th_cells s ! c)"
  using task_step_settled [OF assms(1)] assms(2,3) by (auto simp: same_settled_def)

theorem settled_cells_stay_witness:
  "let s = fst (snd demo_settled)
   in tc_status (th_cells (settle 1 (Inr vv_null) s) ! 1) = tc_status (th_cells s ! 1) \<and>
      tc_status (th_cells s ! 1) = Rejected"
proof -
  have c: "1 < length (th_cells (fst (snd demo_settled)))"
    "tc_status (th_cells (fst (snd demo_settled)) ! 1) = Rejected" by (simp_all add: demo_eval)
  show ?thesis
    using settled_cells_stay [OF Settle [OF c(1), of "fst demo_settled" "\<lambda>_. 0" "Inr vv_null"] c(1)] c(2)
    by (simp add: Let_def)
qed

text \<open>
  C10: No join is lost. The counter of a pending group all of whose children have been looked at
  is the number of its registered children and is not zero, and every one of these children is
  registered with a pending cell.
\<close>

theorem no_lost_join:
  assumes "task_reach (q, s, T)" "is_pending s p" "gather_of s p = Some g" "T p = 0"
  shows "g_remaining g = length (filter (for_group p) (concat (wlists s))) \<and> 0 < g_remaining g \<and>
    (\<exists>c i. is_pending s c \<and> W_Gather p i \<in> set (wlists s ! c)) \<and>
    (\<forall>c i. c < length (wlists s) \<longrightarrow> W_Gather p i \<in> set (wlists s ! c) \<longrightarrow> is_pending s c)"
proof -
  have ok: "group_ok s [] T p" "no_stray s"
    using task_reach_parts(4) [OF assms(1)] by (simp_all add: groups_ok_def)
  have "g_remaining g = gcount s [] p + T p \<and> 0 < g_remaining g"
    using ok(1) assms(2,3) unfolding group_ok_def by blast
  then have g: "g_remaining g = length (filter (for_group p) (concat (wlists s)))" "0 < g_remaining g"
    unfolding gcount_def using assms(4) by auto
  then have "filter (for_group p) (concat (wlists s)) \<noteq> []" by (metis length_0_conv less_irrefl)
  then obtain w ws where w: "for_group p w" "ws \<in> set (wlists s)" "w \<in> set ws"
    by (auto simp: filter_empty_conv)
  then obtain c where c: "c < length (th_cells s)" "w \<in> set (wlists s ! c)"
    by (auto simp: in_set_conv_nth)
  have pending: "is_pending s c" if "c < length (wlists s)" "w \<in> set (wlists s ! c)" for c w
    using ok(2) that by (force simp: no_stray_def is_pending_iff)
  moreover obtain i where "w = W_Gather p i" using w(1) by (cases w) auto
  ultimately show ?thesis using g c by auto
qed

theorem no_lost_join_witness:
  "let s = gather_child 2 0 (Some (Child_Cell 0)) demo_group
   in \<exists>c i. is_pending s c \<and> W_Gather 2 i \<in> set (wlists s ! c)"
proof -
  let ?s = "gather_child 2 0 (Some (Child_Cell 0)) demo_group"
  have "is_pending ?s 2" "gather_of ?s 2 = Some \<lparr>g_remaining = 1, g_has_error = False, g_error = vv_null\<rparr>"
    by (simp_all add: demo_group_def gather_child_def gather_into_def gather_begin_def cell_gather_def
        gather_of_def demo_eval)
  from no_lost_join [OF demo_group_reach this] show ?thesis by (simp add: Let_def)
qed

text \<open>
  C19: No rejection is lost. A rejected cell whose value nobody has observed is on the list of the
  rejections to report.
\<close>

theorem rejections_reported:
  assumes "task_reach (q, s, T)" "rejection_unobserved s c"
  shows "c \<in> fst ` set (th_unobserved s)"
  using task_reach_parts(5) [OF assms(1)] assms(2)
  by (auto simp: cells_ok_def cell_ok_def rejection_unobserved_def)

theorem rejections_reported_witness:
  "1 \<in> fst ` set (th_unobserved (settle 1 (Inl vv_null) demo_cells))"
  by (rule rejections_reported [OF demo_rejected_reach]) (simp add: rejection_unobserved_def demo_eval)

text \<open>
  C18: The slots of the parked tasks are a map from tokens to tasks, over every sequence of fewer
  than \<open>2 ^ 32\<close> insertions and removals: no token is handed out twice, and no token is bound that
  was not handed out. The next insertion binds a token that was never handed out before and keeps
  the other tasks, but for those a sweep, when one is due, drops because their output is settled;
  the next removal, of any index and generation, takes the task of exactly its token, so that a
  token is good once.
\<close>

theorem parked_refines_map:
  assumes "parked_run ops = (p, ks)" "length ops < 2 ^ 32"
  shows "parked_ok p \<and> distinct ks \<and> (\<forall>k. k \<notin> set ks \<longrightarrow> parked_map p k = None) \<and>
    (parked_insert pending t p = (k, p') \<longrightarrow> k \<notin> set ks \<and>
      (\<exists>m. m = (if pd_sweep_at p \<le> pd_live p then keep_pending pending (parked_map p) else parked_map p) \<and>
         parked_map p' = m(k \<mapsto> t))) \<and>
    (parked_remove i g p = (r, p'') \<longrightarrow> r = parked_map p (i, g) \<and>
      parked_map p'' = (parked_map p)((i, g) := None))"
proof -
  have ok: "parked_ok p" "distinct ks" "tokens_old (length ops) p (set ks)"
    "\<forall>k. k \<notin> set ks \<longrightarrow> parked_map p k = None"
    using parked_run_ok [OF assms(1)] assms(2) by auto
  then have len: "length (pd_cells p) < 2 ^ 32" using assms(2) by (simp add: tokens_old_def)
  show ?thesis
    using ok parked_insert_ok [OF ok(1) len] parked_insert_new [OF ok(1,3) assms(2)]
      parked_remove_ok [OF ok(1)] by blast
qed

theorem parked_refines_map_witness:
  "let (k, p) = parked_insert (\<lambda>_. True) demo_task parked_default;
       (r, q) = parked_remove (fst k) (snd k) p;
       (k', q') = parked_insert (\<lambda>_. True) demo_task q
   in r = Some demo_task \<and> k' \<noteq> k"
proof -
  let ?ops = "[P_Insert (\<lambda>_. True) demo_task, P_Remove 0 0] :: nat parked_op list"
  obtain p ks where r: "parked_run ?ops = (p, ks)" by fastforce
  show ?thesis
    using parked_refines_map [OF r, of "\<lambda>_. True" demo_task] r
    by (auto simp: parked_run_def Let_def parked_insert_def parked_remove_def parked_map_def
        free_slot_def demo_defs as_u32_def)
qed

end
