(* ===== verification/Gc_Heap.thy ===== *)
theory Gc_Heap
  imports Vm_Array Big_Numeric Floats Gc_State
begin

text \<open>
  The heap of the virtual machine (\<open>heap/obj.rs\<close>, \<open>children.rs\<close>, \<open>structs.rs\<close>, \<open>core.rs\<close>,
  \<open>young.rs\<close>, \<open>cells/mod.rs\<close>, \<open>cells/native.rs\<close>, \<open>intern.rs\<close>, \<open>map_keys.rs\<close>): objects and their
  references, births, the interners, and the minor and the major collection (\<open>minor.rs\<close>,
  \<open>major.rs\<close>, \<open>gc.rs\<close>). The address of a new cell comes from the allocator and is an argument; an
  object keeps what the collector and the interners read of it. Task cells, lazy tasks and the
  pointers that identify classes, closures and generators are numbers.
\<close>

section \<open>Objects and their references\<close>

text \<open>A string keeps its bytes and its flags; the top flag says that it is interned.\<close>

datatype heap_str = HS_Shared "u8 list" u8 | HS_Ext "u8 list" u8 | HS_Inline "u8 list" u8 | HS_View "u8 list" u8

definition INTERNED_BIT :: u8 where "INTERNED_BIT = 0x80"

primrec hs_bytes :: "heap_str \<Rightarrow> u8 list" where
  "hs_bytes (HS_Shared s _) = s"
| "hs_bytes (HS_Ext s _) = s"
| "hs_bytes (HS_Inline s _) = s"
| "hs_bytes (HS_View s _) = s"

primrec is_interned :: "heap_str \<Rightarrow> bool" where
  "is_interned (HS_Shared _ f) = (f AND INTERNED_BIT \<noteq> 0)"
| "is_interned (HS_Ext _ f) = (f AND INTERNED_BIT \<noteq> 0)"
| "is_interned (HS_Inline _ f) = (f AND INTERNED_BIT \<noteq> 0)"
| "is_interned (HS_View _ f) = (f AND INTERNED_BIT \<noteq> 0)"

primrec mark_interned :: "heap_str \<Rightarrow> heap_str" where
  "mark_interned (HS_Shared s f) = HS_Shared s (f OR INTERNED_BIT)"
| "mark_interned (HS_Ext s f) = HS_Ext s (f OR INTERNED_BIT)"
| "mark_interned (HS_Inline s f) = HS_Inline s (f OR INTERNED_BIT)"
| "mark_interned (HS_View s f) = HS_View s (f OR INTERNED_BIT)"

definition str_shared :: "u8 list \<Rightarrow> heap_str" where
  "str_shared s = HS_Shared s (if list_all (\<lambda>b. b < 0x80) s then 1 else 2)"

text \<open>
  \<open>HO_Instance\<close> is a cell of kind \<open>CELL_KIND_INSTANCE\<close>, with the references of its payload and
  its class; the other constructors are those of \<open>HeapObj\<close>.
\<close>

datatype heap_obj =
    HO_Str heap_str
  | HO_Array array_repr
  | HO_Tuple array_repr
  | HO_Object "vm_value list" "nat option"
  | HO_Buffer
  | HO_Module "vm_value list"
  | HO_FrozenModule
  | HO_VmClosure nat "vm_value list" "vm_value list"
  | HO_Class nat "vm_value list" "nat option"
  | HO_NativeFn
  | HO_BoundMethod vm_value "vm_value option"
  | HO_Map "(vm_value \<times> vm_value) list"
  | HO_Set "vm_value list"
  | HO_Task nat
  | HO_TaskHandle nat
  | HO_Range
  | HO_EnumVariant "vm_value list"
  | HO_BigInt int
  | HO_Decimal dec
  | HO_Char "32 word"
  | HO_Generator nat "vm_value list"
  | HO_Spread vm_value
  | HO_Instance "vm_value list" "nat option"

datatype reach = Reach_Minor | Reach_Major

record gc_heap =
  hp_gc :: gc_headers
  hp_refs :: "u64 list"
  hp_obj :: "u64 \<Rightarrow> heap_obj"
  hp_born :: "u64 list"
  hp_scan_roots :: "u64 list"
  hp_tasks :: "nat \<Rightarrow> vm_value list"
  hp_lazies :: "nat \<Rightarrow> vm_value list"
  hp_young_cells :: "nat list"
  hp_young_lazies :: "nat list"
  hp_identity :: "nat \<Rightarrow> u64 option"
  hp_strings :: "u8 list \<Rightarrow> u64 option"
  hp_chars :: "32 word \<Rightarrow> u64 option"
  hp_bigints :: "int \<Rightarrow> u64 option"
  hp_decimals :: "dec \<Rightarrow> u64 option"
  hp_native :: bool
  hp_native_roots :: "u64 list"
  hp_births :: nat
  hp_growth :: nat
  hp_survivors :: nat
  hp_young_limit :: nat
  hp_retired :: nat
  hp_promoted :: nat
  hp_minor_count :: nat
  hp_collections :: nat
  hp_freed :: nat
  hp_floor :: nat
  hp_threshold :: nat

definition refs_of :: "vm_value list \<Rightarrow> u64 list" where
  "refs_of vs = map as_heap (filter is_heap vs)"

fun obj_values :: "gc_heap \<Rightarrow> reach \<Rightarrow> heap_obj \<Rightarrow> vm_value list" where
  "obj_values h reach (HO_Module exports) = exports"
| "obj_values h Reach_Minor (HO_Array a) = fst (scan_dirty a)"
| "obj_values h Reach_Minor (HO_Tuple a) = fst (scan_dirty a)"
| "obj_values h Reach_Major (HO_Array a) = (case as_boxed a of None \<Rightarrow> [] | Some items \<Rightarrow> items)"
| "obj_values h Reach_Major (HO_Tuple a) = (case as_boxed a of None \<Rightarrow> [] | Some items \<Rightarrow> items)"
| "obj_values h reach (HO_Object vs _) = vs"
| "obj_values h reach (HO_VmClosure _ upvals consts) = upvals @ consts"
| "obj_values h reach (HO_Class _ vs _) = vs"
| "obj_values h reach (HO_Map m) = concat (map (\<lambda>(k, v). [k, v]) m)"
| "obj_values h reach (HO_Set s) = s"
| "obj_values h reach (HO_BoundMethod receiver target) =
     receiver # (case target of None \<Rightarrow> [] | Some closure \<Rightarrow> [closure])"
| "obj_values h reach (HO_Spread v) = [v]"
| "obj_values h reach (HO_EnumVariant slots) = slots"
| "obj_values h reach (HO_Task l) = hp_lazies h l"
| "obj_values h reach (HO_TaskHandle c) = hp_tasks h c"
| "obj_values h reach (HO_Generator _ vs) = vs"
| "obj_values h reach (HO_Instance rs _) = rs"
| "obj_values h reach _ = []"

fun obj_class :: "heap_obj \<Rightarrow> nat option" where
  "obj_class (HO_Object _ cls) = cls"
| "obj_class (HO_Class _ _ parent) = parent"
| "obj_class (HO_Instance _ cls) = cls"
| "obj_class _ = None"

definition class_child :: "gc_heap \<Rightarrow> heap_obj \<Rightarrow> u64 list" where
  "class_child h o1 =
     (case obj_class o1 of None \<Rightarrow> []
      | Some cls \<Rightarrow> (case hp_identity h cls of None \<Rightarrow> [] | Some r \<Rightarrow> [r]))"

text \<open>\<open>for_each_child\<close>: the references it hands to the callback, and the object it leaves.\<close>

definition children :: "gc_heap \<Rightarrow> reach \<Rightarrow> heap_obj \<Rightarrow> u64 list" where
  "children h reach o1 = refs_of (obj_values h reach o1) @ class_child h o1"

fun scanned :: "heap_obj \<Rightarrow> heap_obj" where
  "scanned (HO_Array a) = HO_Array (snd (scan_dirty a))"
| "scanned (HO_Tuple a) = HO_Tuple (snd (scan_dirty a))"
| "scanned o1 = o1"

fun identity_key :: "heap_obj \<Rightarrow> nat option" where
  "identity_key (HO_Class k _ _) = Some k"
| "identity_key (HO_Generator k _) = Some k"
| "identity_key (HO_VmClosure k _ _) = Some k"
| "identity_key _ = None"

fun needs_minor_scan :: "heap_obj \<Rightarrow> bool" where
  "needs_minor_scan (HO_VmClosure _ _ _) = True"
| "needs_minor_scan (HO_BoundMethod _ _) = True"
| "needs_minor_scan (HO_Class _ _ _) = True"
| "needs_minor_scan (HO_Module _) = True"
| "needs_minor_scan (HO_Generator _ _) = True"
| "needs_minor_scan _ = False"

fun born_old :: "heap_obj \<Rightarrow> bool" where
  "born_old (HO_Class _ _ _) = True"
| "born_old (HO_Module _) = True"
| "born_old HO_FrozenModule = True"
| "born_old HO_NativeFn = True"
| "born_old (HO_Generator _ _) = True"
| "born_old (HO_Task _) = True"
| "born_old (HO_TaskHandle _) = True"
| "born_old _ = False"

fun is_instance :: "heap_obj \<Rightarrow> bool" where
  "is_instance (HO_Instance _ _) = True"
| "is_instance _ = False"

section \<open>Births\<close>

definition take_cell :: "u64 \<Rightarrow> heap_obj \<Rightarrow> slot_state \<Rightarrow> gc_heap \<Rightarrow> gc_heap" where
  "take_cell r o1 st h =
     h\<lparr>hp_gc := set_state r st (hp_gc h),
       hp_refs := (if r \<in> set (hp_refs h) then hp_refs h else hp_refs h @ [r]),
       hp_obj := (hp_obj h)(r := o1),
       hp_births := hp_births h + (if st = Old then 1 else 0),
       hp_growth := hp_growth h + (if st = Old then 1 else 0),
       hp_native_roots := hp_native_roots h @ (if hp_native h then [r] else [])\<rparr>"

definition track_scan :: "u64 \<Rightarrow> heap_obj \<Rightarrow> gc_heap \<Rightarrow> gc_heap" where
  "track_scan r o1 h =
     h\<lparr>hp_scan_roots := hp_scan_roots h @ (if needs_minor_scan o1 then [r] else []),
       hp_identity := (case identity_key o1 of None \<Rightarrow> hp_identity h | Some k \<Rightarrow> (hp_identity h)(k \<mapsto> r))\<rparr>"

definition alloc_old :: "u64 \<Rightarrow> heap_obj \<Rightarrow> gc_heap \<Rightarrow> gc_heap" where
  "alloc_old r o1 h = track_scan r o1 (take_cell r o1 Old h)"

definition gc_alloc :: "u64 \<Rightarrow> heap_obj \<Rightarrow> gc_heap \<Rightarrow> gc_heap" where
  "gc_alloc r o1 h =
     (if born_old o1 then alloc_old r o1 h
      else let h' = take_cell r o1 Young h in h'\<lparr>hp_born := hp_born h' @ [r]\<rparr>)"

definition track_task :: "nat \<Rightarrow> gc_heap \<Rightarrow> gc_heap" where
  "track_task c h =
     (if list_ex (is_young (hp_gc h)) (hp_tasks h c) then h\<lparr>hp_young_cells := hp_young_cells h @ [c]\<rparr> else h)"

definition track_lazy :: "nat \<Rightarrow> gc_heap \<Rightarrow> gc_heap" where
  "track_lazy l h =
     (if list_ex (is_young (hp_gc h)) (hp_lazies h l) then h\<lparr>hp_young_lazies := hp_young_lazies h @ [l]\<rparr> else h)"

definition new_lazy :: "u64 \<Rightarrow> nat \<Rightarrow> vm_value list \<Rightarrow> gc_heap \<Rightarrow> gc_heap" where
  "new_lazy r l vs h = gc_alloc r (HO_Task l) (track_lazy l (h\<lparr>hp_lazies := (hp_lazies h)(l := vs)\<rparr>))"

definition heap_write_barrier :: "u64 \<Rightarrow> vm_value \<Rightarrow> gc_heap \<Rightarrow> gc_heap" where
  "heap_write_barrier r v h = h\<lparr>hp_gc := write_barrier r v (hp_gc h)\<rparr>"

subsection \<open>Native calls\<close>

definition enter_native :: "gc_heap \<Rightarrow> (bool \<times> nat) \<times> gc_heap" where
  "enter_native h = ((hp_native h, length (hp_native_roots h)), h\<lparr>hp_native := True\<rparr>)"

definition exit_native :: "bool \<times> nat \<Rightarrow> gc_heap \<Rightarrow> gc_heap" where
  "exit_native scope h =
     h\<lparr>hp_native := fst scope, hp_native_roots := take (snd scope) (hp_native_roots h)\<rparr>"

definition suspend_native :: "gc_heap \<Rightarrow> bool \<times> gc_heap" where
  "suspend_native h = (hp_native h, h\<lparr>hp_native := False\<rparr>)"

definition resume_native :: "bool \<Rightarrow> u64 option \<Rightarrow> gc_heap \<Rightarrow> gc_heap" where
  "resume_native was_native result h =
     h\<lparr>hp_native := was_native,
       hp_native_roots := hp_native_roots h @
         (case result of Some r \<Rightarrow> if was_native then [r] else [] | None \<Rightarrow> [])\<rparr>"

section \<open>Interning\<close>

definition alloc_str_view :: "u64 \<Rightarrow> heap_str \<Rightarrow> gc_heap \<Rightarrow> vm_value \<times> gc_heap" where
  "alloc_str_view r hs h = (from_heap r, gc_alloc r (HO_Str hs) h)"

definition alloc_str :: "u64 \<Rightarrow> u8 list \<Rightarrow> gc_heap \<Rightarrow> vm_value \<times> gc_heap" where
  "alloc_str r s h =
     (case try_from_sso s of
        Some sso \<Rightarrow> (sso, h)
      | None \<Rightarrow>
          (case hp_strings h s of
             Some idx \<Rightarrow> (from_heap idx, h)
           | None \<Rightarrow> alloc_str_view r (str_shared s) h))"

definition INLINE_STR_CAP :: nat where "INLINE_STR_CAP = 37"

definition str_inline :: "u8 list \<Rightarrow> heap_str" where
  "str_inline s = HS_Inline s (if list_all (\<lambda>b. b < 0x80) s then 1 else 2)"

definition alloc_str_dynamic :: "u64 \<Rightarrow> u8 list \<Rightarrow> gc_heap \<Rightarrow> vm_value \<times> gc_heap" where
  "alloc_str_dynamic r s h =
     (case try_from_sso s of
        Some sso \<Rightarrow> (sso, h)
      | None \<Rightarrow>
          if length s \<le> INLINE_STR_CAP then alloc_str_view r (str_inline s) h
          else alloc_str_view r (str_shared s) h)"

definition alloc_str_interned :: "u64 \<Rightarrow> u8 list \<Rightarrow> gc_heap \<Rightarrow> vm_value \<times> gc_heap" where
  "alloc_str_interned r s h =
     (case try_from_sso s of
        Some sso \<Rightarrow> (sso, h)
      | None \<Rightarrow>
          (case hp_strings h s of
             Some idx \<Rightarrow> (from_heap idx, h)
           | None \<Rightarrow>
               (from_heap r,
                (take_cell r (HO_Str (mark_interned (str_shared s))) Old h)
                  \<lparr>hp_strings := (hp_strings h)(s \<mapsto> r)\<rparr>)))"

definition alloc_char :: "u64 \<Rightarrow> 32 word \<Rightarrow> gc_heap \<Rightarrow> vm_value \<times> gc_heap" where
  "alloc_char r c h =
     (case hp_chars h c of
        Some idx \<Rightarrow> (from_heap idx, h)
      | None \<Rightarrow> (from_heap r, (take_cell r (HO_Char c) Old h)\<lparr>hp_chars := (hp_chars h)(c \<mapsto> r)\<rparr>))"

definition alloc_bigint :: "u64 \<Rightarrow> int \<Rightarrow> gc_heap \<Rightarrow> vm_value \<times> gc_heap" where
  "alloc_bigint r n h =
     (case hp_bigints h n of
        Some idx \<Rightarrow> (from_heap idx, h)
      | None \<Rightarrow> (from_heap r, (take_cell r (HO_BigInt n) Old h)\<lparr>hp_bigints := (hp_bigints h)(n \<mapsto> r)\<rparr>))"

definition intern_decimal :: "u64 \<Rightarrow> dec \<Rightarrow> gc_heap \<Rightarrow> vm_value \<times> gc_heap" where
  "intern_decimal r d h =
     (case hp_decimals h d of
        Some idx \<Rightarrow> (from_heap idx, h)
      | None \<Rightarrow> (from_heap r, (take_cell r (HO_Decimal d) Old h)\<lparr>hp_decimals := (hp_decimals h)(d \<mapsto> r)\<rparr>))"

definition lookup_str_map_key :: "gc_heap \<Rightarrow> u8 list \<Rightarrow> vm_value option" where
  "lookup_str_map_key h s =
     (case try_from_sso s of Some sso \<Rightarrow> Some sso | None \<Rightarrow> map_option from_heap (hp_strings h s))"

definition lookup_map_key :: "gc_heap \<Rightarrow> vm_value \<Rightarrow> vm_value option" where
  "lookup_map_key h v =
     (if is_f64 v then Some (if f_eq (as_f64 v) 0 then from_f64 0 else v)
      else if \<not> is_heap v then Some v
      else (case hp_obj h (as_heap v) of
              HO_Str s \<Rightarrow> if is_interned s then Some v else lookup_str_map_key h (hs_bytes s)
            | HO_Char c \<Rightarrow> map_option from_heap (hp_chars h c)
            | HO_BigInt b \<Rightarrow> map_option from_heap (hp_bigints h b)
            | HO_Decimal d \<Rightarrow> map_option from_heap (hp_decimals h d)
            | _ \<Rightarrow> Some v))"

fun was_shared :: "heap_str \<Rightarrow> bool" where
  "was_shared (HS_Shared _ _) = True"
| "was_shared _ = False"

definition canonical_map_key :: "u64 \<Rightarrow> vm_value \<Rightarrow> gc_heap \<Rightarrow> vm_value \<times> gc_heap" where
  "canonical_map_key r v h =
     (if is_f64 v then (if f_eq (as_f64 v) 0 then from_f64 0 else v, h)
      else if \<not> is_heap v then (v, h)
      else (case hp_obj h (as_heap v) of
              HO_Str s \<Rightarrow>
                if is_interned s then (v, h)
                else (case lookup_str_map_key h (hs_bytes s) of
                        Some k \<Rightarrow> (k, h)
                      | None \<Rightarrow>
                          if was_shared s
                          then (v, h\<lparr>hp_obj := (hp_obj h)(as_heap v := HO_Str (mark_interned s)),
                                     hp_strings := (hp_strings h)(hs_bytes s \<mapsto> as_heap v)\<rparr>)
                          else alloc_str_interned r (hs_bytes s) h)
            | HO_Char c \<Rightarrow> alloc_char r c h
            | HO_BigInt b \<Rightarrow> alloc_bigint r b h
            | HO_Decimal d \<Rightarrow> intern_decimal r d h
            | _ \<Rightarrow> (v, h)))"

section \<open>Minor collection\<close>

definition mark_young :: "u64 \<Rightarrow> gc_headers \<times> u64 list \<Rightarrow> gc_headers \<times> u64 list" where
  "mark_young r gw =
     (case gw of (g, work) \<Rightarrow>
        if gh_state g r = slot_as_u8 Young then (set_state r Marked g, r # work) else (g, work))"

text \<open>The worklist is a vector that is pushed and popped at its end, here the head.\<close>

definition mark_all :: "u64 list \<Rightarrow> gc_heap \<times> u64 list \<Rightarrow> gc_heap \<times> u64 list" where
  "mark_all rs hw =
     (case hw of (h, work) \<Rightarrow>
        let (g, work') = fold mark_young rs (hp_gc h, work) in (h\<lparr>hp_gc := g\<rparr>, work'))"

definition mark_children :: "u64 \<Rightarrow> gc_heap \<times> u64 list \<Rightarrow> gc_heap \<times> u64 list" where
  "mark_children r hw =
     (case hw of (h, work) \<Rightarrow>
        mark_all (children h Reach_Minor (hp_obj h r))
          (h\<lparr>hp_obj := (hp_obj h)(r := scanned (hp_obj h r))\<rparr>, work))"

definition scan_remembered :: "u64 \<Rightarrow> gc_heap \<times> u64 list \<Rightarrow> gc_heap \<times> u64 list" where
  "scan_remembered r hw =
     (case hw of (h, work) \<Rightarrow>
        mark_children r
          (if state_of (hp_gc h) r = Remembered then h\<lparr>hp_gc := set_state r Old (hp_gc h)\<rparr> else h, work))"

definition young_count :: "gc_headers \<Rightarrow> nat" where
  "young_count g = card {r. gh_state g r = slot_as_u8 Young}"

lemma mark_young_count:
  "2 * young_count (fst (mark_young r gw)) + length (snd (mark_young r gw)) \<le>
   2 * young_count (fst gw) + length (snd gw)"
proof (cases "gh_state (fst gw) r = slot_as_u8 Young")
  case True
  have "{q. gh_state (set_state r Marked (fst gw)) q = slot_as_u8 Young} =
      {q. gh_state (fst gw) q = slot_as_u8 Young} - {r}"
    by (auto simp: set_state_def)
  then have "young_count (set_state r Marked (fst gw)) = young_count (fst gw) - 1"
    using True by (simp add: young_count_def)
  moreover have "0 < young_count (fst gw)"
    using True by (auto simp: young_count_def card_gt_0_iff)
  ultimately show ?thesis using True by (cases gw) (simp add: mark_young_def)
qed (cases gw; simp add: mark_young_def)

lemma mark_fold_count:
  "2 * young_count (fst (fold mark_young rs gw)) + length (snd (fold mark_young rs gw)) \<le>
   2 * young_count (fst gw) + length (snd gw)"
proof (induction rs arbitrary: gw)
  case (Cons r rs)
  from Cons [of "mark_young r gw"] mark_young_count [of r gw] show ?case by simp
qed simp

function minor_loop :: "gc_heap \<times> u64 list \<Rightarrow> gc_heap" where
  "minor_loop (h, []) = h"
| "minor_loop (h, r # work) = minor_loop (mark_children r (h, work))"
  by pat_completeness auto
termination
proof (relation "measure (\<lambda>(h, work). 2 * young_count (hp_gc h) + length work)")
  fix h r work
  show "(mark_children r (h, work), h, r # work)
      \<in> measure (\<lambda>(h, work). 2 * young_count (hp_gc h) + length work)"
    using mark_fold_count [of "children h Reach_Minor (hp_obj h r)" "(hp_gc h, work)"]
    by (auto simp: mark_children_def mark_all_def split: prod.splits)
qed simp

definition promote :: "u64 \<Rightarrow> gc_heap \<Rightarrow> gc_heap" where
  "promote r h = h\<lparr>hp_gc := set_state r Old (hp_gc h), hp_growth := hp_growth h + 1\<rparr>"

definition release :: "u64 \<Rightarrow> gc_heap \<Rightarrow> gc_heap" where
  "release r h = h\<lparr>hp_gc := set_state r Free (hp_gc h)\<rparr>"

definition sweep_one :: "u64 \<Rightarrow> gc_heap \<Rightarrow> gc_heap" where
  "sweep_one r h =
     (case state_of (hp_gc h) r of
        Marked \<Rightarrow>
          let h1 = promote r h; h2 = h1\<lparr>hp_promoted := hp_promoted h1 + 1\<rparr>
          in if is_instance (hp_obj h r) then h2 else track_scan r (hp_obj h r) h2
      | Young \<Rightarrow> release r h
      | _ \<Rightarrow> h)"

definition sweep_young :: "gc_heap \<Rightarrow> gc_heap" where
  "sweep_young h =
     (let h' = fold sweep_one (hp_born h) h
      in h'\<lparr>hp_retired := hp_retired h' + length (hp_born h), hp_born := []\<rparr>)"

text \<open>The marking phases before the loop.\<close>

definition minor_marks :: "u64 list \<Rightarrow> gc_heap \<Rightarrow> gc_heap \<times> u64 list" where
  "minor_marks roots h0 =
     (let h = h0\<lparr>hp_minor_count := hp_minor_count h0 + 1\<rparr>;
          hw1 = mark_all roots (h, []);
          hw2 = fold scan_remembered (gh_remembered (hp_gc h)) hw1;
          hw3 = (fst hw2\<lparr>hp_gc := (hp_gc (fst hw2))\<lparr>gh_remembered := []\<rparr>\<rparr>, snd hw2);
          hw4 = fold mark_children (hp_scan_roots h) hw3;
          hw5 = fold (\<lambda>c. mark_all (refs_of (hp_tasks h c))) (hp_young_cells h) hw4;
          hw6 = fold (\<lambda>l. mark_all (refs_of (hp_lazies h l))) (hp_young_lazies h) hw5
      in (fst hw6\<lparr>hp_young_cells := [], hp_young_lazies := []\<rparr>, snd hw6))"

definition minor_gc :: "u64 list \<Rightarrow> gc_heap \<Rightarrow> gc_heap" where
  "minor_gc roots h = sweep_young (minor_loop (minor_marks roots h))"

section \<open>Major collection\<close>

definition mark_major :: "u64 \<Rightarrow> gc_headers \<Rightarrow> bool \<times> gc_headers" where
  "mark_major r g =
     (if gh_state g r = slot_as_u8 Free \<or> gh_state g r AND MAJOR_MARK \<noteq> 0 then (False, g)
      else (True, g\<lparr>gh_state := (gh_state g)(r := gh_state g r OR MAJOR_MARK)\<rparr>))"

definition push_major :: "u64 \<Rightarrow> gc_headers \<times> u64 list \<Rightarrow> gc_headers \<times> u64 list" where
  "push_major r gw =
     (case gw of (g, work) \<Rightarrow>
        let (fresh, g') = mark_major r g in (g', if fresh then r # work else work))"

definition unmarked :: "gc_headers \<Rightarrow> u64 \<Rightarrow> bool" where
  "unmarked g r \<longleftrightarrow> gh_state g r \<noteq> slot_as_u8 Free \<and> gh_state g r AND MAJOR_MARK = 0"

lemma major_mark_nonzero [simp]: "MAJOR_MARK \<noteq> 0"
  by (simp add: MAJOR_MARK_def)

lemma push_major_count:
  "2 * card {q. unmarked (fst (push_major r gw)) q} + length (snd (push_major r gw)) \<le>
   2 * card {q. unmarked (fst gw) q} + length (snd gw)"
proof (cases "unmarked (fst gw) r")
  case True
  have "{q. unmarked (fst (push_major r gw)) q} = {q. unmarked (fst gw) q} - {r}"
    using True by (cases gw) (auto simp: push_major_def mark_major_def unmarked_def)
  moreover have "0 < card {q. unmarked (fst gw) q}" using True by (auto simp: card_gt_0_iff)
  ultimately show ?thesis
    using True by (cases gw) (auto simp: push_major_def mark_major_def unmarked_def)
qed (cases gw; auto simp: push_major_def mark_major_def unmarked_def)

lemma push_fold_count:
  "2 * card {q. unmarked (fst (fold push_major rs gw)) q} + length (snd (fold push_major rs gw)) \<le>
   2 * card {q. unmarked (fst gw) q} + length (snd gw)"
proof (induction rs arbitrary: gw)
  case (Cons r rs)
  from Cons [of "push_major r gw"] push_major_count [of r gw] show ?case by simp
qed simp

function major_loop :: "(u64 \<Rightarrow> u64 list) \<Rightarrow> gc_headers \<times> u64 list \<Rightarrow> gc_headers" where
  "major_loop kids (g, []) = g"
| "major_loop kids (g, r # work) = major_loop kids (fold push_major (kids r) (g, work))"
  by pat_completeness auto
termination
proof (relation "measure (\<lambda>(kids, g, work). 2 * card {q. unmarked g q} + length work)")
  fix kids :: "u64 \<Rightarrow> u64 list" and g r and work :: "u64 list"
  show "((kids, fold push_major (kids r) (g, work)), kids, g, r # work)
      \<in> measure (\<lambda>(kids, g, work). 2 * card {q. unmarked g q} + length work)"
    using push_fold_count [of "kids r" "(g, work)"] by (simp add: split_beta)
qed simp

definition live_refs :: "gc_heap \<Rightarrow> u64 list" where
  "live_refs h = filter (\<lambda>r. gh_state (hp_gc h) r \<noteq> slot_as_u8 Free) (hp_refs h)"

definition sweep_major :: "gc_heap \<Rightarrow> nat \<times> gc_heap" where
  "sweep_major h =
     (let marked = (\<lambda>r. gh_state (hp_gc h) r AND MAJOR_MARK \<noteq> 0);
          kept = filter marked (live_refs h);
          dead = filter (Not \<circ> marked) (live_refs h);
          h1 = h\<lparr>hp_gc := fold (\<lambda>r. set_state r Old) kept (hp_gc h), hp_survivors := length kept\<rparr>
      in (length dead, fold release dead h1))"

definition mark_and_sweep :: "u64 list \<Rightarrow> gc_heap \<Rightarrow> nat \<times> gc_heap" where
  "mark_and_sweep roots h =
     (let gw = fold push_major roots (hp_gc h, []);
          g = major_loop (\<lambda>r. children h Reach_Major (hp_obj h r)) gw
      in sweep_major (h\<lparr>hp_gc := g\<rparr>))"

definition retain_live :: "gc_heap \<Rightarrow> ('k \<Rightarrow> u64 option) \<Rightarrow> 'k \<Rightarrow> u64 option" where
  "retain_live h m k =
     (case m k of None \<Rightarrow> None | Some r \<Rightarrow> if state_of (hp_gc h) r \<noteq> Free then Some r else None)"

definition compact_interners :: "gc_heap \<Rightarrow> gc_heap" where
  "compact_interners h =
     h\<lparr>hp_strings := retain_live h (hp_strings h), hp_chars := retain_live h (hp_chars h),
       hp_bigints := retain_live h (hp_bigints h), hp_decimals := retain_live h (hp_decimals h),
       hp_identity := retain_live h (hp_identity h)\<rparr>"

definition rebuild_scan_roots :: "gc_heap \<Rightarrow> gc_heap" where
  "rebuild_scan_roots h =
     h\<lparr>hp_scan_roots := filter (\<lambda>r. \<not> is_instance (hp_obj h r) \<and> needs_minor_scan (hp_obj h r)) (live_refs h)\<rparr>"

definition collect :: "u64 list \<Rightarrow> gc_heap \<Rightarrow> nat \<times> gc_heap" where
  "collect roots h =
     (let (freed, h1) = mark_and_sweep roots h;
          h2 = h1\<lparr>hp_retired := hp_retired h1 + length (hp_born h1), hp_born := [],
                  hp_gc := (hp_gc h1)\<lparr>gh_remembered := []\<rparr>, hp_young_cells := [], hp_young_lazies := []\<rparr>;
          h3 = rebuild_scan_roots (compact_interners h2)
      in (freed,
          h3\<lparr>hp_collections := hp_collections h3 + 1, hp_freed := hp_freed h3 + freed, hp_growth := 0,
             hp_threshold := max (hp_survivors h3 * 2) (hp_floor h3)\<rparr>))"

definition needs_minor_gc :: "gc_heap \<Rightarrow> bool" where
  "needs_minor_gc h \<longleftrightarrow> hp_young_limit h \<le> length (hp_born h)"

definition needs_gc :: "gc_heap \<Rightarrow> bool" where
  "needs_gc h \<longleftrightarrow> hp_threshold h \<le> hp_growth h"

definition alloc_count :: "gc_heap \<Rightarrow> nat" where
  "alloc_count h = hp_retired h + length (hp_born h) + hp_births h"

text \<open>\<open>gc_backedge_safepoint\<close>: the roots are those of the execution context and the native roots.\<close>

definition gc_safepoint :: "u64 list \<Rightarrow> gc_heap \<Rightarrow> gc_heap" where
  "gc_safepoint roots h =
     (let h1 = (if needs_minor_gc h then minor_gc (roots @ hp_native_roots h) h else h)
      in if needs_gc h1 then snd (collect (roots @ hp_native_roots h1) h1) else h1)"

end
