(* ===== verification/Gc_Inv.thy ===== *)
theory Gc_Inv
  imports Gc_Heap
begin

text \<open>
  The invariant of the heap between collections: no live object refers to a freed cell, and every
  older object that refers to a young one is among those a minor collection starts from. The
  references of an object are those a major collection follows.
\<close>

abbreviation hbyte :: "gc_heap \<Rightarrow> u64 \<Rightarrow> u8" where
  "hbyte h r \<equiv> gh_state (hp_gc h) r"

abbreviation live :: "gc_heap \<Rightarrow> u64 \<Rightarrow> bool" where
  "live h r \<equiv> hbyte h r \<noteq> 0"

abbreviation young :: "gc_heap \<Rightarrow> u64 \<Rightarrow> bool" where
  "young h r \<equiv> hbyte h r = 3"

definition kids :: "gc_heap \<Rightarrow> u64 \<Rightarrow> u64 set" where
  "kids h r = set (children h Reach_Major (hp_obj h r))"

inductive reaches :: "gc_heap \<Rightarrow> u64 list \<Rightarrow> u64 \<Rightarrow> bool" for h roots where
  Root: "r \<in> set roots \<Longrightarrow> reaches h roots r"
| Kid: "reaches h roots r \<Longrightarrow> c \<in> kids h r \<Longrightarrow> reaches h roots c"

definition tracked :: "gc_heap \<Rightarrow> heap_obj \<Rightarrow> bool" where
  "tracked h o1 \<longleftrightarrow>
     (\<exists>c. o1 = HO_TaskHandle c \<and> c \<in> set (hp_young_cells h)) \<or>
     (\<exists>l. o1 = HO_Task l \<and> l \<in> set (hp_young_lazies h))"

definition arr_clean :: "vm_value set \<Rightarrow> heap_obj \<Rightarrow> bool" where
  "arr_clean S o1 \<longleftrightarrow> (\<forall>a. o1 = HO_Array a \<or> o1 = HO_Tuple a \<longrightarrow> clean_within S a)"

definition not_young :: "gc_heap \<Rightarrow> vm_value set" where
  "not_young h = {v. is_heap v \<longrightarrow> \<not> young h (as_heap v)}"

text \<open>The part of the invariant that speaks of headers, and the part that speaks of references.\<close>

definition headers_ok :: "gc_heap \<Rightarrow> bool" where
  "headers_ok h \<longleftrightarrow>
     (\<forall>r. hbyte h r \<in> {0, 1, 2, 3}) \<and>
     (\<forall>r. live h r \<longrightarrow> r \<in> set (hp_refs h)) \<and>
     (\<forall>r. young h r \<longrightarrow> r \<in> set (hp_born h)) \<and>
     (\<forall>r. hbyte h r = 2 \<longrightarrow> r \<in> set (gh_remembered (hp_gc h))) \<and>
     (\<forall>r \<in> set (hp_native_roots h). live h r) \<and>
     (\<forall>k r. hp_identity h k = Some r \<longrightarrow> live h r \<and> \<not> young h r) \<and>
     (\<forall>r. live h r \<and> \<not> young h r \<and> needs_minor_scan (hp_obj h r) \<longrightarrow> r \<in> set (hp_scan_roots h))"

definition visited :: "gc_heap \<Rightarrow> u64 \<Rightarrow> bool" where
  "visited h r \<longleftrightarrow>
     r \<in> set (gh_remembered (hp_gc h)) \<or> r \<in> set (hp_scan_roots h) \<or> tracked h (hp_obj h r)"

definition edges_ok :: "gc_heap \<Rightarrow> bool" where
  "edges_ok h \<longleftrightarrow>
     (\<forall>r c. live h r \<longrightarrow> c \<in> kids h r \<longrightarrow> live h c) \<and>
     (\<forall>r c. live h r \<longrightarrow> \<not> young h r \<longrightarrow> c \<in> kids h r \<longrightarrow> young h c \<longrightarrow> visited h r) \<and>
     (\<forall>r. live h r \<longrightarrow> arr_clean (not_young h) (hp_obj h r))"

definition heap_ok :: "gc_heap \<Rightarrow> bool" where
  "heap_ok h \<longleftrightarrow> headers_ok h \<and> edges_ok h"

section \<open>Lemmas on references\<close>

lemma refs_of_iff: "c \<in> set (refs_of vs) \<longleftrightarrow> (\<exists>v \<in> set vs. is_heap v \<and> as_heap v = c)"
  by (auto simp: refs_of_def)

lemma refs_of_append [simp]: "refs_of (xs @ ys) = refs_of xs @ refs_of ys"
  by (simp add: refs_of_def)

lemma class_child_identity: "c \<in> set (class_child h o1) \<Longrightarrow> \<exists>k. hp_identity h k = Some c"
  by (auto simp: class_child_def split: option.splits)

lemma class_child_iff:
  "c \<in> set (class_child h o1) \<longleftrightarrow> (\<exists>k. obj_class o1 = Some k \<and> hp_identity h k = Some c)"
  by (cases "obj_class o1") (auto simp: class_child_def split: option.split)

lemma kids_iff:
  "c \<in> kids h r \<longleftrightarrow>
   c \<in> set (refs_of (obj_values h Reach_Major (hp_obj h r))) \<or> c \<in> set (class_child h (hp_obj h r))"
  by (auto simp: kids_def children_def)

lemma scan_twice [simp]: "snd (scan_dirty (snd (scan_dirty a))) = snd (scan_dirty a)"
  by (cases a) (simp_all add: Let_def)

lemma scanned_twice [simp]: "scanned (scanned o1) = scanned o1"
  by (cases o1) simp_all

lemma as_boxed_scan [simp]: "as_boxed (snd (scan_dirty a)) = as_boxed a"
  by (cases a) (simp_all add: Let_def)

lemma children_scanned [simp]:
  "children h Reach_Major (scanned o1) = children h Reach_Major o1"
  by (cases o1) (simp_all add: children_def class_child_def)

lemma identity_key_scanned [simp]: "identity_key (scanned o1) = identity_key o1"
  and needs_scan_scanned [simp]: "needs_minor_scan (scanned o1) = needs_minor_scan o1"
  and is_instance_scanned [simp]: "is_instance (scanned o1) = is_instance o1"
  and tracked_scanned [simp]: "tracked h (scanned o1) = tracked h o1"
  by (cases o1; simp add: tracked_def)+

lemma obj_values_cong:
  "hp_tasks h' = hp_tasks h \<Longrightarrow> hp_lazies h' = hp_lazies h \<Longrightarrow> obj_values h' reach o1 = obj_values h reach o1"
  by (cases o1; cases reach; simp)

lemma children_cong:
  assumes "hp_tasks h' = hp_tasks h" "hp_lazies h' = hp_lazies h" "hp_identity h' = hp_identity h"
  shows "children h' reach o1 = children h reach o1"
  by (cases "obj_class o1") (simp_all add: children_def class_child_def assms obj_values_cong [OF assms(1,2)])

text \<open>What a minor scan leaves out of an object's references lies in a clean prefix.\<close>

lemma children_minor:
  assumes "arr_clean (not_young h) o1" "c \<in> set (children h Reach_Major o1)" "young h c"
  shows "c \<in> set (children h Reach_Minor o1)"
proof -
  have "c \<in> set (refs_of (fst (scan_dirty a)))"
    if "clean_within (not_young h) a" "c \<in> set (refs_of (case as_boxed a of None \<Rightarrow> [] | Some vs \<Rightarrow> vs))" for a
  proof (cases "as_boxed a")
    case (Some vs)
    with that obtain v where "v \<in> set vs" "is_heap v" "as_heap v = c" by (auto simp: refs_of_iff)
    moreover from this assms(3) have "v \<notin> not_young h" by (auto simp: not_young_def)
    ultimately show ?thesis using clean_within_scan [OF that(1) Some] by (auto simp: refs_of_iff)
  qed (use that in \<open>simp add: refs_of_def\<close>)
  with assms(1,2) show ?thesis
    by (cases o1) (auto simp: children_def class_child_def arr_clean_def)
qed

lemma clean_within_mono: "clean_within S a \<Longrightarrow> S \<subseteq> S' \<Longrightarrow> clean_within S' a"
  by (cases a) auto

lemma arr_clean_mono: "arr_clean S o1 \<Longrightarrow> S \<subseteq> S' \<Longrightarrow> arr_clean S' o1"
  by (auto simp: arr_clean_def intro: clean_within_mono)

lemma arr_clean_scanned: "arr_clean UNIV (scanned o1)"
  using clean_within_mono [OF scan_dirty_clean subset_UNIV] by (cases o1) (auto simp: arr_clean_def)

lemma heap_slot_bytes [simp]:
  "slot_from_byte 0 = Free" "slot_from_byte 1 = Old" "slot_from_byte 2 = Remembered"
  "slot_from_byte 3 = Young" "slot_from_byte 4 = Marked"
  by (simp_all add: slot_from_byte_def MAJOR_MARK_def)

lemma set_state_byte [simp]: "gh_state (set_state r st g) q = (if q = r then slot_as_u8 st else gh_state g q)"
  by (simp add: set_state_def)

lemma set_state_remembered [simp]: "gh_remembered (set_state r st g) = gh_remembered g"
  by (simp add: set_state_def)

section \<open>Minor marking\<close>

text \<open>
  What holds while a minor collection marks, from the heap \<open>h0\<close> on: \<open>X\<close> are objects being
  scanned, \<open>W\<close> those still to be scanned.
\<close>

definition same_rest :: "gc_heap \<Rightarrow> gc_heap \<Rightarrow> bool" where
  "same_rest h0 h \<longleftrightarrow>
     hp_refs h = hp_refs h0 \<and> hp_born h = hp_born h0 \<and> hp_scan_roots h = hp_scan_roots h0 \<and>
     hp_tasks h = hp_tasks h0 \<and> hp_lazies h = hp_lazies h0 \<and> hp_identity h = hp_identity h0 \<and>
     hp_native_roots h = hp_native_roots h0"

definition byte_step :: "u8 \<Rightarrow> u8 \<Rightarrow> bool" where
  "byte_step b0 b \<longleftrightarrow> b = b0 \<or> b0 = 3 \<and> b = 4 \<or> b0 = 2 \<and> b = 1"

definition clean :: "gc_heap \<Rightarrow> gc_heap \<Rightarrow> u64 \<Rightarrow> bool" where
  "clean h0 h r \<longleftrightarrow> (\<forall>c \<in> kids h0 r. \<not> young h c)"

definition marking :: "gc_heap \<Rightarrow> gc_heap \<Rightarrow> u64 set \<Rightarrow> u64 set \<Rightarrow> bool" where
  "marking h0 h X W \<longleftrightarrow>
     same_rest h0 h \<and> (\<forall>r. byte_step (hbyte h0 r) (hbyte h r)) \<and>
     (\<forall>r. hp_obj h r = hp_obj h0 r \<or> hp_obj h r = scanned (hp_obj h0 r)) \<and>
     (\<forall>r c. live h0 r \<longrightarrow> r \<notin> X \<longrightarrow> c \<in> kids h0 r \<longrightarrow> young h c \<longrightarrow>
        c \<in> set (children h Reach_Minor (hp_obj h r))) \<and>
     (\<forall>r. hbyte h r = 4 \<longrightarrow> r \<notin> X \<union> W \<longrightarrow> clean h0 h r)"

definition later :: "gc_heap \<Rightarrow> gc_heap \<Rightarrow> bool" where
  "later h h' \<longleftrightarrow>
     (\<forall>r. \<not> young h r \<longrightarrow> \<not> young h' r) \<and> (\<forall>r. hbyte h r \<noteq> 2 \<longrightarrow> hbyte h' r \<noteq> 2)"

lemma later_refl [simp]: "later h h"
  by (simp add: later_def)

lemma later_trans: "later a b \<Longrightarrow> later b c \<Longrightarrow> later a c"
  by (simp add: later_def)

lemma clean_later: "clean h0 h r \<Longrightarrow> later h h' \<Longrightarrow> clean h0 h' r"
  by (auto simp: clean_def later_def)

lemma marking_mono: "marking h0 h X W \<Longrightarrow> W \<subseteq> W' \<Longrightarrow> marking h0 h X W'"
  unfolding marking_def by blast

text \<open>Marking one cell.\<close>

lemma marking_young:
  assumes "marking h0 h X (set work)" "mark_young c (hp_gc h, work) = (g, work')"
  shows "marking h0 (h\<lparr>hp_gc := g\<rparr>) X (set work') \<and> later h (h\<lparr>hp_gc := g\<rparr>) \<and>
    \<not> young (h\<lparr>hp_gc := g\<rparr>) c"
proof (cases "young h c")
  case False
  with assms show ?thesis by (auto simp: mark_young_def)
next
  case True
  let ?h = "h\<lparr>hp_gc := set_state c Marked (hp_gc h)\<rparr>"
  have g: "g = set_state c Marked (hp_gc h)" "work' = c # work"
    using True assms(2) by (simp_all add: mark_young_def)
  have l: "later h ?h" by (simp add: later_def)
  have ch: "children ?h Reach_Minor o1 = children h Reach_Minor o1" for o1 by (rule children_cong) simp_all
  have "marking h0 ?h X (set (c # work))"
    unfolding marking_def
  proof (intro conjI allI impI)
    fix r
    show "byte_step (hbyte h0 r) (hbyte ?h r)"
      using assms(1) True by (cases "r = c") (auto simp: marking_def byte_step_def dest!: spec [of _ c])
    show "clean h0 ?h r" if "hbyte ?h r = 4" "r \<notin> X \<union> set (c # work)"
      using that assms(1) clean_later [OF _ l] by (auto simp: marking_def)
    show "d \<in> set (children ?h Reach_Minor (hp_obj ?h r))"
      if "live h0 r" "r \<notin> X" "d \<in> kids h0 r" "young ?h d" for d
      using that assms(1) by (auto simp: marking_def ch split: if_splits)
  qed (use assms(1) in \<open>auto simp: marking_def same_rest_def\<close>)
  with l show ?thesis by (simp add: g)
qed

lemma marking_all:
  "marking h0 h X (set work) \<Longrightarrow> mark_all rs (h, work) = (h', work') \<Longrightarrow>
   marking h0 h' X (set work') \<and> later h h' \<and> (\<forall>c \<in> set rs. \<not> young h' c)"
proof (induction rs arbitrary: h work)
  case Nil
  then show ?case by (auto simp: mark_all_def)
next
  case (Cons c rs)
  obtain g w where m: "mark_young c (hp_gc h, work) = (g, w)" by fastforce
  note 1 = marking_young [OF Cons(2) m]
  have "mark_all rs (h\<lparr>hp_gc := g\<rparr>, w) = (h', work')"
    using Cons(3) m by (auto simp: mark_all_def split: prod.splits)
  from Cons(1) [OF _ this] 1 have 2: "marking h0 h' X (set work')" "later (h\<lparr>hp_gc := g\<rparr>) h'"
    "\<forall>c \<in> set rs. \<not> young h' c" by auto
  then show ?case using 1 later_trans by (auto simp: later_def)
qed

text \<open>Scanning one object.\<close>

lemma marking_children:
  assumes m: "marking h0 h {} (insert r (set work))" and c: "mark_children r (h, work) = (h', work')"
  shows "marking h0 h' {} (set work') \<and> later h h' \<and> (live h0 r \<longrightarrow> clean h0 h' r)"
proof -
  let ?h = "h\<lparr>hp_obj := (hp_obj h)(r := scanned (hp_obj h r))\<rparr>"
  have ch: "children ?h reach o1 = children h reach o1" for reach o1 by (rule children_cong) simp_all
  have "marking h0 ?h {r} (set work)"
    using m scanned_twice unfolding marking_def same_rest_def ch clean_def by (auto, metis)
  moreover have "mark_all (children h Reach_Minor (hp_obj h r)) (?h, work) = (h', work')"
    using c by (simp add: mark_children_def)
  ultimately have n: "marking h0 h' {r} (set work')" "later ?h h'"
    "\<forall>c \<in> set (children h Reach_Minor (hp_obj h r)). \<not> young h' c" using marking_all by blast+
  have l: "later h h'" using n(2) by (simp add: later_def)
  have k: "clean h0 h' r" if "live h0 r"
  proof -
    have "\<not> young h' c" if "c \<in> kids h0 r" for c
    proof (cases "young h c")
      case True
      with \<open>live h0 r\<close> that m have "c \<in> set (children h Reach_Minor (hp_obj h r))"
        unfolding marking_def by blast
      with n(3) show ?thesis by blast
    qed (use l in \<open>simp add: later_def\<close>)
    then show ?thesis by (simp add: clean_def)
  qed
  have "marking h0 h' {} (set work')"
    unfolding marking_def
  proof (intro conjI allI impI)
    fix q c assume "live h0 q" "c \<in> kids h0 q" "young h' c"
    then show "c \<in> set (children h' Reach_Minor (hp_obj h' q))"
      using n(1) k by (cases "q = r") (auto simp: marking_def clean_def)
  next
    fix q assume q: "hbyte h' q = 4" "q \<notin> {} \<union> set work'"
    have "byte_step (hbyte h0 q) (hbyte h' q)" using n(1) unfolding marking_def by blast
    then have "live h0 q" using q(1) by (auto simp: byte_step_def)
    then show "clean h0 h' q"
      using q n(1) k unfolding marking_def by (cases "q = r") blast+
  qed (use n(1) in \<open>unfold marking_def; blast\<close>)+
  with l k show ?thesis by blast
qed

lemma marking_fold:
  assumes "\<And>x h work h' work'. x \<in> set xs \<Longrightarrow> marking h0 h {} (set work) \<Longrightarrow> f x (h, work) = (h', work') \<Longrightarrow>
      marking h0 h' {} (set work') \<and> later h h' \<and> Q x h'"
    and "\<And>x h h'. Q x h \<Longrightarrow> later h h' \<Longrightarrow> Q x h'"
  shows "marking h0 h {} (set work) \<Longrightarrow> fold f xs (h, work) = (h', work') \<Longrightarrow>
    marking h0 h' {} (set work') \<and> later h h' \<and> (\<forall>x \<in> set xs. Q x h')"
  using assms(1)
proof (induction xs arbitrary: h work)
  case (Cons x xs)
  obtain h1 w1 where f: "f x (h, work) = (h1, w1)" by fastforce
  have 1: "marking h0 h1 {} (set w1) \<and> later h h1 \<and> Q x h1" using Cons(4) [OF _ Cons(2) f] by simp
  have 2: "marking h0 h' {} (set work') \<and> later h1 h' \<and> (\<forall>x \<in> set xs. Q x h')"
  proof (rule Cons(1))
    show "fold f xs (h1, w1) = (h', work')" using Cons(3) f by simp
    show "marking h0 h1 {} (set w1)" using 1 by blast
  qed (rule Cons(4); simp)
  then show ?case using 1 assms(2) later_trans by (metis set_ConsD)
qed simp

lemma marking_loop:
  "marking h0 h {} (set work) \<Longrightarrow>
   marking h0 (minor_loop (h, work)) {} {} \<and> later h (minor_loop (h, work))"
proof (induction "(h, work)" arbitrary: h work rule: minor_loop.induct)
  case (2 h r work)
  obtain h1 w1 where c: "mark_children r (h, work) = (h1, w1)" by fastforce
  have "marking h0 h {} (insert r (set work))" using 2(2) by simp
  note m = marking_children [OF this c]
  from 2(1) [OF c] m show ?case
    using later_trans by (simp add: c) blast
qed simp

end
