(* ===== verification/Gc_Minor.thy ===== *)
theory Gc_Minor
  imports Gc_Inv
begin

text \<open>
  A minor collection keeps the invariant, the roots and all they reach: what is young and not
  marked when the marking ends is referred to by no live object that stays.
\<close>

section \<open>The end of the marking\<close>

lemma marking_start: "heap_ok h \<Longrightarrow> marking h (h\<lparr>hp_minor_count := n\<rparr>) {} {}"
proof -
  assume ok: "heap_ok h"
  have "children (h\<lparr>hp_minor_count := n\<rparr>) Reach_Minor o1 = children h Reach_Minor o1" for o1
    by (rule children_cong) simp_all
  moreover have "hbyte h r \<noteq> 4" for r
    using ok by (auto simp: heap_ok_def headers_ok_def dest!: spec [of _ r])
  ultimately show ?thesis
    using ok children_minor
    by (auto simp: marking_def same_rest_def byte_step_def heap_ok_def edges_ok_def kids_def)
qed

text \<open>Headers change only in what the marking does not look at.\<close>

lemma marking_eq:
  assumes "marking h0 h X W" "same_rest h h'" "hp_obj h' = hp_obj h"
    and "\<And>r. byte_step (hbyte h0 r) (hbyte h' r)" "\<And>r. young h' r = young h r" "\<And>r. hbyte h' r = 4 \<longleftrightarrow> hbyte h r = 4"
  shows "marking h0 h' X W"
proof -
  have "children h' Reach_Minor o1 = children h Reach_Minor o1" for o1
    using assms(2) by (intro children_cong) (simp_all add: same_rest_def)
  then show ?thesis
    using assms unfolding marking_def clean_def same_rest_def by metis
qed

lemma marking_same:
  assumes "marking h0 h X W" "same_rest h h'" "hp_obj h' = hp_obj h" "gh_state (hp_gc h') = gh_state (hp_gc h)"
  shows "marking h0 h' X W \<and> later h h'"
  using assms(1) marking_eq [OF assms(1-3)] assms(4) unfolding marking_def later_def by simp

lemma marking_bytes:
  assumes "marking h0 h X W" "headers_ok h0"
  shows "hbyte h r \<in> {0, 1, 2, 3, 4}" "state_of (hp_gc h) r = Remembered \<longleftrightarrow> hbyte h r = 2"
    "state_of (hp_gc h) r = Marked \<longleftrightarrow> hbyte h r = 4" "state_of (hp_gc h) r = Young \<longleftrightarrow> hbyte h r = 3"
proof -
  have "byte_step (hbyte h0 r) (hbyte h r)" using assms(1) unfolding marking_def by blast
  moreover have "hbyte h0 r \<in> {0, 1, 2, 3}" using assms(2) by (simp add: headers_ok_def)
  ultimately show *: "hbyte h r \<in> {0, 1, 2, 3, 4}" by (auto simp: byte_step_def)
  then show "state_of (hp_gc h) r = Remembered \<longleftrightarrow> hbyte h r = 2"
    "state_of (hp_gc h) r = Marked \<longleftrightarrow> hbyte h r = 4" "state_of (hp_gc h) r = Young \<longleftrightarrow> hbyte h r = 3"
    by (auto simp: state_of_def)
qed

lemma scan_remembered_ok:
  assumes m: "marking h0 h {} (set work)" "headers_ok h0"
    and s: "scan_remembered r (h, work) = (h', work')"
  shows "marking h0 h' {} (set work') \<and> later h h' \<and>
    ((live h0 r \<longrightarrow> clean h0 h' r) \<and> hbyte h' r \<noteq> 2)"
proof -
  define g where "g = (if hbyte h r = 2 then h\<lparr>hp_gc := set_state r Old (hp_gc h)\<rparr> else h)"
  have b: "byte_step (hbyte h0 r) (hbyte h r)" for r using m(1) unfolding marking_def by blast
  have "marking h0 g {} (set work)"
  proof (cases "hbyte h r = 2")
    case True
    with m(1) b [of r] show ?thesis
      using b by (intro marking_eq [OF m(1)]) (auto simp: g_def same_rest_def byte_step_def)
  qed (simp add: g_def m(1))
  then have "marking h0 g {} (insert r (set work))" by (rule marking_mono) auto
  moreover have "mark_children r (g, work) = (h', work')"
    using s marking_bytes(2) [OF m] by (simp add: scan_remembered_def g_def)
  ultimately have "marking h0 h' {} (set work') \<and> later g h' \<and> (live h0 r \<longrightarrow> clean h0 h' r)"
    by (rule marking_children)
  moreover have "later h g" "hbyte g r \<noteq> 2" by (auto simp: g_def later_def)
  ultimately show ?thesis using later_trans by (auto simp: later_def)
qed

text \<open>Where the marking ends: what is not young has no young reference, and no cell is remembered.\<close>

definition marked_ok :: "gc_heap \<Rightarrow> u64 list \<Rightarrow> gc_heap \<Rightarrow> bool" where
  "marked_ok h0 roots h \<longleftrightarrow>
     marking h0 h {} {} \<and> (\<forall>r \<in> set roots. \<not> young h r) \<and>
     (\<forall>r. live h0 r \<longrightarrow> \<not> young h r \<longrightarrow> clean h0 h r) \<and> (\<forall>r. hbyte h r \<noteq> 2) \<and>
     hp_young_cells h = [] \<and> hp_young_lazies h = []"

lemma clean_kept: "live h0 r \<longrightarrow> clean h0 h r \<Longrightarrow> later h h' \<Longrightarrow> live h0 r \<longrightarrow> clean h0 h' r"
  using clean_later by blast

lemma mark_all_fold_ok:
  assumes "marking h0 h {} (set work)" "fold (\<lambda>x. mark_all (F x)) xs (h, work) = (h', work')"
  shows "marking h0 h' {} (set work') \<and> later h h' \<and> (\<forall>x \<in> set xs. \<forall>c \<in> set (F x). \<not> young h' c)"
  by (rule marking_fold [OF _ _ assms]) (auto simp: later_def dest: marking_all)

lemma minor_loop_lists: "hp_young_cells (minor_loop hw) = hp_young_cells (fst hw) \<and>
    hp_young_lazies (minor_loop hw) = hp_young_lazies (fst hw)"
  by (induction hw rule: minor_loop.induct)
     (auto simp: mark_children_def mark_all_def split: prod.splits)

lemma minor_marked:
  assumes ok: "heap_ok h"
  shows "marked_ok h roots (minor_loop (minor_marks roots h))"
proof -
  have hd: "headers_ok h" using ok by (simp add: heap_ok_def)
  let ?h = "h\<lparr>hp_minor_count := hp_minor_count h + 1\<rparr>"
  obtain h1 w1 where 1: "mark_all roots (?h, []) = (h1, w1)" by fastforce
  obtain h2 w2 where 2: "fold scan_remembered (gh_remembered (hp_gc h)) (h1, w1) = (h2, w2)" by fastforce
  let ?h3 = "h2\<lparr>hp_gc := (hp_gc h2)\<lparr>gh_remembered := []\<rparr>\<rparr>"
  obtain h4 w4 where 4: "fold mark_children (hp_scan_roots h) (?h3, w2) = (h4, w4)" by fastforce
  obtain h5 w5 where 5: "fold (\<lambda>c. mark_all (refs_of (hp_tasks h c))) (hp_young_cells h) (h4, w4) = (h5, w5)"
    by fastforce
  obtain h6 w6 where 6: "fold (\<lambda>l. mark_all (refs_of (hp_lazies h l))) (hp_young_lazies h) (h5, w5) = (h6, w6)"
    by fastforce
  let ?h7 = "h6\<lparr>hp_young_cells := [], hp_young_lazies := []\<rparr>"
  let ?e = "minor_loop (?h7, w6)"
  have marks: "minor_marks roots h = (?h7, w6)"
    using 1 2 4 5 6 by (simp add: minor_marks_def Let_def)
  have m1: "marking h h1 {} (set w1) \<and> later ?h h1 \<and> (\<forall>c \<in> set roots. \<not> young h1 c)"
    using marking_start [OF ok] by (intro marking_all [OF _ 1]) simp
  have m2: "marking h h2 {} (set w2) \<and> later h1 h2 \<and>
      (\<forall>r \<in> set (gh_remembered (hp_gc h)). (live h r \<longrightarrow> clean h h2 r) \<and> hbyte h2 r \<noteq> 2)"
  proof (rule marking_fold [OF _ _ _ 2])
    show "marking h h1 {} (set w1)" using m1 by blast
  qed (use scan_remembered_ok [OF _ hd] clean_kept in \<open>auto simp: later_def\<close>)
  have m3: "marking h ?h3 {} (set w2) \<and> later h2 ?h3"
    using m2 by (intro marking_same) (auto simp: same_rest_def)
  have m4: "marking h h4 {} (set w4) \<and> later ?h3 h4 \<and>
      (\<forall>r \<in> set (hp_scan_roots h). live h r \<longrightarrow> clean h h4 r)"
  proof (rule marking_fold [OF _ _ _ 4])
    show "marking h ?h3 {} (set w2)" using m3 by blast
    show "marking h g {} (set v) \<Longrightarrow> mark_children r (g, v) = (g', v') \<Longrightarrow>
        marking h g' {} (set v') \<and> later g g' \<and> (live h r \<longrightarrow> clean h g' r)" for r g v g' v'
      by (rule marking_children [OF marking_mono]) auto
  qed (rule clean_kept; assumption)
  have m5: "marking h h5 {} (set w5) \<and> later h4 h5 \<and>
      (\<forall>x \<in> set (hp_young_cells h). \<forall>c \<in> set (refs_of (hp_tasks h x)). \<not> young h5 c)"
    using m4 by (intro mark_all_fold_ok [OF _ 5]) blast
  have m6: "marking h h6 {} (set w6) \<and> later h5 h6 \<and>
      (\<forall>x \<in> set (hp_young_lazies h). \<forall>c \<in> set (refs_of (hp_lazies h x)). \<not> young h6 c)"
    using m5 by (intro mark_all_fold_ok [OF _ 6]) blast
  have m7: "marking h ?h7 {} (set w6) \<and> later h6 ?h7"
    using m6 by (intro marking_same) (auto simp: same_rest_def)
  then have e: "marking h ?e {} {}" "later h6 ?e"
    using marking_loop [of h ?h7 w6] later_trans by (auto simp: later_def)
  from m6 e(2) have l5: "later h5 ?e" by (blast intro: later_trans)
  from m5 l5 have l4: "later h4 ?e" by (blast intro: later_trans)
  from m3 m4 l4 have l2: "later h2 ?e" by (blast intro: later_trans)
  from m2 l2 have "later h1 ?e" by (blast intro: later_trans)
  note later = l5 l4 l2 this
  have "clean h ?e r" if r: "live h r" "\<not> young ?e r" for r
  proof (cases "young h r")
    case True
    moreover have "byte_step (hbyte h r) (hbyte ?e r)" using e(1) unfolding marking_def by blast
    ultimately have "hbyte ?e r = 4" using r(2) by (simp add: byte_step_def)
    then show ?thesis using e(1) unfolding marking_def by blast
  next
    case False
    show ?thesis
    proof (cases "visited h r")
      case True
      have "clean h ?e r" if t: "tracked h (hp_obj h r)"
      proof -
        have "\<not> young ?e c" if "c \<in> kids h r" for c
          using t m5 m6 later(1) e(2) that
          by (auto simp: tracked_def kids_def children_def class_child_def later_def)
        then show ?thesis by (simp add: clean_def)
      qed
      with True show ?thesis
        using m2 m4 r(1) later clean_later by (auto simp: visited_def)
    next
      case no: False
      have "\<not> young ?e c" if "c \<in> kids h r" for c
      proof -
        have "\<not> young h c" using that no False r(1) ok by (auto simp: heap_ok_def edges_ok_def)
        moreover have "byte_step (hbyte h c) (hbyte ?e c)" using e(1) unfolding marking_def by blast
        ultimately show ?thesis by (auto simp: byte_step_def)
      qed
      then show ?thesis by (simp add: clean_def)
    qed
  qed
  moreover have "hbyte ?e r \<noteq> 2" for r
  proof
    assume 2: "hbyte ?e r = 2"
    moreover have "byte_step (hbyte h r) (hbyte ?e r)" using e(1) unfolding marking_def by blast
    ultimately have "hbyte h r = 2" by (auto simp: byte_step_def)
    then have "r \<in> set (gh_remembered (hp_gc h))" using hd by (simp add: headers_ok_def)
    with m2 later(3) 2 show False by (auto simp: later_def)
  qed
  moreover have "\<not> young ?e r" if "r \<in> set roots" for r
    using that m1 later(4) by (auto simp: later_def)
  ultimately show ?thesis
    using e(1) minor_loop_lists [of "(?h7, w6)"] by (simp add: marked_ok_def marks)
qed

section \<open>The sweep\<close>

definition sweeping :: "gc_heap \<Rightarrow> gc_heap \<Rightarrow> u64 set \<Rightarrow> bool" where
  "sweeping h H R \<longleftrightarrow>
     hp_obj H = hp_obj h \<and> hp_refs H = hp_refs h \<and> hp_tasks H = hp_tasks h \<and>
     hp_lazies H = hp_lazies h \<and> hp_native_roots H = hp_native_roots h \<and>
     (\<forall>r. hbyte H r = (if r \<in> R \<and> hbyte h r = 4 then 1 else if r \<in> R \<and> hbyte h r = 3 then 0 else hbyte h r)) \<and>
     set (hp_scan_roots h) \<subseteq> set (hp_scan_roots H) \<and>
     (\<forall>r \<in> R. hbyte h r = 4 \<longrightarrow> needs_minor_scan (hp_obj h r) \<longrightarrow> r \<in> set (hp_scan_roots H)) \<and>
     (\<forall>k q. hp_identity H k = Some q \<longrightarrow> hp_identity h k = Some q \<or> q \<in> R \<and> hbyte h q = 4)"

lemma instance_no_scan: "is_instance o1 \<Longrightarrow> \<not> needs_minor_scan o1"
  by (cases o1) simp_all

lemma sweep_one_ok:
  assumes "sweeping h H R" "\<And>r. hbyte h r \<in> {0, 1, 3, 4}"
  shows "sweeping h (sweep_one r H) (insert r R)"
proof -
  have b: "hbyte H r = (if r \<in> R \<and> hbyte h r = 4 then 1 else if r \<in> R \<and> hbyte h r = 3 then 0 else hbyte h r)"
    using assms(1) by (simp add: sweeping_def)
  have cases4: "hbyte H r = 0 \<or> hbyte H r = 1 \<or> hbyte H r = 3 \<or> hbyte H r = 4"
    using b assms(2) [of r] by auto
  then consider "hbyte H r = 4" | "hbyte H r = 3" | "hbyte H r \<in> {0, 1}" by auto
  then show ?thesis
  proof cases
    case 1
    then have r: "r \<notin> R" "hbyte h r = 4" using b by (auto split: if_splits)
    have st: "state_of (hp_gc H) r = Marked" using 1 by (simp add: state_of_def)
    show ?thesis
      using assms(1) r instance_no_scan
      by (auto simp: sweeping_def sweep_one_def st promote_def track_scan_def Let_def split: option.splits if_splits)
  next
    case 2
    then have r: "r \<notin> R" "hbyte h r = 3" using b by (auto split: if_splits)
    have st: "state_of (hp_gc H) r = Young" using 2 by (simp add: state_of_def)
    show ?thesis
      using assms(1) r by (auto simp: sweeping_def sweep_one_def st release_def)
  next
    case 3
    then have st: "sweep_one r H = H" by (auto simp: sweep_one_def state_of_def)
    have "r \<in> R \<or> hbyte h r \<notin> {3, 4}" using 3 b by auto
    with assms(1) show ?thesis unfolding st by (auto simp: sweeping_def)
  qed
qed

lemma sweep_fold_ok:
  "sweeping h H R \<Longrightarrow> (\<And>r. hbyte h r \<in> {0, 1, 3, 4}) \<Longrightarrow> sweeping h (fold sweep_one rs H) (R \<union> set rs)"
proof (induction rs arbitrary: H R)
  case (Cons r rs)
  from Cons(1) [OF sweep_one_ok [OF Cons(2,3)] Cons(3)] show ?case by simp
qed simp

section \<open>The collection\<close>

text \<open>What a minor collection leaves of the heap.\<close>

lemma sweeping_refl: "sweeping h h {}"
  by (simp add: sweeping_def)

lemma minor_gc_effect:
  assumes ok: "heap_ok h" and roots: "set (hp_native_roots h) \<subseteq> set roots"
  obtains M where "marked_ok h roots M" "sweeping M (minor_gc roots h) (set (hp_born h))"
    "\<And>r. hbyte (minor_gc roots h) r = (if hbyte M r = 4 then 1 else if hbyte M r = 3 then 0 else hbyte M r)"
proof -
  have hd: "headers_ok h" using ok by (simp add: heap_ok_def)
  let ?M = "minor_loop (minor_marks roots h)"
  have mk: "marked_ok h roots ?M" by (rule minor_marked [OF ok])
  then have m: "marking h ?M {} {}" "\<And>r. hbyte ?M r \<noteq> 2" by (simp_all add: marked_ok_def)
  have bytes: "hbyte ?M r \<in> {0, 1, 3, 4}" for r using marking_bytes(1) [OF m(1) hd, of r] m(2) [of r] by auto
  have born: "hp_born ?M = hp_born h" using m(1) by (simp add: marking_def same_rest_def)
  have sw: "sweeping ?M (minor_gc roots h) (set (hp_born h))"
    using sweep_fold_ok [OF sweeping_refl bytes, of "hp_born h"]
    by (simp add: minor_gc_def sweep_young_def Let_def born sweeping_def)
  have "hbyte (minor_gc roots h) r = (if hbyte ?M r = 4 then 1 else if hbyte ?M r = 3 then 0 else hbyte ?M r)" for r
  proof -
    have "byte_step (hbyte h r) (hbyte ?M r)" using m(1) unfolding marking_def by blast
    then have "hbyte ?M r \<in> {3, 4} \<Longrightarrow> r \<in> set (hp_born h)"
      using hd by (auto simp: byte_step_def headers_ok_def dest!: spec [of _ r])
    with sw show ?thesis by (auto simp: sweeping_def)
  qed
  with mk sw that show thesis by blast
qed

lemma kids_identity:
  assumes "hp_tasks h' = hp_tasks h" "hp_lazies h' = hp_lazies h"
    "hp_obj h' r = hp_obj h r \<or> hp_obj h' r = scanned (hp_obj h r)"
    "c \<in> kids h' r"
  shows "c \<in> kids h r \<or> (\<exists>k. hp_identity h' k = Some c)"
proof -
  have c: "c \<in> set (children h' Reach_Major (hp_obj h r))"
    using assms(3,4) by (auto simp: kids_def)
  with class_child_identity [of c h' "hp_obj h r"] obj_values_cong [OF assms(1,2)] show ?thesis
    by (auto simp: kids_def children_def)
qed

lemma minor_gc_ok:
  assumes ok: "heap_ok h" and roots: "set (hp_native_roots h) \<subseteq> set roots" "\<forall>r \<in> set roots. live h r"
  shows "heap_ok (minor_gc roots h)"
proof -
  let ?h = "minor_gc roots h"
  have hd: "headers_ok h" and ed: "edges_ok h" using ok by (simp_all add: heap_ok_def)
  obtain M where M: "marked_ok h roots M" and sw: "sweeping M ?h (set (hp_born h))"
    and by': "\<And>r. hbyte ?h r = (if hbyte M r = 4 then 1 else if hbyte M r = 3 then 0 else hbyte M r)"
    using minor_gc_effect [OF ok roots(1)] by blast
  have m: "marking h M {} {}" "\<And>r. hbyte M r \<noteq> 2" using M by (simp_all add: marked_ok_def)
  have step: "byte_step (hbyte h r) (hbyte M r)" for r using m(1) unfolding marking_def by blast
  have rest: "same_rest h M" using m(1) by (simp add: marking_def)
  have bytes: "hbyte ?h r \<in> {0, 1}" for r
    using marking_bytes(1) [OF m(1) hd, of r] m(2) [of r] by (auto simp: by')
  have alive: "live ?h r \<longleftrightarrow> live h r \<and> \<not> young M r" for r
    using step [of r] by (auto simp: by' byte_step_def)
  have not_young: "\<not> young ?h r" for r using bytes [of r] by auto
  have obj: "hp_obj ?h r = hp_obj h r \<or> hp_obj ?h r = scanned (hp_obj h r)" for r
    using m(1) sw unfolding marking_def sweeping_def by simp
  have idn: "live ?h q" if "hp_identity ?h k = Some q" for k q
  proof -
    have "hp_identity h k = Some q \<or> hbyte M q = 4"
      using sw rest that by (auto simp: sweeping_def same_rest_def)
    moreover have "live h q \<and> \<not> young M q" if "hp_identity h k = Some q"
      using hd that step [of q] by (auto simp: headers_ok_def byte_step_def)
    ultimately show ?thesis using alive [of q] by' [of q] by auto
  qed
  have dangling: "live ?h c" if r: "live ?h r" and c: "c \<in> kids ?h r" for r c
  proof -
    have "c \<in> kids h r \<or> (\<exists>k. hp_identity ?h k = Some c)"
      using c sw rest obj [of r] by (intro kids_identity) (auto simp: sweeping_def same_rest_def)
    moreover have "live ?h c" if "c \<in> kids h r"
      using that r M ed by (auto simp: alive marked_ok_def edges_ok_def clean_def)
    ultimately show ?thesis using idn by blast
  qed
  have arr: "arr_clean (not_young ?h) (hp_obj ?h r)" if "live ?h r" for r
  proof -
    have "arr_clean (not_young h) (hp_obj h r)" using ed that by (simp add: edges_ok_def alive)
    then have "arr_clean UNIV (hp_obj ?h r)"
      using obj [of r] arr_clean_scanned arr_clean_mono [OF _ subset_UNIV] by metis
    moreover have "not_young ?h = UNIV" using not_young by (auto simp: not_young_def)
    ultimately show ?thesis by simp
  qed
  have scan: "r \<in> set (hp_scan_roots ?h)" if "live ?h r" "needs_minor_scan (hp_obj ?h r)" for r
  proof (cases "hbyte M r = 4")
    case True
    have "young h r" using step [of r] True hd by (auto simp: byte_step_def headers_ok_def dest!: spec [of _ r])
    then have "r \<in> set (hp_born h)" using hd by (simp add: headers_ok_def)
    with True sw that(2) show ?thesis by (auto simp: sweeping_def)
  next
    case False
    have ns: "needs_minor_scan (hp_obj h r)" using obj [of r] that(2) by auto
    have "live h r" "\<not> young h r" using that(1) False step [of r] by (auto simp: alive byte_step_def)
    with ns hd have "r \<in> set (hp_scan_roots h)" by (simp add: headers_ok_def)
    with sw rest show ?thesis by (auto simp: sweeping_def same_rest_def)
  qed
  have "headers_ok ?h"
    unfolding headers_ok_def
  proof (intro conjI allI impI ballI)
    show "hbyte ?h r \<in> {0, 1, 2, 3}" for r using bytes [of r] by auto
    show "r \<in> set (hp_refs ?h)" if "live ?h r" for r
      using that hd sw rest by (simp add: alive headers_ok_def sweeping_def same_rest_def)
    show "live ?h r" if "r \<in> set (hp_native_roots ?h)" for r
    proof -
      have "r \<in> set roots" using that sw rest roots(1) by (auto simp: sweeping_def same_rest_def)
      then have "live h r" "\<not> young M r" using roots(2) M by (simp_all add: marked_ok_def)
      with alive show ?thesis by blast
    qed
    show "r \<in> set (gh_remembered (hp_gc ?h))" if "hbyte ?h r = 2" for r using bytes [of r] that by auto
  qed (use not_young idn scan in auto)
  moreover have "edges_ok ?h"
    unfolding edges_ok_def using dangling arr not_young by blast
  ultimately show ?thesis by (simp add: heap_ok_def)
qed

text \<open>What the roots reach survives, with its contents.\<close>

lemma minor_gc_keeps:
  assumes ok: "heap_ok h" and roots: "set (hp_native_roots h) \<subseteq> set roots" "\<forall>r \<in> set roots. live h r"
    and r: "reaches h roots r"
  shows "hbyte (minor_gc roots h) r = 1 \<and>
    (hp_obj (minor_gc roots h) r = hp_obj h r \<or> hp_obj (minor_gc roots h) r = scanned (hp_obj h r))"
proof -
  have ed: "edges_ok h" and hd: "headers_ok h" using ok by (simp_all add: heap_ok_def)
  obtain M where M: "marked_ok h roots M" and sw: "sweeping M (minor_gc roots h) (set (hp_born h))"
    and by': "\<And>r. hbyte (minor_gc roots h) r = (if hbyte M r = 4 then 1 else if hbyte M r = 3 then 0 else hbyte M r)"
    using minor_gc_effect [OF ok roots(1)] by blast
  have m: "marking h M {} {}" "\<And>r. hbyte M r \<noteq> 2" using M by (simp_all add: marked_ok_def)
  have "live h r \<and> \<not> young M r"
    using r
  proof (induction rule: reaches.induct)
    case (Root r)
    then show ?case using M roots(2) by (auto simp: marked_ok_def)
  next
    case (Kid r c)
    then show ?case using M ed unfolding marked_ok_def edges_ok_def clean_def by blast
  qed
  moreover have "byte_step (hbyte h r) (hbyte M r)" using m(1) unfolding marking_def by blast
  ultimately have "hbyte (minor_gc roots h) r = 1"
    using marking_bytes(1) [OF m(1) hd, of r] m(2) [of r] by (auto simp: by' byte_step_def)
  with m(1) sw show ?thesis unfolding marking_def sweeping_def by simp
qed

end
