(* ===== verification/Gc_Major.thy ===== *)
theory Gc_Major
  imports Gc_Inv
begin

text \<open>
  A major collection keeps exactly the cells the roots reach, and with them the invariant; the
  interners and the index of identities keep only entries of live cells.
\<close>

section \<open>Marking\<close>

definition marked :: "gc_headers \<Rightarrow> u64 \<Rightarrow> bool" where
  "marked g r \<longleftrightarrow> gh_state g r AND MAJOR_MARK \<noteq> 0"

definition mark_bytes :: "gc_heap \<Rightarrow> gc_headers \<Rightarrow> bool" where
  "mark_bytes h g \<longleftrightarrow>
     (\<forall>r. gh_state g r = hbyte h r \<and> \<not> marked g r \<or> gh_state g r = hbyte h r OR MAJOR_MARK \<and> live h r)"

text \<open>
  What holds while a major collection marks: \<open>S\<close> are the cells whose references were all looked
  at or are still in the worklist.
\<close>

definition majoring :: "gc_heap \<Rightarrow> u64 list \<Rightarrow> gc_headers \<Rightarrow> u64 set \<Rightarrow> bool" where
  "majoring h roots g W \<longleftrightarrow>
     gh_remembered g = gh_remembered (hp_gc h) \<and> mark_bytes h g \<and>
     (\<forall>r. marked g r \<longrightarrow> reaches h roots r) \<and> (\<forall>r \<in> W. marked g r) \<and>
     (\<forall>r. marked g r \<longrightarrow> r \<notin> W \<longrightarrow> (\<forall>c \<in> kids h r. marked g c))"

lemma or_marked: "(b OR MAJOR_MARK) AND MAJOR_MARK = MAJOR_MARK"
  by (rule bit_word_eqI) (auto simp: bit_simps)

lemma push_major_ok:
  assumes "mark_bytes h g"
    and "push_major c (g, work) = (g', work')" "live h c"
  shows "mark_bytes h g' \<and>
    gh_remembered g' = gh_remembered g \<and> marked g' = (marked g)(c := True) \<and>
    set work' = set work \<union> {r. marked g' r \<and> \<not> marked g r}"
proof (cases "marked g c")
  case True
  then have "g' = g" "work' = work"
    using assms(2) by (auto simp: push_major_def mark_major_def marked_def)
  with True assms(1) show ?thesis by (simp add: fun_upd_idem)
next
  case False
  then have "gh_state g c = hbyte h c"
    using assms(1) by (auto simp: mark_bytes_def marked_def or_marked dest!: spec [of _ c])
  then have g: "g' = g\<lparr>gh_state := (gh_state g)(c := hbyte h c OR MAJOR_MARK)\<rparr>" "work' = c # work"
    using False assms(2,3) by (simp_all add: push_major_def mark_major_def marked_def)
  then have m: "marked g' = (marked g)(c := True)" by (auto simp: marked_def or_marked fun_eq_iff)
  have "mark_bytes h g'"
    unfolding mark_bytes_def
  proof
    fix r
    show "gh_state g' r = hbyte h r \<and> \<not> marked g' r \<or> gh_state g' r = hbyte h r OR MAJOR_MARK \<and> live h r"
      using assms(1,3) m by (cases "r = c") (simp_all add: g(1) mark_bytes_def)
  qed
  with m g False show ?thesis by auto
qed

lemma push_fold_ok:
  assumes "mark_bytes h g"
    and "fold push_major cs (g, work) = (g', work')" "\<forall>c \<in> set cs. live h c"
  shows "mark_bytes h g' \<and>
    gh_remembered g' = gh_remembered g \<and> (\<forall>r. marked g' r \<longleftrightarrow> marked g r \<or> r \<in> set cs) \<and>
    set work' = set work \<union> {r. marked g' r \<and> \<not> marked g r}"
  using assms
proof (induction cs arbitrary: g work)
  case (Cons c cs)
  obtain g1 w1 where p: "push_major c (g, work) = (g1, w1)" by fastforce
  have c: "live h c" using Cons(4) by simp
  note 1 = push_major_ok [OF Cons(2) p c]
  have "fold push_major cs (g1, w1) = (g', work')" using Cons(3) p by simp
  with Cons(1) [OF _ this] 1 Cons(4) show ?case by auto
qed simp

lemma major_loop_ok:
  assumes ok: "\<forall>r c. live h r \<longrightarrow> c \<in> kids h r \<longrightarrow> live h c"
  shows "majoring h roots g (set work) \<Longrightarrow>
    majoring h roots (major_loop (\<lambda>r. children h Reach_Major (hp_obj h r)) (g, work)) {}"
proof (induction "\<lambda>r. children h Reach_Major (hp_obj h r)" "(g, work)" arbitrary: g work rule: major_loop.induct)
  case (2 g r work)
  let ?kids = "\<lambda>r. children h Reach_Major (hp_obj h r)"
  obtain g1 w1 where p: "fold push_major (?kids r) (g, work) = (g1, w1)" by fastforce
  have m: "marked g r" "reaches h roots r" using 2(2) by (auto simp: majoring_def)
  then have "live h r" using 2(2) by (auto simp: majoring_def mark_bytes_def)
  then have "\<forall>c \<in> set (?kids r). live h c" using ok by (simp add: kids_def)
  with push_fold_ok [OF _ p, of h] 2(2) have n:
    "mark_bytes h g1"
    "gh_remembered g1 = gh_remembered g" "\<forall>q. marked g1 q \<longleftrightarrow> marked g q \<or> q \<in> kids h r"
    "set w1 = set work \<union> {q. marked g1 q \<and> \<not> marked g q}"
    by (simp_all add: majoring_def kids_def)
  have "majoring h roots g1 (set w1)"
    unfolding majoring_def
  proof (intro conjI allI ballI impI)
    show "gh_remembered g1 = gh_remembered (hp_gc h)" using n(2) 2(2) by (simp add: majoring_def)
    show "reaches h roots q" if "marked g1 q" for q
      using that n(3) 2(2) reaches.Kid [OF m(2)] unfolding majoring_def by blast
    show "marked g1 q" if "q \<in> set w1" for q
      using that n(3,4) 2(2) by (auto simp: majoring_def)
    show "marked g1 c" if "marked g1 q" "q \<notin> set w1" "c \<in> kids h q" for q c
    proof (cases "q = r")
      case False
      have "marked g q" "q \<notin> set work" using that n(4) by auto
      with False 2(2) that(3) have "marked g c" unfolding majoring_def by auto
      with n(3) show ?thesis by blast
    qed (use that n(3) in blast)
  qed (use n(1) in blast)
  with 2(1) p show ?case by simp
qed simp

lemma major_marks:
  assumes ok: "heap_ok h" and roots: "\<forall>r \<in> set roots. live h r"
  shows "let g = major_loop (\<lambda>r. children h Reach_Major (hp_obj h r)) (fold push_major roots (hp_gc h, []))
    in (\<forall>r. gh_state g r = hbyte h r \<or> gh_state g r = hbyte h r OR MAJOR_MARK \<and> live h r) \<and>
       (\<forall>r. marked g r \<longleftrightarrow> reaches h roots r)"
proof -
  obtain g0 w0 where p: "fold push_major roots (hp_gc h, []) = (g0, w0)" by fastforce
  have "hbyte h r AND MAJOR_MARK = 0" for r
    using ok by (auto simp: heap_ok_def headers_ok_def MAJOR_MARK_def dest!: spec [of _ r])
  then have init: "\<not> marked (hp_gc h) r" for r by (simp add: marked_def)
  then have "mark_bytes h (hp_gc h)" by (simp add: mark_bytes_def)
  note f = push_fold_ok [OF this p roots]
  then have n: "mark_bytes h g0" "gh_remembered g0 = gh_remembered (hp_gc h)" by blast+
  from f have r: "marked g0 q \<longleftrightarrow> q \<in> set roots" for q using init by simp
  from f r have w: "set w0 = set roots" using init by auto
  then have "majoring h roots g0 (set w0)"
    using n r w by (simp add: majoring_def reaches.Root)
  then have m: "majoring h roots (major_loop (\<lambda>r. children h Reach_Major (hp_obj h r)) (g0, w0)) {}"
    using ok by (intro major_loop_ok) (simp_all add: heap_ok_def edges_ok_def)
  let ?g = "major_loop (\<lambda>r. children h Reach_Major (hp_obj h r)) (g0, w0)"
  have grow: "marked g1 r \<Longrightarrow> marked (major_loop kids (g1, w1)) r" for kids g1 w1 r
  proof (induction kids "(g1, w1)" arbitrary: g1 w1 rule: major_loop.induct)
    case (2 kids g1 q w1)
    have "marked (fst (fold push_major cs gw)) r" if "marked (fst gw) r" for cs gw
      using that
    proof (induction cs arbitrary: gw)
      case (Cons c cs)
      have "marked (fst (push_major c gw)) r"
        using Cons(2) by (cases gw) (auto simp: push_major_def mark_major_def marked_def or_marked)
      with Cons(1) show ?case by simp
    qed simp
    from this [of "(g1, w1)" "kids q"] 2 show ?case by (cases "fold push_major (kids q) (g1, w1)") simp
  qed simp
  have conv: "marked ?g r" if "reaches h roots r" for r
    using that
  proof (induction rule: reaches.induct)
    case (Root r)
    then show ?case using r grow by blast
  next
    case (Kid r c)
    then show ?case using m unfolding majoring_def by blast
  qed
  have "\<forall>r. gh_state ?g r = hbyte h r \<or> gh_state ?g r = hbyte h r OR MAJOR_MARK \<and> live h r"
    using m unfolding majoring_def mark_bytes_def by blast
  moreover have "\<forall>r. marked ?g r \<longleftrightarrow> reaches h roots r"
    using m conv unfolding majoring_def by blast
  ultimately show ?thesis unfolding Let_def p by blast
qed

section \<open>Sweep and repair\<close>

lemma fold_old: "gh_state (fold (\<lambda>r. set_state r Old) rs g) q = (if q \<in> set rs then 1 else gh_state g q)"
  by (induction rs arbitrary: g) auto

lemma fold_old_remembered: "gh_remembered (fold (\<lambda>r. set_state r Old) rs g) = gh_remembered g"
  by (induction rs arbitrary: g) simp_all

lemma release_frame [simp]:
  "hp_refs (release r h) = hp_refs h" "hp_obj (release r h) = hp_obj h" "hp_tasks (release r h) = hp_tasks h"
  "hp_lazies (release r h) = hp_lazies h" "hp_identity (release r h) = hp_identity h"
  "hp_native_roots (release r h) = hp_native_roots h" "hp_strings (release r h) = hp_strings h"
  "hp_chars (release r h) = hp_chars h" "hp_bigints (release r h) = hp_bigints h"
  "hp_decimals (release r h) = hp_decimals h"
  by (simp_all add: release_def)

lemma fold_release:
  "hbyte (fold release rs h) q = (if q \<in> set rs then 0 else hbyte h q)"
  "hp_refs (fold release rs h) = hp_refs h" "hp_obj (fold release rs h) = hp_obj h"
  "hp_tasks (fold release rs h) = hp_tasks h" "hp_lazies (fold release rs h) = hp_lazies h"
  "hp_identity (fold release rs h) = hp_identity h" "hp_native_roots (fold release rs h) = hp_native_roots h"
  "hp_strings (fold release rs h) = hp_strings h" "hp_chars (fold release rs h) = hp_chars h"
  "hp_bigints (fold release rs h) = hp_bigints h" "hp_decimals (fold release rs h) = hp_decimals h"
  by (induction rs arbitrary: h) (simp_all add: release_def)

lemma retain_live_iff:
  "\<forall>r. state_of (hp_gc h) r \<noteq> Free \<longleftrightarrow> P r \<Longrightarrow> retain_live h m k = Some q \<longleftrightarrow> m k = Some q \<and> P q"
  by (auto simp: retain_live_def split: option.splits)

text \<open>The whole effect of a major collection.\<close>

lemma collect_effect:
  assumes ok: "heap_ok h" and roots: "\<forall>r \<in> set roots. live h r" and c: "collect roots h = (freed, h')"
  shows "hbyte h' r = (if reaches h roots r then 1 else 0)" "reaches h roots r \<Longrightarrow> live h r"
    "hp_obj h' = hp_obj h" "hp_refs h' = hp_refs h" "hp_tasks h' = hp_tasks h" "hp_lazies h' = hp_lazies h"
    "hp_native_roots h' = hp_native_roots h"
    "hp_identity h' k = Some q \<longleftrightarrow> hp_identity h k = Some q \<and> reaches h roots q"
    "hp_strings h' s = Some q \<longleftrightarrow> hp_strings h s = Some q \<and> reaches h roots q"
    "hp_chars h' ch = Some q \<longleftrightarrow> hp_chars h ch = Some q \<and> reaches h roots q"
    "hp_bigints h' n = Some q \<longleftrightarrow> hp_bigints h n = Some q \<and> reaches h roots q"
    "hp_decimals h' d = Some q \<longleftrightarrow> hp_decimals h d = Some q \<and> reaches h roots q"
    "reaches h roots r \<Longrightarrow> needs_minor_scan (hp_obj h r) \<Longrightarrow> r \<in> set (hp_scan_roots h')"
proof -
  define g where "g = major_loop (\<lambda>r. children h Reach_Major (hp_obj h r)) (fold push_major roots (hp_gc h, []))"
  have gb: "gh_state g r = hbyte h r \<or> gh_state g r = hbyte h r OR MAJOR_MARK \<and> live h r"
    and gm: "marked g r \<longleftrightarrow> reaches h roots r" for r
    using major_marks [OF ok roots] by (simp_all add: Let_def g_def)
  have hd: "headers_ok h" using ok by (simp add: heap_ok_def)
  have "hbyte h r OR MAJOR_MARK \<noteq> 0" for r
    using or_marked [of "hbyte h r"] by (metis and_zero_eq major_mark_nonzero and.commute)
  then have gl: "gh_state g r \<noteq> 0 \<longleftrightarrow> live h r" for r using gb [of r] by auto
  obtain freed' h1 where ms: "mark_and_sweep roots h = (freed', h1)" by fastforce
  let ?hg = "h\<lparr>hp_gc := g\<rparr>"
  let ?k = "filter (\<lambda>r. gh_state g r AND MAJOR_MARK \<noteq> 0) (live_refs ?hg)"
  let ?d = "filter (Not \<circ> (\<lambda>r. gh_state g r AND MAJOR_MARK \<noteq> 0)) (live_refs ?hg)"
  have h1: "h1 = fold release ?d (?hg\<lparr>hp_gc := fold (\<lambda>r. set_state r Old) ?k g, hp_survivors := length ?k\<rparr>)"
    using ms by (simp add: mark_and_sweep_def sweep_major_def Let_def g_def)
  have lr: "r \<in> set (live_refs ?hg) \<longleftrightarrow> live h r" for r
    using hd gl [of r] by (auto simp: live_refs_def headers_ok_def)
  have reach_live: "reaches h roots r \<Longrightarrow> live h r" for r
    using gm [of r] gb [of r] hd
    by (auto simp: marked_def headers_ok_def MAJOR_MARK_def dest!: spec [of _ r])
  then show "reaches h roots r \<Longrightarrow> live h r" .
  have b1: "hbyte h1 r = (if reaches h roots r then 1 else 0)" for r
    unfolding h1 fold_release(1)
    using lr [of r] gm [of r] gl [of r] reach_live [of r] by (auto simp: fold_old marked_def)
  have st: "state_of (hp_gc h1) r \<noteq> Free \<longleftrightarrow> reaches h roots r" for r
    using b1 [of r] by (simp add: state_of_def)
  note simps = collect_def ms Let_def compact_interners_def rebuild_scan_roots_def
  show "hbyte h' r = (if reaches h roots r then 1 else 0)" using c b1 by (auto simp: simps)
  have f1: "hp_obj h1 = hp_obj h" "hp_refs h1 = hp_refs h" "hp_tasks h1 = hp_tasks h"
    "hp_lazies h1 = hp_lazies h" "hp_native_roots h1 = hp_native_roots h" "hp_identity h1 = hp_identity h"
    "hp_strings h1 = hp_strings h" "hp_chars h1 = hp_chars h" "hp_bigints h1 = hp_bigints h"
    "hp_decimals h1 = hp_decimals h"
    by (simp_all add: h1 fold_release)
  then show "hp_obj h' = hp_obj h" "hp_refs h' = hp_refs h" "hp_tasks h' = hp_tasks h"
    "hp_lazies h' = hp_lazies h" "hp_native_roots h' = hp_native_roots h"
    using c by (auto simp: simps)
  define h2 where "h2 = h1\<lparr>hp_retired := hp_retired h1 + length (hp_born h1), hp_born := [],
      hp_gc := (hp_gc h1)\<lparr>gh_remembered := []\<rparr>, hp_young_cells := [], hp_young_lazies := []\<rparr>"
  have "\<forall>r. state_of (hp_gc h2) r \<noteq> Free \<longleftrightarrow> reaches h roots r" using st by (simp add: h2_def)
  note ret = retain_live_iff [OF this]
  have f2: "hp_identity h' = retain_live h2 (hp_identity h)" "hp_strings h' = retain_live h2 (hp_strings h)"
    "hp_chars h' = retain_live h2 (hp_chars h)" "hp_bigints h' = retain_live h2 (hp_bigints h)"
    "hp_decimals h' = retain_live h2 (hp_decimals h)"
    using c f1 by (auto simp: simps h2_def)
  show "hp_identity h' k = Some q \<longleftrightarrow> hp_identity h k = Some q \<and> reaches h roots q"
    "hp_strings h' s = Some q \<longleftrightarrow> hp_strings h s = Some q \<and> reaches h roots q"
    "hp_chars h' ch = Some q \<longleftrightarrow> hp_chars h ch = Some q \<and> reaches h roots q"
    "hp_bigints h' n = Some q \<longleftrightarrow> hp_bigints h n = Some q \<and> reaches h roots q"
    "hp_decimals h' d = Some q \<longleftrightarrow> hp_decimals h d = Some q \<and> reaches h roots q"
    unfolding f2 by (rule ret)+
  show "r \<in> set (hp_scan_roots h')" if "reaches h roots r" "needs_minor_scan (hp_obj h r)"
  proof -
    have "r \<in> set (hp_refs h)" using hd reach_live [OF that(1)] by (simp add: headers_ok_def)
    moreover have "\<not> is_instance (hp_obj h r)" using that(2) by (cases "hp_obj h r") simp_all
    ultimately show ?thesis
      using c that b1 [of r] f1 by (auto simp: simps live_refs_def)
  qed
qed

lemma collect_ok:
  assumes ok: "heap_ok h" and roots: "\<forall>r \<in> set roots. live h r" "set (hp_native_roots h) \<subseteq> set roots"
    and c: "collect roots h = (freed, h')"
  shows "heap_ok h'"
proof -
  note e = collect_effect [OF ok roots(1) c]
  have hd: "headers_ok h" and ed: "edges_ok h" using ok by (simp_all add: heap_ok_def)
  have ny: "\<not> young h' r" for r using e(1) [of r] by simp
  have kids': "c \<in> kids h r \<and> reaches h roots c" if "reaches h roots r" "c \<in> kids h' r" for r c
  proof -
    have "c \<in> kids h r"
    proof -
      have "c \<in> set (refs_of (obj_values h Reach_Major (hp_obj h r))) \<or> c \<in> set (class_child h' (hp_obj h r))"
        using that(2) obj_values_cong [OF e(5,6)] by (simp add: kids_iff e(3))
      moreover have "c \<in> set (class_child h (hp_obj h r))" if "c \<in> set (class_child h' (hp_obj h r))"
        using that e(8) by (auto simp: class_child_iff)
      ultimately show ?thesis by (auto simp: kids_iff)
    qed
    with that(1) show ?thesis by (blast intro: reaches.Kid)
  qed
  have "headers_ok h'"
    unfolding headers_ok_def
  proof (intro conjI allI impI ballI)
    show "r \<in> set (hp_refs h')" if "live h' r" for r
      using that hd e(1,2) [of r] by (auto simp: e(4) headers_ok_def split: if_splits)
    show "live h' r" if "r \<in> set (hp_native_roots h')" for r
      using that roots(2) e(1) [of r] reaches.Root [of r roots h] by (auto simp: e(7))
    show "r \<in> set (hp_scan_roots h')" if "live h' r \<and> \<not> young h' r \<and> needs_minor_scan (hp_obj h' r)" for r
      using that e(1,13) [of r] by (auto simp: e(3) split: if_splits)
  qed (use e(1) ny e(8) in \<open>auto split: if_splits\<close>)
  moreover have "arr_clean (not_young h') (hp_obj h' r)" if "live h' r" for r
  proof -
    have "live h r" using that e(1,2) [of r] by (auto split: if_splits)
    moreover have "not_young h' = UNIV" using ny by (auto simp: not_young_def)
    ultimately show ?thesis
      using ed arr_clean_mono [OF _ subset_UNIV] unfolding edges_ok_def e(3) by metis
  qed
  ultimately show ?thesis
    using kids' e(1) ny unfolding heap_ok_def edges_ok_def by (metis zero_neq_one)
qed

end
