(* ===== verification/Gc_System.thy ===== *)
theory Gc_System
  imports Gc_Minor Gc_Major "HOL-Library.AList"
begin

text \<open>
  The heap as a transition system: births, interning, stores with their write barriers, the
  objects that are scanned at every minor collection, tasks, native calls and the two
  collections, in any order. What a step needs to know of the values it is given is that they
  are references to live cells.
\<close>

definition vals_live :: "gc_heap \<Rightarrow> vm_value list \<Rightarrow> bool" where
  "vals_live h vs \<longleftrightarrow> (\<forall>c \<in> set (refs_of vs). live h c)"

text \<open>Stores: the values written into an object, the object before and after.\<close>

inductive stored :: "vm_value list \<Rightarrow> heap_obj \<Rightarrow> heap_obj \<Rightarrow> bool" where
  "stored [v] (HO_Array a) (HO_Array (fst (set_vm a i v)))"
| "stored [v] (HO_Array a) (HO_Array (push_vm a v))"
| "stored [] (HO_Array a) (HO_Array (snd (pop_vm a)))"
| "stored [v] (HO_Object fs k) (HO_Object (fs[i := v]) k)"
| "stored [v] (HO_Object fs k) (HO_Object (fs @ [v]) k)"
| "stored [v] (HO_Instance fs k) (HO_Instance (fs[i := v]) k)"
| "stored [key, v] (HO_Map m) (HO_Map (AList.update key v m))"
| "stored [] (HO_Map m) (HO_Map (AList.delete key m))"
| "stored [v] (HO_Set s) (HO_Set (List.insert v s))"
| "stored [] (HO_Set s) (HO_Set (remove1 v s))"

definition barriers :: "u64 \<Rightarrow> vm_value list \<Rightarrow> gc_heap \<Rightarrow> gc_heap" where
  "barriers r vs h = fold (heap_write_barrier r) vs h"

definition set_task :: "nat \<Rightarrow> vm_value list \<Rightarrow> gc_heap \<Rightarrow> gc_heap" where
  "set_task c vs h = track_task c (h\<lparr>hp_tasks := (hp_tasks h)(c := vs)\<rparr>)"

definition fresh_cell :: "gc_heap \<Rightarrow> u64 \<Rightarrow> bool" where
  "fresh_cell h r \<longleftrightarrow> hbyte h r = 0"

definition birth_ok :: "gc_heap \<Rightarrow> heap_obj \<Rightarrow> bool" where
  "birth_ok h o1 \<longleftrightarrow> arr_clean {} o1 \<and> (\<forall>c \<in> set (children h Reach_Major o1). live h c) \<and>
     (\<forall>l. o1 \<noteq> HO_Task l) \<and>
     (\<forall>c. o1 = HO_TaskHandle c \<longrightarrow>
        c \<in> set (hp_young_cells h) \<or> \<not> list_ex (is_young (hp_gc h)) (hp_tasks h c))"

inductive gc_step :: "gc_heap \<Rightarrow> gc_heap \<Rightarrow> bool" where
  Alloc: "fresh_cell h r \<Longrightarrow> birth_ok h o1 \<Longrightarrow> gc_step h (gc_alloc r o1 h)"
| New_Lazy: "fresh_cell h r \<Longrightarrow> vals_live h vs \<Longrightarrow> (\<forall>q. live h q \<longrightarrow> hp_obj h q \<noteq> HO_Task l) \<Longrightarrow>
    gc_step h (new_lazy r l vs h)"
| Str: "fresh_cell h r \<Longrightarrow> gc_step h (snd (alloc_str r s h))"
| Intern: "fresh_cell h r \<Longrightarrow> gc_step h (snd (alloc_str_interned r s h))"
| Char: "fresh_cell h r \<Longrightarrow> gc_step h (snd (alloc_char r c h))"
| Bigint: "fresh_cell h r \<Longrightarrow> gc_step h (snd (alloc_bigint r n h))"
| Decimal: "fresh_cell h r \<Longrightarrow> gc_step h (snd (intern_decimal r d h))"
| Map_Key: "fresh_cell h r \<Longrightarrow> gc_step h (snd (canonical_map_key r v h))"
| Store: "live h r \<Longrightarrow> stored vs (hp_obj h r) o1 \<Longrightarrow> vals_live h vs \<Longrightarrow>
    gc_step h (barriers r vs (h\<lparr>hp_obj := (hp_obj h)(r := o1)\<rparr>))"
| Update: "live h r \<Longrightarrow> needs_minor_scan (hp_obj h r) \<Longrightarrow> needs_minor_scan o1 \<Longrightarrow>
    (\<forall>c \<in> set (children h Reach_Major o1). live h c) \<Longrightarrow> gc_step h (h\<lparr>hp_obj := (hp_obj h)(r := o1)\<rparr>)"
| Set_Task: "vals_live h vs \<Longrightarrow> gc_step h (set_task c vs h)"
| Enter: "gc_step h (snd (enter_native h))"
| Exit: "gc_step h (exit_native scope h)"
| Suspend: "gc_step h (snd (suspend_native h))"
| Resume: "(\<forall>r. result = Some r \<longrightarrow> live h r) \<Longrightarrow> gc_step h (resume_native b result h)"
| Minor: "\<forall>r \<in> set roots. live h r \<Longrightarrow> gc_step h (minor_gc (roots @ hp_native_roots h) h)"
| Major: "\<forall>r \<in> set roots. live h r \<Longrightarrow> gc_step h (snd (collect (roots @ hp_native_roots h) h))"

definition gc_init :: "nat \<Rightarrow> nat \<Rightarrow> gc_heap" where
  "gc_init limit floor_size =
     \<lparr>hp_gc = \<lparr>gh_state = \<lambda>_. 0, gh_remembered = []\<rparr>, hp_refs = [], hp_obj = \<lambda>_. HO_Range, hp_born = [],
      hp_scan_roots = [], hp_tasks = \<lambda>_. [], hp_lazies = \<lambda>_. [], hp_young_cells = [],
      hp_young_lazies = [], hp_identity = \<lambda>_. None, hp_strings = \<lambda>_. None, hp_chars = \<lambda>_. None,
      hp_bigints = \<lambda>_. None, hp_decimals = \<lambda>_. None, hp_native = False, hp_native_roots = [],
      hp_births = 0, hp_growth = 0, hp_survivors = 0, hp_young_limit = limit, hp_retired = 0,
      hp_promoted = 0, hp_minor_count = 0, hp_collections = 0, hp_freed = 0, hp_floor = floor_size,
      hp_threshold = floor_size\<rparr>"

inductive gc_reach :: "gc_heap \<Rightarrow> bool" where
  Init: "gc_reach (gc_init limit floor_size)"
| Step: "gc_reach h \<Longrightarrow> gc_step h h' \<Longrightarrow> gc_reach h'"

section \<open>Births\<close>

text \<open>A cell \<open>r\<close> that was free becomes a live object; what else changes only grows.\<close>

definition born :: "u64 \<Rightarrow> heap_obj \<Rightarrow> slot_state \<Rightarrow> gc_heap \<Rightarrow> gc_heap \<Rightarrow> bool" where
  "born r o1 st h h' \<longleftrightarrow>
     hp_gc h' = set_state r st (hp_gc h) \<and> hp_obj h' = (hp_obj h)(r := o1) \<and>
     set (hp_refs h') = insert r (set (hp_refs h)) \<and> hp_tasks h' = hp_tasks h \<and> hp_lazies h' = hp_lazies h \<and>
     hp_young_cells h' = hp_young_cells h \<and> hp_young_lazies h' = hp_young_lazies h \<and>
     set (hp_native_roots h') \<subseteq> insert r (set (hp_native_roots h)) \<and>
     set (hp_born h) \<subseteq> set (hp_born h') \<and> (st = Young \<longrightarrow> r \<in> set (hp_born h')) \<and>
     set (hp_scan_roots h) \<subseteq> set (hp_scan_roots h') \<and>
     (st = Old \<and> needs_minor_scan o1 \<longrightarrow> r \<in> set (hp_scan_roots h')) \<and>
     (\<forall>k q. hp_identity h' k = Some q \<longrightarrow> hp_identity h k = Some q \<or> st = Old \<and> q = r)"

lemma tracked_cong:
  "hp_young_cells h' = hp_young_cells h \<Longrightarrow> hp_young_lazies h' = hp_young_lazies h \<Longrightarrow> tracked h' o1 = tracked h o1"
  by (simp add: tracked_def)

lemma clean_within_inter:
  "clean_within S a \<Longrightarrow> (\<And>vs v. as_boxed a = Some vs \<Longrightarrow> v \<in> set vs \<Longrightarrow> v \<in> T) \<Longrightarrow> clean_within (S \<inter> T) a"
  by (cases a) (auto dest: in_set_takeD)

lemma arr_clean_inter:
  assumes "arr_clean S o1"
    and "\<And>a vs v. o1 = HO_Array a \<or> o1 = HO_Tuple a \<Longrightarrow> as_boxed a = Some vs \<Longrightarrow> v \<in> set vs \<Longrightarrow> v \<in> T"
  shows "arr_clean (S \<inter> T) o1"
  using assms clean_within_inter unfolding arr_clean_def by blast

lemma heap_ok_born:
  assumes ok: "heap_ok h" and free: "fresh_cell h r" and st: "st = Young \<or> st = Old"
    and b: "born r o1 st h h'"
    and kids: "\<forall>c \<in> set (children h Reach_Major o1). live h c" and clean: "arr_clean {} o1"
    and old: "st = Old \<Longrightarrow> \<exists>c \<in> set (children h Reach_Major o1). young h c \<Longrightarrow> needs_minor_scan o1 \<or> tracked h o1"
  shows "heap_ok h'"
proof -
  have hd: "headers_ok h" and ed: "edges_ok h" using ok by (simp_all add: heap_ok_def)
  have byte: "hbyte h' q = (if q = r then slot_as_u8 st else hbyte h q)" for q using b by (simp add: born_def)
  have obj: "hp_obj h' q = (if q = r then o1 else hp_obj h q)" for q using b by (simp add: born_def)
  have alive: "live h' q \<longleftrightarrow> live h q \<or> q = r" for q using st by (auto simp: byte)
  have ids: "hp_identity h k = Some q \<or> st = Old \<and> q = r" if "hp_identity h' k = Some q" for k q
    using b that by (simp add: born_def)
  have kid: "c \<in> set (children h Reach_Major o2) \<or> st = Old \<and> c = r" if "c \<in> set (children h' Reach_Major o2)" for c o2
  proof -
    have "obj_values h' Reach_Major o2 = obj_values h Reach_Major o2"
      using b by (intro obj_values_cong) (simp_all add: born_def)
    then show ?thesis using that ids by (auto simp: children_def class_child_iff)
  qed
  have yng: "young h' c \<longleftrightarrow> c = r \<and> st = Young \<or> c \<noteq> r \<and> young h c" for c using st by (auto simp: byte)
  have dangling: "live h' c" if "live h' q" "c \<in> kids h' q" for q c
  proof -
    have "c \<in> set (children h Reach_Major (hp_obj h' q)) \<or> c = r" using that kid by (auto simp: kids_def)
    then show ?thesis
      using kids ed that(1) by (auto simp: alive obj edges_ok_def kids_def split: if_splits)
  qed
  have seen: "visited h' q" if q: "live h' q" "\<not> young h' q" "c \<in> kids h' q" "young h' c" for q c
  proof -
    have "c \<in> set (children h Reach_Major (hp_obj h' q))" using q(3,4) kid yng by (auto simp: kids_def)
    moreover have "live h c" if "q \<noteq> r"
      using calculation that q(1) ed by (auto simp: alive obj edges_ok_def kids_def)
    moreover have "live h c" if "q = r" using calculation that kids by (simp add: obj)
    ultimately have c: "c \<in> set (children h Reach_Major (hp_obj h' q))" "young h c"
      using q(4) free by (auto simp: yng fresh_cell_def)
    show ?thesis
    proof (cases "q = r")
      case True
      then have "st = Old" using q(2) st by (auto simp: yng)
      with True c old b show ?thesis
        by (auto simp: visited_def obj born_def tracked_cong [of h' h])
    next
      case False
      then have "visited h q"
        using q(1,2) c ed by (auto simp: alive yng obj edges_ok_def kids_def)
      with False b show ?thesis
        by (auto simp: visited_def obj born_def tracked_cong [of h' h])
    qed
  qed
  have arr: "arr_clean (not_young h') (hp_obj h' q)" if "live h' q" for q
  proof (cases "q = r")
    case False
    have "arr_clean (not_young h \<inter> {v. is_heap v \<longrightarrow> live h (as_heap v)}) (hp_obj h q)"
    proof (rule arr_clean_inter)
      show "arr_clean (not_young h) (hp_obj h q)" using that False ed by (simp add: alive edges_ok_def)
      fix a vs v assume "hp_obj h q = HO_Array a \<or> hp_obj h q = HO_Tuple a" "as_boxed a = Some vs" "v \<in> set vs"
      then have "is_heap v \<Longrightarrow> as_heap v \<in> kids h q" by (auto simp: kids_iff refs_of_def)
      then show "v \<in> {v. is_heap v \<longrightarrow> live h (as_heap v)}"
        using that False ed by (auto simp: alive edges_ok_def)
    qed
    moreover have "not_young h \<inter> {v. is_heap v \<longrightarrow> live h (as_heap v)} \<subseteq> not_young h'"
      using free by (auto simp: not_young_def yng fresh_cell_def)
    ultimately show ?thesis
      using that False ed arr_clean_mono by (auto simp: alive obj edges_ok_def)
  qed (use clean in \<open>auto simp: obj intro: arr_clean_mono\<close>)
  have "headers_ok h'"
    unfolding headers_ok_def
  proof (intro conjI allI impI ballI)
    show "hbyte h' q \<in> {0, 1, 2, 3}" for q using st hd by (auto simp: byte headers_ok_def)
    show "q \<in> set (hp_refs h')" if "live h' q" for q using that b hd by (auto simp: alive headers_ok_def born_def)
    show "q \<in> set (hp_born h')" if "young h' q" for q using that b hd by (auto simp: yng headers_ok_def born_def)
    show "q \<in> set (gh_remembered (hp_gc h'))" if "hbyte h' q = 2" for q
      using that b hd st by (auto simp: byte headers_ok_def born_def split: if_splits)
    show "live h' q" if "q \<in> set (hp_native_roots h')" for q
    proof -
      have "live h q \<or> q = r" using that b hd by (auto simp: headers_ok_def born_def)
      then show ?thesis unfolding alive .
    qed
    show "live h' q" if "hp_identity h' k = Some q" for k q
      using ids [OF that] hd by (auto simp: alive headers_ok_def)
    show "\<not> young h' q" if "hp_identity h' k = Some q" for k q
      using ids [OF that] hd free by (auto simp: yng headers_ok_def fresh_cell_def)
    show "q \<in> set (hp_scan_roots h')" if "live h' q \<and> \<not> young h' q \<and> needs_minor_scan (hp_obj h' q)" for q
      using that b hd st by (cases "q = r") (auto simp: alive yng obj headers_ok_def born_def)
  qed
  moreover have "edges_ok h'"
    unfolding edges_ok_def using dangling seen arr by blast
  ultimately show ?thesis by (simp add: heap_ok_def)
qed


lemma is_young_byte: "headers_ok h \<Longrightarrow> is_young (hp_gc h) v \<longleftrightarrow> is_heap v \<and> young h (as_heap v)"
  by (auto simp: is_young_def state_of_def headers_ok_def dest!: spec [of _ "as_heap v"])

lemma list_ex_young:
  "headers_ok h \<Longrightarrow> list_ex (is_young (hp_gc h)) vs \<longleftrightarrow> (\<exists>c \<in> set (refs_of vs). young h c)"
  by (auto simp: list_ex_iff is_young_byte refs_of_def)

lemma born_alloc_old: "born r o1 Old h (alloc_old r o1 h)"
  by (auto simp: born_def alloc_old_def track_scan_def take_cell_def split: option.splits if_splits)

lemma born_young:
  "born r o1 Young h ((take_cell r o1 Young h)\<lparr>hp_born := hp_born (take_cell r o1 Young h) @ [r]\<rparr>)"
  by (auto simp: born_def take_cell_def)

text \<open>Interned leaves and lazily created tasks.\<close>

lemma heap_ok_gc_alloc:
  assumes ok: "heap_ok h" and free: "fresh_cell h r"
    and kids: "\<forall>c \<in> set (children h Reach_Major o1). live h c" and clean: "arr_clean {} o1"
    and old: "born_old o1 \<Longrightarrow> \<exists>c \<in> set (children h Reach_Major o1). young h c \<Longrightarrow>
      needs_minor_scan o1 \<or> tracked h o1"
  shows "heap_ok (gc_alloc r o1 h)"
proof (cases "born_old o1")
  case True
  with heap_ok_born [OF ok free _ born_alloc_old kids clean] old show ?thesis by (simp add: gc_alloc_def)
next
  case False
  with heap_ok_born [OF ok free _ born_young kids clean] show ?thesis by (simp add: gc_alloc_def Let_def)
qed

lemma heap_ok_birth:
  assumes ok: "heap_ok h" and free: "fresh_cell h r" and b: "birth_ok h o1"
  shows "heap_ok (gc_alloc r o1 h)"
proof (rule heap_ok_gc_alloc [OF ok free])
  have hd: "headers_ok h" using ok by (simp add: heap_ok_def)
  show "needs_minor_scan o1 \<or> tracked h o1"
    if "born_old o1" "\<exists>c \<in> set (children h Reach_Major o1). young h c"
    using that b list_ex_young [OF hd]
    by (cases o1) (auto simp: birth_ok_def tracked_def children_def class_child_def refs_of_def)
qed (use b in \<open>simp_all add: birth_ok_def\<close>)

text \<open>Changes of the parts the invariant does not read.\<close>

lemma heap_ok_cong:
  assumes "hp_gc h' = hp_gc h" "hp_refs h' = hp_refs h" "hp_obj h' = hp_obj h" "hp_born h' = hp_born h"
    "hp_scan_roots h' = hp_scan_roots h" "hp_tasks h' = hp_tasks h" "hp_lazies h' = hp_lazies h"
    "hp_young_cells h' = hp_young_cells h" "hp_young_lazies h' = hp_young_lazies h"
    "hp_identity h' = hp_identity h" "hp_native_roots h' = hp_native_roots h"
  shows "heap_ok h' = heap_ok h"
proof -
  have "children h' Reach_Major o1 = children h Reach_Major o1" for o1
    using assms by (intro children_cong) simp_all
  then show ?thesis
    by (simp add: heap_ok_def headers_ok_def edges_ok_def kids_def visited_def tracked_def not_young_def assms)
qed

lemma heap_ok_leaf:
  assumes "heap_ok h" "fresh_cell h r" "\<not> needs_minor_scan o1" "children h Reach_Major o1 = []" "arr_clean {} o1"
  shows "heap_ok (take_cell r o1 Old h)"
proof (rule heap_ok_born [OF assms(1,2)])
  show "born r o1 Old h (take_cell r o1 Old h)" using assms(3) by (auto simp: born_def take_cell_def)
qed (use assms in auto)

lemmas leaf_simps = children_def class_child_def arr_clean_def refs_of_def

lemma heap_ok_strings: "heap_ok (h\<lparr>hp_strings := m\<rparr>) = heap_ok h"
  and heap_ok_chars: "heap_ok (h\<lparr>hp_chars := m'\<rparr>) = heap_ok h"
  and heap_ok_bigints: "heap_ok (h\<lparr>hp_bigints := m''\<rparr>) = heap_ok h"
  and heap_ok_decimals: "heap_ok (h\<lparr>hp_decimals := m3\<rparr>) = heap_ok h"
  by (rule heap_ok_cong; simp)+

lemmas heap_ok_maps = heap_ok_strings heap_ok_chars heap_ok_bigints heap_ok_decimals

lemma heap_ok_interned:
  assumes "heap_ok h" "fresh_cell h r"
  shows "heap_ok (snd (alloc_str_interned r s h))" "heap_ok (snd (alloc_char r c h))"
    "heap_ok (snd (alloc_bigint r n h))" "heap_ok (snd (intern_decimal r d h))"
proof -
  have "heap_ok (take_cell r o1 Old h)" if "o1 \<in> range HO_Str \<union> range HO_Char \<union> range HO_BigInt \<union> range HO_Decimal" for o1
    using that by (intro heap_ok_leaf assms) (auto simp: leaf_simps)
  then show "heap_ok (snd (alloc_str_interned r s h))" "heap_ok (snd (alloc_char r c h))"
    "heap_ok (snd (alloc_bigint r n h))" "heap_ok (snd (intern_decimal r d h))"
    using assms(1)
    by (auto simp: alloc_str_interned_def alloc_char_def alloc_bigint_def intern_decimal_def heap_ok_maps
        split: option.split)
qed

section \<open>Changes of an object\<close>

text \<open>
  A live object is replaced: its references are old ones or given ones, and when an older object
  gets a young one it is visited.
\<close>

lemma heap_ok_replace:
  assumes ok: "heap_ok h" and r: "live h r"
    and g: "h' = h\<lparr>hp_obj := (hp_obj h)(r := o1)\<rparr>"
    and kids: "\<forall>c \<in> set (children h Reach_Major o1). live h c"
    and scan: "needs_minor_scan o1 = needs_minor_scan (hp_obj h r)"
    and clean: "arr_clean (not_young h) o1"
    and old: "\<not> young h r \<Longrightarrow> \<exists>c \<in> set (children h Reach_Major o1). young h c \<Longrightarrow> visited h' r"
  shows "heap_ok h'"
proof -
  have hd: "headers_ok h" and ed: "edges_ok h" using ok by (simp_all add: heap_ok_def)
  have ch: "children h' Reach_Major o2 = children h Reach_Major o2" for o2
    by (rule children_cong) (simp_all add: g)
  have "headers_ok h'" using hd scan by (simp add: headers_ok_def g)
  moreover have "visited h' q" if "q \<noteq> r" "visited h q" for q
    using that by (simp add: visited_def g tracked_def)
  moreover have "edges_ok h'"
  proof -
    have same: "live h' q = live h q" "young h' q = young h q" "not_young h' = not_young h" for q
      by (simp_all add: g not_young_def)
    have obj: "kids h' q = (if q = r then set (children h Reach_Major o1) else kids h q)"
      "hp_obj h' q = (if q = r then o1 else hp_obj h q)" for q
      by (simp_all add: kids_def ch) (simp_all add: g)
    have "live h c" if "live h q" "c \<in> kids h' q" for q c
      using that ed kids by (cases "q = r") (auto simp: obj edges_ok_def)
    moreover have "visited h' q" if "live h q" "\<not> young h q" "c \<in> kids h' q" "young h c" for q c
    proof (cases "q = r")
      case False
      with that ed have "visited h q" by (auto simp: obj edges_ok_def)
      with False show ?thesis by (simp add: visited_def g tracked_def)
    qed (use that old in \<open>auto simp: obj\<close>)
    moreover have "arr_clean (not_young h) (hp_obj h' q)" if "live h q" for q
      using that ed clean by (simp add: obj edges_ok_def)
    ultimately show ?thesis unfolding edges_ok_def same by blast
  qed
  ultimately show ?thesis by (simp add: heap_ok_def)
qed

text \<open>Barriers change states and the remembered list only.\<close>

lemma barrier_ok:
  assumes ok: "heap_ok h" and l: "live h r"
  shows "heap_ok (heap_write_barrier r v h)"
    and "live (heap_write_barrier r v h) q = live h q" "young (heap_write_barrier r v h) q = young h q"
    and "hp_obj (heap_write_barrier r v h) = hp_obj h"
    and "r \<in> set (gh_remembered (hp_gc h)) \<Longrightarrow> r \<in> set (gh_remembered (hp_gc (heap_write_barrier r v h)))"
    and "is_heap v \<Longrightarrow> young h (as_heap v) \<Longrightarrow> \<not> young h r \<Longrightarrow>
      r \<in> set (gh_remembered (hp_gc (heap_write_barrier r v h)))"
proof -
  let ?h = "heap_write_barrier r v h"
  have hd: "headers_ok h" and ed: "edges_ok h" using ok by (simp_all add: heap_ok_def)
  have st: "state_of (hp_gc h) r = Old \<longleftrightarrow> hbyte h r = 1"
    using hd by (auto simp: state_of_def headers_ok_def dest!: spec [of _ r])
  have b: "hbyte ?h q = (if q = r \<and> hbyte h r = 1 \<and> is_young (hp_gc h) v then 2 else hbyte h q)" for q
    by (simp add: heap_write_barrier_def write_barrier_def st)
  have rem: "set (gh_remembered (hp_gc ?h)) =
      (if hbyte h r = 1 \<and> is_young (hp_gc h) v then insert r (set (gh_remembered (hp_gc h)))
       else set (gh_remembered (hp_gc h)))"
    by (simp add: heap_write_barrier_def write_barrier_def st)
  show al: "live ?h q = live h q" and yg: "young ?h q = young h q" for q by (auto simp: b)
  show obj: "hp_obj ?h = hp_obj h" by (simp add: heap_write_barrier_def)
  show "r \<in> set (gh_remembered (hp_gc h)) \<Longrightarrow> r \<in> set (gh_remembered (hp_gc ?h))" by (simp add: rem)
  show "r \<in> set (gh_remembered (hp_gc ?h))" if "is_heap v" "young h (as_heap v)" "\<not> young h r"
  proof -
    have "hbyte h r = 1 \<or> hbyte h r = 2" using that(3) l hd by (auto simp: headers_ok_def dest!: spec [of _ r])
    then show ?thesis using that(1,2) hd by (auto simp: rem is_young_byte headers_ok_def)
  qed
  have rest: "hp_refs ?h = hp_refs h" "hp_born ?h = hp_born h" "hp_native_roots ?h = hp_native_roots h"
    "hp_identity ?h = hp_identity h" "hp_scan_roots ?h = hp_scan_roots h"
    "hp_young_cells ?h = hp_young_cells h" "hp_young_lazies ?h = hp_young_lazies h"
    "hp_tasks ?h = hp_tasks h" "hp_lazies ?h = hp_lazies h"
    by (simp_all add: heap_write_barrier_def)
  have ch: "children ?h Reach_Major o2 = children h Reach_Major o2" for o2
    by (rule children_cong) (simp_all add: rest)
  have "hbyte ?h q \<in> {0, 1, 2, 3}" "hbyte ?h q = 2 \<Longrightarrow> q \<in> set (gh_remembered (hp_gc ?h))" for q
    using hd by (auto simp: b rem headers_ok_def split: if_splits)
  then have "headers_ok ?h" using hd unfolding headers_ok_def by (simp add: al yg obj rest)
  moreover have "visited ?h q" if "visited h q" for q
    using that by (auto simp: visited_def rem rest obj tracked_def)
  then have "edges_ok ?h"
    using ed unfolding edges_ok_def kids_def ch obj al yg not_young_def by blast
  ultimately show "heap_ok ?h" by (simp add: heap_ok_def)
qed

lemma barriers_ok:
  "heap_ok h \<Longrightarrow> live h r \<Longrightarrow> heap_ok (barriers r vs h) \<and> (\<forall>q. live (barriers r vs h) q = live h q) \<and>
    (\<forall>q. young (barriers r vs h) q = young h q) \<and>
    ((r \<in> set (gh_remembered (hp_gc h)) \<or> (\<exists>c \<in> set (refs_of vs). young h c) \<and> \<not> young h r) \<longrightarrow>
      r \<in> set (gh_remembered (hp_gc (barriers r vs h))))"
proof (induction vs arbitrary: h)
  case (Cons v vs)
  let ?h = "heap_write_barrier r v h"
  note b = barrier_ok [OF Cons(2,3), of v]
  have "live ?h r" using b(2) Cons(3) by blast
  from Cons(1) [OF b(1) this] b(2-) show ?case
    by (auto simp: barriers_def refs_of_def split: if_splits)
qed (simp add: barriers_def refs_of_def)


lemma barrier_obj: "heap_write_barrier r v (h\<lparr>hp_obj := f\<rparr>) = (heap_write_barrier r v h)\<lparr>hp_obj := f\<rparr>"
  by (simp add: heap_write_barrier_def)

lemma barriers_obj: "barriers r vs (h\<lparr>hp_obj := f\<rparr>) = (barriers r vs h)\<lparr>hp_obj := f\<rparr>"
  by (induction vs arbitrary: h) (simp_all add: barriers_def barrier_obj)

lemma barriers_frame:
  "hp_obj (barriers r vs h) = hp_obj h" "hp_scan_roots (barriers r vs h) = hp_scan_roots h"
  "hp_tasks (barriers r vs h) = hp_tasks h" "hp_lazies (barriers r vs h) = hp_lazies h"
  "hp_identity (barriers r vs h) = hp_identity h"
  by (induction vs arbitrary: h) (simp_all add: barriers_def heap_write_barrier_def)

text \<open>A store keeps the kind of an object, its class and its other references.\<close>

lemma from_not_heap [simp]: "refs_of (map from_int ns) = []" "refs_of (map from_f64 xs) = []"
  by (simp_all add: refs_of_def filter_map comp_def)

lemma refs_of_update: "c \<in> set (refs_of (xs[i := v])) \<Longrightarrow> c \<in> set (refs_of xs) \<or> c \<in> set (refs_of [v])"
  using set_update_subset_insert [of xs i v] by (auto simp: refs_of_def split: if_splits)

lemma refs_of_butlast: "c \<in> set (refs_of (butlast xs)) \<Longrightarrow> c \<in> set (refs_of xs)"
  by (auto simp: refs_of_def dest: in_set_butlastD)

lemma array_refs:
  assumes "c \<in> set (refs_of (case as_boxed (run_arr_op a op) of None \<Rightarrow> [] | Some xs \<Rightarrow> xs))"
    "op = OpSet i v \<or> op = OpPush v \<or> op = OpPop"
  shows "c \<in> set (refs_of (case as_boxed a of None \<Rightarrow> [] | Some xs \<Rightarrow> xs)) \<or>
    op \<noteq> OpPop \<and> c \<in> set (refs_of [v])"
  using assms
  by (cases a) (auto simp: migrate_set_def boxed_elems_new_def boxed_push_def Let_def vec_pop_def
      split: if_splits dest!: refs_of_update refs_of_butlast)

lemma alist_update_mem: "x \<in> set (AList.update key v m) \<Longrightarrow> x = (key, v) \<or> x \<in> set m"
  by (induction m) (auto split: if_splits)

lemma stored_kind:
  assumes "stored vs o1 o2"
  shows "needs_minor_scan o2 = needs_minor_scan o1" "\<not> tracked h o1" "obj_class o2 = obj_class o1"
  using assms by (cases rule: stored.cases; simp add: tracked_def)+

lemma map_refs: "c \<in> set (refs_of (concat (map (\<lambda>(key, v). [key, v]) m))) \<longleftrightarrow>
    (\<exists>(key, v) \<in> set m. c \<in> set (refs_of [key, v]))"
  by (auto simp: refs_of_def; force)

lemma stored_refs:
  assumes "stored vs o1 o2" "c \<in> set (refs_of (obj_values h Reach_Major o2))"
  shows "c \<in> set (refs_of (obj_values h Reach_Major o1)) \<or> c \<in> set (refs_of vs)"
  using assms(1)
proof (cases rule: stored.cases)
  case (1 v a i)
  then show ?thesis using assms(2) array_refs [of c a "OpSet i v" i v] by auto
next
  case (2 v a)
  then show ?thesis using assms(2) array_refs [of c a "OpPush v" 0 v] by auto
next
  case (3 a)
  then show ?thesis using assms(2) array_refs [of c a OpPop] by auto
next
  case (7 key v m)
  then show ?thesis using assms(2) by (auto simp: map_refs refs_of_def dest!: alist_update_mem split: if_splits)
next
  case (8 m key)
  then show ?thesis using assms(2) by (auto simp: map_refs AList.delete_eq)
next
  case (10 s v)
  then show ?thesis using assms(2) set_remove1_subset [of v s] by (auto simp: refs_of_def)
qed (use assms(2) in \<open>auto simp: refs_of_def dest!: set_update_subset_insert [THEN subsetD] split: if_splits\<close>)

lemma stored_clean:
  assumes "stored vs o1 o2" "arr_clean S o1"
  shows "arr_clean S o2"
  using assms(1)
proof (cases rule: stored.cases)
  case (1 v a i)
  then show ?thesis using assms(2) run_arr_op_clean [of S a "OpSet i v"] by (auto simp: arr_clean_def)
next
  case (2 v a)
  then show ?thesis using assms(2) run_arr_op_clean [of S a "OpPush v"] by (auto simp: arr_clean_def)
next
  case (3 a)
  then show ?thesis using assms(2) run_arr_op_clean [of S a OpPop] by (auto simp: arr_clean_def)
qed (simp_all add: arr_clean_def)

lemma heap_ok_store:
  assumes ok: "heap_ok h" and r: "live h r" and s: "stored vs (hp_obj h r) o1" and vs: "vals_live h vs"
  shows "heap_ok (barriers r vs (h\<lparr>hp_obj := (hp_obj h)(r := o1)\<rparr>))"
proof -
  let ?b = "barriers r vs h"
  note b = barriers_ok [OF ok r, of vs]
  have ed: "edges_ok h" using ok by (simp add: heap_ok_def)
  have kid: "c \<in> kids h r \<or> c \<in> set (refs_of vs)" if "c \<in> set (children h Reach_Major o1)" for c
    using that stored_refs [OF s, of c h] stored_kind(3) [OF s] by (auto simp: kids_iff children_def class_child_def)
  have ch: "children ?b Reach_Major o2 = children h Reach_Major o2" for o2
    by (rule children_cong) (simp_all add: barriers_frame)
  have ny: "not_young ?b = not_young h" using b by (simp add: not_young_def)
  have "heap_ok (?b\<lparr>hp_obj := (hp_obj ?b)(r := o1)\<rparr>)"
  proof (rule heap_ok_replace [OF _ _ refl])
    show "heap_ok ?b" "live ?b r" using b r by blast+
    show "\<forall>c \<in> set (children ?b Reach_Major o1). live ?b c"
    proof
      fix c assume "c \<in> set (children ?b Reach_Major o1)"
      then have "c \<in> kids h r \<or> c \<in> set (refs_of vs)" using kid unfolding ch by blast
      then have "live h c" using r vs ed unfolding vals_live_def edges_ok_def by blast
      then show "live ?b c" using b by blast
    qed
    show "needs_minor_scan o1 = needs_minor_scan (hp_obj ?b r)"
      using stored_kind(1) [OF s] by (simp add: barriers_frame)
    show "arr_clean (not_young ?b) o1"
      unfolding ny using stored_clean [OF s] ed r by (simp add: edges_ok_def)
    show "visited (?b\<lparr>hp_obj := (hp_obj ?b)(r := o1)\<rparr>) r"
      if y: "\<not> young ?b r" "\<exists>c \<in> set (children ?b Reach_Major o1). young ?b c"
    proof -
      have eqs: "\<forall>q. young ?b q = young h q" using b by blast
      obtain c where "c \<in> set (children h Reach_Major o1)" "young ?b c" using y(2) unfolding ch by blast
      then have c: "c \<in> kids h r \<or> c \<in> set (refs_of vs)" "young h c" using kid eqs by blast+
      have nr: "\<not> young h r" using y(1) eqs by blast
      have "visited h r \<or> c \<in> set (refs_of vs)" using c nr r ed unfolding edges_ok_def by blast
      then have "r \<in> set (gh_remembered (hp_gc ?b)) \<or> r \<in> set (hp_scan_roots h)"
        using b c(2) nr stored_kind(2) [OF s] unfolding visited_def by blast
      then show ?thesis by (auto simp: visited_def barriers_frame)
    qed
  qed
  then show ?thesis by (simp add: barriers_obj barriers_frame)
qed


section \<open>Every step keeps the invariant\<close>

lemma kids_same:
  assumes "obj_values h' Reach_Major (hp_obj h r) = obj_values h Reach_Major (hp_obj h r)"
    "hp_obj h' = hp_obj h" "hp_identity h' = hp_identity h"
  shows "kids h' r = kids h r"
  unfolding kids_def children_def class_child_def assms ..

lemma set_task_frame:
  "hp_obj (set_task c vs h) = hp_obj h" "hp_identity (set_task c vs h) = hp_identity h"
  "hp_tasks (set_task c vs h) = (hp_tasks h)(c := vs)"
  "hp_lazies (set_task c vs h) = hp_lazies h" "hp_gc (set_task c vs h) = hp_gc h"
  "set (hp_young_cells (set_task c vs h)) =
     (if list_ex (is_young (hp_gc h)) vs then insert c (set (hp_young_cells h)) else set (hp_young_cells h))"
  by (simp_all add: set_task_def track_task_def)

lemma heap_ok_values:
  assumes ok: "heap_ok h"
    and same: "hp_gc h' = hp_gc h" "hp_refs h' = hp_refs h" "hp_obj h' = hp_obj h" "hp_born h' = hp_born h"
      "hp_scan_roots h' = hp_scan_roots h" "hp_identity h' = hp_identity h" "hp_native_roots h' = hp_native_roots h"
    and grow: "set (hp_young_cells h) \<subseteq> set (hp_young_cells h')" "set (hp_young_lazies h) \<subseteq> set (hp_young_lazies h')"
    and k: "\<And>r c. live h r \<Longrightarrow> c \<in> kids h' r \<Longrightarrow>
      c \<in> kids h r \<or> live h c \<and> (young h c \<longrightarrow> tracked h' (hp_obj h r))"
  shows "heap_ok h'"
proof -
  have "headers_ok h'" using ok by (simp add: heap_ok_def headers_ok_def same)
  moreover have v: "visited h' r" if "visited h r" for r
    using that grow by (auto simp: visited_def tracked_def same)
  have ed: "edges_ok h" using ok by (simp add: heap_ok_def)
  have "edges_ok h'"
    unfolding edges_ok_def same
  proof (intro conjI allI impI)
    fix r c assume r: "live h r" "c \<in> kids h' r"
    show "live h c" using k [OF r] ed r unfolding edges_ok_def by blast
    show "visited h' r" if y: "\<not> young h r" "young h c"
    proof (cases "c \<in> kids h r")
      case True
      with ed r(1) y have "visited h r" unfolding edges_ok_def by blast
      then show ?thesis by (rule v)
    next
      case False
      with k [OF r] y have "tracked h' (hp_obj h r)" by blast
      then show ?thesis by (simp add: visited_def same)
    qed
  next
    fix r assume "live h r"
    moreover have "not_young h' = not_young h" by (simp add: not_young_def same)
    ultimately show "arr_clean (not_young h') (hp_obj h r)" using ed by (simp add: edges_ok_def)
  qed
  ultimately show ?thesis by (simp add: heap_ok_def)
qed

lemma heap_ok_set_task:
  assumes ok: "heap_ok h" and vs: "vals_live h vs"
  shows "heap_ok (set_task c vs h)"
proof (rule heap_ok_values [OF ok])
  have hd: "headers_ok h" using ok by (simp add: heap_ok_def)
  let ?t = "h\<lparr>hp_tasks := (hp_tasks h)(c := vs)\<rparr>"
  have young: "list_ex (is_young (hp_gc h)) vs \<longleftrightarrow> (\<exists>d \<in> set (refs_of vs). young h d)" by (rule list_ex_young [OF hd])
  fix r d assume r: "live h r" "d \<in> kids (set_task c vs h) r"
  show "d \<in> kids h r \<or> live h d \<and> (young h d \<longrightarrow> tracked (set_task c vs h) (hp_obj h r))"
  proof (cases "hp_obj h r = HO_TaskHandle c")
    case True
    with r have "d \<in> set (refs_of vs)"
      by (simp add: kids_def children_def class_child_def set_task_frame)
    then show ?thesis using vs young True by (auto simp: vals_live_def tracked_def set_task_frame)
  next
    case False
    then have "obj_values (set_task c vs h) Reach_Major (hp_obj h r) = obj_values h Reach_Major (hp_obj h r)"
      by (cases "hp_obj h r") (auto simp: set_task_frame)
    then have "kids (set_task c vs h) r = kids h r" by (rule kids_same) (simp_all add: set_task_frame)
    with r show ?thesis by simp
  qed
qed (auto simp: set_task_def track_task_def)

lemma heap_ok_new_lazy:
  assumes ok: "heap_ok h" and free: "fresh_cell h r" and vs: "vals_live h vs"
    and fresh: "\<forall>q. live h q \<longrightarrow> hp_obj h q \<noteq> HO_Task l"
  shows "heap_ok (new_lazy r l vs h)"
proof -
  let ?t = "track_lazy l (h\<lparr>hp_lazies := (hp_lazies h)(l := vs)\<rparr>)"
  have hd: "headers_ok h" using ok by (simp add: heap_ok_def)
  have frame: "hp_gc ?t = hp_gc h" "hp_obj ?t = hp_obj h" "hp_lazies ?t l = vs" "hp_identity ?t = hp_identity h"
    by (simp_all add: track_lazy_def)
  have "heap_ok ?t"
  proof (rule heap_ok_values [OF ok])
    fix q c assume q: "live h q" "c \<in> kids ?t q"
    then have "hp_obj h q \<noteq> HO_Task l" using fresh by blast
    then have "obj_values ?t Reach_Major (hp_obj h q) = obj_values h Reach_Major (hp_obj h q)"
      by (cases "hp_obj h q") (auto simp: track_lazy_def)
    then have "kids ?t q = kids h q" by (rule kids_same) (simp_all add: track_lazy_def)
    with q show "c \<in> kids h q \<or> live h c \<and> (young h c \<longrightarrow> tracked ?t (hp_obj h q))" by simp
  qed (auto simp: track_lazy_def)
  then have "heap_ok (gc_alloc r (HO_Task l) ?t)"
  proof (rule heap_ok_gc_alloc)
    show "fresh_cell ?t r" using free by (simp add: fresh_cell_def frame)
    show "\<forall>c \<in> set (children ?t Reach_Major (HO_Task l)). live ?t c"
      using vs by (simp add: children_def class_child_def frame vals_live_def)
    show "needs_minor_scan (HO_Task l) \<or> tracked ?t (HO_Task l)"
      if "\<exists>c \<in> set (children ?t Reach_Major (HO_Task l)). young ?t c"
      using that list_ex_young [OF hd, of vs]
      by (auto simp: children_def class_child_def frame tracked_def) (simp add: track_lazy_def)
  qed (simp add: arr_clean_def)
  then show ?thesis by (simp add: new_lazy_def)
qed

lemma heap_ok_str:
  assumes ok: "heap_ok h" and free: "fresh_cell h r"
  shows "heap_ok (snd (alloc_str r s h))"
proof -
  have "heap_ok (gc_alloc r (HO_Str hs) h)" for hs
    by (rule heap_ok_gc_alloc [OF ok free]) (simp_all add: leaf_simps)
  then show ?thesis using ok by (simp add: alloc_str_def alloc_str_view_def split: option.split)
qed

lemma heap_ok_map_key:
  assumes ok: "heap_ok h" and free: "fresh_cell h r"
  shows "heap_ok (snd (canonical_map_key r v h))"
proof -
  have mark: "heap_ok (h\<lparr>hp_obj := (hp_obj h)(q := HO_Str (mark_interned s))\<rparr>)" if "hp_obj h q = HO_Str s" for q s
  proof (cases "live h q")
    case True
    show ?thesis
      by (rule heap_ok_replace [OF ok True refl]) (use that in \<open>auto simp: leaf_simps\<close>)
  next
    case False
    have "children (h\<lparr>hp_obj := (hp_obj h)(q := HO_Str (mark_interned s))\<rparr>) Reach_Major o1 =
        children h Reach_Major o1" for o1 by (rule children_cong) simp_all
    with False ok show ?thesis
      by (auto simp: heap_ok_def headers_ok_def edges_ok_def kids_def visited_def tracked_def not_young_def)
  qed
  have "heap_ok (h\<lparr>hp_obj := (hp_obj h)(q := HO_Str (mark_interned s)), hp_strings := m\<rparr>)"
    if "hp_obj h q = HO_Str s" for q s m
    using mark [OF that] heap_ok_strings by blast
  then show ?thesis
    using ok heap_ok_interned [OF ok free]
    by (simp add: canonical_map_key_def split: heap_obj.split option.split)
qed

lemma heap_ok_update:
  assumes ok: "heap_ok h" and r: "live h r" "needs_minor_scan (hp_obj h r)" "needs_minor_scan o1"
    and kids: "\<forall>c \<in> set (children h Reach_Major o1). live h c"
  shows "heap_ok (h\<lparr>hp_obj := (hp_obj h)(r := o1)\<rparr>)"
proof (rule heap_ok_replace [OF ok r(1) refl kids])
  show "arr_clean (not_young h) o1" using r(3) by (auto simp: arr_clean_def)
  show "visited (h\<lparr>hp_obj := (hp_obj h)(r := o1)\<rparr>) r" if "\<not> young h r"
    using that r ok by (simp add: visited_def heap_ok_def headers_ok_def)
qed (simp add: r)

lemma heap_ok_native:
  assumes ok: "heap_ok h" and n: "\<forall>r \<in> set rs. live h r"
  shows "heap_ok (h\<lparr>hp_native := b, hp_native_roots := rs\<rparr>)"
proof -
  let ?h = "h\<lparr>hp_native := b, hp_native_roots := rs\<rparr>"
  have "children ?h Reach_Major o1 = children h Reach_Major o1" for o1 by (rule children_cong) simp_all
  then show ?thesis
    using ok n by (auto simp: heap_ok_def headers_ok_def edges_ok_def kids_def visited_def tracked_def not_young_def)
qed

lemma native_live: "heap_ok h \<Longrightarrow> \<forall>r \<in> set (hp_native_roots h). live h r"
  by (simp add: heap_ok_def headers_ok_def)

lemma minor_step_ok: "heap_ok h \<Longrightarrow> \<forall>r \<in> set roots. live h r \<Longrightarrow> heap_ok (minor_gc (roots @ hp_native_roots h) h)"
  using native_live by (intro minor_gc_ok) auto

lemma major_step_ok: "heap_ok h \<Longrightarrow> \<forall>r \<in> set roots. live h r \<Longrightarrow> heap_ok (snd (collect (roots @ hp_native_roots h) h))"
  by (rule collect_ok [OF _ _ _ prod.collapse [symmetric]]) (use native_live in auto)

lemma heap_ok_step: "gc_step h h' \<Longrightarrow> heap_ok h \<Longrightarrow> heap_ok h'"
proof (induction rule: gc_step.induct)
  case (Enter h)
  then show ?case using heap_ok_native [OF Enter native_live] by (simp add: enter_native_def)
next
  case (Exit h scope)
  have "\<forall>r \<in> set (take (snd scope) (hp_native_roots h)). live h r"
    using native_live [OF Exit] by (blast dest: in_set_takeD)
  from heap_ok_native [OF Exit this] show ?case by (simp add: exit_native_def)
next
  case (Suspend h)
  then show ?case using heap_ok_native [OF Suspend native_live] by (simp add: suspend_native_def)
next
  case (Resume result h b)
  have "\<forall>r \<in> set (hp_native_roots h @ (case result of Some r \<Rightarrow> if b then [r] else [] | None \<Rightarrow> [])). live h r"
    using native_live [OF Resume(2)] Resume(1) by (auto split: option.splits if_splits)
  from heap_ok_native [OF Resume(2) this] show ?case by (simp add: resume_native_def)
qed (auto intro: heap_ok_birth heap_ok_new_lazy heap_ok_str heap_ok_interned heap_ok_map_key heap_ok_store
    heap_ok_update heap_ok_set_task minor_step_ok major_step_ok)

lemma heap_ok_init: "heap_ok (gc_init limit n)"
  by (simp add: heap_ok_def headers_ok_def edges_ok_def gc_init_def)

lemma gc_reach_ok: "gc_reach h \<Longrightarrow> heap_ok h"
  by (induction rule: gc_reach.induct) (auto intro: heap_ok_init heap_ok_step)

end
