(* ===== verification/Gc_Program.thy ===== *)
theory Gc_Program
  imports Gc_System
begin

text \<open>
  The program that runs on the heap. It holds a set of references, in its registers, on its
  stack and in its globals, and it only works with those: it gets one from an allocation, from
  the answer of an interner, or by reading an object it holds, it stores only values it holds,
  and a collection starts from all it holds. That the values it stores are live is proved here
  and not assumed. The one restriction is on map keys: a string that \<open>canonical_map_key\<close> enters
  into the interner itself is not young, since the code lets such an entry outlive its cell.
\<close>

section \<open>Steps\<close>

definition holds :: "u64 set \<Rightarrow> vm_value list \<Rightarrow> bool" where
  "holds H vs \<longleftrightarrow> set (refs_of vs) \<subseteq> H"

definition born_from :: "gc_heap \<Rightarrow> u64 set \<Rightarrow> heap_obj \<Rightarrow> bool" where
  "born_from h H o1 \<longleftrightarrow> arr_clean {} o1 \<and> holds H (obj_values h Reach_Major o1) \<and>
     (\<forall>l. o1 \<noteq> HO_Task l) \<and>
     (\<forall>c. o1 = HO_TaskHandle c \<longrightarrow>
        c \<in> set (hp_young_cells h) \<or> \<not> list_ex (is_young (hp_gc h)) (hp_tasks h c))"

definition key_settled :: "gc_heap \<Rightarrow> vm_value \<Rightarrow> bool" where
  "key_settled h v \<longleftrightarrow>
     (\<forall>s. is_heap v \<longrightarrow> hp_obj h (as_heap v) = HO_Str s \<longrightarrow> was_shared s \<longrightarrow> \<not> is_interned s \<longrightarrow>
        state_of (hp_gc h) (as_heap v) \<noteq> Young)"

text \<open>What is held after an answer.\<close>

definition with_answer :: "u64 set \<Rightarrow> vm_value \<times> gc_heap \<Rightarrow> gc_heap \<times> u64 set" where
  "with_answer H a = (snd a, H \<union> set (refs_of [fst a]))"

definition rooted :: "u64 set \<Rightarrow> u64 list \<Rightarrow> gc_heap \<Rightarrow> bool" where
  "rooted H roots h \<longleftrightarrow> set roots \<subseteq> H \<and> H \<subseteq> set roots \<union> set (hp_native_roots h)"

inductive prog_step :: "gc_heap \<times> u64 set \<Rightarrow> gc_heap \<times> u64 set \<Rightarrow> bool" where
  Drop: "H' \<subseteq> H \<Longrightarrow> prog_step (h, H) (h, H')"
| Load: "r \<in> H \<Longrightarrow> c \<in> kids h r \<Longrightarrow> prog_step (h, H) (h, insert c H)"
| Lookup: "holds H [v] \<Longrightarrow> lookup_map_key h v = Some k \<Longrightarrow> prog_step (h, H) (with_answer H (k, h))"
| Alloc: "fresh_cell h r \<Longrightarrow> born_from h H o1 \<Longrightarrow> prog_step (h, H) (gc_alloc r o1 h, insert r H)"
| New_Lazy: "fresh_cell h r \<Longrightarrow> holds H vs \<Longrightarrow> (\<forall>q. live h q \<longrightarrow> hp_obj h q \<noteq> HO_Task l) \<Longrightarrow>
    prog_step (h, H) (new_lazy r l vs h, insert r H)"
| Str: "fresh_cell h r \<Longrightarrow> prog_step (h, H) (with_answer H (alloc_str r s h))"
| Intern: "fresh_cell h r \<Longrightarrow> prog_step (h, H) (with_answer H (alloc_str_interned r s h))"
| Char: "fresh_cell h r \<Longrightarrow> prog_step (h, H) (with_answer H (alloc_char r c h))"
| Bigint: "fresh_cell h r \<Longrightarrow> prog_step (h, H) (with_answer H (alloc_bigint r n h))"
| Decimal: "fresh_cell h r \<Longrightarrow> prog_step (h, H) (with_answer H (intern_decimal r d h))"
| Map_Key: "fresh_cell h r \<Longrightarrow> holds H [v] \<Longrightarrow> key_settled h v \<Longrightarrow>
    prog_step (h, H) (with_answer H (canonical_map_key r v h))"
| Store: "r \<in> H \<Longrightarrow> stored vs (hp_obj h r) o1 \<Longrightarrow> holds H vs \<Longrightarrow>
    prog_step (h, H) (barriers r vs (h\<lparr>hp_obj := (hp_obj h)(r := o1)\<rparr>), H)"
| Update: "r \<in> H \<Longrightarrow> needs_minor_scan (hp_obj h r) \<Longrightarrow> needs_minor_scan o1 \<Longrightarrow>
    holds (H \<union> kids h r) (obj_values h Reach_Major o1) \<Longrightarrow>
    prog_step (h, H) (h\<lparr>hp_obj := (hp_obj h)(r := o1)\<rparr>, H)"
| Set_Task: "holds H vs \<Longrightarrow> prog_step (h, H) (set_task c vs h, H)"
| Enter: "prog_step (h, H) (snd (enter_native h), H)"
| Exit: "prog_step (h, H) (exit_native scope h, H)"
| Suspend: "prog_step (h, H) (snd (suspend_native h), H)"
| Resume: "(\<forall>r. result = Some r \<longrightarrow> r \<in> H) \<Longrightarrow> prog_step (h, H) (resume_native b result h, H)"
| Minor: "rooted H roots h \<Longrightarrow> prog_step (h, H) (minor_gc (roots @ hp_native_roots h) h, H)"
| Major: "rooted H roots h \<Longrightarrow> prog_step (h, H) (snd (collect (roots @ hp_native_roots h) h), H)"

inductive prog_reach :: "gc_heap \<Rightarrow> u64 set \<Rightarrow> bool" where
  Init: "prog_reach (gc_init limit floor_size) {}"
| Step: "prog_reach h H \<Longrightarrow> prog_step (h, H) (h', H') \<Longrightarrow> prog_reach h' H'"

section \<open>The tables of the interners\<close>

definition interners :: "gc_heap \<Rightarrow>
    (u8 list \<Rightarrow> u64 option) \<times> (32 word \<Rightarrow> u64 option) \<times> (int \<Rightarrow> u64 option) \<times> (dec \<Rightarrow> u64 option)" where
  "interners h = (hp_strings h, hp_chars h, hp_bigints h, hp_decimals h)"

definition interned :: "gc_heap \<Rightarrow> u64 set" where
  "interned h = ran (hp_strings h) \<union> ran (hp_chars h) \<union> ran (hp_bigints h) \<union> ran (hp_decimals h)"

definition tables_ok :: "gc_heap \<Rightarrow> bool" where
  "tables_ok h \<longleftrightarrow> (\<forall>q \<in> interned h. live h q \<and> \<not> young h q)"

lemma interned_cong: "interners h' = interners h \<Longrightarrow> interned h' = interned h"
  by (simp add: interners_def interned_def)

lemma internedI:
  "hp_strings h s = Some q \<Longrightarrow> q \<in> interned h" "hp_chars h c = Some q \<Longrightarrow> q \<in> interned h"
  "hp_bigints h n = Some q \<Longrightarrow> q \<in> interned h" "hp_decimals h d = Some q \<Longrightarrow> q \<in> interned h"
  by (auto simp: interned_def intro: ranI)

text \<open>The marking phases and the sweep of a minor collection do not look at the tables.\<close>

lemma interners_marks [simp]:
  "interners (fst (mark_all rs hw)) = interners (fst hw)"
  "interners (fst (mark_children r hw)) = interners (fst hw)"
  "interners (fst (scan_remembered r hw)) = interners (fst hw)"
  by (auto simp: interners_def mark_all_def mark_children_def scan_remembered_def Let_def split: prod.splits)

lemma interners_fold:
  "(\<And>x hw. interners (fst (f x hw)) = interners (fst hw)) \<Longrightarrow> interners (fst (fold f xs hw)) = interners (fst hw)"
  by (induction xs arbitrary: hw) simp_all

lemma interners_loop: "interners (minor_loop hw) = interners (fst hw)"
  by (induction hw rule: minor_loop.induct) simp_all

lemma interners_marked: "interners (fst (minor_marks roots h)) = interners h"
proof -
  have eqs: "interners (g\<lparr>hp_gc := x\<rparr>) = interners g" "interners (g\<lparr>hp_minor_count := n\<rparr>) = interners g"
    "interners (g\<lparr>hp_young_cells := cs, hp_young_lazies := ls\<rparr>) = interners g" for g x n cs ls
    by (simp_all add: interners_def)
  show ?thesis by (simp add: minor_marks_def Let_def eqs interners_fold)
qed

lemma interners_sweep: "interners (sweep_one r h) = interners h"
  by (simp add: sweep_one_def promote_def track_scan_def release_def interners_def Let_def split: slot_state.split)

lemma interners_minor: "interners (minor_gc roots h) = interners h"
proof -
  have "interners (fold sweep_one rs g) = interners g" for rs g
    by (induction rs arbitrary: g) (simp_all add: interners_sweep)
  moreover have "interners (g\<lparr>hp_retired := n, hp_born := []\<rparr>) = interners g" for g n
    by (simp add: interners_def)
  ultimately show ?thesis
    by (simp add: minor_gc_def sweep_young_def Let_def interners_loop interners_marked)
qed

lemma minor_gc_old:
  assumes ok: "heap_ok h" and roots: "set (hp_native_roots h) \<subseteq> set roots"
    and q: "live h q" "\<not> young h q"
  shows "hbyte (minor_gc roots h) q = 1"
proof -
  have hd: "headers_ok h" using ok by (simp add: heap_ok_def)
  obtain M where M: "marked_ok h roots M"
    and b: "\<And>r. hbyte (minor_gc roots h) r = (if hbyte M r = 4 then 1 else if hbyte M r = 3 then 0 else hbyte M r)"
    using minor_gc_effect [OF ok roots] by blast
  have m: "marking h M {} {}" "hbyte M q \<noteq> 2" using M by (simp_all add: marked_ok_def)
  have "byte_step (hbyte h q) (hbyte M q)" using m(1) unfolding marking_def by blast
  then have "hbyte M q = 1"
    using q m(2) marking_bytes(1) [OF m(1) hd, of q] hd
    by (auto simp: byte_step_def headers_ok_def dest!: spec [of _ q])
  then show ?thesis by (simp add: b)
qed

section \<open>What a step does to held references and to the tables\<close>

definition keeps_cells :: "gc_heap \<Rightarrow> gc_heap \<Rightarrow> bool" where
  "keeps_cells h h' \<longleftrightarrow> (\<forall>q. live h q \<longrightarrow> live h' q \<and> (\<not> young h q \<longrightarrow> \<not> young h' q))"

definition answer_ok :: "gc_heap \<Rightarrow> vm_value \<times> gc_heap \<Rightarrow> bool" where
  "answer_ok h a \<longleftrightarrow>
     keeps_cells h (snd a) \<and> tables_ok (snd a) \<and> (\<forall>c \<in> set (refs_of [fst a]). live (snd a) c)"

lemma keeps_same: "hp_gc h' = hp_gc h \<Longrightarrow> keeps_cells h h'"
  by (simp add: keeps_cells_def)

lemma keeps_birth:
  "fresh_cell h r \<Longrightarrow> (\<And>q. q \<noteq> r \<Longrightarrow> hbyte h' q = hbyte h q) \<Longrightarrow> keeps_cells h h'"
  by (auto simp: keeps_cells_def fresh_cell_def) metis+

lemma tables_keep: "tables_ok h \<Longrightarrow> keeps_cells h h' \<Longrightarrow> interned h' = interned h \<Longrightarrow> tables_ok h'"
  by (auto simp: tables_ok_def keeps_cells_def)

lemma ran_upd: "ran (m(k \<mapsto> r)) \<subseteq> insert r (ran m)"
  by (auto simp: ran_def)

lemma answer_here: "tables_ok h \<Longrightarrow> set (refs_of [v]) \<subseteq> {r. live h r} \<Longrightarrow> answer_ok h (v, h)"
  by (auto simp: answer_ok_def keeps_cells_def)

lemma answer_known: "tables_ok h \<Longrightarrow> q \<in> interned h \<Longrightarrow> answer_ok h (from_heap q, h)"
  by (rule answer_here) (auto simp: tables_ok_def refs_of_def)

lemma answer_new:
  assumes "tables_ok h" "fresh_cell h r" "hbyte h' r = 1" "\<And>q. q \<noteq> r \<Longrightarrow> hbyte h' q = hbyte h q"
    and "interned h' \<subseteq> insert r (interned h)"
  shows "answer_ok h (from_heap r, h')"
proof -
  have k: "keeps_cells h h'" by (rule keeps_birth [OF assms(2,4)])
  have "live h' q \<and> \<not> young h' q" if "q \<in> interned h'" for q
    using that assms(1,3,5) k by (cases "q = r") (auto simp: tables_ok_def keeps_cells_def)
  with k assms(3) show ?thesis by (auto simp: answer_ok_def tables_ok_def refs_of_def)
qed

lemma take_cell_bytes [simp]: "hbyte (take_cell r o1 st h) q = (if q = r then slot_as_u8 st else hbyte h q)"
  by (simp add: take_cell_def)

lemma gc_alloc_bytes:
  "hbyte (gc_alloc r o1 h) q = (if q = r then slot_as_u8 (if born_old o1 then Old else Young) else hbyte h q)"
  by (simp add: gc_alloc_def alloc_old_def track_scan_def take_cell_def Let_def)

lemma gc_alloc_tables: "interned (gc_alloc r o1 h) = interned h"
  by (rule interned_cong) (simp add: gc_alloc_def alloc_old_def track_scan_def take_cell_def interners_def Let_def)

lemma take_cell_tables [simp]:
  "hp_strings (take_cell r o1 st h) = hp_strings h" "hp_chars (take_cell r o1 st h) = hp_chars h"
  "hp_bigints (take_cell r o1 st h) = hp_bigints h" "hp_decimals (take_cell r o1 st h) = hp_decimals h"
  by (simp_all add: take_cell_def)

lemma sso_no_ref: "try_from_sso s = Some v \<Longrightarrow> set (refs_of [v]) = {}"
  using try_from_sso_Some [of s v] by (auto simp: refs_of_def is_heap_def is_sso_def kind_defs)

lemma answers_ok:
  assumes t: "tables_ok h" and free: "fresh_cell h r"
  shows "answer_ok h (alloc_str r s h)" "answer_ok h (alloc_str_interned r s h)"
    and "answer_ok h (alloc_char r c h)" "answer_ok h (alloc_bigint r n h)" "answer_ok h (intern_decimal r d h)"
proof -
  note new = answer_new [OF t free] and known = answer_known [OF t]
  have sso: "answer_ok h (v, h)" if "try_from_sso s = Some v" for v s
    by (rule answer_here [OF t]) (simp add: sso_no_ref [OF that])
  have "keeps_cells h (gc_alloc r (HO_Str hs) h)" for hs
    by (rule keeps_birth [OF free]) (simp add: gc_alloc_bytes)
  then have fresh: "answer_ok h (from_heap r, gc_alloc r (HO_Str hs) h)" for hs
    using t tables_keep [OF t _ gc_alloc_tables] by (simp add: answer_ok_def refs_of_def gc_alloc_bytes)
  show "answer_ok h (alloc_str r s h)"
    using sso known fresh by (auto simp: alloc_str_def alloc_str_view_def split: option.split intro: internedI)
  show "answer_ok h (alloc_str_interned r s h)"
    using sso known ran_upd [of "hp_strings h" s r]
    by (auto simp: alloc_str_interned_def split: option.split intro!: new intro: internedI) (auto simp: interned_def)
  show "answer_ok h (alloc_char r c h)"
    using known ran_upd [of "hp_chars h" c r]
    by (auto simp: alloc_char_def split: option.split intro!: new intro: internedI) (auto simp: interned_def)
  show "answer_ok h (alloc_bigint r n h)"
    using known ran_upd [of "hp_bigints h" n r]
    by (auto simp: alloc_bigint_def split: option.split intro!: new intro: internedI) (auto simp: interned_def)
  show "answer_ok h (intern_decimal r d h)"
    using known ran_upd [of "hp_decimals h" d r]
    by (auto simp: intern_decimal_def split: option.split intro!: new intro: internedI) (auto simp: interned_def)
qed

lemma map_key_ok:
  assumes t: "tables_ok h" and free: "fresh_cell h r" and v: "set (refs_of [v]) \<subseteq> {r. live h r}"
    and settled: "key_settled h v"
  shows "answer_ok h (canonical_map_key r v h)"
proof -
  note a = answers_ok [OF t free] and here = answer_here [OF t v]
  have mark: "answer_ok h (v, h\<lparr>hp_obj := f, hp_strings := (hp_strings h)(s \<mapsto> as_heap v)\<rparr>)"
    if "is_heap v" "state_of (hp_gc h) (as_heap v) \<noteq> Young" for f s
  proof -
    let ?h = "h\<lparr>hp_obj := f, hp_strings := (hp_strings h)(s \<mapsto> as_heap v)\<rparr>"
    have q: "live h (as_heap v)" "\<not> young h (as_heap v)"
      using that v by (auto simp: refs_of_def state_of_def)
    have "interned ?h \<subseteq> insert (as_heap v) (interned h)"
      using ran_upd [of "hp_strings h" s "as_heap v"] by (auto simp: interned_def)
    with t q have "tables_ok ?h" by (auto simp: tables_ok_def)
    with v show ?thesis by (auto simp: answer_ok_def keeps_cells_def)
  qed
  have key: "answer_ok h (k, h)" if "lookup_str_map_key h s = Some k" for k s
    using that answer_known [OF t] answer_here [OF t] sso_no_ref
    by (fastforce simp: lookup_str_map_key_def split: option.splits intro: internedI)
  have zero: "answer_ok h (from_f64 0, h)" by (rule answer_here [OF t]) (simp add: refs_of_def)
  show ?thesis
    using a here mark key zero settled
    by (auto simp: canonical_map_key_def key_settled_def split: heap_obj.split option.split)
qed

lemma lookup_ok:
  assumes t: "tables_ok h" and v: "set (refs_of [v]) \<subseteq> {r. live h r}" and k: "lookup_map_key h v = Some k"
  shows "answer_ok h (k, h)"
proof -
  have key: "answer_ok h (k, h)" if "lookup_str_map_key h s = Some k" for s
    using that answer_known [OF t] answer_here [OF t] sso_no_ref
    by (fastforce simp: lookup_str_map_key_def split: option.splits intro: internedI)
  have zero: "answer_ok h (from_f64 0, h)" by (rule answer_here [OF t]) (simp add: refs_of_def)
  show ?thesis
    using k key zero answer_here [OF t v] answer_known [OF t]
    by (auto simp: lookup_map_key_def split: if_splits heap_obj.splits intro: internedI)
qed

section \<open>Every step keeps held references live\<close>

definition prog_ok :: "gc_heap \<times> u64 set \<Rightarrow> bool" where
  "prog_ok a \<longleftrightarrow> gc_reach (fst a) \<and> (\<forall>r \<in> snd a. live (fst a) r) \<and> tables_ok (fst a)"

lemma holds_live: "prog_ok (h, H) \<Longrightarrow> holds H vs \<Longrightarrow> vals_live h vs"
  by (auto simp: prog_ok_def holds_def vals_live_def)

lemma class_child_live: "prog_ok (h, H) \<Longrightarrow> c \<in> set (class_child h o1) \<Longrightarrow> live h c"
  using gc_reach_ok [of h] class_child_identity [of c h o1]
  by (auto simp: prog_ok_def heap_ok_def headers_ok_def)

lemma held_children_live:
  assumes "prog_ok (h, H)" "holds H (obj_values h Reach_Major o1)"
  shows "\<forall>c \<in> set (children h Reach_Major o1). live h c"
  using class_child_live [OF assms(1)] holds_live [OF assms] by (auto simp: children_def vals_live_def)

lemma kids_live: "prog_ok (h, H) \<Longrightarrow> live h r \<Longrightarrow> c \<in> kids h r \<Longrightarrow> live h c"
  using gc_reach_ok [of h] by (auto simp: prog_ok_def heap_ok_def edges_ok_def)

lemma keep_step:
  assumes "prog_ok (h, H)" "gc_step h h'" "keeps_cells h h'" "interned h' = interned h"
    and "H' \<subseteq> H \<union> N" "\<forall>r \<in> N. live h' r"
  shows "prog_ok (h', H')"
proof -
  have "live h' r" if "r \<in> H'" for r
    using that assms(1,3,5,6) by (auto simp: prog_ok_def keeps_cells_def)
  with assms(1-4) show ?thesis by (auto simp: prog_ok_def intro: gc_reach.Step tables_keep)
qed

lemma answer_step:
  assumes "prog_ok (h, H)" "gc_step h (snd a)" "answer_ok h a"
  shows "prog_ok (with_answer H a)"
  using assms by (auto simp: prog_ok_def with_answer_def answer_ok_def keeps_cells_def intro: gc_reach.Step)

lemma birth_step:
  assumes "prog_ok (h, H)" "gc_step h (gc_alloc r o1 h0)" "fresh_cell h r" "hp_gc h0 = hp_gc h" "interners h0 = interners h"
  shows "prog_ok (gc_alloc r o1 h0, insert r H)"
proof (rule keep_step [OF assms(1,2)])
  show "keeps_cells h (gc_alloc r o1 h0)"
    by (rule keeps_birth [OF assms(3)]) (simp add: gc_alloc_bytes assms(4))
  show "interned (gc_alloc r o1 h0) = interned h"
    using interned_cong [OF assms(5)] by (simp add: gc_alloc_tables)
  show "insert r H \<subseteq> H \<union> {r}" by blast
qed (simp add: gc_alloc_bytes)

lemma interners_barriers: "interners (barriers r vs h) = interners h"
proof (induction vs arbitrary: h)
  case (Cons v vs)
  have "interners (heap_write_barrier r v h) = interners h" by (simp add: heap_write_barrier_def interners_def)
  with Cons [of "heap_write_barrier r v h"] show ?case by (simp add: barriers_def)
qed (simp add: barriers_def)

lemma prog_step_store:
  assumes ok: "prog_ok (h, H)" and r: "r \<in> H" and s: "stored vs (hp_obj h r) o1" and vs: "holds H vs"
  shows "prog_ok (barriers r vs (h\<lparr>hp_obj := (hp_obj h)(r := o1)\<rparr>), H)"
proof -
  let ?h = "barriers r vs (h\<lparr>hp_obj := (hp_obj h)(r := o1)\<rparr>)"
  have live: "live h r" "heap_ok h" using ok r gc_reach_ok by (auto simp: prog_ok_def)
  have "hp_gc ?h = hp_gc (barriers r vs h)" by (simp add: barriers_obj)
  with barriers_ok [OF live(2,1), of vs] have "keeps_cells h ?h" by (simp add: keeps_cells_def)
  moreover have "interned ?h = interned h"
    by (intro interned_cong) (simp add: interners_barriers, simp add: interners_def)
  moreover have "gc_step h ?h" by (rule gc_step.Store [OF live(1) s holds_live [OF ok vs]])
  ultimately show ?thesis using keep_step [OF ok, of ?h H "{}"] by simp
qed

lemma prog_step_minor:
  assumes ok: "prog_ok (h, H)" and roots: "rooted H roots h"
  shows "prog_ok (minor_gc (roots @ hp_native_roots h) h, H)"
proof -
  let ?h = "minor_gc (roots @ hp_native_roots h) h"
  have hp: "heap_ok h" using ok gc_reach_ok by (simp add: prog_ok_def)
  have rl: "\<forall>r \<in> set roots. live h r" using ok roots by (auto simp: prog_ok_def rooted_def)
  then have al: "\<forall>r \<in> set (roots @ hp_native_roots h). live h r" using native_live [OF hp] by auto
  have "hbyte ?h r = 1" if "r \<in> H" for r
    using minor_gc_keeps [OF hp _ al, of r] reaches.Root [of r "roots @ hp_native_roots h" h] that roots
    by (auto simp: rooted_def)
  moreover have "tables_ok ?h"
  proof -
    have "hbyte ?h q = 1" if "q \<in> interned h" for q
      using that ok by (intro minor_gc_old [OF hp]) (auto simp: prog_ok_def tables_ok_def)
    then show ?thesis by (simp add: tables_ok_def interned_cong [OF interners_minor])
  qed
  moreover have "gc_reach ?h" using ok gc_step.Minor [OF rl] by (auto simp: prog_ok_def intro: gc_reach.Step)
  ultimately show ?thesis by (simp add: prog_ok_def)
qed

lemma prog_step_major:
  assumes ok: "prog_ok (h, H)" and roots: "rooted H roots h"
  shows "prog_ok (snd (collect (roots @ hp_native_roots h) h), H)"
proof -
  obtain freed h' where c: "collect (roots @ hp_native_roots h) h = (freed, h')" by fastforce
  have hp: "heap_ok h" using ok gc_reach_ok by (simp add: prog_ok_def)
  have rl: "\<forall>r \<in> set roots. live h r" using ok roots by (auto simp: prog_ok_def rooted_def)
  then have al: "\<forall>r \<in> set (roots @ hp_native_roots h). live h r" using native_live [OF hp] by auto
  note e = collect_effect [OF hp al c]
  have "hbyte h' r = 1" if "r \<in> H" for r
    using e(1) [of r] reaches.Root [of r "roots @ hp_native_roots h" h] that roots by (auto simp: rooted_def)
  moreover have "tables_ok h'"
  proof -
    have "hbyte h' q = 1" if "q \<in> interned h'" for q
      using that e(1) [of q] e(9-12) by (auto simp: interned_def ran_def)
    then show ?thesis by (simp add: tables_ok_def)
  qed
  moreover have "gc_reach h'" using ok gc_step.Major [OF rl] c by (auto simp: prog_ok_def intro: gc_reach.Step)
  ultimately show ?thesis by (simp add: prog_ok_def c)
qed

lemma prog_step_ok:
  assumes "prog_step a b" "prog_ok a"
  shows "prog_ok b"
  using assms
proof (induction rule: prog_step.induct)
  case (Drop H' H h)
  then show ?case by (auto simp: prog_ok_def)
next
  case (Load r H c h)
  then show ?case using kids_live [OF Load(3)] by (auto simp: prog_ok_def)
next
  case (Lookup H v h k)
  then have "answer_ok h (k, h)"
    by (intro lookup_ok) (auto simp: prog_ok_def holds_def)
  with Lookup(3) show ?case by (auto simp: prog_ok_def with_answer_def answer_ok_def)
next
  case (Alloc h r H o1)
  have "birth_ok h o1"
    using Alloc(2) held_children_live [OF Alloc(3), of o1] by (simp add: born_from_def birth_ok_def)
  then show ?case using birth_step [OF Alloc(3) gc_step.Alloc [OF Alloc(1)]] Alloc(1) by simp
next
  case (New_Lazy h r H vs l)
  let ?t = "track_lazy l (h\<lparr>hp_lazies := (hp_lazies h)(l := vs)\<rparr>)"
  have "gc_step h (gc_alloc r (HO_Task l) ?t)"
    using gc_step.New_Lazy [OF New_Lazy(1) holds_live [OF New_Lazy(4,2)] New_Lazy(3)] by (simp add: new_lazy_def)
  moreover have "hp_gc ?t = hp_gc h" "interners ?t = interners h" by (simp_all add: track_lazy_def interners_def)
  ultimately show ?case using birth_step [OF New_Lazy(4) _ New_Lazy(1)] by (simp add: new_lazy_def)
next
  case (Str h r H s)
  then show ?case using answer_step [OF Str(2) gc_step.Str] answers_ok(1) by (simp add: prog_ok_def)
next
  case (Intern h r H s)
  then show ?case using answer_step [OF Intern(2) gc_step.Intern] answers_ok(2) by (simp add: prog_ok_def)
next
  case (Char h r H c)
  then show ?case using answer_step [OF Char(2) gc_step.Char] answers_ok(3) by (simp add: prog_ok_def)
next
  case (Bigint h r H n)
  then show ?case using answer_step [OF Bigint(2) gc_step.Bigint] answers_ok(4) by (simp add: prog_ok_def)
next
  case (Decimal h r H d)
  then show ?case using answer_step [OF Decimal(2) gc_step.Decimal] answers_ok(5) by (simp add: prog_ok_def)
next
  case (Map_Key h r H v)
  have "answer_ok h (canonical_map_key r v h)"
    using Map_Key by (intro map_key_ok) (auto simp: prog_ok_def holds_def)
  then show ?case by (rule answer_step [OF Map_Key(4) gc_step.Map_Key [OF Map_Key(1)]])
next
  case (Store r H vs h o1)
  then show ?case by (intro prog_step_store)
next
  case (Update r H h o1)
  let ?h = "h\<lparr>hp_obj := (hp_obj h)(r := o1)\<rparr>"
  have r: "live h r" using Update by (auto simp: prog_ok_def)
  then have "prog_ok (h, H \<union> kids h r)" using Update(5) kids_live [OF Update(5)] by (auto simp: prog_ok_def)
  from gc_step.Update [OF r Update(2,3) held_children_live [OF this Update(4)]]
  have "gc_step h ?h" .
  moreover have "interned ?h = interned h" by (rule interned_cong) (simp add: interners_def)
  ultimately show ?case using keep_step [OF Update(5), of ?h H "{}"] by (simp add: keeps_same)
next
  case (Set_Task H vs h c)
  let ?h = "set_task c vs h"
  have "interned ?h = interned h" by (rule interned_cong) (simp add: interners_def set_task_def track_task_def)
  then show ?case
    using keep_step [OF Set_Task(2) gc_step.Set_Task [OF holds_live [OF Set_Task(2,1)]], of c H "{}"]
    by (simp add: keeps_same set_task_frame)
next
  case (Enter h H)
  then show ?case
    using keep_step [OF Enter gc_step.Enter, of H "{}"]
    by (simp add: keeps_same enter_native_def interned_def)
next
  case (Exit h H scope)
  then show ?case
    using keep_step [OF Exit gc_step.Exit, of scope H "{}"]
    by (simp add: keeps_same exit_native_def interned_def)
next
  case (Suspend h H)
  then show ?case
    using keep_step [OF Suspend gc_step.Suspend, of H "{}"]
    by (simp add: keeps_same suspend_native_def interned_def)
next
  case (Resume result H h b)
  have "\<forall>r. result = Some r \<longrightarrow> live h r" using Resume by (auto simp: prog_ok_def)
  from keep_step [OF Resume(2) gc_step.Resume [OF this], of b H "{}"] show ?case
    by (simp add: keeps_same resume_native_def interned_def)
next
  case (Minor H roots h)
  then show ?case by (intro prog_step_minor)
next
  case (Major H roots h)
  then show ?case by (intro prog_step_major)
qed

lemma prog_reach_ok: "prog_reach h H \<Longrightarrow> prog_ok (h, H)"
proof (induction rule: prog_reach.induct)
  case (Init limit floor_size)
  have "interned (gc_init limit floor_size) = {}" by (simp add: interned_def gc_init_def)
  then show ?case by (simp add: prog_ok_def tables_ok_def gc_reach.Init)
next
  case (Step h H h' H')
  then show ?case using prog_step_ok by blast
qed

end
