(* ===== verification/Gc_Props.thy ===== *)
theory Gc_Props
  imports Gc_Program
begin

text \<open>
  What holds of the heap in every state its operations reach, and what the two collections do
  there. The last section shows an entry of the string interner that outlives its cell.
\<close>

section \<open>Runs used as examples\<close>

text \<open>An array that holds a young string, and a string nobody refers to.\<close>

definition demo_text :: "u8 list" where
  "demo_text = replicate 40 65"

definition demo_h1 :: gc_heap where
  "demo_h1 = gc_alloc 32 (HO_Str (str_shared demo_text)) (gc_alloc 16 (HO_Str (str_shared demo_text)) (gc_init 4 4))"

definition demo_h2 :: gc_heap where
  "demo_h2 = gc_alloc 48 (HO_Array (arr_boxed [from_heap 16])) demo_h1"

lemma demo_h1_reach: "gc_reach demo_h1"
proof -
  have leaf: "birth_ok h (HO_Str s)" for h s
    by (simp add: birth_ok_def leaf_simps)
  have "gc_reach (gc_alloc 16 (HO_Str (str_shared demo_text)) (gc_init 4 4))"
    by (rule gc_reach.Step [OF gc_reach.Init gc_step.Alloc [OF _ leaf]]) (simp add: fresh_cell_def gc_init_def)
  then show ?thesis
    unfolding demo_h1_def
    by (rule gc_reach.Step [OF _ gc_step.Alloc [OF _ leaf]])
       (simp add: fresh_cell_def gc_init_def gc_alloc_def take_cell_def)
qed

lemmas demo_heap = demo_h2_def demo_h1_def gc_init_def gc_alloc_def take_cell_def

lemma demo_h2_reach: "gc_reach demo_h2"
  unfolding demo_h2_def
  by (rule gc_reach.Step [OF demo_h1_reach gc_step.Alloc])
     (simp_all add: fresh_cell_def birth_ok_def leaf_simps arr_boxed_def boxed_elems_new_def demo_h1_def
       gc_init_def gc_alloc_def take_cell_def)

lemma demo_h2_states:
  "live demo_h2 48" "live demo_h2 32" "hp_obj demo_h2 48 = HO_Array (arr_boxed [from_heap 16])"
  "hp_native_roots demo_h2 = []" "hbyte demo_h2 32 = 3" "hbyte demo_h2 16 = 3" "hbyte demo_h2 48 = 3"
  by (simp_all add: demo_heap)

lemma demo_h2_kids: "kids demo_h2 48 = {16}" "reaches demo_h2 [48] 16"
proof -
  show k: "kids demo_h2 48 = {16}"
    by (simp add: kids_def demo_h2_states leaf_simps arr_boxed_def boxed_elems_new_def)
  show "reaches demo_h2 [48] 16"
    by (rule reaches.Kid [OF reaches.Root, of 48]) (simp_all add: k)
qed

lemma demo_h2_not: "\<not> reaches demo_h2 [48] 32"
proof -
  have k: "kids demo_h2 16 = {}" by (simp add: kids_def demo_heap leaf_simps)
  have "r = 48 \<or> r = 16" if "reaches demo_h2 [48] r" for r
    using that by (induction rule: reaches.induct) (use k demo_h2_kids(1) in auto)
  then show ?thesis by force
qed

section \<open>Properties\<close>

lemma reach_bytes:
  assumes "gc_reach h"
  shows "state_of (hp_gc h) r \<noteq> Free \<longleftrightarrow> live h r" "state_of (hp_gc h) r = Young \<longleftrightarrow> young h r"
  using gc_reach_ok [OF assms] by (auto simp: heap_ok_def headers_ok_def state_of_def dest!: spec [of _ r])

text \<open>
  C5: In every heap a program reaches that works with the references it holds, whatever it
  allocates, interns, stores and collects, nothing it can get at is freed: every reference it
  holds, every reference an object keeps and every entry of the four interners is a reference to
  a live cell. And an older object that refers to a young one is where a minor collection starts
  from: on the remembered list, among the objects scanned every time, or a task whose cell is
  listed. Strings that become map keys while they are young are left out: the interner keeps such
  an entry when a minor collection frees the string (\<open>interned_key_dangles\<close> below).
\<close>

theorem heap_references_ok:
  assumes "prog_reach h H"
  shows "(\<forall>r \<in> H \<union> interned h. state_of (hp_gc h) r \<noteq> Free) \<and>
    (\<forall>r c. state_of (hp_gc h) r \<noteq> Free \<longrightarrow> c \<in> kids h r \<longrightarrow>
       state_of (hp_gc h) c \<noteq> Free \<and>
       (state_of (hp_gc h) r \<noteq> Young \<longrightarrow> state_of (hp_gc h) c = Young \<longrightarrow> visited h r))"
proof -
  have h: "gc_reach h" "\<forall>r \<in> H. live h r" "tables_ok h"
    using prog_reach_ok [OF assms] by (simp_all add: prog_ok_def)
  show ?thesis
    using h(2,3) gc_reach_ok [OF h(1)] unfolding reach_bytes [OF h(1)]
    by (auto simp: tables_ok_def heap_ok_def edges_ok_def)
qed

lemma demo_prog_reach: "prog_reach demo_h2 {16, 32, 48}"
proof -
  have leaf: "born_from h H (HO_Str s)" for h H s
    by (simp add: born_from_def leaf_simps holds_def)
  have 1: "prog_reach (gc_alloc 16 (HO_Str (str_shared demo_text)) (gc_init 4 4)) {16}"
    by (rule prog_reach.Step [OF prog_reach.Init prog_step.Alloc [OF _ leaf]]) (simp add: fresh_cell_def gc_init_def)
  have "prog_reach demo_h1 (insert 32 {16})"
    unfolding demo_h1_def
    by (rule prog_reach.Step [OF 1 prog_step.Alloc [OF _ leaf]])
       (simp add: fresh_cell_def gc_init_def gc_alloc_def take_cell_def)
  then have "prog_reach demo_h2 (insert 48 (insert 32 {16}))"
    unfolding demo_h2_def
    by (rule prog_reach.Step [OF _ prog_step.Alloc])
       (simp_all add: fresh_cell_def born_from_def holds_def leaf_simps arr_boxed_def boxed_elems_new_def demo_h1_def
         gc_init_def gc_alloc_def take_cell_def)
  then show ?thesis by (simp add: insert_commute)
qed

theorem heap_references_ok_witness:
  "16 \<in> kids demo_h2 48 \<and> state_of (hp_gc demo_h2) 16 \<noteq> Free"
  using heap_references_ok [OF demo_prog_reach] demo_h2_states demo_h2_kids by simp

text \<open>
  C3: A minor collection loses nothing: what the roots and the native roots reach is old
  afterwards and keeps its contents, up to the clean prefix of a scanned array.
\<close>

theorem minor_gc_safe:
  assumes "gc_reach h" "\<forall>r \<in> set roots. state_of (hp_gc h) r \<noteq> Free"
    and "reaches h (roots @ hp_native_roots h) r"
  shows "state_of (hp_gc (minor_gc (roots @ hp_native_roots h) h)) r = Old \<and>
    (let o1 = hp_obj (minor_gc (roots @ hp_native_roots h) h) r in o1 = hp_obj h r \<or> o1 = scanned (hp_obj h r))"
proof -
  have "\<forall>r \<in> set (roots @ hp_native_roots h). live h r"
    using assms(2) native_live [OF gc_reach_ok [OF assms(1)]] unfolding reach_bytes [OF assms(1)] by auto
  from minor_gc_keeps [OF gc_reach_ok [OF assms(1)] _ this assms(3)] show ?thesis
    by (auto simp: state_of_def Let_def)
qed

theorem minor_gc_safe_witness:
  "state_of (hp_gc (minor_gc [48] demo_h2)) 16 = Old"
  using minor_gc_safe [OF demo_h2_reach, of "[48]" 16] demo_h2_states demo_h2_kids(2)
  by (simp add: state_of_def)

text \<open>
  C4: A major collection frees exactly what the roots do not reach, keeps the contents of the
  rest, and leaves in the interners of strings, characters, big integers and decimals and in the
  table of identities exactly the entries of the cells it keeps.
\<close>

theorem collect_exact:
  assumes "gc_reach h" "\<forall>r \<in> set roots. state_of (hp_gc h) r \<noteq> Free"
    and "collect (roots @ hp_native_roots h) h = (freed, h')"
  shows "state_of (hp_gc h') r = (if reaches h (roots @ hp_native_roots h) r then Old else Free) \<and>
    hp_obj h' = hp_obj h \<and>
    (hp_strings h' s = Some r \<longleftrightarrow> hp_strings h s = Some r \<and> reaches h (roots @ hp_native_roots h) r) \<and>
    (hp_chars h' c = Some r \<longleftrightarrow> hp_chars h c = Some r \<and> reaches h (roots @ hp_native_roots h) r) \<and>
    (hp_bigints h' n = Some r \<longleftrightarrow> hp_bigints h n = Some r \<and> reaches h (roots @ hp_native_roots h) r) \<and>
    (hp_decimals h' d = Some r \<longleftrightarrow> hp_decimals h d = Some r \<and> reaches h (roots @ hp_native_roots h) r) \<and>
    (hp_identity h' k = Some r \<longleftrightarrow> hp_identity h k = Some r \<and> reaches h (roots @ hp_native_roots h) r)"
proof -
  have "\<forall>r \<in> set (roots @ hp_native_roots h). live h r"
    using assms(2) native_live [OF gc_reach_ok [OF assms(1)]] unfolding reach_bytes [OF assms(1)] by auto
  note e = collect_effect [OF gc_reach_ok [OF assms(1)] this assms(3)]
  show ?thesis using e(1) [of r] e(3,8-12) by (simp add: state_of_def)
qed

theorem collect_exact_witness:
  "state_of (hp_gc (snd (collect [48] demo_h2))) 16 = Old \<and>
   state_of (hp_gc (snd (collect [48] demo_h2))) 32 = Free"
  using collect_exact [OF demo_h2_reach, of "[48]" "fst (collect [48] demo_h2)" "snd (collect [48] demo_h2)"]
    demo_h2_states demo_h2_kids(2) demo_h2_not
  by (simp add: state_of_def)

text \<open>A safepoint is at most one collection of each kind.\<close>

lemma safepoint_reach:
  assumes h: "gc_reach h" and roots: "\<forall>r \<in> set roots. state_of (hp_gc h) r \<noteq> Free"
  shows "gc_reach (gc_safepoint roots h)"
proof -
  have live: "\<forall>r \<in> set roots. live h r" using roots unfolding reach_bytes [OF h] .
  define h1 where "h1 = (if needs_minor_gc h then minor_gc (roots @ hp_native_roots h) h else h)"
  have "gc_reach h1" using h gc_reach.Step [OF h gc_step.Minor [OF live]] by (simp add: h1_def)
  moreover have "\<forall>r \<in> set roots. live h1 r"
  proof
    fix r assume r: "r \<in> set roots"
    have "hbyte (minor_gc (roots @ hp_native_roots h) h) r = 1"
      using minor_gc_keeps [OF gc_reach_ok [OF h], of "roots @ hp_native_roots h" r] r live
        native_live [OF gc_reach_ok [OF h]] reaches.Root [of r "roots @ hp_native_roots h" h] by auto
    then show "live h1 r" using live r by (simp add: h1_def)
  qed
  ultimately show ?thesis
    using gc_reach.Step [OF _ gc_step.Major] by (simp add: gc_safepoint_def Let_def h1_def [symmetric])
qed

section \<open>An interned key that outlives its cell\<close>

text \<open>
  \<open>canonical_map_key\<close> enters a young string into the interner, and a minor collection that frees
  the string does not look at the interner: looking the same text up afterwards answers with a
  reference to a freed cell.
\<close>

lemma interned_key_dangles:
  "\<exists>h s r. gc_reach h \<and> hp_strings h s = Some r \<and> state_of (hp_gc h) r = Free \<and>
     fst (alloc_str 64 s h) = from_heap r"
proof -
  let ?k = "snd (canonical_map_key 64 (from_heap 16) demo_h1)"
  let ?m = "minor_gc ([] @ hp_native_roots ?k) ?k"
  have "gc_reach ?k"
    by (rule gc_reach.Step [OF demo_h1_reach gc_step.Map_Key]) (simp add: fresh_cell_def demo_heap)
  then have "gc_reach ?m" by (rule gc_reach.Step [OF _ gc_step.Minor]) simp
  moreover have sso: "try_from_sso demo_text = None"
    by (simp add: demo_text_def try_from_sso_def SSO_MAX_LEN_def)
  have k: "?k = demo_h1\<lparr>hp_obj := (hp_obj demo_h1)(16 := HO_Str (mark_interned (str_shared demo_text))),
      hp_strings := (hp_strings demo_h1)(demo_text \<mapsto> 16)\<rparr>"
    by (simp add: canonical_map_key_def lookup_str_map_key_def sso demo_heap str_shared_def INTERNED_BIT_def)
  have "hp_strings ?m demo_text = Some 16" "state_of (hp_gc ?m) 16 = Free"
    unfolding k
    by (simp_all add: demo_heap minor_gc_def minor_marks_def mark_all_def Let_def sweep_young_def sweep_one_def
        state_of_def release_def)
  moreover from this(1) have "fst (alloc_str 64 demo_text ?m) = from_heap 16"
    by (simp add: alloc_str_def sso)
  ultimately show ?thesis by blast
qed

end
