(* ===== verification/Ssa_Order.thy ===== *)
theory Ssa_Order
  imports Ssa_Ir "HOL-Library.While_Combinator"
begin

text \<open>
  The two depth-first traversals of the blocks: \<open>reverse_postorder\<close> of \<open>ssa/dom.rs\<close> and
  \<open>emission_order\<close> of \<open>ssa/emit/order.rs\<close>. Their loops are \<open>while_option\<close>, so that a run that does
  not return is \<open>None\<close>. The locale \<open>dfs\<close> holds what the traversal promises of any graph: it
  returns, it lists exactly the reachable nodes, and a dominator is listed before what it
  dominates.
\<close>

section \<open>Paths\<close>

text \<open>A path of the relation \<open>E\<close>, from its first node to its last.\<close>

fun walk :: "('a \<Rightarrow> 'a \<Rightarrow> bool) \<Rightarrow> 'a list \<Rightarrow> bool" where
  "walk E [] = False"
| "walk E [x] = True"
| "walk E (x # y # zs) = (E x y \<and> walk E (y # zs))"

definition path_to :: "('a \<Rightarrow> 'a \<Rightarrow> bool) \<Rightarrow> 'a \<Rightarrow> 'a list \<Rightarrow> 'a \<Rightarrow> bool" where
  "path_to E e p b \<longleftrightarrow> walk E p \<and> hd p = e \<and> last p = b"

definition reaches :: "('a \<Rightarrow> 'a \<Rightarrow> bool) \<Rightarrow> 'a \<Rightarrow> 'a \<Rightarrow> bool" where
  "reaches E e b \<longleftrightarrow> (\<exists>p. path_to E e p b)"

text \<open>\<open>a\<close> dominates \<open>b\<close>: every path from the entry to \<open>b\<close> passes through \<open>a\<close>.\<close>

definition dominates :: "('a \<Rightarrow> 'a \<Rightarrow> bool) \<Rightarrow> 'a \<Rightarrow> 'a \<Rightarrow> 'a \<Rightarrow> bool" where
  "dominates E e a b \<longleftrightarrow> (\<forall>p. path_to E e p b \<longrightarrow> a \<in> set p)"

lemma walk_nonempty [simp]: "walk E p \<Longrightarrow> p \<noteq> []"
  by auto

lemma walk_snoc: "p \<noteq> [] \<Longrightarrow> walk E (p @ [y]) \<longleftrightarrow> walk E p \<and> E (last p) y"
  by (induction E p rule: walk.induct) auto

lemma walk_append:
  "p \<noteq> [] \<Longrightarrow> q \<noteq> [] \<Longrightarrow> walk E (p @ q) \<longleftrightarrow> walk E p \<and> E (last p) (hd q) \<and> walk E q"
proof (induction E p rule: walk.induct)
  case (2 E x) then show ?case by (cases q) auto
qed auto

lemma path_to_refl [simp]: "path_to E e [e] e"
  by (simp add: path_to_def)

lemma path_to_step: "path_to E e p a \<Longrightarrow> E a b \<Longrightarrow> path_to E e (p @ [b]) b"
  by (auto simp: path_to_def walk_snoc hd_append)

lemma reaches_refl [simp]: "reaches E e e"
  by (auto simp: reaches_def intro: path_to_refl)

lemma reaches_step: "reaches E e a \<Longrightarrow> E a b \<Longrightarrow> reaches E e b"
  unfolding reaches_def by (blast intro: path_to_step)

lemma reaches_induct [consumes 1, case_names refl step]:
  assumes "reaches E e b" and "P e"
    and "\<And>a b. reaches E e a \<Longrightarrow> P a \<Longrightarrow> E a b \<Longrightarrow> P b"
  shows "P b"
proof -
  from assms(1) obtain p where "walk E p" "hd p = e" "last p = b"
    by (auto simp: reaches_def path_to_def)
  then show ?thesis
  proof (induction p arbitrary: b rule: rev_induct)
    case (snoc x p)
    show ?case
    proof (cases "p = []")
      case False
      then have w: "walk E p" "E (last p) x" "hd p = e"
        using snoc.prems by (auto simp: walk_snoc hd_append)
      then have "reaches E e (last p)" by (auto simp: reaches_def path_to_def)
      then show ?thesis using assms(3) [OF _ snoc.IH [OF w(1,3) refl] w(2)] snoc.prems by simp
    qed (use snoc.prems assms(2) in simp)
  qed simp
qed

lemma dominates_refl [simp]: "dominates E e b b"
  by (auto simp: dominates_def path_to_def)

lemma dominates_trans:
  assumes "dominates E e a b" "dominates E e b c"
  shows "dominates E e a c"
  unfolding dominates_def
proof (intro allI impI)
  fix p assume p: "path_to E e p c"
  then have "b \<in> set p" using assms(2) by (simp add: dominates_def)
  then obtain q r where q: "p = q @ b # r" by (auto simp: in_set_conv_decomp)
  have "path_to E e (q @ [b]) b"
  proof (cases q)
    case Nil then show ?thesis using p q by (auto simp: path_to_def)
  next
    case (Cons x xs)
    then have q0: "q \<noteq> []" by simp
    then have "walk E q \<and> E (last q) b" using p q walk_append [OF q0, of "b # r" E]
      by (auto simp: path_to_def)
    then show ?thesis using p q Cons walk_snoc [OF q0, of E b] by (auto simp: path_to_def)
  qed
  then have "a \<in> set (q @ [b])" using assms(1) by (simp only: dominates_def)
  then show "a \<in> set p" using q by auto
qed

lemma dominates_entry: "dominates E e a e \<Longrightarrow> a = e"
  using path_to_refl [of E e] by (auto simp: dominates_def dest!: spec [of _ "[e]"])

lemma entry_dominates [simp]: "dominates E e e b"
  by (auto simp: dominates_def path_to_def intro: hd_in_set)

text \<open>\<open>y\<close> stands before \<open>x\<close> in a list.\<close>

definition before :: "'a list \<Rightarrow> 'a \<Rightarrow> 'a \<Rightarrow> bool" where
  "before xs y x \<longleftrightarrow> (\<exists>us ms vs. xs = us @ y # ms @ x # vs)"

lemma before_append1: "before xs y x \<Longrightarrow> before (xs @ zs) y x"
  unfolding before_def by (metis append.assoc append_Cons)

lemma before_rev_snoc: "y \<in> set xs \<Longrightarrow> before (xs @ [x]) y x"
  unfolding before_def by (metis append.assoc append_Cons in_set_conv_decomp)

section \<open>The loop\<close>

text \<open>
  A frame of the stack is a node with the number of its successors already taken. The head of
  the list is the top of the source's vector.
\<close>

type_synonym 'k dfs_state = "bool list \<times> nat list \<times> (nat \<times> 'k) list"

definition dfs_step :: "(nat \<Rightarrow> nat list) \<Rightarrow> nat dfs_state \<Rightarrow> nat dfs_state" where
  "dfs_step succs = (\<lambda>(visited, post, stack).
     case stack of
       [] \<Rightarrow> (visited, post, stack)
     | (b, next_i) # rest \<Rightarrow>
         if next_i < length (succs b)
         then (let s = succs b ! next_i; stack' = (b, next_i + 1) # rest
               in if \<not> visited ! s
                  then (visited[s := True], post, (s, 0) # stack')
                  else (visited, post, stack'))
         else (visited, post @ [b], rest))"

definition dfs_init :: "nat \<Rightarrow> nat \<Rightarrow> nat dfs_state" where
  "dfs_init n e = ((replicate n False)[e := True], [], [(e, 0)])"

definition stack_live :: "'k dfs_state \<Rightarrow> bool" where
  "stack_live = (\<lambda>(_, _, stack). stack \<noteq> [])"

definition func_succs :: "ssa_func \<Rightarrow> block_id \<Rightarrow> block_id list" where
  "func_succs f b = block_successors (f_blocks f ! b)"

definition reverse_postorder :: "ssa_func \<Rightarrow> block_id list option" where
  "reverse_postorder f =
     map_option (\<lambda>(_, post, _). rev post)
       (while_option stack_live (dfs_step (func_succs f))
         (dfs_init (length (f_blocks f)) (f_entry f)))"

text \<open>
  \<open>emission_order\<close> takes the arms of a branch in the other order and counts the successors of a
  frame in a \<open>u8\<close>, which wraps in a build without overflow checks.
\<close>

fun emission_term_succs :: "terminator \<Rightarrow> block_id list" where
  "emission_term_succs (T_Jump t _) = [t]"
| "emission_term_succs (T_Branch _ t _ e _) = [e, t]"
| "emission_term_succs _ = []"

definition emission_succs :: "ssa_func \<Rightarrow> block_id \<Rightarrow> block_id list" where
  "emission_succs f b =
     emission_term_succs (bk_term (f_blocks f ! b)) @ block_handlers (f_blocks f ! b)"

definition emission_step :: "ssa_func \<Rightarrow> u8 dfs_state \<Rightarrow> u8 dfs_state" where
  "emission_step f = (\<lambda>(visited, post, stack).
     case stack of
       [] \<Rightarrow> (visited, post, stack)
     | (b, stage) # rest \<Rightarrow>
         let stack' = (b, stage + 1) # rest in
         (case list_get (emission_succs f b) (unat stage) of
            Some s \<Rightarrow>
              if \<not> visited ! s then (visited[s := True], post, (s, 0) # stack')
              else (visited, post, stack')
          | None \<Rightarrow> (visited, post @ [b], tl stack')))"

definition emission_order :: "ssa_func \<Rightarrow> block_id list option" where
  "emission_order f =
     map_option
       (\<lambda>(visited, post, _).
          rev post @ filter (\<lambda>b. \<not> visited ! b) [0..<length (f_blocks f)])
       (while_option stack_live (emission_step f)
         ((replicate (length (f_blocks f)) False)[f_entry f := True], [], [(f_entry f, 0)]))"

section \<open>What the traversal promises\<close>

definition succ_rel :: "(nat \<Rightarrow> nat list) \<Rightarrow> nat \<Rightarrow> nat \<Rightarrow> bool" where
  "succ_rel succs a b \<longleftrightarrow> b \<in> set (succs a)"

text \<open>The frames of the stack form a path from the entry to the top.\<close>

fun chained :: "(nat \<Rightarrow> nat list) \<Rightarrow> nat \<Rightarrow> nat list \<Rightarrow> bool" where
  "chained succs e [] = True"
| "chained succs e [x] = (x = e)"
| "chained succs e (x # y # zs) = (x \<in> set (succs y) \<and> chained succs e (y # zs))"

lemma chained_path:
  "chained succs e (x # xs) \<Longrightarrow> path_to (succ_rel succs) e (rev (x # xs)) x"
proof (induction xs arbitrary: x)
  case (Cons y ys)
  then have "path_to (succ_rel succs) e (rev (y # ys)) y" by simp
  moreover have "succ_rel succs y x" using Cons.prems by (simp add: succ_rel_def)
  ultimately show ?case by (simp only: rev.simps(2) [of x] path_to_step)
qed simp

locale dfs =
  fixes succs :: "nat \<Rightarrow> nat list" and n :: nat and e :: nat
  assumes entry_in_range: "e < n"
    and succs_in_range: "b < n \<Longrightarrow> s \<in> set (succs b) \<Longrightarrow> s < n"
begin

abbreviation reach :: "nat \<Rightarrow> bool" where
  "reach \<equiv> reaches (succ_rel succs) e"

abbreviation doms :: "nat \<Rightarrow> nat \<Rightarrow> bool" where
  "doms \<equiv> dominates (succ_rel succs) e"

text \<open>
  The invariant: a visited node is finished or on the stack, the stack is a path from the entry,
  the successors a frame has taken are visited, those of a finished node all are, and what
  strictly dominates a finished node finishes later, as does some predecessor of it.
\<close>

definition dfs_inv :: "nat dfs_state \<Rightarrow> bool" where
  "dfs_inv = (\<lambda>(visited, post, stack).
     length visited = n \<and> visited ! e \<and>
     distinct (post @ map fst stack) \<and>
     set post \<union> fst ` set stack = {b. b < n \<and> visited ! b} \<and>
     chained succs e (map fst stack) \<and>
     (\<forall>(b, k) \<in> set stack. k \<le> length (succs b) \<and> (\<forall>s \<in> set (take k (succs b)). visited ! s)) \<and>
     (\<forall>b \<in> set post. reach b \<and> (\<forall>s \<in> set (succs b). visited ! s)) \<and>
     (\<forall>x \<in> set post. \<forall>y. doms y x \<and> y \<noteq> x \<longrightarrow> y \<in> fst ` set stack \<or> before post x y) \<and>
     (\<forall>x \<in> set post. x = e \<or> (\<exists>y. x \<in> set (succs y) \<and> (y \<in> fst ` set stack \<or> before post x y))))"

lemma dfs_inv_init: "dfs_inv (dfs_init n e)"
  using entry_in_range by (auto simp: dfs_inv_def dfs_init_def nth_list_update)

lemma dfs_inv_push:
  assumes "dfs_inv (visited, post, (b, k) # rest)" "k < length (succs b)"
  shows "dfs_inv (dfs_step succs (visited, post, (b, k) # rest))"
proof (cases "visited ! (succs b ! k)")
  case True
  then show ?thesis
    using assms by (auto simp: dfs_inv_def dfs_step_def Let_def take_Suc_conv_app_nth)
next
  case False
  let ?s = "succs b ! k"
  have b: "b < n" using assms(1) by (auto simp: dfs_inv_def)
  then have s: "?s < n" using assms(2) succs_in_range nth_mem by blast
  have mono: "(visited[?s := True]) ! i" if "visited ! i" for i
    using that by (cases "?s < length visited") (auto simp: nth_list_update list_update_beyond)
  have notin: "?s \<notin> set post \<union> fst ` set ((b, k) # rest)"
    using assms(1) False by (auto simp: dfs_inv_def)
  have inv: "length visited = n" "visited ! e" "distinct (post @ b # map fst rest)"
    "set post \<union> insert b (fst ` set rest) = {b. b < n \<and> visited ! b}"
    "chained succs e (b # map fst rest)"
    "\<forall>(b, k) \<in> set ((b, k) # rest).
       k \<le> length (succs b) \<and> (\<forall>s \<in> set (take k (succs b)). visited ! s)"
    "\<forall>b \<in> set post. reach b \<and> (\<forall>s \<in> set (succs b). visited ! s)"
    "\<forall>x \<in> set post. \<forall>y. doms y x \<and> y \<noteq> x \<longrightarrow>
       y \<in> insert b (fst ` set rest) \<or> before post x y"
    "\<forall>x \<in> set post. x = e \<or>
       (\<exists>y. x \<in> set (succs y) \<and> (y \<in> insert b (fst ` set rest) \<or> before post x y))"
    using assms(1) by (auto simp: dfs_inv_def)
  have "dfs_inv (visited[?s := True], post, (?s, 0) # (b, k + 1) # rest)"
    unfolding dfs_inv_def prod.case
  proof (intro conjI)
    show "distinct (post @ map fst ((?s, 0) # (b, k + 1) # rest))" using inv(3) notin by auto
    show "set post \<union> fst ` set ((?s, 0) # (b, k + 1) # rest) =
            {b. b < n \<and> (visited[?s := True]) ! b}"
    proof -
      have "{b. b < n \<and> (visited[?s := True]) ! b} = insert ?s {b. b < n \<and> visited ! b}"
        using s inv(1) by (auto simp: nth_list_update)
      then show ?thesis using inv(4) by auto
    qed
    show "chained succs e (map fst ((?s, 0) # (b, k + 1) # rest))"
      using inv(5) assms(2) by simp
    show "\<forall>(b, k) \<in> set ((?s, 0) # (b, k + 1) # rest). k \<le> length (succs b) \<and>
            (\<forall>s \<in> set (take k (succs b)). (visited[?s := True]) ! s)"
      using inv(1,6) assms(2) mono s by (auto simp: take_Suc_conv_app_nth nth_list_update)
    show "\<forall>x \<in> set post. \<forall>y. doms y x \<and> y \<noteq> x \<longrightarrow>
            y \<in> fst ` set ((?s, 0) # (b, k + 1) # rest) \<or> before post x y"
      using inv(8) by auto
    show "\<forall>x \<in> set post. x = e \<or> (\<exists>y. x \<in> set (succs y) \<and>
            (y \<in> fst ` set ((?s, 0) # (b, k + 1) # rest) \<or> before post x y))"
      using inv(9) by auto
  qed (use inv mono in auto)
  then show ?thesis using assms(2) False by (simp add: dfs_step_def Let_def)
qed

lemma dfs_inv_pop:
  assumes "dfs_inv (visited, post, (b, k) # rest)" "\<not> k < length (succs b)"
  shows "dfs_inv (visited, post @ [b], rest)"
proof -
  have inv: "length visited = n" "visited ! e" "distinct (post @ b # map fst rest)"
    "set post \<union> insert b (fst ` set rest) = {b. b < n \<and> visited ! b}"
    "chained succs e (b # map fst rest)"
    "k \<le> length (succs b)" "\<forall>s \<in> set (take k (succs b)). visited ! s"
    "\<forall>(b, k) \<in> set rest. k \<le> length (succs b) \<and> (\<forall>s \<in> set (take k (succs b)). visited ! s)"
    "\<forall>b \<in> set post. reach b \<and> (\<forall>s \<in> set (succs b). visited ! s)"
    "\<forall>x \<in> set post. \<forall>y. doms y x \<and> y \<noteq> x \<longrightarrow>
       y \<in> insert b (fst ` set rest) \<or> before post x y"
    "\<forall>x \<in> set post. x = e \<or>
       (\<exists>y. x \<in> set (succs y) \<and> (y \<in> insert b (fst ` set rest) \<or> before post x y))"
    using assms(1) by (auto simp: dfs_inv_def)
  have path: "path_to (succ_rel succs) e (rev (b # map fst rest)) b"
    by (rule chained_path) (rule inv(5))
  then have "reach b" by (auto simp: reaches_def)
  moreover have "\<forall>s \<in> set (succs b). visited ! s" using inv(6,7) assms(2) by simp
  moreover have "y \<in> fst ` set rest" if "doms y b" "y \<noteq> b" for y
    using path that unfolding dominates_def by fastforce
  moreover have "before (post @ [b]) x y" if "before post x y" for x y
    using that by (rule before_append1)
  moreover have "before (post @ [b]) x b" if "x \<in> set post" for x
    using that by (rule before_rev_snoc)
  moreover have "chained succs e (map fst rest)"
    using inv(5) by (cases "map fst rest") auto
  moreover have "b = e \<or> (\<exists>y. b \<in> set (succs y) \<and> y \<in> fst ` set rest)"
    using inv(5) by (cases rest) auto
  ultimately show ?thesis
    unfolding dfs_inv_def prod.case
  proof (intro conjI)
    assume *: "\<And>y. doms y b \<Longrightarrow> y \<noteq> b \<Longrightarrow> y \<in> fst ` set rest"
      "\<And>x y. before post x y \<Longrightarrow> before (post @ [b]) x y"
      "\<And>x. x \<in> set post \<Longrightarrow> before (post @ [b]) x b"
    show "\<forall>x \<in> set (post @ [b]). \<forall>y. doms y x \<and> y \<noteq> x \<longrightarrow>
            y \<in> fst ` set rest \<or> before (post @ [b]) x y"
    proof (intro ballI allI impI)
      fix x y assume x: "x \<in> set (post @ [b])" "doms y x \<and> y \<noteq> x"
      show "y \<in> fst ` set rest \<or> before (post @ [b]) x y"
      proof (cases "x = b")
        case False
        then have "y \<in> insert b (fst ` set rest) \<or> before post x y" "x \<in> set post"
          using x inv(10) by auto
        then show ?thesis using * by blast
      qed (use x * in blast)
    qed
    assume par: "b = e \<or> (\<exists>y. b \<in> set (succs y) \<and> y \<in> fst ` set rest)"
    show "\<forall>x \<in> set (post @ [b]). x = e \<or>
            (\<exists>y. x \<in> set (succs y) \<and> (y \<in> fst ` set rest \<or> before (post @ [b]) x y))"
    proof
      fix x assume x: "x \<in> set (post @ [b])"
      show "x = e \<or> (\<exists>y. x \<in> set (succs y) \<and> (y \<in> fst ` set rest \<or> before (post @ [b]) x y))"
      proof (cases "x = b")
        case False
        then have "x \<in> set post" using x by simp
        then have "x = e \<or> (\<exists>y. x \<in> set (succs y) \<and> (y \<in> insert b (fst ` set rest) \<or> before post x y))"
          using inv(11) by blast
        then show ?thesis using * \<open>x \<in> set post\<close> by blast
      qed (use par in blast)
    qed
  qed (use inv in auto)
qed

lemma dfs_inv_frame:
  "dfs_inv (visited, post, stack) \<Longrightarrow> (b, k) \<in> set stack \<Longrightarrow> b < n \<and> k \<le> length (succs b)"
proof -
  assume "dfs_inv (visited, post, stack)" and m: "(b, k) \<in> set stack"
  then have "set post \<union> fst ` set stack = {b. b < n \<and> visited ! b}"
    "\<forall>(b, k) \<in> set stack. k \<le> length (succs b) \<and> (\<forall>s \<in> set (take k (succs b)). visited ! s)"
    unfolding dfs_inv_def prod.case by - (elim conjE, assumption)+
  moreover have "b \<in> fst ` set stack" using m by force
  ultimately show ?thesis using m by blast
qed

lemma dfs_inv_step: "dfs_inv s \<Longrightarrow> stack_live s \<Longrightarrow> dfs_inv (dfs_step succs s)"
proof (cases s)
  case (fields visited post stack)
  assume *: "dfs_inv s" "stack_live s"
  then obtain b k rest where st: "s = (visited, post, (b, k) # rest)"
    using fields by (auto simp: stack_live_def neq_Nil_conv)
  show ?thesis
  proof (cases "k < length (succs b)")
    case True then show ?thesis using dfs_inv_push * st by simp
  next
    case False then show ?thesis using dfs_inv_pop * st by (auto simp: dfs_step_def)
  qed
qed

text \<open>Every step uses up some of the successors the stack and the unvisited nodes still have.\<close>

definition todo :: "nat dfs_state \<Rightarrow> nat" where
  "todo = (\<lambda>(visited, post, stack).
     (\<Sum>b | b < n \<and> \<not> visited ! b. length (succs b) + 2) +
     sum_list (map (\<lambda>(b, k). length (succs b) + 1 - k) stack))"

lemma todo_step: "dfs_inv s \<Longrightarrow> stack_live s \<Longrightarrow> todo (dfs_step succs s) < todo s"
proof (cases s)
  case (fields visited post stack)
  assume *: "dfs_inv s" "stack_live s"
  then obtain b k rest where st: "s = (visited, post, (b, k) # rest)"
    using fields by (auto simp: stack_live_def neq_Nil_conv)
  have inv: "length visited = n" "b < n" "k \<le> length (succs b)"
    using * st by (auto simp: dfs_inv_def)
  show ?thesis
  proof (cases "k < length (succs b) \<and> \<not> visited ! (succs b ! k)")
    case False
    then show ?thesis using st inv by (auto simp: todo_def dfs_step_def)
  next
    case True
    let ?s = "succs b ! k"
    have s: "?s < n" using True inv(2) succs_in_range nth_mem by blast
    have "{b. b < n \<and> \<not> visited ! b} = insert ?s {b. b < n \<and> \<not> (visited[?s := True]) ! b}"
      using s inv(1) True by (auto simp: nth_list_update)
    moreover have "?s \<notin> {b. b < n \<and> \<not> (visited[?s := True]) ! b}"
      using s inv(1) by auto
    ultimately have "(\<Sum>b | b < n \<and> \<not> visited ! b. length (succs b) + 2) =
      length (succs ?s) + 2 + (\<Sum>b | b < n \<and> \<not> (visited[?s := True]) ! b. length (succs b) + 2)"
      by simp
    then show ?thesis using st True by (simp add: todo_def dfs_step_def Let_def)
  qed
qed

lemma dfs_returns: "\<exists>s. while_option stack_live (dfs_step succs) (dfs_init n e) = Some s"
  by (rule measure_while_option_Some [where P = dfs_inv and f = todo])
    (auto simp: dfs_inv_init dfs_inv_step todo_step)

lemma dfs_inv_finished:
  assumes "dfs_inv (visited, post, [])"
  shows "length visited = n" "visited ! e" "distinct post"
    and "set post = {b. b < n \<and> visited ! b}"
    and "\<forall>b \<in> set post. reach b \<and> (\<forall>s \<in> set (succs b). visited ! s)"
    and "\<forall>x \<in> set post. \<forall>y. doms y x \<and> y \<noteq> x \<longrightarrow> before post x y"
    and "\<forall>x \<in> set post. x = e \<or> (\<exists>y. x \<in> set (succs y) \<and> before post x y)"
  using assms
  unfolding dfs_inv_def prod.case list.map append_Nil2 list.set image_empty Un_empty_right
    empty_iff simp_thms
  by - (elim conjE, assumption)+

lemma dfs_result:
  assumes "while_option stack_live (dfs_step succs) (dfs_init n e) = Some (visited, post, stack)"
  shows "stack = []" "distinct post" "set post = {b. b < n \<and> visited ! b}"
    and "set post = {b. reach b}" "length visited = n"
    and "doms y x \<Longrightarrow> y \<noteq> x \<Longrightarrow> x \<in> set post \<Longrightarrow> before post x y"
    and "x \<in> set post \<Longrightarrow> x \<noteq> e \<Longrightarrow> \<exists>y. x \<in> set (succs y) \<and> before post x y"
proof -
  have *: "dfs_inv (visited, post, stack)"
    using while_option_rule [where P = dfs_inv, OF _ assms dfs_inv_init] dfs_inv_step by blast
  show st: "stack = []"
    using while_option_stop [OF assms] by (simp add: stack_live_def)
  note inv = dfs_inv_finished [OF * [unfolded st]]
  show "distinct post" "set post = {b. b < n \<and> visited ! b}" "length visited = n"
    by (rule inv)+
  show "doms y x \<Longrightarrow> y \<noteq> x \<Longrightarrow> x \<in> set post \<Longrightarrow> before post x y" using inv(6) by blast
  show "x \<in> set post \<Longrightarrow> x \<noteq> e \<Longrightarrow> \<exists>y. x \<in> set (succs y) \<and> before post x y" using inv(7) by blast
  have "b \<in> set post" if "reach b" for b
    using that
  proof (induction rule: reaches_induct)
    case refl then show ?case using inv(2,4) entry_in_range by blast
  next
    case (step a b)
    then have "visited ! b" "a < n" "b \<in> set (succs a)"
      using inv(4,5) by (auto simp only: succ_rel_def)
    then show ?case using inv(4) succs_in_range by blast
  qed
  then show "set post = {b. reach b}" using inv(5) by blast
qed

end

section \<open>The traversals of a function\<close>

text \<open>The edges of the flow graph, and what a traversal needs of it: every edge leads to a block.\<close>

definition flow :: "ssa_func \<Rightarrow> block_id \<Rightarrow> block_id \<Rightarrow> bool" where
  "flow f a b \<longleftrightarrow> b \<in> set (block_successors (f_blocks f ! a))"

definition cfg_ok :: "ssa_func \<Rightarrow> bool" where
  "cfg_ok f \<longleftrightarrow> f_entry f < length (f_blocks f) \<and>
     (\<forall>b < length (f_blocks f). \<forall>s \<in> set (block_successors (f_blocks f ! b)).
        s < length (f_blocks f))"

abbreviation f_reach :: "ssa_func \<Rightarrow> block_id \<Rightarrow> bool" where
  "f_reach f \<equiv> reaches (flow f) (f_entry f)"

abbreviation f_dom :: "ssa_func \<Rightarrow> block_id \<Rightarrow> block_id \<Rightarrow> bool" where
  "f_dom f \<equiv> dominates (flow f) (f_entry f)"

text \<open>
  The laws of the traversal hold of every function whose edges lead to blocks; \<open>checked\<close> is
  such a function, and is the given one when that is.
\<close>

definition checked :: "ssa_func \<Rightarrow> ssa_func" where
  "checked f = (if cfg_ok f then f else f\<lparr>f_blocks := [empty_block], f_entry := 0\<rparr>)"

lemma cfg_ok_checked: "cfg_ok (checked f)"
  by (simp add: checked_def cfg_ok_def block_successors_def block_handlers_def empty_block_def)

lemma set_term_succs: "set (emission_term_succs t) = set (term_succs t)"
  by (cases t) auto

lemma set_emission_succs: "set (emission_succs f b) = set (func_succs f b)"
  by (simp add: emission_succs_def func_succs_def block_successors_def set_term_succs)

lemma length_emission_succs: "length (emission_succs f b) = length (func_succs f b)"
  by (cases "bk_term (f_blocks f ! b)")
    (simp_all add: emission_succs_def func_succs_def block_successors_def)

lemma flow_func_succs: "succ_rel (func_succs f) = flow f"
  by (simp add: fun_eq_iff succ_rel_def flow_def func_succs_def)

lemma flow_emission_succs: "succ_rel (emission_succs f) = flow f"
  by (simp add: fun_eq_iff succ_rel_def flow_def set_emission_succs func_succs_def)

interpretation rpo: dfs "func_succs (checked f)" "length (f_blocks (checked f))"
  "f_entry (checked f)" for f
  using cfg_ok_checked [of f] by unfold_locales (auto simp: cfg_ok_def func_succs_def)

interpretation emit: dfs "emission_succs (checked f)" "length (f_blocks (checked f))"
  "f_entry (checked f)" for f
  using cfg_ok_checked [of f]
  by unfold_locales (auto simp: cfg_ok_def set_emission_succs func_succs_def)

lemma reaches_in_range: "f_reach f b \<Longrightarrow> cfg_ok f \<Longrightarrow> b < length (f_blocks f)"
  by (induction rule: reaches_induct) (auto simp: cfg_ok_def flow_def)

lemma before_rev: "before xs x y \<Longrightarrow> before (rev xs) y x"
  unfolding before_def
proof (elim exE)
  fix us ms vs assume "xs = us @ x # ms @ y # vs"
  then have "rev xs = rev vs @ y # rev ms @ x # rev us" by simp
  then show "\<exists>us ms vs. rev xs = us @ y # ms @ x # vs" by blast
qed

lemma reverse_postorder_ok:
  assumes "cfg_ok f"
  obtains order where "reverse_postorder f = Some order" "distinct order"
    "set order = {b. f_reach f b}"
    "\<And>a b. f_reach f b \<Longrightarrow> f_dom f a b \<Longrightarrow> a \<noteq> b \<Longrightarrow> before order a b"
    "\<And>b. f_reach f b \<Longrightarrow> b \<noteq> f_entry f \<Longrightarrow> \<exists>p. flow f p b \<and> before order p b"
proof -
  have c: "checked f = f" using assms by (simp add: checked_def)
  obtain visited post stack where w:
    "while_option stack_live (dfs_step (func_succs f)) (dfs_init (length (f_blocks f)) (f_entry f))
       = Some (visited, post, stack)"
    using rpo.dfs_returns [of f] by (auto simp: c)
  note res = rpo.dfs_result [of f, unfolded c, OF w, unfolded flow_func_succs]
  show ?thesis
  proof (rule that)
    show "reverse_postorder f = Some (rev post)" by (simp add: reverse_postorder_def w)
    show "before (rev post) a b" if "f_reach f b" "f_dom f a b" "a \<noteq> b" for a b
      using that res(4,6) by (auto intro: before_rev)
    show "\<exists>p. flow f p b \<and> before (rev post) p b" if fb: "f_reach f b" "b \<noteq> f_entry f" for b
    proof -
      obtain y where "b \<in> set (func_succs f y)" "before post b y" using res(4) res(7) [of b] fb by blast
      then show ?thesis by (intro exI [of _ y]) (simp add: flow_def func_succs_def before_rev)
    qed
  qed (use res in auto)
qed

text \<open>The counter of a frame does not wrap when a block has at most 255 successors.\<close>

definition u8_state :: "nat dfs_state \<Rightarrow> u8 dfs_state" where
  "u8_state = (\<lambda>(visited, post, stack). (visited, post, map (\<lambda>(b, k). (b, of_nat k)) stack))"

definition few_succs :: "ssa_func \<Rightarrow> bool" where
  "few_succs f \<longleftrightarrow> (\<forall>b < length (f_blocks f). length (func_succs f b) \<le> 255)"

lemma emission_step_refines:
  assumes "few_succs f" "stack_live (visited, post, stack)"
    and "\<forall>(b, k) \<in> set stack. b < length (f_blocks f) \<and> k \<le> length (emission_succs f b)"
  shows "u8_state (dfs_step (emission_succs f) (visited, post, stack)) =
         emission_step f (u8_state (visited, post, stack))"
proof -
  obtain b k rest where st: "stack = (b, k) # rest"
    using assms(2) by (auto simp: stack_live_def neq_Nil_conv)
  have "k \<le> 255" "length (emission_succs f b) \<le> 255" "k \<le> length (emission_succs f b)"
    using assms(1,3) st by (auto simp: few_succs_def length_emission_succs)
  then have "unat (of_nat k :: u8) = k" by (simp add: unat_of_nat)
  then show ?thesis
    by (cases "k < length (emission_succs f b)")
      (auto simp: st u8_state_def dfs_step_def emission_step_def Let_def list_get_def)
qed

lemma before_hd: "before xs y x \<Longrightarrow> distinct xs \<Longrightarrow> hd xs \<noteq> x"
  by (auto simp: before_def hd_append split: if_splits dest: hd_in_set)

lemma emission_order_ok:
  assumes "cfg_ok f" "few_succs f"
  obtains order where "emission_order f = Some order" "distinct order"
    "set order = {..<length (f_blocks f)}"
    "\<And>a b. f_reach f b \<Longrightarrow> f_dom f a b \<Longrightarrow> a \<noteq> b \<Longrightarrow> before order a b"
    "hd order = f_entry f" "\<And>b. f_reach f b \<Longrightarrow> b \<noteq> f_entry f \<Longrightarrow> \<exists>p. flow f p b \<and> before order p b"
    "\<exists>reached. set reached = {b. f_reach f b} \<and>
       order = reached @ filter (\<lambda>b. \<not> f_reach f b) [0..<length (f_blocks f)]"
proof -
  let ?n = "length (f_blocks f)"
  let ?init = "dfs_init ?n (f_entry f)"
  have c: "checked f = f" using assms by (simp add: checked_def)
  obtain visited post stack where w:
    "while_option stack_live (dfs_step (emission_succs f)) ?init = Some (visited, post, stack)"
    using emit.dfs_returns [of f] by (auto simp: c)
  note res = emit.dfs_result [of f, unfolded c, OF w, unfolded flow_emission_succs]
  have "map_option u8_state (while_option stack_live (dfs_step (emission_succs f)) ?init) =
        while_option stack_live (emission_step f) (u8_state ?init)"
  proof (rule while_option_commute_invariant [where P = "emit.dfs_inv f"])
    fix s assume inv: "emit.dfs_inv f s"
    obtain v p st where s: "s = (v, p, st)" by (cases s)
    show "stack_live s = stack_live (u8_state s)" by (simp add: s u8_state_def stack_live_def)
    have "\<forall>(b, k) \<in> set st. b < ?n \<and> k \<le> length (emission_succs f b)"
      using emit.dfs_inv_frame [of f v p st] inv by (auto simp: s c)
    then show "u8_state (dfs_step (emission_succs f) s) = emission_step f (u8_state s)"
      if "stack_live s" using emission_step_refines assms(2) that by (simp add: s)
  qed (use emit.dfs_inv_step [of f] emit.dfs_inv_init [of f] in \<open>simp_all add: c\<close>)
  then have "while_option stack_live (emission_step f) (u8_state ?init) =
      Some (u8_state (visited, post, stack))"
    unfolding w by simp
  then have e: "emission_order f = Some (rev post @ filter (\<lambda>b. \<not> visited ! b) [0..<?n])"
    by (simp add: emission_order_def u8_state_def dfs_init_def)
  have post: "set post = {b. f_reach f b}" "distinct post" using res by auto
  have dom: "before (rev post) a b" if "f_reach f b" "f_dom f a b" "a \<noteq> b" for a b
    using that res(4,6) by (auto intro!: before_rev)
  have "f_entry f \<in> set post" using post(1) by simp
  then have ne: "rev post \<noteq> []" by auto
  then have "hd (rev post) \<in> set post" using hd_in_set by fastforce
  then have h: "f_reach f (hd (rev post))" using post(1) by blast
  have hd: "hd (rev post) = f_entry f"
  proof (rule ccontr)
    assume "hd (rev post) \<noteq> f_entry f"
    then have "before (rev post) (f_entry f) (hd (rev post))"
      using dom [OF h entry_dominates] by simp
    then show False using before_hd post(2) by fastforce
  qed
  have rest: "filter (\<lambda>b. \<not> visited ! b) [0..<?n] = filter (\<lambda>b. \<not> f_reach f b) [0..<?n]"
    using res(3,4) by (intro filter_cong) auto
  show ?thesis
  proof (rule that [OF e])
    show "before (rev post @ filter (\<lambda>b. \<not> visited ! b) [0..<?n]) a b"
      if "f_reach f b" "f_dom f a b" "a \<noteq> b" for a b
      using dom [OF that] by (rule before_append1)
    show "hd (rev post @ filter (\<lambda>b. \<not> visited ! b) [0..<?n]) = f_entry f" using hd ne by simp
    show "\<exists>p. flow f p b \<and> before (rev post @ filter (\<lambda>b. \<not> visited ! b) [0..<?n]) p b"
      if "f_reach f b" "b \<noteq> f_entry f" for b
    proof -
      have "b \<in> set post" using post(1) that(1) by simp
      from res(7) [OF this that(2)]
      obtain y where y: "b \<in> set (emission_succs f y)" "before post b y" by (elim exE conjE)
      have "flow f y b"
        using y(1) unfolding flow_emission_succs [of f, symmetric] succ_rel_def .
      have "before (rev post @ filter (\<lambda>b. \<not> visited ! b) [0..<?n]) y b"
        by (rule before_append1 [OF before_rev [OF y(2)]])
      with \<open>flow f y b\<close> show ?thesis by blast
    qed
    show "\<exists>reached. set reached = {b. f_reach f b} \<and>
        rev post @ filter (\<lambda>b. \<not> visited ! b) [0..<?n] = reached @ filter (\<lambda>b. \<not> f_reach f b) [0..<?n]"
      using post(1) by (intro exI [of _ "rev post"]) (simp add: rest)
  qed (use res in auto)
qed

text \<open>
  C12: emission ordering returns for every function whose edges lead to blocks and whose blocks
  have at most 255 successors each. It lists every block exactly once: the entry first, then the
  other reachable blocks, each behind some predecessor of its own and behind all its dominators,
  and last the unreachable blocks by their number.
\<close>

theorem emission_order_complete:
  assumes "cfg_ok f" and "few_succs f"
  shows "\<exists>order reached. emission_order f = Some order \<and> distinct order \<and>
           set order = {..<length (f_blocks f)} \<and> hd order = f_entry f \<and>
           set reached = {b. f_reach f b} \<and>
           order = reached @ filter (\<lambda>b. \<not> f_reach f b) [0..<length (f_blocks f)] \<and>
           (\<forall>b. f_reach f b \<and> b \<noteq> f_entry f \<longrightarrow> (\<exists>p. flow f p b \<and> before order p b)) \<and>
           (\<forall>a b. f_reach f b \<and> f_dom f a b \<and> a \<noteq> b \<longrightarrow> before order a b)"
  by (rule emission_order_ok [OF assms]) blast

definition diamond :: ssa_func where
  "diamond = \<lparr>f_name = ''diamond'', f_entry = 0,
     f_blocks = [empty_block\<lparr>bk_term := T_Branch 0 1 [] 2 []\<rparr>,
       empty_block\<lparr>bk_term := T_Jump 3 []\<rparr>, empty_block\<lparr>bk_term := T_Jump 3 []\<rparr>, empty_block],
     f_values = [Ty_Bool], f_is_async = False, f_is_generator = False, f_inline_scopes = []\<rparr>"

lemma diamond_ok: "cfg_ok diamond" "few_succs diamond"
  by (simp_all add: diamond_def cfg_ok_def few_succs_def func_succs_def less_Suc_eq
      numeral_eq_Suc all_conj_distrib block_successors_def block_handlers_def empty_block_def)

theorem emission_order_complete_witness:
  "\<exists>order. emission_order diamond = Some order \<and> set order = {..<4} \<and> hd order = 0"
  using emission_order_complete [OF diamond_ok] by (auto simp: diamond_def)

text \<open>
  With 256 successors the counter of the entry's frame wraps before it passes the last one, so
  the frame is never popped: the loop does not return.
\<close>

lemma emission_order_diverges:
  assumes "256 \<le> length (emission_succs f (f_entry f))"
  shows "emission_order f = None"
proof (rule ccontr)
  assume "emission_order f \<noteq> None"
  then obtain r where r: "while_option stack_live (emission_step f)
      ((replicate (length (f_blocks f)) False)[f_entry f := True], [], [(f_entry f, 0)]) = Some r"
    by (auto simp: emission_order_def)
  let ?P = "\<lambda>s :: u8 dfs_state. snd (snd s) \<noteq> [] \<and> fst (last (snd (snd s))) = f_entry f"
  have "?P r"
  proof (rule while_option_rule [where P = ?P, OF _ r])
    fix s assume "?P s" "stack_live s"
    then obtain v p b k rest where s: "s = (v, p, (b, k) # rest)"
      by (cases s) (auto simp: neq_Nil_conv)
    have "unat (k :: u8) < 256" using unsigned_less [of k] by simp
    then have "list_get (emission_succs f b) (unat k) \<noteq> None" if "rest = []"
      using \<open>?P s\<close> assms that s by (simp add: list_get_def)
    then show "?P (emission_step f s)"
      using \<open>?P s\<close> by (cases "rest = []")
        (auto simp: s emission_step_def Let_def split: option.splits)
  qed simp
  then show False using while_option_stop [OF r] by (cases r) (simp add: stack_live_def)
qed

end
