(* ===== verification/Ssa_Live.thy ===== *)
theory Ssa_Live
  imports Ssa_Order Ssa_Verify
begin

text \<open>
  The liveness analysis of \<open>ssa/liveness.rs\<close>. The scan numbers the points of the function in a
  given order of its blocks and collects, per block, what it defines, what it reads before
  defining and where it leads; the loop then solves the two flow equations. \<open>u32::MAX\<close> in \<open>def\<close>,
  the mark of a value no scanned block defines, is \<open>None\<close>; the positions are naturals. The vectors
  are indexed by value and by block: \<open>ls_ok\<close> turns false where an index is out of range and the
  code panics, and the analysis then has no result.
\<close>

section \<open>The scan\<close>

record live_scan =
  ls_def :: "nat option list"
  ls_last :: "nat list"
  ls_term_idx :: "nat list"
  ls_defs :: "val set list"
  ls_uses :: "val set list"
  ls_succ :: "block_id list list"
  ls_idx :: nat
  ls_ok :: bool

definition scan_init :: "ssa_func \<Rightarrow> live_scan" where
  "scan_init f =
     (let nvals = length (f_values f); nblocks = length (f_blocks f) in
      \<lparr>ls_def = replicate nvals None, ls_last = replicate nvals 0,
       ls_term_idx = replicate nblocks 0, ls_defs = replicate nblocks {},
       ls_uses = replicate nblocks {}, ls_succ = replicate nblocks [], ls_idx = 0,
       ls_ok = True\<rparr>)"

text \<open>A definition: the first position stays, the value joins the block's definitions.\<close>

definition note_def :: "block_id \<Rightarrow> val \<Rightarrow> live_scan \<times> val set \<Rightarrow> live_scan \<times> val set" where
  "note_def b v = (\<lambda>(s, local_defined).
     (s\<lparr>ls_def := (if ls_def s ! v = None then (ls_def s)[v := Some (ls_idx s)] else ls_def s),
        ls_defs := (ls_defs s)[b := insert v (ls_defs s ! b)],
        ls_ok := (ls_ok s \<and> v < length (ls_def s))\<rparr>,
      insert v local_defined))"

text \<open>A use: the last position moves forward, an upward exposed value joins the block's uses.\<close>

definition note_use :: "block_id \<Rightarrow> val \<Rightarrow> live_scan \<times> val set \<Rightarrow> live_scan \<times> val set" where
  "note_use b v = (\<lambda>(s, local_defined).
     (s\<lparr>ls_last := (if ls_last s ! v < ls_idx s then (ls_last s)[v := ls_idx s] else ls_last s),
        ls_uses := (if v \<notin> local_defined then (ls_uses s)[b := insert v (ls_uses s ! b)]
                    else ls_uses s),
        ls_ok := (ls_ok s \<and> v < length (ls_last s))\<rparr>,
      local_defined))"

definition note_succ :: "block_id \<Rightarrow> block_id \<Rightarrow> live_scan \<times> val set \<Rightarrow> live_scan \<times> val set" where
  "note_succ b t = (\<lambda>(s, local_defined).
     (s\<lparr>ls_succ := (ls_succ s)[b := ls_succ s ! b @ [t]]\<rparr>, local_defined))"

definition next_idx :: "live_scan \<times> val set \<Rightarrow> live_scan \<times> val set" where
  "next_idx = (\<lambda>(s, local_defined). (s\<lparr>ls_idx := ls_idx s + 1\<rparr>, local_defined))"

definition scan_inst :: "block_id \<Rightarrow> inst \<Rightarrow> live_scan \<times> val set \<Rightarrow> live_scan \<times> val set" where
  "scan_inst b i st =
     (let st = fold (note_use b) (inst_uses (i_kind i)) st;
          st = (case i_dest i of Some d \<Rightarrow> note_def b d st | None \<Rightarrow> st);
          st = (case try_handler (i_kind i) of Some h \<Rightarrow> note_succ b h st | None \<Rightarrow> st)
      in next_idx st)"

fun scan_term :: "block_id \<Rightarrow> terminator \<Rightarrow> live_scan \<times> val set \<Rightarrow> live_scan \<times> val set" where
  "scan_term b (T_Return (Some v)) st = note_use b v st"
| "scan_term b (T_Throw v) st = note_use b v st"
| "scan_term b (T_Branch c t targs e eargs) st =
     note_succ b e (note_succ b t (fold (note_use b) (targs @ eargs) (note_use b c st)))"
| "scan_term b (T_Jump t args) st = note_succ b t (fold (note_use b) args st)"
| "scan_term b (T_Return None) st = st"
| "scan_term b T_Unreachable st = st"

definition scan_block :: "ssa_func \<Rightarrow> block_id \<Rightarrow> live_scan \<Rightarrow> live_scan" where
  "scan_block f b s =
     (let blk = f_blocks f ! b;
          s = s\<lparr>ls_ok := (ls_ok s \<and> b < length (f_blocks f))\<rparr>;
          st = next_idx (fold (note_def b) (bk_params blk) (s, {}));
          st = fold (scan_inst b) (bk_insts blk) st;
          (s', _) = scan_term b (bk_term blk) st
      in s'\<lparr>ls_term_idx := (ls_term_idx s')[b := ls_idx s'], ls_idx := ls_idx s' + 1\<rparr>)"

definition scan_blocks :: "ssa_func \<Rightarrow> block_id list \<Rightarrow> live_scan" where
  "scan_blocks f order = fold (scan_block f) order (scan_init f)"

section \<open>The loop\<close>

record live_sets =
  lv_in :: "val set list"
  lv_out :: "val set list"
  lv_changed :: bool

definition sweep_block :: "live_scan \<Rightarrow> block_id \<Rightarrow> live_sets \<Rightarrow> live_sets" where
  "sweep_block s b l =
     (let out = (\<Union>t \<in> set (ls_succ s ! b). lv_in l ! t);
          nin = ls_uses s ! b \<union> (out - ls_defs s ! b)
      in if out \<noteq> lv_out l ! b \<or> nin \<noteq> lv_in l ! b
         then \<lparr>lv_in = (lv_in l)[b := nin], lv_out = (lv_out l)[b := out], lv_changed = True\<rparr>
         else l)"

definition sweep :: "live_scan \<Rightarrow> nat \<Rightarrow> live_sets \<Rightarrow> live_sets" where
  "sweep s n l = fold (sweep_block s) (rev [0..<n]) (l\<lparr>lv_changed := False\<rparr>)"

text \<open>The first sweep indexes \<open>live_in\<close> with every successor of every block.\<close>

definition solve :: "live_scan \<Rightarrow> nat \<Rightarrow> live_sets option" where
  "solve s n =
     (if list_all (\<lambda>b. list_all (\<lambda>t. t < n) (ls_succ s ! b)) [0..<n]
      then while_option lv_changed (sweep s n)
             \<lparr>lv_in = replicate n {}, lv_out = replicate n {}, lv_changed = True\<rparr>
      else None)"

section \<open>The result\<close>

record liveness =
  lr_def :: "nat option list"
  lr_end :: "nat list"
  lr_live_out :: "val set list"
  lr_live_in :: "val set list"

definition raise_to :: "nat \<Rightarrow> nat list \<Rightarrow> val \<Rightarrow> nat list" where
  "raise_to pos ends v = (if ends ! v < pos then ends[v := pos] else ends)"

text \<open>The values are visited in increasing order: the order of a hash set does not matter here.\<close>

definition extend_ends :: "live_scan \<Rightarrow> live_sets \<Rightarrow> block_id list \<Rightarrow> nat list \<Rightarrow> nat list" where
  "extend_ends s l order ends =
     fold (\<lambda>b ends. fold (\<lambda>v ends. raise_to (ls_term_idx s ! b) ends v)
                       (sorted_list_of_set (lv_out l ! b)) ends) order ends"

definition cover_defs :: "nat option list \<Rightarrow> nat list \<Rightarrow> nat list" where
  "cover_defs def ends =
     map2 (\<lambda>d e. case d of Some p \<Rightarrow> (if e < p then p else e) | None \<Rightarrow> e) def ends"

definition analyze_ordered :: "ssa_func \<Rightarrow> block_id list \<Rightarrow> liveness option" where
  "analyze_ordered f order =
     (let s = scan_blocks f order in
      if ls_ok s
      then map_option
             (\<lambda>l. \<lparr>lr_def = ls_def s, lr_end = cover_defs (ls_def s) (extend_ends s l order (ls_last s)),
                   lr_live_out = lv_out l, lr_live_in = lv_in l\<rparr>)
             (solve s (length (f_blocks f)))
      else None)"

definition analyze :: "ssa_func \<Rightarrow> liveness option" where
  "analyze f = analyze_ordered f [0..<length (f_blocks f)]"

text \<open>What is live just after instruction \<open>i\<close> of block \<open>b\<close>, found backwards from the block's end.\<close>

definition live_after :: "liveness \<Rightarrow> ssa_func \<Rightarrow> block_id \<Rightarrow> nat \<Rightarrow> val list" where
  "live_after lv f b i =
     (let blk = f_blocks f ! b;
          live = lr_live_out lv ! b \<union> set (term_value_uses (bk_term blk)) \<union>
                 set (concat (map snd (out_edges (bk_term blk))))
      in sorted_list_of_set
           (fold (\<lambda>inst live.
                    (case i_dest inst of Some d \<Rightarrow> live - {d} | None \<Rightarrow> live) \<union>
                    set (inst_uses (i_kind inst)))
              (rev (drop (i + 1) (bk_insts blk))) live))"

end
