(* ===== verification/Ssa_Live_Scan.thy ===== *)
theory Ssa_Live_Scan
  imports Ssa_Live
begin

text \<open>
  What the scan of the liveness analysis computes: the position of every definition, a bound on
  the positions of the uses, and per block its definitions, its upward exposed uses and its
  successors.
\<close>

section \<open>One block\<close>

definition put_last :: "nat \<Rightarrow> val \<Rightarrow> nat list \<Rightarrow> nat list" where
  "put_last idx v ls = (if ls ! v < idx then ls[v := idx] else ls)"

definition put_def :: "nat \<Rightarrow> val \<Rightarrow> nat option list \<Rightarrow> nat option list" where
  "put_def idx v ds = (if ds ! v = None then ds[v := Some idx] else ds)"

definition put_dest :: "nat \<Rightarrow> inst \<Rightarrow> nat option list \<Rightarrow> nat option list" where
  "put_dest k i ds = (case i_dest i of Some d \<Rightarrow> put_def k d ds | None \<Rightarrow> ds)"

definition dests :: "inst list \<Rightarrow> val set" where
  "dests body = set (List.map_filter i_dest body)"

primrec upward :: "val set \<Rightarrow> inst list \<Rightarrow> val set" where
  "upward D [] = {}"
| "upward D (i # body) =
     (set (inst_uses (i_kind i)) - D) \<union> upward (D \<union> set_option (i_dest i)) body"

primrec insts_last :: "nat \<Rightarrow> inst list \<Rightarrow> nat list \<Rightarrow> nat list" where
  "insts_last k [] ls = ls"
| "insts_last k (i # body) ls =
     insts_last (k + 1) body (fold (put_last k) (inst_uses (i_kind i)) ls)"

primrec insts_def :: "nat \<Rightarrow> inst list \<Rightarrow> nat option list \<Rightarrow> nat option list" where
  "insts_def k [] ds = ds"
| "insts_def k (i # body) ds =
     insts_def (k + 1) body (put_dest k i ds)"

lemma dests_simps [simp]: "dests [] = {}" "dests (i # body) = set_option (i_dest i) \<union> dests body"
  by (auto simp: dests_def List.map_filter_def split: option.splits)

text \<open>The update of one component of a vector.\<close>

definition adj :: "nat \<Rightarrow> ('a \<Rightarrow> 'a) \<Rightarrow> 'a list \<Rightarrow> 'a list" where
  "adj b g xs = xs[b := g (xs ! b)]"

lemma adj_adj [simp]: "adj b g (adj b h xs) = adj b (\<lambda>x. g (h x)) xs"
  by (cases "b < length xs") (simp_all add: adj_def list_update_beyond)

lemma adj_id [simp]: "adj b (\<lambda>x. x) xs = xs"
  by (simp add: adj_def)

lemma length_adj [simp]: "length (adj b g xs) = length xs"
  by (simp add: adj_def)

lemma nth_adj: "c < length xs \<Longrightarrow> adj b g xs ! c = (if c = b then g (xs ! b) else xs ! c)"
  by (simp add: adj_def nth_list_update)

lemma adj_cong: "(\<And>x. g x = h x) \<Longrightarrow> adj b g xs = adj b h xs"
  by (simp add: adj_def)

lemma note_use_fields [simp]:
  "ls_def (fst (note_use b v st)) = ls_def (fst st)"
  "ls_defs (fst (note_use b v st)) = ls_defs (fst st)"
  "ls_succ (fst (note_use b v st)) = ls_succ (fst st)"
  "ls_term_idx (fst (note_use b v st)) = ls_term_idx (fst st)"
  "ls_idx (fst (note_use b v st)) = ls_idx (fst st)"
  "snd (note_use b v st) = snd st"
  "ls_last (fst (note_use b v st)) = put_last (ls_idx (fst st)) v (ls_last (fst st))"
  "ls_uses (fst (note_use b v st)) = adj b (\<lambda>x. x \<union> ({v} - snd st)) (ls_uses (fst st))"
  by (cases st; simp add: note_use_def put_last_def adj_def Un_insert_right insert_Diff_if)+

lemma fold_note_use_fields [simp]:
  "ls_def (fst (fold (note_use b) us st)) = ls_def (fst st)"
  "ls_defs (fst (fold (note_use b) us st)) = ls_defs (fst st)"
  "ls_succ (fst (fold (note_use b) us st)) = ls_succ (fst st)"
  "ls_term_idx (fst (fold (note_use b) us st)) = ls_term_idx (fst st)"
  "ls_idx (fst (fold (note_use b) us st)) = ls_idx (fst st)"
  "snd (fold (note_use b) us st) = snd st"
  "ls_last (fst (fold (note_use b) us st)) = fold (put_last (ls_idx (fst st))) us (ls_last (fst st))"
  "ls_uses (fst (fold (note_use b) us st)) =
     adj b (\<lambda>x. x \<union> (set us - snd st)) (ls_uses (fst st))"
proof -
  show "ls_uses (fst (fold (note_use b) us st)) =
     adj b (\<lambda>x. x \<union> (set us - snd st)) (ls_uses (fst st))"
    by (induction us arbitrary: st) (simp, simp, rule adj_cong, blast)
qed (induction us arbitrary: st; simp)+

lemma note_def_fields [simp]:
  "ls_last (fst (note_def b v st)) = ls_last (fst st)"
  "ls_uses (fst (note_def b v st)) = ls_uses (fst st)"
  "ls_succ (fst (note_def b v st)) = ls_succ (fst st)"
  "ls_term_idx (fst (note_def b v st)) = ls_term_idx (fst st)"
  "ls_idx (fst (note_def b v st)) = ls_idx (fst st)"
  "snd (note_def b v st) = snd st \<union> {v}"
  "ls_def (fst (note_def b v st)) = put_def (ls_idx (fst st)) v (ls_def (fst st))"
  "ls_defs (fst (note_def b v st)) = adj b (\<lambda>x. x \<union> {v}) (ls_defs (fst st))"
  by (cases st; simp add: note_def_def put_def_def adj_def)+

lemma fold_note_def_fields [simp]:
  "ls_last (fst (fold (note_def b) vs st)) = ls_last (fst st)"
  "ls_uses (fst (fold (note_def b) vs st)) = ls_uses (fst st)"
  "ls_succ (fst (fold (note_def b) vs st)) = ls_succ (fst st)"
  "ls_term_idx (fst (fold (note_def b) vs st)) = ls_term_idx (fst st)"
  "ls_idx (fst (fold (note_def b) vs st)) = ls_idx (fst st)"
  "snd (fold (note_def b) vs st) = snd st \<union> set vs"
  "ls_def (fst (fold (note_def b) vs st)) = fold (put_def (ls_idx (fst st))) vs (ls_def (fst st))"
  "ls_defs (fst (fold (note_def b) vs st)) = adj b (\<lambda>x. x \<union> set vs) (ls_defs (fst st))"
proof -
  show "ls_defs (fst (fold (note_def b) vs st)) = adj b (\<lambda>x. x \<union> set vs) (ls_defs (fst st))"
    by (induction vs arbitrary: st) (simp_all add: insert_is_Un [symmetric])
qed (induction vs arbitrary: st; simp)+

lemma note_succ_fields [simp]:
  "ls_last (fst (note_succ b t st)) = ls_last (fst st)"
  "ls_uses (fst (note_succ b t st)) = ls_uses (fst st)"
  "ls_def (fst (note_succ b t st)) = ls_def (fst st)"
  "ls_defs (fst (note_succ b t st)) = ls_defs (fst st)"
  "ls_term_idx (fst (note_succ b t st)) = ls_term_idx (fst st)"
  "ls_idx (fst (note_succ b t st)) = ls_idx (fst st)"
  "snd (note_succ b t st) = snd st"
  "ls_succ (fst (note_succ b t st)) = adj b (\<lambda>x. x @ [t]) (ls_succ (fst st))"
  by (cases st; simp add: note_succ_def adj_def)+

lemma next_idx_fields [simp]:
  "ls_last (fst (next_idx st)) = ls_last (fst st)"
  "ls_uses (fst (next_idx st)) = ls_uses (fst st)"
  "ls_def (fst (next_idx st)) = ls_def (fst st)"
  "ls_defs (fst (next_idx st)) = ls_defs (fst st)"
  "ls_succ (fst (next_idx st)) = ls_succ (fst st)"
  "ls_term_idx (fst (next_idx st)) = ls_term_idx (fst st)"
  "ls_idx (fst (next_idx st)) = Suc (ls_idx (fst st))"
  "snd (next_idx st) = snd st"
  by (cases st; simp add: next_idx_def)+

lemma scan_inst_fields [simp]:
  "ls_term_idx (fst (scan_inst b i st)) = ls_term_idx (fst st)"
  "ls_idx (fst (scan_inst b i st)) = Suc (ls_idx (fst st))"
  "snd (scan_inst b i st) = snd st \<union> set_option (i_dest i)"
  "ls_last (fst (scan_inst b i st)) =
     fold (put_last (ls_idx (fst st))) (inst_uses (i_kind i)) (ls_last (fst st))"
  "ls_def (fst (scan_inst b i st)) =
     put_dest (ls_idx (fst st)) i (ls_def (fst st))"
  "ls_uses (fst (scan_inst b i st)) =
     adj b (\<lambda>x. x \<union> (set (inst_uses (i_kind i)) - snd st)) (ls_uses (fst st))"
  "ls_defs (fst (scan_inst b i st)) =
     adj b (\<lambda>x. x \<union> set_option (i_dest i)) (ls_defs (fst st))"
  "ls_succ (fst (scan_inst b i st)) =
     adj b (\<lambda>x. x @ List.map_filter (\<lambda>i. try_handler (i_kind i)) [i]) (ls_succ (fst st))"
  by (auto simp: scan_inst_def put_dest_def Let_def List.map_filter_def split: option.splits)

lemma fold_scan_inst_fields [simp]:
  "ls_term_idx (fst (fold (scan_inst b) body st)) = ls_term_idx (fst st)"
  "ls_idx (fst (fold (scan_inst b) body st)) = ls_idx (fst st) + length body"
  "snd (fold (scan_inst b) body st) = snd st \<union> dests body"
  "ls_last (fst (fold (scan_inst b) body st)) = insts_last (ls_idx (fst st)) body (ls_last (fst st))"
  "ls_def (fst (fold (scan_inst b) body st)) = insts_def (ls_idx (fst st)) body (ls_def (fst st))"
  "ls_uses (fst (fold (scan_inst b) body st)) =
     adj b (\<lambda>x. x \<union> upward (snd st) body) (ls_uses (fst st))"
  "ls_defs (fst (fold (scan_inst b) body st)) = adj b (\<lambda>x. x \<union> dests body) (ls_defs (fst st))"
  "ls_succ (fst (fold (scan_inst b) body st)) =
     adj b (\<lambda>x. x @ List.map_filter (\<lambda>i. try_handler (i_kind i)) body) (ls_succ (fst st))"
proof -
  show "ls_uses (fst (fold (scan_inst b) body st)) =
     adj b (\<lambda>x. x \<union> upward (snd st) body) (ls_uses (fst st))"
    by (induction "body" arbitrary: st) (simp_all add: Un_assoc)
  show "ls_defs (fst (fold (scan_inst b) body st)) =
     adj b (\<lambda>x. x \<union> dests body) (ls_defs (fst st))"
    by (induction "body" arbitrary: st) (simp_all add: Un_assoc)
  show "ls_succ (fst (fold (scan_inst b) body st)) =
     adj b (\<lambda>x. x @ List.map_filter (\<lambda>i. try_handler (i_kind i)) body) (ls_succ (fst st))"
    by (induction "body" arbitrary: st) (simp_all add: List.map_filter_def)
qed (induction "body" arbitrary: st; simp add: Un_assoc)+

lemma scan_term_fields [simp]:
  "ls_def (fst (scan_term b t st)) = ls_def (fst st)"
  "ls_defs (fst (scan_term b t st)) = ls_defs (fst st)"
  "ls_term_idx (fst (scan_term b t st)) = ls_term_idx (fst st)"
  "ls_idx (fst (scan_term b t st)) = ls_idx (fst st)"
  "snd (scan_term b t st) = snd st"
  "ls_last (fst (scan_term b t st)) = fold (put_last (ls_idx (fst st))) (term_uses t) (ls_last (fst st))"
  "ls_uses (fst (scan_term b t st)) =
     adj b (\<lambda>x. x \<union> (set (term_uses t) - snd st)) (ls_uses (fst st))"
  "ls_succ (fst (scan_term b t st)) = adj b (\<lambda>x. x @ term_succs t) (ls_succ (fst st))"
proof -
  have term_cases: "\<exists>us ts. scan_term b t st = fold (note_succ b) ts (fold (note_use b) us st) \<and>
      term_uses t = us \<and> term_succs t = ts"
    by (cases t rule: term_uses.cases) simp_all
  have succs: "ls_succ (fst (fold (note_succ b) ts st)) = adj b (\<lambda>x. x @ ts) (ls_succ (fst st))"
    "ls_uses (fst (fold (note_succ b) ts st)) = ls_uses (fst st)"
    "ls_last (fst (fold (note_succ b) ts st)) = ls_last (fst st)"
    "ls_def (fst (fold (note_succ b) ts st)) = ls_def (fst st)"
    "ls_defs (fst (fold (note_succ b) ts st)) = ls_defs (fst st)"
    "ls_term_idx (fst (fold (note_succ b) ts st)) = ls_term_idx (fst st)"
    "ls_idx (fst (fold (note_succ b) ts st)) = ls_idx (fst st)"
    "snd (fold (note_succ b) ts st) = snd st" for ts st
    by (induction ts arbitrary: st; simp)+
  show "ls_def (fst (scan_term b t st)) = ls_def (fst st)"
    "ls_defs (fst (scan_term b t st)) = ls_defs (fst st)"
    "ls_term_idx (fst (scan_term b t st)) = ls_term_idx (fst st)"
    "ls_idx (fst (scan_term b t st)) = ls_idx (fst st)"
    "snd (scan_term b t st) = snd st"
    "ls_last (fst (scan_term b t st)) = fold (put_last (ls_idx (fst st))) (term_uses t) (ls_last (fst st))"
    "ls_uses (fst (scan_term b t st)) = adj b (\<lambda>x. x \<union> (set (term_uses t) - snd st)) (ls_uses (fst st))"
    "ls_succ (fst (scan_term b t st)) = adj b (\<lambda>x. x @ term_succs t) (ls_succ (fst st))"
    using term_cases by (elim exE conjE; simp add: succs)+
qed

text \<open>What a block defines, and what it reads before defining it.\<close>

definition bdefs :: "block \<Rightarrow> val set" where
  "bdefs blk = set (bk_params blk) \<union> dests (bk_insts blk)"

definition buses :: "block \<Rightarrow> val set" where
  "buses blk = upward (set (bk_params blk)) (bk_insts blk) \<union> (set (term_uses (bk_term blk)) - bdefs blk)"

definition block_size :: "block \<Rightarrow> nat" where
  "block_size blk = length (bk_insts blk) + 2"

lemma scan_block_fields [simp]:
  fixes f :: ssa_func and b :: block_id
  defines "blk \<equiv> f_blocks f ! b"
  shows "ls_idx (scan_block f b s) = ls_idx s + block_size blk"
    and "ls_term_idx (scan_block f b s) = (ls_term_idx s)[b := Suc (ls_idx s) + length (bk_insts blk)]"
    and "ls_defs (scan_block f b s) = adj b (\<lambda>x. x \<union> bdefs blk) (ls_defs s)"
    and "ls_uses (scan_block f b s) = adj b (\<lambda>x. x \<union> buses blk) (ls_uses s)"
    and "ls_succ (scan_block f b s) =
           adj b (\<lambda>x. x @ block_handlers blk @ term_succs (bk_term blk)) (ls_succ s)"
    and "ls_last (scan_block f b s) =
           fold (put_last (Suc (ls_idx s) + length (bk_insts blk))) (term_uses (bk_term blk))
             (insts_last (Suc (ls_idx s)) (bk_insts blk) (ls_last s))"
    and "ls_def (scan_block f b s) =
           insts_def (Suc (ls_idx s)) (bk_insts blk) (fold (put_def (ls_idx s)) (bk_params blk) (ls_def s))"
  by (simp_all add: scan_block_def Let_def case_prod_unfold blk_def block_size_def bdefs_def
      buses_def block_handlers_def Un_assoc)

section \<open>Positions\<close>

primrec start_of :: "ssa_func \<Rightarrow> block_id list \<Rightarrow> block_id \<Rightarrow> nat" where
  "start_of f [] b = 0"
| "start_of f (c # cs) b = (if b = c then 0 else block_size (f_blocks f ! c) + start_of f cs b)"

lemma start_of_append: "b \<in> set xs \<Longrightarrow> start_of f (xs @ ys) b = start_of f xs b"
  by (induction xs) auto

lemma start_of_new:
  "b \<notin> set xs \<Longrightarrow> start_of f (xs @ b # ys) b = (\<Sum>c\<leftarrow>xs. block_size (f_blocks f ! c))"
  by (induction xs) auto

text \<open>The offsets of the definitions and of the uses within a block.\<close>

definition def_at :: "block \<Rightarrow> val \<Rightarrow> nat \<Rightarrow> bool" where
  "def_at blk v k \<longleftrightarrow> k = 0 \<and> v \<in> set (bk_params blk) \<or>
     (\<exists>i < length (bk_insts blk). k = i + 1 \<and> i_dest (bk_insts blk ! i) = Some v)"

definition use_at :: "block \<Rightarrow> val \<Rightarrow> nat \<Rightarrow> bool" where
  "use_at blk v k \<longleftrightarrow>
     (\<exists>i < length (bk_insts blk). k = i + 1 \<and> v \<in> set (inst_uses (i_kind (bk_insts blk ! i)))) \<or>
     k = length (bk_insts blk) + 1 \<and> v \<in> set (term_uses (bk_term blk))"

lemma length_put [simp]:
  "length (put_last k v ls) = length ls" "length (put_def k v ds) = length ds"
  by (simp_all add: put_last_def put_def_def)

lemma length_put_dest [simp]: "length (put_dest k x ds) = length ds"
  by (simp add: put_dest_def split: option.splits)

lemma length_fold_put [simp]:
  "length (fold (put_last k) vs ls) = length ls" "length (fold (put_def k) vs ds) = length ds"
  by (induction vs arbitrary: ls ds) simp_all

lemma length_insts_put [simp]:
  "length (insts_last k body ls) = length ls" "length (insts_def k body ds) = length ds"
  by (induction body arbitrary: k ls ds) (simp_all split: option.splits)

text \<open>Every value of the block is an index of the value vectors.\<close>

definition values_in :: "nat \<Rightarrow> block \<Rightarrow> bool" where
  "values_in n blk \<longleftrightarrow>
     set (bk_params blk @ List.map_filter i_dest (bk_insts blk) @ block_uses blk) \<subseteq> {..<n}"

definition values_ok :: "ssa_func \<Rightarrow> bool" where
  "values_ok f \<longleftrightarrow> (\<forall>blk \<in> set (f_blocks f). values_in (length (f_values f)) blk)"

lemma note_ok [simp]:
  "ls_ok (fst (note_use b v st)) \<longleftrightarrow> ls_ok (fst st) \<and> v < length (ls_last (fst st))"
  "ls_ok (fst (note_def b v st)) \<longleftrightarrow> ls_ok (fst st) \<and> v < length (ls_def (fst st))"
  "ls_ok (fst (note_succ b t st)) = ls_ok (fst st)" "ls_ok (fst (next_idx st)) = ls_ok (fst st)"
  by (cases st; simp add: note_use_def note_def_def note_succ_def next_idx_def)+

lemma fold_note_ok [simp]:
  "ls_ok (fst (fold (note_use b) us st)) \<longleftrightarrow> ls_ok (fst st) \<and> set us \<subseteq> {..<length (ls_last (fst st))}"
  "ls_ok (fst (fold (note_def b) us st)) \<longleftrightarrow> ls_ok (fst st) \<and> set us \<subseteq> {..<length (ls_def (fst st))}"
  by (induction us arbitrary: st; auto)+

lemma scan_inst_ok [simp]:
  "ls_ok (fst (scan_inst b i st)) \<longleftrightarrow> ls_ok (fst st) \<and>
     set (inst_uses (i_kind i)) \<subseteq> {..<length (ls_last (fst st))} \<and>
     set_option (i_dest i) \<subseteq> {..<length (ls_def (fst st))}"
  by (auto simp: scan_inst_def Let_def split: option.splits)

lemma fold_scan_inst_ok:
  assumes "length (ls_last (fst st)) = n" "length (ls_def (fst st)) = n"
  shows "ls_ok (fst (fold (scan_inst b) body st)) \<longleftrightarrow> ls_ok (fst st) \<and>
     set (concat (map (\<lambda>i. inst_uses (i_kind i)) body)) \<subseteq> {..<n} \<and>
     set (List.map_filter i_dest body) \<subseteq> {..<n}"
  using assms
proof (induction "body" arbitrary: st)
  case (Cons i body)
  then show ?case by (auto simp: List.map_filter_def split: option.splits)
qed (simp add: List.map_filter_def)

lemma scan_term_ok [simp]:
  "ls_ok (fst (scan_term b t st)) \<longleftrightarrow> ls_ok (fst st) \<and> set (term_uses t) \<subseteq> {..<length (ls_last (fst st))}"
  by (cases t rule: term_uses.cases) auto

lemma scan_block_ok:
  assumes "length (ls_last s) = n" "length (ls_def s) = n"
  shows "ls_ok (scan_block f b s) \<longleftrightarrow> ls_ok s \<and> b < length (f_blocks f) \<and> values_in n (f_blocks f ! b)"
  using assms
  by (auto simp: scan_block_def Let_def case_prod_unfold fold_scan_inst_ok [where n = n] values_in_def block_uses_def)

lemma fold_put_last:
  assumes "v < length ls"
  shows "ls ! v \<le> fold (put_last k) us ls ! v" and "v \<in> set us \<Longrightarrow> k \<le> fold (put_last k) us ls ! v"
proof -
  have *: "v < length ls \<Longrightarrow> ls ! v \<le> fold (put_last k) us ls ! v"
    for ls :: "nat list" and us
  proof (induction us arbitrary: ls)
    case (Cons u us)
    have "ls ! v \<le> put_last k u ls ! v"
      using Cons.prems by (cases "u = v") (simp_all add: put_last_def)
    then show ?case using Cons.IH [of "put_last k u ls"] Cons.prems by simp
  qed simp
  show "ls ! v \<le> fold (put_last k) us ls ! v" by (rule * [OF assms])
  show "v \<in> set us \<Longrightarrow> k \<le> fold (put_last k) us ls ! v"
    using assms
  proof (induction us arbitrary: ls)
    case (Cons u us)
    have "k \<le> put_last k v ls ! v" using Cons.prems by (auto simp: put_last_def)
    moreover have "put_last k v ls ! v \<le> fold (put_last k) us (put_last k v ls) ! v"
      using * [of "put_last k v ls"] Cons.prems by simp
    ultimately show ?case using Cons by (cases "u = v") auto
  qed simp
qed

lemma insts_last_bound:
  assumes "v < length ls"
  shows "ls ! v \<le> insts_last k body ls ! v"
    and "i < length body \<Longrightarrow> v \<in> set (inst_uses (i_kind (body ! i))) \<Longrightarrow> k + i \<le> insts_last k body ls ! v"
proof -
  have *: "v < length ls \<Longrightarrow> ls ! v \<le> insts_last k body ls ! v"
    for ls :: "nat list" and k body
  proof (induction body arbitrary: k ls)
    case (Cons x body)
    show ?case
      using fold_put_last(1) [OF Cons.prems, of k "inst_uses (i_kind x)"]
        Cons.IH [of "fold (put_last k) (inst_uses (i_kind x)) ls" "k + 1"] Cons.prems
      by simp
  qed simp
  show "ls ! v \<le> insts_last k body ls ! v" by (rule * [OF assms])
  show "i < length body \<Longrightarrow> v \<in> set (inst_uses (i_kind (body ! i))) \<Longrightarrow> k + i \<le> insts_last k body ls ! v"
    using assms
  proof (induction body arbitrary: k ls i)
    case (Cons x body)
    let ?ls = "fold (put_last k) (inst_uses (i_kind x)) ls"
    show ?case
    proof (cases i)
      case 0
      then have "k \<le> ?ls ! v" using Cons.prems fold_put_last(2) by simp
      moreover have "?ls ! v \<le> insts_last (k + 1) body ?ls ! v"
        using * [of ?ls "k + 1"] Cons.prems(3) by simp
      ultimately show ?thesis using 0 by simp
    next
      case (Suc j)
      then show ?thesis using Cons.IH [of j ?ls "k + 1"] Cons.prems by simp
    qed
  qed simp
qed

lemma fold_put_def:
  "v < length ds \<Longrightarrow>
   fold (put_def k) vs ds ! v =
     (if ds ! v \<noteq> None then ds ! v else if v \<in> set vs then Some k else None)"
proof (induction vs arbitrary: ds)
  case (Cons u vs)
  then show ?case by (cases "u = v") (auto simp: put_def_def)
qed auto

lemma put_dest_nth:
  "v < length ds \<Longrightarrow> put_dest k x ds ! v =
     (if ds ! v \<noteq> None then ds ! v else if i_dest x = Some v then Some k else None)"
  by (auto simp: put_dest_def put_def_def nth_list_update split: option.splits)

lemma insts_def_eq:
  assumes "v < length ds"
  shows "ds ! v = Some p \<Longrightarrow> insts_def k body ds ! v = Some p"
    and "insts_def k body ds ! v = Some p \<Longrightarrow>
           ds ! v = Some p \<or> (\<exists>i < length body. i_dest (body ! i) = Some v \<and> p = k + i)"
    and "i < length body \<Longrightarrow> i_dest (body ! i) = Some v \<Longrightarrow> insts_def k body ds ! v \<noteq> None"
proof -
  have keep: "v < length ds \<Longrightarrow> ds ! v = Some p \<Longrightarrow> insts_def k body ds ! v = Some p"
    for ds :: "nat option list" and k body p
    by (induction body arbitrary: k ds) (simp_all add: put_dest_nth)
  show "ds ! v = Some p \<Longrightarrow> insts_def k body ds ! v = Some p" by (rule keep [OF assms])
  show "insts_def k body ds ! v = Some p \<Longrightarrow>
          ds ! v = Some p \<or> (\<exists>i < length body. i_dest (body ! i) = Some v \<and> p = k + i)"
    using assms
  proof (induction body arbitrary: k ds)
    case (Cons x body)
    then have "put_dest k x ds ! v = Some p \<or>
        (\<exists>i < length body. i_dest (body ! i) = Some v \<and> p = Suc k + i)"
      using Cons.IH [of "k + 1" "put_dest k x ds"] by simp
    then show ?case
    proof (elim disjE exE conjE)
      assume "put_dest k x ds ! v = Some p"
      then show ?thesis using Cons.prems by (auto simp: put_dest_nth split: if_splits)
    next
      fix i assume "i < length body" "i_dest (body ! i) = Some v" "p = Suc k + i"
      then have "Suc i < length (x # body)" "i_dest ((x # body) ! Suc i) = Some v" "p = k + Suc i"
        by simp_all
      then show ?thesis by blast
    qed
  qed simp
  show "i < length body \<Longrightarrow> i_dest (body ! i) = Some v \<Longrightarrow> insts_def k body ds ! v \<noteq> None"
    using assms
  proof (induction body arbitrary: k ds i)
    case (Cons x body)
    show ?case
    proof (cases i)
      case 0
      then have "put_dest k x ds ! v \<noteq> None" using Cons.prems by (auto simp: put_dest_nth)
      then obtain q where q: "put_dest k x ds ! v = Some q" by blast
      have "v < length (put_dest k x ds)" using Cons.prems by simp
      from keep [OF this q, of "k + 1" body] show ?thesis by simp
    next
      case (Suc j)
      then show ?thesis
        using Cons.IH [of j "put_dest k x ds" "k + 1"] Cons.prems by simp
    qed
  qed simp
qed

text \<open>The scan of a list of distinct blocks.\<close>

definition scanned :: "ssa_func \<Rightarrow> block_id list \<Rightarrow> live_scan \<Rightarrow> bool" where
  "scanned f order s \<longleftrightarrow>
     ls_idx s = (\<Sum>b\<leftarrow>order. block_size (f_blocks f ! b)) \<and>
     length (ls_def s) = length (f_values f) \<and> length (ls_last s) = length (f_values f) \<and>
     length (ls_term_idx s) = length (f_blocks f) \<and> length (ls_defs s) = length (f_blocks f) \<and>
     length (ls_uses s) = length (f_blocks f) \<and> length (ls_succ s) = length (f_blocks f) \<and>
     (\<forall>b < length (f_blocks f).
        ls_defs s ! b = (if b \<in> set order then bdefs (f_blocks f ! b) else {}) \<and>
        ls_uses s ! b = (if b \<in> set order then buses (f_blocks f ! b) else {}) \<and>
        set (ls_succ s ! b) = (if b \<in> set order then set (block_successors (f_blocks f ! b)) else {})) \<and>
     (\<forall>b \<in> set order. ls_term_idx s ! b = start_of f order b + 1 + length (bk_insts (f_blocks f ! b))) \<and>
     (\<forall>b \<in> set order. \<forall>v k. use_at (f_blocks f ! b) v k \<longrightarrow> v < length (f_values f) \<longrightarrow>
        start_of f order b + k \<le> ls_last s ! v) \<and>
     (\<forall>v < length (f_values f). \<forall>p. ls_def s ! v = Some p \<longrightarrow>
        (\<exists>b \<in> set order. \<exists>k. def_at (f_blocks f ! b) v k \<and> p = start_of f order b + k)) \<and>
     (\<forall>b \<in> set order. \<forall>v k. def_at (f_blocks f ! b) v k \<longrightarrow> v < length (f_values f) \<longrightarrow>
        ls_def s ! v \<noteq> None)"

lemma def_at_params: "v \<in> set (bk_params blk) \<Longrightarrow> def_at blk v 0"
  by (simp add: def_at_def)

lemma def_at_dest: "i < length (bk_insts blk) \<Longrightarrow> i_dest (bk_insts blk ! i) = Some v \<Longrightarrow> def_at blk v (i + 1)"
  by (simp add: def_at_def)

lemma scan_block_defines:
  assumes "v < length (ls_def s)"
  shows "ls_def s ! v = Some p \<Longrightarrow> ls_def (scan_block f b s) ! v = Some p"
    and "ls_def (scan_block f b s) ! v = Some p \<Longrightarrow>
           ls_def s ! v = Some p \<or> (\<exists>k. def_at (f_blocks f ! b) v k \<and> p = ls_idx s + k)"
    and "def_at (f_blocks f ! b) v k \<Longrightarrow> ls_def (scan_block f b s) ! v \<noteq> None"
proof -
  let ?blk = "f_blocks f ! b"
  let ?ds = "fold (put_def (ls_idx s)) (bk_params ?blk) (ls_def s)"
  have len: "v < length ?ds" using assms by simp
  have ds: "?ds ! v = (if ls_def s ! v \<noteq> None then ls_def s ! v
      else if v \<in> set (bk_params ?blk) then Some (ls_idx s) else None)"
    by (rule fold_put_def [OF assms])
  show "ls_def s ! v = Some p \<Longrightarrow> ls_def (scan_block f b s) ! v = Some p"
    using insts_def_eq(1) [OF len] ds by simp
  show "ls_def (scan_block f b s) ! v = Some p \<Longrightarrow>
           ls_def s ! v = Some p \<or> (\<exists>k. def_at ?blk v k \<and> p = ls_idx s + k)"
    using insts_def_eq(2) [OF len, of "Suc (ls_idx s)" "bk_insts ?blk" p] ds
    by (auto split: if_splits dest: def_at_params def_at_dest)
  show "def_at ?blk v k \<Longrightarrow> ls_def (scan_block f b s) ! v \<noteq> None"
    using insts_def_eq(1,3) [OF len] ds by (auto simp: def_at_def split: if_splits)
qed

lemma scan_block_last:
  assumes "v < length (ls_last s)"
  shows "ls_last s ! v \<le> ls_last (scan_block f b s) ! v"
    and "use_at (f_blocks f ! b) v k \<Longrightarrow> ls_idx s + k \<le> ls_last (scan_block f b s) ! v"
proof -
  let ?blk = "f_blocks f ! b"
  let ?ls = "insts_last (Suc (ls_idx s)) (bk_insts ?blk) (ls_last s)"
  have len: "v < length ?ls" using assms by simp
  note i = insts_last_bound [OF assms] and t = fold_put_last [OF len]
  have le: "?ls ! v \<le> ls_last (scan_block f b s) ! v" using t(1) by simp
  show "ls_last s ! v \<le> ls_last (scan_block f b s) ! v"
    using i(1) le by (rule le_trans)
  show "ls_idx s + k \<le> ls_last (scan_block f b s) ! v" if "use_at ?blk v k"
    using that unfolding use_at_def
  proof (elim disjE exE conjE)
    fix j assume "j < length (bk_insts ?blk)" "k = j + 1"
      "v \<in> set (inst_uses (i_kind (bk_insts ?blk ! j)))"
    then show ?thesis using i(2) [of j "bk_insts ?blk" "Suc (ls_idx s)"] le by simp
  next
    assume "k = length (bk_insts ?blk) + 1" "v \<in> set (term_uses (bk_term ?blk))"
    then show ?thesis using t(2) [of "term_uses (bk_term ?blk)"] by simp
  qed
qed

lemma scanned_init: "scanned f [] (scan_init f)"
  by (simp add: scanned_def scan_init_def Let_def)

lemma scanned_snoc:
  assumes "scanned f xs s" "b \<notin> set xs" "b < length (f_blocks f)"
  shows "scanned f (xs @ [b]) (scan_block f b s)"
proof -
  have inv: "ls_idx s = (\<Sum>b\<leftarrow>xs. block_size (f_blocks f ! b))"
    "length (ls_def s) = length (f_values f)" "length (ls_last s) = length (f_values f)"
    "length (ls_term_idx s) = length (f_blocks f)" "length (ls_defs s) = length (f_blocks f)"
    "length (ls_uses s) = length (f_blocks f)" "length (ls_succ s) = length (f_blocks f)"
    and sets: "\<And>c. c < length (f_blocks f) \<Longrightarrow>
        ls_defs s ! c = (if c \<in> set xs then bdefs (f_blocks f ! c) else {}) \<and>
        ls_uses s ! c = (if c \<in> set xs then buses (f_blocks f ! c) else {}) \<and>
        set (ls_succ s ! c) = (if c \<in> set xs then set (block_successors (f_blocks f ! c)) else {})"
    and trm: "\<And>c. c \<in> set xs \<Longrightarrow>
        ls_term_idx s ! c = start_of f xs c + 1 + length (bk_insts (f_blocks f ! c))"
    and us: "\<And>c v k. c \<in> set xs \<Longrightarrow> use_at (f_blocks f ! c) v k \<Longrightarrow> v < length (f_values f) \<Longrightarrow>
        start_of f xs c + k \<le> ls_last s ! v"
    and df: "\<And>v p. v < length (f_values f) \<Longrightarrow> ls_def s ! v = Some p \<Longrightarrow>
        \<exists>c \<in> set xs. \<exists>k. def_at (f_blocks f ! c) v k \<and> p = start_of f xs c + k"
    and dn: "\<And>c v k. c \<in> set xs \<Longrightarrow> def_at (f_blocks f ! c) v k \<Longrightarrow> v < length (f_values f) \<Longrightarrow>
        ls_def s ! v \<noteq> None"
    using assms(1) unfolding scanned_def by blast+
  have old: "start_of f (xs @ [b]) c = start_of f xs c" if "c \<in> set xs" for c
    using that by (rule start_of_append)
  have new: "start_of f (xs @ [b]) b = ls_idx s"
    using start_of_new [OF assms(2), of f "[]"] inv(1) by simp
  show ?thesis
    unfolding scanned_def
  proof (intro conjI allI impI ballI)
    fix c assume "c < length (f_blocks f)"
    then show "ls_defs (scan_block f b s) ! c =
        (if c \<in> set (xs @ [b]) then bdefs (f_blocks f ! c) else {})"
      "ls_uses (scan_block f b s) ! c =
        (if c \<in> set (xs @ [b]) then buses (f_blocks f ! c) else {})"
      "set (ls_succ (scan_block f b s) ! c) =
        (if c \<in> set (xs @ [b]) then set (block_successors (f_blocks f ! c)) else {})"
      using sets [of c] assms(2) inv
      by (auto simp: nth_adj block_successors_def split: if_splits)
  next
    fix c assume "c \<in> set (xs @ [b])"
    then show "ls_term_idx (scan_block f b s) ! c =
        start_of f (xs @ [b]) c + 1 + length (bk_insts (f_blocks f ! c))"
      using trm [of c] old [of c] new inv assms(2,3) by (cases "c = b") auto
  next
    fix c v k assume *: "c \<in> set (xs @ [b])" "use_at (f_blocks f ! c) v k" "v < length (f_values f)"
    show "start_of f (xs @ [b]) c + k \<le> ls_last (scan_block f b s) ! v"
    proof (cases "c = b")
      case True
      have "v < length (ls_last s)" using * inv by simp
      from scan_block_last(2) [OF this] show ?thesis using * new True by simp
    next
      case False
      then have "start_of f xs c + k \<le> ls_last s ! v" using us * by simp
      also have "\<dots> \<le> ls_last (scan_block f b s) ! v"
        by (rule scan_block_last(1)) (use * inv in simp)
      finally show ?thesis using old * False by simp
    qed
  next
    fix v p assume *: "v < length (f_values f)" "ls_def (scan_block f b s) ! v = Some p"
    then have "ls_def s ! v = Some p \<or> (\<exists>k. def_at (f_blocks f ! b) v k \<and> p = ls_idx s + k)"
      by (intro scan_block_defines(2)) (use inv in simp_all)
    then show "\<exists>c \<in> set (xs @ [b]). \<exists>k. def_at (f_blocks f ! c) v k \<and> p = start_of f (xs @ [b]) c + k"
    proof
      assume "ls_def s ! v = Some p"
      then show ?thesis using df * old by fastforce
    qed (use new in auto)
  next
    fix c v k assume *: "c \<in> set (xs @ [b])" "def_at (f_blocks f ! c) v k" "v < length (f_values f)"
    show "ls_def (scan_block f b s) ! v \<noteq> None"
    proof (cases "c = b")
      case True
      have "v < length (ls_def s)" using * inv by simp
      from scan_block_defines(3) [OF this] show ?thesis using * True by blast
    next
      case False
      then have "ls_def s ! v \<noteq> None" using * by (intro dn [of c v k]) auto
      then obtain p where "ls_def s ! v = Some p" by blast
      moreover have "v < length (ls_def s)" using * inv by simp
      ultimately show ?thesis using scan_block_defines(1) by (metis option.distinct(1))
    qed
  qed (use inv in simp_all)
qed

lemma scanned_blocks:
  assumes "distinct order" "set order \<subseteq> {..<length (f_blocks f)}"
  shows "scanned f order (scan_blocks f order)"
  using assms
proof (induction order rule: rev_induct)
  case Nil then show ?case by (simp add: scan_blocks_def scanned_init)
next
  case (snoc b xs)
  then show ?case using scanned_snoc [of f xs "scan_blocks f xs" b] by (simp add: scan_blocks_def)
qed

lemma scan_blocks_ok:
  assumes "distinct order" "set order = {..<length (f_blocks f)}"
  shows "ls_ok (scan_blocks f order) \<longleftrightarrow> values_ok f"
proof -
  have "ls_ok (scan_blocks f xs) \<longleftrightarrow> (\<forall>b \<in> set xs. values_in (length (f_values f)) (f_blocks f ! b))"
    if "distinct xs" "set xs \<subseteq> {..<length (f_blocks f)}" for xs
    using that
  proof (induction xs rule: rev_induct)
    case Nil
    then show ?case by (simp add: scan_blocks_def scan_init_def Let_def)
  next
    case (snoc b xs)
    have "scanned f xs (scan_blocks f xs)" using snoc.prems by (intro scanned_blocks) auto
    then have "length (ls_last (scan_blocks f xs)) = length (f_values f)"
      "length (ls_def (scan_blocks f xs)) = length (f_values f)" by (simp_all add: scanned_def)
    from scan_block_ok [OF this, of f b] snoc show ?case by (auto simp: scan_blocks_def)
  qed
  from this [OF assms(1)] have "ls_ok (scan_blocks f order) \<longleftrightarrow>
      (\<forall>b < length (f_blocks f). values_in (length (f_values f)) (f_blocks f ! b))"
    by (simp add: assms(2) Ball_def)
  then show ?thesis by (simp add: values_ok_def all_set_conv_all_nth)
qed

end
