(* ===== verification/Ssa_Live_Fix.thy ===== *)
theory Ssa_Live_Fix
  imports Ssa_Live_Scan
begin

text \<open>
  The loop of the liveness analysis: it returns, and the sets it ends with are the values that
  some path reads before it defines them.
\<close>

section \<open>The reference\<close>

text \<open>
  A value is live at the entry of a block when a path starts there that reads the value, and no
  block of the path defines it before.
\<close>

definition live_entry :: "ssa_func \<Rightarrow> val \<Rightarrow> block_id \<Rightarrow> bool" where
  "live_entry f v b \<longleftrightarrow>
     (\<exists>p k. walk (flow f) p \<and> hd p = b \<and>
        (\<forall>c \<in> set (butlast p). \<forall>j. \<not> def_at (f_blocks f ! c) v j) \<and>
        use_at (f_blocks f ! last p) v k \<and> (\<forall>j < k. \<not> def_at (f_blocks f ! last p) v j))"

lemma upward_iff:
  "v \<in> upward D body \<longleftrightarrow>
     (\<exists>i < length body. v \<in> set (inst_uses (i_kind (body ! i))) \<and> v \<notin> D \<and>
        (\<forall>j < i. i_dest (body ! j) \<noteq> Some v))"
proof (induction body arbitrary: D)
  case (Cons x body)
  show ?case
    unfolding upward.simps Un_iff Cons.IH length_Cons Ex_less_Suc2 All_less_Suc2 by auto
qed simp

lemma dests_iff: "v \<in> dests body \<longleftrightarrow> (\<exists>i < length body. i_dest (body ! i) = Some v)"
  by (induction body) (auto simp: Ex_less_Suc2)

lemma bdefs_iff: "v \<in> bdefs blk \<longleftrightarrow> (\<exists>j. def_at blk v j)"
  by (auto simp: bdefs_def def_at_def dests_iff)

lemma buses_iff: "v \<in> buses blk \<longleftrightarrow> (\<exists>k. use_at blk v k \<and> (\<forall>j < k. \<not> def_at blk v j))"
proof
  assume "v \<in> buses blk"
  then consider i where "i < length (bk_insts blk)" "v \<in> set (inst_uses (i_kind (bk_insts blk ! i)))"
      "v \<notin> set (bk_params blk)" "\<forall>j < i. i_dest (bk_insts blk ! j) \<noteq> Some v"
    | "v \<in> set (term_uses (bk_term blk))" "v \<notin> bdefs blk"
    by (auto simp: buses_def upward_iff)
  then show "\<exists>k. use_at blk v k \<and> (\<forall>j < k. \<not> def_at blk v j)"
  proof cases
    case 1
    then have "use_at blk v (i + 1) \<and> (\<forall>j < i + 1. \<not> def_at blk v j)"
      by (auto simp: use_at_def def_at_def)
    then show ?thesis by blast
  next
    case 2
    then have "use_at blk v (length (bk_insts blk) + 1)" by (simp add: use_at_def)
    then show ?thesis using 2(2) by (auto simp: bdefs_iff)
  qed
next
  assume "\<exists>k. use_at blk v k \<and> (\<forall>j < k. \<not> def_at blk v j)"
  then obtain k where k: "use_at blk v k" "\<And>j. j < k \<Longrightarrow> \<not> def_at blk v j" by blast
  from k(1) show "v \<in> buses blk"
    unfolding use_at_def
  proof (elim disjE exE conjE)
    fix i assume i: "i < length (bk_insts blk)" "k = i + 1"
      "v \<in> set (inst_uses (i_kind (bk_insts blk ! i)))"
    have "v \<notin> set (bk_params blk)" using k(2) [of 0] i by (auto simp: def_at_def)
    moreover have "i_dest (bk_insts blk ! j) \<noteq> Some v" if "j < i" for j
      using k(2) [of "j + 1"] i that by (auto simp: def_at_def)
    ultimately show ?thesis using i by (auto simp: buses_def upward_iff)
  next
    assume t: "k = length (bk_insts blk) + 1" "v \<in> set (term_uses (bk_term blk))"
    have "\<not> def_at blk v j" for j
      using k(2) [of j] t by (cases "j < k") (auto simp: def_at_def)
    then show ?thesis using t by (auto simp: buses_def bdefs_iff)
  qed
qed

lemma live_entry_use: "v \<in> buses (f_blocks f ! b) \<Longrightarrow> live_entry f v b"
  unfolding live_entry_def buses_iff by (auto intro!: exI [of _ "[b]"])

lemma live_entry_flow:
  assumes "flow f b t" "live_entry f v t" "v \<notin> bdefs (f_blocks f ! b)"
  shows "live_entry f v b"
proof -
  obtain p k where p: "walk (flow f) p" "hd p = t" "use_at (f_blocks f ! last p) v k"
    "\<forall>c \<in> set (butlast p). \<forall>j. \<not> def_at (f_blocks f ! c) v j"
    "\<forall>j < k. \<not> def_at (f_blocks f ! last p) v j"
    using assms(2) unfolding live_entry_def by blast
  have ne: "p \<noteq> []" using p(1) by auto
  then have "walk (flow f) (b # p)" using walk_append [of "[b]" p "flow f"] p assms(1) by simp
  then show ?thesis
    unfolding live_entry_def using p ne assms(3)
    by (intro exI [of _ "b # p"] exI [of _ k]) (auto simp: bdefs_iff)
qed

lemma live_entry_induct [consumes 1, case_names use flow]:
  assumes "live_entry f v b"
    and "\<And>b. v \<in> buses (f_blocks f ! b) \<Longrightarrow> P b"
    and "\<And>b t. flow f b t \<Longrightarrow> live_entry f v t \<Longrightarrow> P t \<Longrightarrow> v \<notin> bdefs (f_blocks f ! b) \<Longrightarrow> P b"
  shows "P b"
proof -
  obtain p k where "walk (flow f) p" "hd p = b" "use_at (f_blocks f ! last p) v k"
    "\<forall>c \<in> set (butlast p). \<forall>j. \<not> def_at (f_blocks f ! c) v j"
    "\<forall>j < k. \<not> def_at (f_blocks f ! last p) v j"
    using assms(1) unfolding live_entry_def by blast
  then show ?thesis
  proof (induction p arbitrary: b)
    case (Cons x p)
    show ?case
    proof (cases p)
      case Nil
      then have "v \<in> buses (f_blocks f ! b)" using Cons.prems by (auto simp: buses_iff)
      then show ?thesis by (rule assms(2))
    next
      case (Cons y ys)
      have prems: "walk (flow f) p" "hd p = y" "use_at (f_blocks f ! last p) v k"
        "\<forall>c \<in> set (butlast p). \<forall>j. \<not> def_at (f_blocks f ! c) v j"
        "\<forall>j < k. \<not> def_at (f_blocks f ! last p) v j"
        using Cons.prems Cons by auto
      then have "live_entry f v y" unfolding live_entry_def by blast
      moreover have "flow f b y" "v \<notin> bdefs (f_blocks f ! b)"
        using Cons.prems Cons by (auto simp: bdefs_iff)
      ultimately show ?thesis using assms(3) [of b y] Cons.IH [OF prems(1,2,3,4,5)] by blast
    qed
  qed simp
qed

section \<open>The loop\<close>

text \<open>
  The loop reads the scan through three facts: the definitions and the upward exposed uses of a
  block, and its successors, all within the \<open>n\<close> blocks.
\<close>

definition solves :: "live_scan \<Rightarrow> nat \<Rightarrow> live_sets \<Rightarrow> bool" where
  "solves s n l \<longleftrightarrow> (\<forall>b < n.
     lv_out l ! b = (\<Union>t \<in> set (ls_succ s ! b). lv_in l ! t) \<and>
     lv_in l ! b = ls_uses s ! b \<union> (lv_out l ! b - ls_defs s ! b))"

text \<open>The sets only grow, and grow towards the values live by the reference.\<close>

definition live_inv :: "live_scan \<Rightarrow> nat \<Rightarrow> (block_id \<Rightarrow> val set) \<Rightarrow> live_sets \<Rightarrow> bool" where
  "live_inv s n R l \<longleftrightarrow>
     length (lv_in l) = n \<and> length (lv_out l) = n \<and>
     (\<forall>b < n. lv_in l ! b \<subseteq> R b) \<and>
     (\<forall>b < n. lv_out l ! b \<subseteq> (\<Union>t \<in> set (ls_succ s ! b). lv_in l ! t)) \<and>
     (\<forall>b < n. lv_in l ! b \<subseteq> ls_uses s ! b \<union> (lv_out l ! b - ls_defs s ! b))"

definition live_pairs :: "nat \<Rightarrow> live_sets \<Rightarrow> (nat \<times> (val + val)) set" where
  "live_pairs n l = (SIGMA b : {..<n}. lv_in l ! b <+> lv_out l ! b)"

lemma Plus_mono: "A \<subseteq> A' \<Longrightarrow> B \<subseteq> B' \<Longrightarrow> A <+> B \<subseteq> A' <+> B'"
  by auto

lemma Plus_inject: "A <+> B = A' <+> B' \<Longrightarrow> A = A' \<and> B = B'"
  by (auto simp: set_eq_iff Plus_def image_iff)

lemma Sigma_at: "Sigma X F = Sigma X G \<Longrightarrow> b \<in> X \<Longrightarrow> F b = G b"
  by (auto simp: set_eq_iff)

locale flow_equations =
  fixes s :: live_scan and n :: nat and R :: "block_id \<Rightarrow> val set"
  assumes succ_range: "b < n \<Longrightarrow> t \<in> set (ls_succ s ! b) \<Longrightarrow> t < n"
    and R_uses: "b < n \<Longrightarrow> ls_uses s ! b \<subseteq> R b"
    and R_flow: "b < n \<Longrightarrow> t \<in> set (ls_succ s ! b) \<Longrightarrow> R t - ls_defs s ! b \<subseteq> R b"
    and R_finite: "b < n \<Longrightarrow> finite (R b)"
begin

lemma sweep_block_inv:
  assumes inv: "live_inv s n R l" and b: "b < n"
  shows "live_inv s n R (sweep_block s b l)"
    and "sweep_block s b l = l \<or>
           lv_changed (sweep_block s b l) \<and> live_pairs n l \<subset> live_pairs n (sweep_block s b l)"
proof -
  define out where "out = (\<Union>t \<in> set (ls_succ s ! b). lv_in l ! t)"
  define nin where "nin = ls_uses s ! b \<union> (out - ls_defs s ! b)"
  have len: "length (lv_in l) = n" "length (lv_out l) = n"
    and sub: "\<And>c. c < n \<Longrightarrow> lv_in l ! c \<subseteq> R c"
    and o: "\<And>c. c < n \<Longrightarrow> lv_out l ! c \<subseteq> (\<Union>t \<in> set (ls_succ s ! c). lv_in l ! t)"
    and i: "\<And>c. c < n \<Longrightarrow> lv_in l ! c \<subseteq> ls_uses s ! c \<union> (lv_out l ! c - ls_defs s ! c)"
    using inv unfolding live_inv_def by blast+
  have grow: "lv_out l ! b \<subseteq> out" "lv_in l ! b \<subseteq> nin"
    using o [OF b] i [OF b] by (auto simp: out_def nin_def)
  have le: "nin \<subseteq> R b"
  proof
    fix v assume "v \<in> nin"
    then consider "v \<in> ls_uses s ! b"
      | t where "t \<in> set (ls_succ s ! b)" "v \<in> lv_in l ! t" "v \<notin> ls_defs s ! b"
      unfolding nin_def out_def by blast
    then show "v \<in> R b"
    proof cases
      case 1 then show ?thesis using R_uses [OF b] by blast
    next
      case 2
      then have "v \<in> R t" using sub succ_range [OF b] by blast
      then show ?thesis using R_flow [OF b 2(1)] 2(3) by blast
    qed
  qed
  show "live_inv s n R (sweep_block s b l)"
  proof (cases "out \<noteq> lv_out l ! b \<or> nin \<noteq> lv_in l ! b")
    case False
    then show ?thesis using inv by (simp add: sweep_block_def Let_def out_def nin_def)
  next
    case True
    let ?l = "\<lparr>lv_in = (lv_in l)[b := nin], lv_out = (lv_out l)[b := out], lv_changed = True\<rparr>"
    have step: "sweep_block s b l = ?l"
      using True by (auto simp: sweep_block_def Let_def out_def nin_def)
    have up: "lv_in l ! c \<subseteq> lv_in ?l ! c" if "c < n" for c
      using grow len that by (cases "c = b") auto
    have "lv_out ?l ! c \<subseteq> (\<Union>t \<in> set (ls_succ s ! c). lv_in ?l ! t)" if "c < n" for c
    proof -
      have "lv_out ?l ! c \<subseteq> (\<Union>t \<in> set (ls_succ s ! c). lv_in l ! t)"
        using o [OF that] len that by (cases "c = b") (auto simp: out_def)
      also have "\<dots> \<subseteq> (\<Union>t \<in> set (ls_succ s ! c). lv_in ?l ! t)"
        by (rule UN_mono [OF subset_refl]) (rule up, rule succ_range [OF that])
      finally show ?thesis .
    qed
    moreover have "lv_in ?l ! c \<subseteq> ls_uses s ! c \<union> (lv_out ?l ! c - ls_defs s ! c)" if "c < n" for c
      using i [OF that] len that by (cases "c = b") (auto simp: nin_def)
    moreover have "lv_in ?l ! c \<subseteq> R c" if "c < n" for c
      using sub [OF that] le len that by (cases "c = b") auto
    ultimately show ?thesis unfolding step live_inv_def using len by simp
  qed
  show "sweep_block s b l = l \<or>
           lv_changed (sweep_block s b l) \<and> live_pairs n l \<subset> live_pairs n (sweep_block s b l)"
  proof (cases "out \<noteq> lv_out l ! b \<or> nin \<noteq> lv_in l ! b")
    case False
    then show ?thesis by (simp add: sweep_block_def Let_def out_def nin_def)
  next
    case True
    let ?l = "\<lparr>lv_in = (lv_in l)[b := nin], lv_out = (lv_out l)[b := out], lv_changed = True\<rparr>"
    have step: "sweep_block s b l = ?l"
      using True by (auto simp: sweep_block_def Let_def out_def nin_def)
    have "live_pairs n l \<subseteq> live_pairs n ?l"
      unfolding live_pairs_def
    proof (rule Sigma_mono [OF subset_refl])
      fix c assume "c \<in> {..<n}"
      then show "lv_in l ! c <+> lv_out l ! c \<subseteq> lv_in ?l ! c <+> lv_out ?l ! c"
        using grow len by (cases "c = b") (simp_all add: Plus_mono)
    qed
    moreover have "live_pairs n l \<noteq> live_pairs n ?l"
    proof
      assume "live_pairs n l = live_pairs n ?l"
      then have "lv_in l ! b <+> lv_out l ! b = lv_in ?l ! b <+> lv_out ?l ! b"
        unfolding live_pairs_def by (rule Sigma_at) (use b in simp)
      then have "lv_in l ! b <+> lv_out l ! b = nin <+> out" using b len by simp
      then have "lv_in l ! b = nin \<and> lv_out l ! b = out" by (rule Plus_inject)
      then show False using True by simp
    qed
    ultimately show ?thesis unfolding step by auto
  qed
qed

lemma fold_sweep:
  assumes "live_inv s n R l" "set bs \<subseteq> {..<n}"
  shows "live_inv s n R (fold (sweep_block s) bs l)"
    and "fold (sweep_block s) bs l = l \<or>
           lv_changed (fold (sweep_block s) bs l) \<and>
           live_pairs n l \<subset> live_pairs n (fold (sweep_block s) bs l)"
    and "fold (sweep_block s) bs l = l \<Longrightarrow> b \<in> set bs \<Longrightarrow> sweep_block s b l = l"
proof -
  have main: "live_inv s n R (fold (sweep_block s) bs l) \<and>
      (fold (sweep_block s) bs l = l \<and> (\<forall>b \<in> set bs. sweep_block s b l = l) \<or>
       lv_changed (fold (sweep_block s) bs l) \<and>
       live_pairs n l \<subset> live_pairs n (fold (sweep_block s) bs l))"
    using assms
  proof (induction bs arbitrary: l)
    case (Cons b bs)
    let ?l = "sweep_block s b l"
    have b: "b < n" using Cons.prems by simp
    note one = sweep_block_inv [OF Cons.prems(1) b]
    note IH = Cons.IH [OF one(1)]
    show ?case
      using one(2) IH Cons.prems by (elim disjE) (auto dest: psubset_trans)
  qed simp
  then show "live_inv s n R (fold (sweep_block s) bs l)" by blast
  from main show "fold (sweep_block s) bs l = l \<or>
      lv_changed (fold (sweep_block s) bs l) \<and>
      live_pairs n l \<subset> live_pairs n (fold (sweep_block s) bs l)" by blast
  from main show "fold (sweep_block s) bs l = l \<Longrightarrow> b \<in> set bs \<Longrightarrow> sweep_block s b l = l" by auto
qed

lemma sweep_cases:
  assumes "live_inv s n R l"
  shows "live_inv s n R (sweep s n l)"
    and "lv_changed (sweep s n l) \<Longrightarrow> live_pairs n l \<subset> live_pairs n (sweep s n l)"
    and "\<not> lv_changed (sweep s n l) \<Longrightarrow>
           live_pairs n (sweep s n l) = live_pairs n l \<and> solves s n (sweep s n l)"
proof -
  let ?l = "l\<lparr>lv_changed := False\<rparr>"
  have inv: "live_inv s n R ?l" using assms by (simp add: live_inv_def)
  have bs: "set (rev [0..<n]) \<subseteq> {..<n}" by auto
  note fold = fold_sweep [OF inv bs, folded sweep_def]
  have pairs: "live_pairs n ?l = live_pairs n l" by (simp add: live_pairs_def)
  show "live_inv s n R (sweep s n l)" by (rule fold(1))
  show "lv_changed (sweep s n l) \<Longrightarrow> live_pairs n l \<subset> live_pairs n (sweep s n l)"
    using fold(2) unfolding pairs by auto
  assume "\<not> lv_changed (sweep s n l)"
  then have same: "sweep s n l = ?l" using fold(2) by blast
  have "lv_out ?l ! b = (\<Union>t \<in> set (ls_succ s ! b). lv_in ?l ! t) \<and>
        lv_in ?l ! b = ls_uses s ! b \<union> (lv_out ?l ! b - ls_defs s ! b)" if "b < n" for b
  proof -
    have keep: "sweep_block s b ?l = ?l" using fold(3) [OF same, of b] that by simp
    show ?thesis
    proof (rule ccontr)
      assume "\<not> ?thesis"
      then have "lv_changed (sweep_block s b ?l)" by (auto simp: sweep_block_def Let_def)
      then show False unfolding keep by simp
    qed
  qed
  then have "solves s n ?l" by (simp only: solves_def) blast
  then show "live_pairs n (sweep s n l) = live_pairs n l \<and> solves s n (sweep s n l)"
    unfolding same pairs by blast
qed

definition live_bound :: "(nat \<times> (val + val)) set" where
  "live_bound = (SIGMA b : {..<n}. R b <+> (\<Union>t \<in> set (ls_succ s ! b). R t))"

lemma live_bound_finite: "finite live_bound"
  using R_finite succ_range unfolding live_bound_def by (intro finite_SigmaI) auto

lemma live_pairs_bound: "live_inv s n R l \<Longrightarrow> live_pairs n l \<subseteq> live_bound"
  unfolding live_bound_def live_pairs_def
proof (rule Sigma_mono [OF subset_refl], rule Plus_mono)
  fix b assume inv: "live_inv s n R l" and b: "b \<in> {..<n}"
  then show "lv_in l ! b \<subseteq> R b" by (simp add: live_inv_def)
  have "lv_out l ! b \<subseteq> (\<Union>t \<in> set (ls_succ s ! b). lv_in l ! t)"
    using inv b by (simp add: live_inv_def)
  also have "\<dots> \<subseteq> (\<Union>t \<in> set (ls_succ s ! b). R t)"
    by (rule UN_mono [OF subset_refl]) (use inv b succ_range in \<open>auto simp: live_inv_def\<close>)
  finally show "lv_out l ! b \<subseteq> (\<Union>t \<in> set (ls_succ s ! b). R t)" .
qed

lemma solve_returns: "\<exists>l. solve s n = Some l \<and> live_inv s n R l \<and> solves s n l"
proof -
  let ?init = "\<lparr>lv_in = replicate n {}, lv_out = replicate n {}, lv_changed = True\<rparr>"
  let ?f = "\<lambda>l. 2 * (card live_bound - card (live_pairs n l)) + (if lv_changed l then 1 else 0)"
  have init: "live_inv s n R ?init" by (simp add: live_inv_def)
  have less: "?f (sweep s n l) < ?f l" if "live_inv s n R l" "lv_changed l" for l
  proof (cases "lv_changed (sweep s n l)")
    case True
    have sub: "live_pairs n (sweep s n l) \<subseteq> live_bound"
      using sweep_cases(1) that(1) live_pairs_bound by blast
    then have "card (live_pairs n l) < card (live_pairs n (sweep s n l))"
      using sweep_cases(2) [OF that(1) True] live_bound_finite
      by (meson psubset_card_mono finite_subset)
    moreover have "card (live_pairs n (sweep s n l)) \<le> card live_bound"
      using sub live_bound_finite by (rule card_mono [rotated])
    ultimately show ?thesis using True that(2) by simp
  next
    case False
    then show ?thesis using sweep_cases(3) [OF that(1)] that(2) by simp
  qed
  obtain l where l: "while_option lv_changed (sweep s n) ?init = Some l"
    using measure_while_option_Some [where P = "live_inv s n R" and f = ?f, OF _ init]
      sweep_cases(1) less by blast
  have "live_inv s n R l \<and> (\<not> lv_changed l \<longrightarrow> solves s n l)"
    by (rule while_option_rule [where P = "\<lambda>l. live_inv s n R l \<and> (\<not> lv_changed l \<longrightarrow> solves s n l)", OF _ l])
      (use sweep_cases init in auto)
  moreover have "\<not> lv_changed l" using while_option_stop [OF l] .
  moreover have "list_all (\<lambda>b. list_all (\<lambda>t. t < n) (ls_succ s ! b)) [0..<n]"
    using succ_range by (auto simp: list_all_iff)
  ultimately show ?thesis using l by (auto simp: solve_def)
qed

end

end
