(* ===== verification/Ssa_Live_Props.thy ===== *)
theory Ssa_Live_Props
  imports Ssa_Live_Fix
begin

text \<open>
  The liveness analysis as a whole: it returns for every order of the blocks, its sets are the
  live values of the reference, and the interval \<open>def .. end\<close> it gives a value covers every
  point where the value is live.
\<close>

section \<open>The loop on a scanned function\<close>

definition block_order :: "ssa_func \<Rightarrow> block_id list \<Rightarrow> bool" where
  "block_order f order \<longleftrightarrow> distinct order \<and> set order = {..<length (f_blocks f)}"

definition checked_order :: "ssa_func \<Rightarrow> block_id list \<Rightarrow> block_id list" where
  "checked_order f order = (if block_order f order then order else [0..<length (f_blocks f)])"

lemma block_order_checked: "block_order f (checked_order f order)"
  by (auto simp: checked_order_def block_order_def)

lemma scan_facts:
  assumes "block_order f order" and "b < length (f_blocks f)"
  shows "ls_defs (scan_blocks f order) ! b = bdefs (f_blocks f ! b)"
    and "ls_uses (scan_blocks f order) ! b = buses (f_blocks f ! b)"
    and "set (ls_succ (scan_blocks f order) ! b) = set (block_successors (f_blocks f ! b))"
  using scanned_blocks [of order f] assms unfolding scanned_def block_order_def by auto

lemma finite_buses: "finite (buses blk)"
proof -
  have "finite (upward D body)" for D body by (induction body arbitrary: D) auto
  then show ?thesis by (simp add: buses_def)
qed

lemma live_entry_bound:
  "live_entry f v b \<Longrightarrow> cfg_ok f \<Longrightarrow> b < length (f_blocks f) \<Longrightarrow>
   v \<in> (\<Union>c < length (f_blocks f). buses (f_blocks f ! c))"
proof (induction rule: live_entry_induct)
  case (flow b t)
  then show ?case unfolding cfg_ok_def flow_def by blast
qed blast

lemma finite_live_entry:
  "cfg_ok f \<Longrightarrow> b < length (f_blocks f) \<Longrightarrow> finite {v. live_entry f v b}"
  by (rule finite_subset [where B = "\<Union>c < length (f_blocks f). buses (f_blocks f ! c)"])
    (use live_entry_bound in \<open>auto simp: finite_buses\<close>)

interpretation live: flow_equations "scan_blocks (checked f) (checked_order (checked f) order)"
  "length (f_blocks (checked f))" "\<lambda>b. {v. live_entry (checked f) v b}" for f order
proof unfold_locales
  let ?f = "checked f" and ?o = "checked_order (checked f) order"
  note ok = cfg_ok_checked [of f] and facts = scan_facts [OF block_order_checked, of _ ?f order]
  fix b t assume b: "b < length (f_blocks ?f)"
  show "finite {v. live_entry ?f v b}" by (rule finite_live_entry [OF ok b])
  show "ls_uses (scan_blocks ?f ?o) ! b \<subseteq> {v. live_entry ?f v b}"
    unfolding facts(2) [OF b] by (blast intro: live_entry_use)
  assume "t \<in> set (ls_succ (scan_blocks ?f ?o) ! b)"
  then have t: "flow ?f b t" unfolding facts(3) [OF b] flow_def .
  then show "t < length (f_blocks ?f)" using ok b unfolding cfg_ok_def flow_def by blast
  show "{v. live_entry ?f v t} - ls_defs (scan_blocks ?f ?o) ! b \<subseteq> {v. live_entry ?f v b}"
    unfolding facts(1) [OF b] using live_entry_flow [OF t] by blast
qed

lemma solve_exact:
  assumes "cfg_ok f" "block_order f order"
  obtains l where "solve (scan_blocks f order) (length (f_blocks f)) = Some l"
    "length (lv_in l) = length (f_blocks f)" "length (lv_out l) = length (f_blocks f)"
    "\<And>b. b < length (f_blocks f) \<Longrightarrow> lv_in l ! b = {v. live_entry f v b}"
    "\<And>b. b < length (f_blocks f) \<Longrightarrow> lv_out l ! b = {v. \<exists>t. flow f b t \<and> live_entry f v t}"
proof -
  let ?n = "length (f_blocks f)" and ?s = "scan_blocks f order"
  have c: "checked f = f" "checked_order f order = order"
    using assms by (simp_all add: checked_def checked_order_def)
  note facts = scan_facts [OF assms(2)]
  obtain l where l: "solve ?s ?n = Some l" "live_inv ?s ?n (\<lambda>b. {v. live_entry f v b}) l"
    "solves ?s ?n l"
    using live.solve_returns [of f order] unfolding c by blast
  have out: "lv_out l ! b = (\<Union>t \<in> {t. flow f b t}. lv_in l ! t)"
    and eq_in: "lv_in l ! b = buses (f_blocks f ! b) \<union> (lv_out l ! b - bdefs (f_blocks f ! b))"
    if "b < ?n" for b
    using l(3) facts [OF that] that unfolding solves_def flow_def by auto
  have "v \<in> lv_in l ! b" if "live_entry f v b" "b < ?n" for v b
    using that
  proof (induction rule: live_entry_induct)
    case (use b) then show ?case using eq_in [of b] by blast
  next
    case (flow b t)
    then have "t < ?n" using assms(1) unfolding cfg_ok_def flow_def by blast
    then have "v \<in> lv_in l ! t" by (rule flow.IH)
    then have "v \<in> lv_out l ! b" unfolding out [OF flow.prems] using flow.hyps(1) by blast
    then show ?case unfolding eq_in [OF flow.prems] using flow.hyps(3) by blast
  qed
  then have ins: "lv_in l ! b = {v. live_entry f v b}" if "b < ?n" for b
    using l(2) that unfolding live_inv_def by blast
  moreover have "lv_out l ! b = {v. \<exists>t. flow f b t \<and> live_entry f v t}" if "b < ?n" for b
  proof -
    have "t < ?n" if "flow f b t" for t
      using assms(1) \<open>b < ?n\<close> that unfolding cfg_ok_def flow_def by blast
    then show ?thesis using out [OF that] ins by auto
  qed
  ultimately show ?thesis using that l(1,2) unfolding live_inv_def by blast
qed

section \<open>The intervals\<close>

lemma length_raise_to [simp]: "length (raise_to p ends v) = length ends"
  by (simp add: raise_to_def)

lemma raise_to_nth:
  "v < length ends \<Longrightarrow> raise_to p ends u ! v = (if u = v then max p (ends ! v) else ends ! v)"
  by (auto simp: raise_to_def)

lemma fold_raise_to:
  "length (fold (\<lambda>v ends. raise_to p ends v) vs ends) = length ends"
  "v < length ends \<Longrightarrow> fold (\<lambda>v ends. raise_to p ends v) vs ends ! v =
     (if v \<in> set vs then max p (ends ! v) else ends ! v)"
  by (induction vs arbitrary: ends) (auto simp: raise_to_nth)

lemma length_extend_ends [simp]: "length (extend_ends s l order ends) = length ends"
proof -
  have "length (fold (\<lambda>b ends. fold (\<lambda>v ends. raise_to (ls_term_idx s ! b) ends v)
        (sorted_list_of_set (lv_out l ! b)) ends) bs ends) = length ends" for bs
    by (induction bs arbitrary: ends) (simp_all add: fold_raise_to)
  then show ?thesis by (simp add: extend_ends_def)
qed

lemma extend_ends:
  assumes "v < length ends"
  shows "ends ! v \<le> extend_ends s l order ends ! v"
    and "b \<in> set order \<Longrightarrow> v \<in> lv_out l ! b \<Longrightarrow> finite (lv_out l ! b) \<Longrightarrow>
           ls_term_idx s ! b \<le> extend_ends s l order ends ! v"
proof -
  let ?step = "\<lambda>b ends. fold (\<lambda>v ends. raise_to (ls_term_idx s ! b) ends v)
                          (sorted_list_of_set (lv_out l ! b)) ends"
  have mono: "v < length ends \<Longrightarrow> ends ! v \<le> fold ?step bs ends ! v" for bs and ends :: "nat list"
  proof (induction bs arbitrary: ends)
    case (Cons b bs)
    have "ends ! v \<le> ?step b ends ! v" using Cons.prems by (simp add: fold_raise_to)
    also have "\<dots> \<le> fold ?step bs (?step b ends) ! v"
      by (rule Cons.IH) (use Cons.prems in \<open>simp add: fold_raise_to\<close>)
    finally show ?case by simp
  qed simp
  then show "ends ! v \<le> extend_ends s l order ends ! v"
    using assms by (simp add: extend_ends_def)
  have "b \<in> set bs \<Longrightarrow> v \<in> lv_out l ! b \<Longrightarrow> finite (lv_out l ! b) \<Longrightarrow> v < length ends \<Longrightarrow>
      ls_term_idx s ! b \<le> fold ?step bs ends ! v" for bs and ends :: "nat list"
  proof (induction bs arbitrary: ends)
    case (Cons c bs)
    show ?case
    proof (cases "b \<in> set bs")
      case True
      then show ?thesis using Cons.IH [of "?step c ends"] Cons.prems by (simp add: fold_raise_to)
    next
      case False
      then have "ls_term_idx s ! b \<le> ?step c ends ! v" using Cons.prems by (simp add: fold_raise_to)
      also have "\<dots> \<le> fold ?step bs (?step c ends) ! v"
        by (rule mono) (use Cons.prems in \<open>simp add: fold_raise_to\<close>)
      finally show ?thesis by simp
    qed
  qed simp
  then show "b \<in> set order \<Longrightarrow> v \<in> lv_out l ! b \<Longrightarrow> finite (lv_out l ! b) \<Longrightarrow>
      ls_term_idx s ! b \<le> extend_ends s l order ends ! v"
    using assms by (simp add: extend_ends_def)
qed

lemma cover_defs_nth:
  assumes "length ds = length ends" "v < length ends"
  shows "ends ! v \<le> cover_defs ds ends ! v"
    and "ds ! v = Some p \<Longrightarrow> p \<le> cover_defs ds ends ! v"
  using assms by (auto simp: cover_defs_def split: option.splits)

text \<open>The position of offset \<open>k\<close> of block \<open>b\<close>.\<close>

abbreviation pos :: "ssa_func \<Rightarrow> block_id list \<Rightarrow> block_id \<Rightarrow> nat \<Rightarrow> nat" where
  "pos f order b k \<equiv> start_of f order b + k"

definition intervals_cover :: "ssa_func \<Rightarrow> block_id list \<Rightarrow> liveness \<Rightarrow> bool" where
  "intervals_cover f order lv \<longleftrightarrow>
     length (lr_def lv) = length (f_values f) \<and> length (lr_end lv) = length (f_values f) \<and>
     (\<forall>v < length (f_values f).
        (\<forall>b < length (f_blocks f). \<forall>k. use_at (f_blocks f ! b) v k \<longrightarrow> pos f order b k \<le> lr_end lv ! v) \<and>
        (\<forall>b < length (f_blocks f). v \<in> lr_live_out lv ! b \<longrightarrow>
           pos f order b (length (bk_insts (f_blocks f ! b)) + 1) \<le> lr_end lv ! v) \<and>
        (\<forall>p. lr_def lv ! v = Some p \<longrightarrow> p \<le> lr_end lv ! v \<and>
           (\<exists>b < length (f_blocks f). \<exists>k. def_at (f_blocks f ! b) v k \<and> p = pos f order b k)) \<and>
        (\<forall>b < length (f_blocks f). \<forall>k. def_at (f_blocks f ! b) v k \<longrightarrow> lr_def lv ! v \<noteq> None))"

lemma analyze_panics: "block_order f order \<Longrightarrow> \<not> values_ok f \<Longrightarrow> analyze_ordered f order = None"
  by (simp add: analyze_ordered_def Let_def scan_blocks_ok block_order_def)

lemma analyze_exact:
  assumes "cfg_ok f" "block_order f order" "values_ok f"
  obtains lv where "analyze_ordered f order = Some lv"
    "\<And>b. b < length (f_blocks f) \<Longrightarrow> lr_live_in lv ! b = {v. live_entry f v b}"
    "\<And>b. b < length (f_blocks f) \<Longrightarrow> lr_live_out lv ! b = {v. \<exists>t. flow f b t \<and> live_entry f v t}"
    "intervals_cover f order lv"
proof -
  let ?s = "scan_blocks f order" and ?n = "length (f_blocks f)"
  obtain l where l: "solve ?s ?n = Some l"
    and ins: "\<And>b. b < ?n \<Longrightarrow> lv_in l ! b = {v. live_entry f v b}"
    and outs: "\<And>b. b < ?n \<Longrightarrow> lv_out l ! b = {v. \<exists>t. flow f b t \<and> live_entry f v t}"
    using solve_exact [OF assms(1,2)] by metis
  let ?lv = "\<lparr>lr_def = ls_def ?s, lr_end = cover_defs (ls_def ?s) (extend_ends ?s l order (ls_last ?s)),
      lr_live_out = lv_out l, lr_live_in = lv_in l\<rparr>"
  have an: "analyze_ordered f order = Some ?lv"
    using assms(2,3) by (simp add: analyze_ordered_def Let_def l scan_blocks_ok block_order_def)
  have ord: "set order = {..<?n}" using assms(2) by (simp add: block_order_def)
  have sc: "scanned f order ?s"
    using scanned_blocks [of order f] assms(2) by (simp add: block_order_def)
  have len: "length (ls_def ?s) = length (f_values f)" "length (ls_last ?s) = length (f_values f)"
    using sc by (simp_all add: scanned_def)
  have fin: "finite (lv_out l ! b)" if "b < ?n" for b
  proof -
    have "{v. \<exists>t. flow f b t \<and> live_entry f v t} \<subseteq>
        (\<Union>t \<in> set (block_successors (f_blocks f ! b)). {v. live_entry f v t})"
      by (auto simp: flow_def)
    moreover have "finite \<dots>"
      using assms(1) that finite_live_entry unfolding cfg_ok_def by auto
    ultimately show ?thesis unfolding outs [OF that] by (rule finite_subset)
  qed
  let ?x = "extend_ends ?s l order (ls_last ?s)"
  have "intervals_cover f order ?lv"
    unfolding intervals_cover_def
  proof (intro conjI allI impI)
    show "length (lr_def ?lv) = length (f_values f)" by (simp add: len)
    have lx: "length ?x = length (f_values f)" using len by simp
    then show "length (lr_end ?lv) = length (f_values f)"
      using len by (simp add: cover_defs_def)
    fix v assume v: "v < length (f_values f)"
    have x: "?x ! v \<le> lr_end ?lv ! v" using cover_defs_nth(1) [of "ls_def ?s" ?x v] lx len v by simp
    note ext = extend_ends [of v "ls_last ?s", where s = ?s and l = l and order = order]
    {
      fix b k assume "b < ?n" "use_at (f_blocks f ! b) v k"
      then have "pos f order b k \<le> ls_last ?s ! v" using sc v ord unfolding scanned_def by blast
      also have "\<dots> \<le> ?x ! v" using ext(1) len v by simp
      finally show "pos f order b k \<le> lr_end ?lv ! v" using x by simp
    next
      fix b assume b: "b < ?n" "v \<in> lr_live_out ?lv ! b"
      have "ls_term_idx ?s ! b = pos f order b (length (bk_insts (f_blocks f ! b)) + 1)"
        using sc b(1) ord unfolding scanned_def by auto
      moreover have "ls_term_idx ?s ! b \<le> ?x ! v" using ext(2) [of b] fin b ord len v by simp
      ultimately show "pos f order b (length (bk_insts (f_blocks f ! b)) + 1) \<le> lr_end ?lv ! v"
        using x by simp
    next
      fix p assume p: "lr_def ?lv ! v = Some p"
      then show "p \<le> lr_end ?lv ! v"
        using cover_defs_nth(2) [of "ls_def ?s" ?x v p] lx len v by simp
      show "\<exists>b < ?n. \<exists>k. def_at (f_blocks f ! b) v k \<and> p = pos f order b k"
      proof -
        have "ls_def ?s ! v = Some p" using p by simp
        then have "\<exists>b \<in> set order. \<exists>k. def_at (f_blocks f ! b) v k \<and> p = pos f order b k"
          using sc v unfolding scanned_def by blast
        then show ?thesis unfolding ord by blast
      qed
    next
      fix b k assume "b < ?n" "def_at (f_blocks f ! b) v k"
      then show "lr_def ?lv ! v \<noteq> None" using sc v ord unfolding scanned_def by simp blast
    }
  qed
  with that [OF an] ins outs show ?thesis by simp
qed

text \<open>
  C8: for every order of the blocks of a function whose edges lead to blocks, the liveness analysis
  indexes out of range exactly when some parameter, destination or operand is no value of the
  function; else it returns and its result is exact: a value is in the live-in set of a block
  precisely when some path of the flow graph that starts there reads it and defines it nowhere
  before, and in the live-out set precisely when it is live at the entry of a successor. The flow
  graph is that of \<open>block_successors\<close>: only the block that holds a \<open>Try\<close> has an edge to the handler,
  so a path that enters the handler from a later block of its region is not one of its paths.
\<close>

theorem liveness_exact:
  assumes "cfg_ok f" and "block_order f order"
  shows "if values_ok f
         then \<exists>lv. analyze_ordered f order = Some lv \<and>
           (\<forall>b < length (f_blocks f). \<forall>v.
              (v \<in> lr_live_in lv ! b \<longleftrightarrow> live_entry f v b) \<and>
              (v \<in> lr_live_out lv ! b \<longleftrightarrow> (\<exists>t. flow f b t \<and> live_entry f v t)))
         else analyze_ordered f order = None"
proof (cases "values_ok f")
  case True
  obtain lv where "analyze_ordered f order = Some lv"
    "\<And>b. b < length (f_blocks f) \<Longrightarrow> lr_live_in lv ! b = {v. live_entry f v b}"
    "\<And>b. b < length (f_blocks f) \<Longrightarrow> lr_live_out lv ! b = {v. \<exists>t. flow f b t \<and> live_entry f v t}"
    by (rule analyze_exact [OF assms True]) blast
  then show ?thesis using True by (auto intro!: exI [of _ lv])
qed (simp add: analyze_panics [OF assms(2)])

lemma diamond_values: "values_ok diamond"
  by (simp add: values_ok_def values_in_def diamond_def block_uses_def empty_block_def List.map_filter_def)

theorem liveness_exact_witness:
  "\<exists>lv. analyze_ordered diamond [0, 2, 1, 3] = Some lv \<and> 0 \<in> lr_live_in lv ! 0"
proof -
  have n: "length (f_blocks diamond) = 4" by (simp add: diamond_def)
  moreover have "set [0, 2, 1, 3] = {..<4 :: nat}" by auto
  ultimately have o: "block_order diamond [0, 2, 1, 3]" unfolding block_order_def by simp
  have "use_at (f_blocks diamond ! 0) 0 1" "\<not> def_at (f_blocks diamond ! 0) 0 0"
    by (simp_all add: diamond_def use_at_def def_at_def empty_block_def)
  then have "live_entry diamond 0 0" by (intro live_entry_use) (auto simp: buses_iff)
  moreover have "(0 :: nat) < 4" by simp
  ultimately show ?thesis
    using liveness_exact [OF diamond_ok(1) o] unfolding n if_P [OF diamond_values] by blast
qed

section \<open>Live after an instruction\<close>

text \<open>
  A value is live after offset \<open>k\<close> of a block when a later point of the block reads it before
  the block defines it again, or when the block defines it no more and it is live at the entry
  of a successor.
\<close>

definition live_past :: "ssa_func \<Rightarrow> val \<Rightarrow> block_id \<Rightarrow> nat \<Rightarrow> bool" where
  "live_past f v b k \<longleftrightarrow>
     (\<exists>m > k. use_at (f_blocks f ! b) v m \<and> (\<forall>j. k < j \<and> j < m \<longrightarrow> \<not> def_at (f_blocks f ! b) v j)) \<or>
     (\<forall>j > k. \<not> def_at (f_blocks f ! b) v j) \<and> (\<exists>t. flow f b t \<and> live_entry f v t)"

definition step_back :: "inst \<Rightarrow> val set \<Rightarrow> val set" where
  "step_back i live = (case i_dest i of Some d \<Rightarrow> live - {d} | None \<Rightarrow> live) \<union> set (inst_uses (i_kind i))"

lemma step_back_iff:
  "v \<in> step_back i live \<longleftrightarrow> v \<in> set (inst_uses (i_kind i)) \<or> v \<in> live \<and> i_dest i \<noteq> Some v"
  by (auto simp: step_back_def split: option.splits)

lemma foldr_step_back:
  "v \<in> foldr step_back xs L \<longleftrightarrow>
     (\<exists>j < length xs. v \<in> set (inst_uses (i_kind (xs ! j))) \<and> (\<forall>m < j. i_dest (xs ! m) \<noteq> Some v)) \<or>
     v \<in> L \<and> (\<forall>m < length xs. i_dest (xs ! m) \<noteq> Some v)"
proof (induction xs)
  case (Cons x xs)
  show ?case
    unfolding foldr.simps comp_def step_back_iff Cons.IH length_Cons Ex_less_Suc2 All_less_Suc2
    by auto
qed simp

lemma set_term_uses:
  "set (term_uses t) = set (term_value_uses t) \<union> set (concat (map snd (out_edges t)))"
  by (cases t rule: term_uses.cases) auto

lemma live_past_steps:
  assumes "k \<le> length (bk_insts (f_blocks f ! b))"
  shows "live_past f v b k \<longleftrightarrow>
    v \<in> foldr step_back (drop k (bk_insts (f_blocks f ! b)))
          ({v. \<exists>t. flow f b t \<and> live_entry f v t} \<union> set (term_uses (bk_term (f_blocks f ! b))))"
    (is "_ \<longleftrightarrow> v \<in> foldr _ ?xs ?L")
proof -
  let ?blk = "f_blocks f ! b" and ?n = "length (bk_insts (f_blocks f ! b))"
  have nth: "?xs ! j = bk_insts ?blk ! (k + j)" if "j < length ?xs" for j
    using that assms by simp
  have d: "(\<forall>j. k < j \<and> j < m \<longrightarrow> \<not> def_at ?blk v j) \<longleftrightarrow>
      (\<forall>j < m - k - 1. i_dest (?xs ! j) \<noteq> Some v)" if "k < m" "m \<le> ?n + 1" for m
  proof (intro iffI allI impI)
    fix j assume *: "\<forall>j. k < j \<and> j < m \<longrightarrow> \<not> def_at ?blk v j" "j < m - k - 1"
    then have "\<not> def_at ?blk v (k + j + 1)" by simp
    moreover have "k + j < ?n" using * that by simp
    ultimately show "i_dest (?xs ! j) \<noteq> Some v" using nth [of j] by (auto simp: def_at_def)
  next
    fix j assume *: "\<forall>j < m - k - 1. i_dest (?xs ! j) \<noteq> Some v" "k < j \<and> j < m"
    moreover have "j - 1 - k < m - k - 1" using *(2) by arith
    ultimately have "i_dest (?xs ! (j - 1 - k)) \<noteq> Some v" by blast
    moreover have "?xs ! (j - 1 - k) = bk_insts ?blk ! (j - 1)"
      using * that nth [of "j - 1 - k"] by simp
    ultimately show "\<not> def_at ?blk v j" using * by (auto simp: def_at_def)
  qed
  have dall: "(\<forall>j > k. \<not> def_at ?blk v j) \<longleftrightarrow> (\<forall>m < length ?xs. i_dest (?xs ! m) \<noteq> Some v)"
  proof -
    have "(\<forall>j > k. \<not> def_at ?blk v j) \<longleftrightarrow> (\<forall>j. k < j \<and> j < ?n + 1 \<longrightarrow> \<not> def_at ?blk v j)"
      by (auto simp: def_at_def)
    then show ?thesis using d [of "?n + 1"] assms by simp
  qed
  show ?thesis
  proof
    assume "live_past f v b k"
    then consider m where "k < m" "use_at ?blk v m" "\<forall>j. k < j \<and> j < m \<longrightarrow> \<not> def_at ?blk v j"
      | "\<forall>j > k. \<not> def_at ?blk v j" "\<exists>t. flow f b t \<and> live_entry f v t"
      unfolding live_past_def by blast
    then show "v \<in> foldr step_back ?xs ?L"
    proof cases
      case (1 m)
      have m: "m \<le> ?n + 1" using 1(2) by (auto simp: use_at_def)
      note dd = d [OF 1(1) m, THEN iffD1, OF 1(3)]
      show ?thesis
      proof (cases "m \<le> ?n")
        case True
        then have "v \<in> set (inst_uses (i_kind (?xs ! (m - k - 1))))" "m - k - 1 < length ?xs"
          using 1(1,2) nth [of "m - k - 1"] by (auto simp: use_at_def)
        then show ?thesis using dd unfolding foldr_step_back by blast
      next
        case False
        then have "m = ?n + 1" "v \<in> set (term_uses (bk_term ?blk))"
          using 1(2) m by (auto simp: use_at_def)
        then show ?thesis using dd unfolding foldr_step_back by simp
      qed
    next
      case 2
      then show ?thesis unfolding foldr_step_back dall by blast
    qed
  next
    assume "v \<in> foldr step_back ?xs ?L"
    then consider j where "j < length ?xs" "v \<in> set (inst_uses (i_kind (?xs ! j)))"
        "\<forall>m < j. i_dest (?xs ! m) \<noteq> Some v"
      | "v \<in> ?L" "\<forall>m < length ?xs. i_dest (?xs ! m) \<noteq> Some v"
      unfolding foldr_step_back by blast
    then show "live_past f v b k"
    proof cases
      case (1 j)
      then have "use_at ?blk v (k + j + 1)" using nth [of j] by (auto simp: use_at_def)
      moreover have "\<forall>i. k < i \<and> i < k + j + 1 \<longrightarrow> \<not> def_at ?blk v i"
        using d [of "k + j + 1"] 1 by simp
      ultimately show ?thesis unfolding live_past_def by (intro disjI1 exI [of _ "k + j + 1"]) simp
    next
      case 2
      note nodef = dall [THEN iffD2, OF 2(2)]
      show ?thesis
      proof (cases "v \<in> set (term_uses (bk_term ?blk))")
        case True
        then have "use_at ?blk v (?n + 1)" by (simp add: use_at_def)
        then show ?thesis unfolding live_past_def
          using nodef assms by (intro disjI1 exI [of _ "?n + 1"]) simp
      next
        case False
        then show ?thesis unfolding live_past_def using nodef 2(1) by blast
      qed
    qed
  qed
qed

lemma live_after_exact:
  assumes "cfg_ok f" "block_order f order" "analyze_ordered f order = Some lv"
    and "b < length (f_blocks f)" "i < length (bk_insts (f_blocks f ! b))"
  shows "set (live_after lv f b i) = {v. live_past f v b (i + 1)}"
proof -
  let ?blk = "f_blocks f ! b"
  let ?L = "{v. \<exists>t. flow f b t \<and> live_entry f v t} \<union> set (term_uses (bk_term ?blk))"
  have out: "lr_live_out lv ! b = {v. \<exists>t. flow f b t \<and> live_entry f v t}"
    using analyze_exact [OF assms(1,2)] analyze_panics [OF assms(2)] assms(3,4)
    by (metis option.inject option.distinct(1))
  have step: "(\<lambda>inst live. (case i_dest inst of Some d \<Rightarrow> live - {d} | None \<Rightarrow> live) \<union>
      set (inst_uses (i_kind inst))) = step_back"
    by (simp add: fun_eq_iff step_back_def)
  have "finite {v. \<exists>t. flow f b t \<and> live_entry f v t}"
  proof (rule finite_subset)
    show "{v. \<exists>t. flow f b t \<and> live_entry f v t} \<subseteq>
        (\<Union>t \<in> set (block_successors ?blk). {v. live_entry f v t})" by (auto simp: flow_def)
    show "finite (\<Union>t \<in> set (block_successors ?blk). {v. live_entry f v t})"
      using assms(1,4) finite_live_entry unfolding cfg_ok_def by auto
  qed
  then have fin: "finite ?L" by simp
  have "finite (foldr step_back xs L)" if "finite L" for xs L
    using that by (induction xs) (auto simp: step_back_def split: option.splits)
  then have "set (sorted_list_of_set (foldr step_back (drop (i + 1) (bk_insts ?blk)) ?L)) =
      foldr step_back (drop (i + 1) (bk_insts ?blk)) ?L"
    using fin by simp
  moreover have "live_after lv f b i =
      sorted_list_of_set (foldr step_back (drop (i + 1) (bk_insts ?blk)) ?L)"
    unfolding live_after_def Let_def step out set_term_uses Un_assoc by (simp add: foldr_conv_fold)
  ultimately show ?thesis
    using live_past_steps [of "i + 1" f b] assms(5) by (auto simp: set_eq_iff)
qed

end
