(* ===== verification/Reg_Assign.thy ===== *)
theory Reg_Assign
  imports Ssa_Live_Props "HOL-Library.Product_Lexorder"
begin

text \<open>
  The register assignment of SSA values: \<open>ssa/emit/regs.rs\<close> and \<open>slot_kind_of\<close> of
  \<open>ssa/emit/register_meta.rs\<close>. A linear scan over the values in the order of their definitions
  keeps the intervals that are still open, and one pool of free registers per slot kind.
\<close>

datatype opt_error =
    Unsupported string
  | InvalidTir "string list"
  | Internal string
  | OutOfRegisters string nat

primrec in_function :: "opt_error \<Rightarrow> string \<Rightarrow> opt_error" where
  "in_function (OutOfRegisters fn needed) name = OutOfRegisters name needed"
| "in_function (Unsupported what) name = Unsupported what"
| "in_function (InvalidTir problems) name = InvalidTir problems"
| "in_function (Internal what) name = Internal what"

definition max_registers :: nat where
  "max_registers = 256"

definition slot_kind_of :: "backend_ty \<Rightarrow> slot_kind" where
  "slot_kind_of ty =
     (case representation ty of
        Ty_Int \<Rightarrow> SlotInt
      | Ty_Float \<Rightarrow> SlotFloat
      | Ty_Bool \<Rightarrow> SlotBool
      | Ty_Str \<Rightarrow> SlotStr
      | Ty_Class _ \<Rightarrow> SlotRef
      | Ty_Array _ \<Rightarrow> SlotRef
      | Ty_Char \<Rightarrow> SlotRef
      | Ty_Bytes \<Rightarrow> SlotRef
      | Ty_Enum _ \<Rightarrow> SlotRef
      | Ty_Fn _ \<Rightarrow> SlotRef
      | Ty_Map _ _ \<Rightarrow> SlotRef
      | Ty_Dict _ \<Rightarrow> SlotRef
      | Ty_Set _ \<Rightarrow> SlotRef
      | Ty_Tuple _ \<Rightarrow> SlotRef
      | Ty_Dynamic r \<Rightarrow> (if r = D_Runtime then SlotRef else SlotDynamic)
      | _ \<Rightarrow> SlotDynamic)"

primrec pool_index :: "slot_kind \<Rightarrow> nat" where
  "pool_index SlotInt = 0"
| "pool_index SlotFloat = 1"
| "pool_index SlotBool = 2"
| "pool_index SlotStr = 3"
| "pool_index SlotRef = 4"
| "pool_index SlotDynamic = 5"

definition pools :: nat where
  "pools = 6"

text \<open>The home register of a captured variable; the cast to \<open>u8\<close> wraps.\<close>

fun var_reg :: "var_id \<Rightarrow> nat \<Rightarrow> nat" where
  "var_reg (V_Param i) nparams = (1 + unat i) mod 256"
| "var_reg (V_Local l) nparams = (1 + nparams + l) mod 256"

text \<open>The registers an instruction needs in the call area.\<close>

definition call_area :: "inst_kind \<Rightarrow> nat" where
  "call_area k =
     (case k of
        I_Call _ args \<Rightarrow> length args + 1
      | I_SelfCall args \<Rightarrow> length args + 1
      | I_MethodCall _ _ args \<Rightarrow> length args
      | I_BuildArray elements \<Rightarrow> length elements
      | I_BuildTuple elements \<Rightarrow> length elements
      | I_BuildMap pairs \<Rightarrow> length pairs * 2
      | I_BuildObject pairs \<Rightarrow> length pairs
      | I_IntrinsicCall _ args _ \<Rightarrow> length args + 1
      | I_CallNativeOp _ args _ \<Rightarrow> length args + 1
      | I_SuperCall args \<Rightarrow> length args + 2
      | I_SuperMethodCall _ args \<Rightarrow> length args + 1
      | I_ExtensionCall _ _ _ args \<Rightarrow> length args + 2
      | I_CallSpread _ args \<Rightarrow> length args + 1
      | _ \<Rightarrow> 0)"

definition captured_var :: "inst_kind \<Rightarrow> var_id option" where
  "captured_var k =
     (case k of I_LoadCaptured var \<Rightarrow> Some var | I_StoreCaptured var _ \<Rightarrow> Some var | _ \<Rightarrow> None)"

definition all_insts :: "ssa_func \<Rightarrow> inst list" where
  "all_insts f = concat (map bk_insts (f_blocks f))"

definition max_call :: "ssa_func \<Rightarrow> nat" where
  "max_call f = fold (\<lambda>i m. max m (call_area (i_kind i))) (all_insts f) 0"

text \<open>The first register above the parameters and the homes of the captured variables.\<close>

definition first_free :: "ssa_func \<Rightarrow> nat \<Rightarrow> nat" where
  "first_free f nparams =
     fold (\<lambda>i b. case captured_var (i_kind i) of
                     Some var \<Rightarrow> max b (var_reg var nparams + 1)
                   | None \<Rightarrow> b)
       (all_insts f) (1 + nparams)"

section \<open>The scan\<close>

text \<open>An open interval: its end, its register and the pool the register goes back to.\<close>

type_synonym active = "(nat \<times> nat \<times> nat) list"

definition swap_remove :: "nat \<Rightarrow> 'a list \<Rightarrow> 'a list" where
  "swap_remove i xs = butlast (xs[i := last xs])"

definition give_back :: "nat \<Rightarrow> nat \<Rightarrow> nat list list \<Rightarrow> nat list list" where
  "give_back k r free = free[k := free ! k @ [r]]"

text \<open>Every interval that ended before \<open>d\<close> gives its register back.\<close>

function expire :: "nat \<Rightarrow> nat \<Rightarrow> active \<Rightarrow> nat list list \<Rightarrow> active \<times> nat list list" where
  "expire d i active free =
     (if i < length active
      then (case active ! i of
              (e, r, k) \<Rightarrow>
                if e < d then expire d i (swap_remove i active) (give_back k r free)
                else expire d (i + 1) active free)
      else (active, free))"
  by pat_completeness auto
termination
  by (relation "measure (\<lambda>(d, i, active, free). length active - i)") (auto simp: swap_remove_def)

declare expire.simps [simp del]

definition take_reg :: "nat \<Rightarrow> nat \<Rightarrow> nat list list \<Rightarrow> nat list list" where
  "take_reg k m free = free[k := filter (\<lambda>x. x \<noteq> m) (free ! k)]"

definition pool_mins :: "nat list list \<Rightarrow> (nat \<times> nat) list" where
  "pool_mins free =
     List.map_filter (\<lambda>(k, p). if p = [] then None else Some (Min (set p), k)) (List.enumerate 0 free)"

text \<open>
  A register for a value of pool \<open>vk\<close>: the smallest free one of its pool, else a new one below
  the ceiling, else the smallest free one of any pool, else a new one.
\<close>

definition pick_reg :: "nat \<Rightarrow> nat \<Rightarrow> nat \<Rightarrow> nat list list \<Rightarrow> nat \<times> nat \<times> nat list list" where
  "pick_reg ceiling vk next_reg free =
     (if free ! vk \<noteq> [] then (let m = Min (set (free ! vk)) in (m, next_reg, take_reg vk m free))
      else if next_reg < ceiling then (next_reg, next_reg + 1, free)
      else if pool_mins free \<noteq> []
      then (case Min (set (pool_mins free)) of (m, k) \<Rightarrow> (m, next_reg, take_reg k m free))
      else (next_reg, next_reg + 1, free))"

record alloc_state =
  al_reg :: "nat list"
  al_next :: nat
  al_free :: "nat list list"
  al_active :: active

definition assign_one ::
  "ssa_func \<Rightarrow> liveness \<Rightarrow> nat \<Rightarrow> val \<Rightarrow> alloc_state \<Rightarrow> opt_error + alloc_state" where
  "assign_one f lv ceiling v st =
     (let d = the (lr_def lv ! v);
          vk = pool_index (slot_kind_of (value_ty f v));
          (active, free) = expire d 0 (al_active st) (al_free st);
          (r, next_reg, free) = pick_reg ceiling vk (al_next st) free
      in if 255 < r then Inl (OutOfRegisters '''' (r + 1))
         else Inr \<lparr>al_reg = (al_reg st)[v := r], al_next = next_reg, al_free = free,
                   al_active = active @ [(lr_end lv ! v, r, vk)]\<rparr>)"

fun assign_all ::
  "ssa_func \<Rightarrow> liveness \<Rightarrow> nat \<Rightarrow> val list \<Rightarrow> alloc_state \<Rightarrow> opt_error + alloc_state" where
  "assign_all f lv ceiling [] st = Inr st"
| "assign_all f lv ceiling (v # vs) st =
     (case assign_one f lv ceiling v st of
        Inl e \<Rightarrow> Inl e
      | Inr st' \<Rightarrow> assign_all f lv ceiling vs st')"

record assignment =
  as_reg :: "nat list"
  as_scratch :: nat
  as_null_reg :: nat
  as_call_base :: nat
  as_register_count :: nat
  as_liveness :: liveness

definition entry_params :: "ssa_func \<Rightarrow> val list" where
  "entry_params f = bk_params (f_blocks f ! f_entry f)"

definition param_regs :: "ssa_func \<Rightarrow> nat list" where
  "param_regs f =
     fold (\<lambda>(i, p) reg. reg[p := (1 + i) mod 256]) (List.enumerate 0 (entry_params f))
       (replicate (length (f_values f)) 0)"

text \<open>The values to place: those a block defines, apart from the entry's parameters, by definition.\<close>

definition scan_order :: "ssa_func \<Rightarrow> liveness \<Rightarrow> val list" where
  "scan_order f lv =
     sort_key (\<lambda>v. the (lr_def lv ! v))
       (filter (\<lambda>v. v \<notin> set (entry_params f) \<and> lr_def lv ! v \<noteq> None) [0..<length (f_values f)])"

definition allocate :: "ssa_func \<Rightarrow> nat \<Rightarrow> liveness \<Rightarrow> opt_error + assignment" where
  "allocate f nparams lv =
     (let ceiling = 256 - (2 + max_call f);
          st = \<lparr>al_reg = param_regs f, al_next = first_free f nparams,
                al_free = replicate pools [], al_active = []\<rparr>
      in case assign_all f lv ceiling (scan_order f lv) st of
           Inl e \<Rightarrow> Inl e
         | Inr st \<Rightarrow>
             let total = al_next st + 2 + max_call f in
             if max_registers < total then Inl (OutOfRegisters '''' total)
             else Inr \<lparr>as_reg = al_reg st, as_scratch = al_next st mod 256,
                       as_null_reg = (al_next st + 1) mod 256,
                       as_call_base = (al_next st + 2) mod 256,
                       as_register_count = max total 1, as_liveness = lv\<rparr>)"

definition assign_registers :: "ssa_func \<Rightarrow> nat \<Rightarrow> (opt_error + assignment) option" where
  "assign_registers f nparams =
     (if length (entry_params f) \<noteq> nparams
      then Some (Inl (Unsupported ''ssa-emit: entry params != arity''))
      else (case emission_order f of
              None \<Rightarrow> None
            | Some order \<Rightarrow>
                map_option (allocate f nparams) (analyze_ordered f order)))"

end
