(* ===== verification/Reg_Assign_Props.thy ===== *)
theory Reg_Assign_Props
  imports Reg_Assign "HOL-Library.Multiset"
begin

text \<open>
  Correctness of the register assignment: two values whose intervals meet never share a
  register, the parameters keep theirs, and everything fits the registers the frame declares.
\<close>

section \<open>The pools\<close>

text \<open>The registers in play: those the open intervals hold and those in the pools.\<close>

definition in_play :: "active \<Rightarrow> nat list list \<Rightarrow> nat multiset" where
  "in_play active free = mset (map (\<lambda>(e, r, k). r) active) + mset (concat free)"

text \<open>No register is in play twice, and all are new ones of the scan.\<close>

definition regs_ok :: "nat \<Rightarrow> nat \<Rightarrow> active \<Rightarrow> nat list list \<Rightarrow> bool" where
  "regs_ok lo hi active free \<longleftrightarrow>
     length free = pools \<and> (\<forall>(e, r, k) \<in> set active. k < pools) \<and>
     (\<forall>x. count (in_play active free) x \<le> 1) \<and> set_mset (in_play active free) \<subseteq> {lo..<hi}"

lemma mset_butlast: "ys \<noteq> [] \<Longrightarrow> mset ys = add_mset (last ys) (mset (butlast ys))"
  by (metis add_mset_add_single append_butlast_last_id mset.simps(1) mset.simps(2) mset_append)

lemma mset_swap_remove: "i < length xs \<Longrightarrow> mset xs = add_mset (xs ! i) (mset (swap_remove i xs))"
proof -
  assume i: "i < length xs"
  let ?ys = "xs[i := last xs]"
  have ne: "?ys \<noteq> []" and ne': "xs \<noteq> []" using i by auto
  have l: "last ?ys = last xs"
    using i ne ne' by (simp add: last_conv_nth nth_list_update)
  have "mset ?ys = add_mset (last xs) (mset (swap_remove i xs))"
    using mset_butlast [OF ne] l by (simp add: swap_remove_def)
  moreover have "mset xs = add_mset (xs ! i) (mset xs - {#xs ! i#})" using i by simp
  moreover have "mset ?ys = add_mset (last xs) (mset xs - {#xs ! i#})"
    using i by (simp add: mset_update)
  ultimately show ?thesis by simp
qed

lemma mset_concat_update:
  "k < length free \<Longrightarrow> mset (concat (free[k := p])) + mset (free ! k) = mset (concat free) + mset p"
proof (induction free arbitrary: k)
  case (Cons q free)
  then show ?case by (cases k) (auto simp: ac_simps)
qed simp

lemma mset_give_back:
  "k < length free \<Longrightarrow> mset (concat (give_back k r free)) = add_mset r (mset (concat free))"
  using mset_concat_update [of k free "free ! k @ [r]"] by (simp add: give_back_def)

lemma mset_map_swap_remove:
  assumes "i < length xs"
  shows "mset (map f xs) = add_mset (f (xs ! i)) (mset (map f (swap_remove i xs)))"
  using arg_cong [OF mset_swap_remove [OF assms], of "image_mset f"] by simp

lemma expire_ok:
  assumes "expire d i active free = (active', free')" "length free = pools"
    and "\<forall>(e, r, k) \<in> set active. k < pools"
  shows "in_play active' free' = in_play active free \<and> length free' = pools \<and>
         (\<forall>(e, r, k) \<in> set active'. k < pools) \<and>
         (\<forall>x \<in> set active. d \<le> fst x \<longrightarrow> x \<in> set active')"
  using assms
proof (induction d i active free arbitrary: active' free' rule: expire.induct)
  case (1 d i active free)
  show ?case
  proof (cases "i < length active")
    case False
    then show ?thesis using "1.prems" by (simp add: expire.simps)
  next
    case True
    obtain e r k where erk: "active ! i = (e, r, k)" by (cases "active ! i")
    have mem: "(e, r, k) \<in> set active" using True erk nth_mem by metis
    show ?thesis
    proof (cases "e < d")
      case False
      then show ?thesis using "1.IH"(2) [OF True erk [symmetric] refl False] "1.prems" True erk
        by (simp add: expire.simps [of d i])
    next
      case lt: True
      let ?a = "swap_remove i active" and ?f = "give_back k r free"
      have k: "k < length free" using mem "1.prems" by auto
      have m: "mset active = add_mset (e, r, k) (mset ?a)"
        using mset_swap_remove [OF True] erk by simp
      have sub: "set active = insert (e, r, k) (set ?a)"
        using arg_cong [OF m, of set_mset] by simp
      have "in_play ?a ?f = in_play active free"
        using mset_map_swap_remove [OF True, of "\<lambda>(e, r, k). r"] mset_give_back [OF k, of r] erk
        by (simp add: in_play_def)
      moreover have "length ?f = pools" using "1.prems" by (simp add: give_back_def)
      moreover have "\<forall>(e, r, k) \<in> set ?a. k < pools" using "1.prems"(3) sub by auto
      moreover have "expire d i ?a ?f = (active', free')"
        using "1.prems"(1) True lt erk by (simp add: expire.simps [of d i])
      ultimately show ?thesis
        using "1.IH"(1) [OF True erk [symmetric] refl lt] sub lt by auto
    qed
  qed
qed

text \<open>The register a value gets was free or is new.\<close>

lemma mset_take_reg:
  assumes "k < length free" "m \<in> set (free ! k)" "\<And>x. count (mset (concat free)) x \<le> 1"
  shows "mset (concat free) = add_mset m (mset (concat (take_reg k m free)))"
proof -
  have "mset (free ! k) \<subseteq># mset (concat free)"
    using mset_concat_update [OF assms(1), of "[]"] by (metis add_cancel_left_right mset.simps(1) mset_subset_eq_add_right add.commute)
  then have "count (mset (free ! k)) m \<le> 1"
    using assms(3) [of m] by (meson mset_subset_eq_count order_trans)
  moreover have "0 < count (mset (free ! k)) m" using assms(2) by (simp only: count_greater_zero_iff set_mset_mset)
  ultimately have c: "count (mset (free ! k)) m = 1" by linarith
  have "mset (free ! k) = add_mset m (mset (filter (\<lambda>x. x \<noteq> m) (free ! k)))"
    using c by (intro multiset_eqI) (auto simp: mset_filter)
  then have "add_mset m (mset (concat (take_reg k m free))) + mset (filter (\<lambda>x. x \<noteq> m) (free ! k)) =
      mset (concat (take_reg k m free)) + mset (free ! k)"
    by simp
  also have "\<dots> = mset (concat free) + mset (filter (\<lambda>x. x \<noteq> m) (free ! k))"
    unfolding take_reg_def by (rule mset_concat_update [OF assms(1)])
  finally show ?thesis by (simp only: add_right_cancel)
qed

lemma pool_mins_mem:
  assumes "(m, k) \<in> set (pool_mins free)"
  shows "k < length free \<and> m \<in> set (free ! k)"
proof -
  have *: "\<exists>p. (k, p) \<in> set (List.enumerate 0 free) \<and> p \<noteq> [] \<and> m = Min (set p)"
    using assms unfolding pool_mins_def by (fastforce simp: List.map_filter_def split: if_splits)
  then obtain p where p: "(k, p) \<in> set (List.enumerate 0 free)" "p \<noteq> []" "m = Min (set p)" by blast
  then have "k < length free" "free ! k = p" by (auto simp: in_set_enumerate_eq)
  moreover have "Min (set p) \<in> set p" using p(2) by simp
  ultimately show ?thesis using p(3) by simp
qed

lemma pick_reg_ok:
  assumes "pick_reg ceiling vk next_reg free = (r, next', free')" "regs_ok lo next_reg active free"
    and "vk < pools" "lo \<le> next_reg"
  shows "regs_ok lo next' (active @ [(e, r, vk)]) free' \<and> next_reg \<le> next' \<and> lo \<le> r \<and> r < next' \<and>
         r \<notin> (\<lambda>(e, r, k). r) ` set active"
proof -
  let ?held = "mset (map (\<lambda>(e, r, k). r) active)"
  have len: "length free = pools" and pk: "\<forall>(e, r, k) \<in> set active. k < pools"
    and c: "\<And>x. count (in_play active free) x \<le> 1"
    and r: "set_mset (in_play active free) \<subseteq> {lo..<next_reg}"
    using assms(2) by (auto simp: regs_ok_def)
  have c': "count (mset (concat free)) x \<le> 1" for x
    using c [of x] by (simp add: in_play_def)
  have taken: ?thesis if "k < pools" "m \<in> set (free ! k)" "r = m" "next' = next_reg"
    "free' = take_reg k m free" for k m
  proof -
    have eq: "mset (concat free) = add_mset m (mset (concat free'))"
      using mset_take_reg [of k free m] that len c' by simp
    then have play: "in_play (active @ [(e, r, vk)]) free' = in_play active free"
      using that by (simp add: in_play_def)
    have "m \<in># in_play active free" unfolding in_play_def eq by simp
    then have "m \<in> {lo..<next_reg}" using r by blast
    moreover have "m \<notin># ?held"
    proof -
      have "count ?held m + count (mset (concat free)) m \<le> 1"
        using c [of m] unfolding in_play_def by (simp only: count_union)
      moreover have "1 \<le> count (mset (concat free)) m" unfolding eq by simp
      ultimately have "count ?held m = 0" by linarith
      then show ?thesis by (simp only: not_in_iff)
    qed
    then have "m \<notin> (\<lambda>(e, r, k). r) ` set active" by (simp only: set_mset_mset set_map not_False_eq_True)
    ultimately show ?thesis
      using that assms(3) pk len c r play by (auto simp: regs_ok_def take_reg_def)
  qed
  have new: ?thesis if "r = next_reg" "next' = next_reg + 1" "free' = free"
  proof -
    have notin: "next_reg \<notin># in_play active free" using r by auto
    have play: "in_play (active @ [(e, r, vk)]) free' = add_mset next_reg (in_play active free)"
      using that by (simp add: in_play_def)
    have "count (add_mset next_reg (in_play active free)) x \<le> 1" for x
      using c [of x] notin by (auto simp: not_in_iff)
    moreover have "next_reg \<notin># ?held" using notin unfolding in_play_def by simp
    then have "next_reg \<notin> (\<lambda>(e, r, k). r) ` set active" by (simp only: set_mset_mset set_map not_False_eq_True)
    ultimately show ?thesis
      using that assms(3,4) pk len r unfolding regs_ok_def play by (auto simp: regs_ok_def)
  qed
    consider m where "m \<in> set (free ! vk)" "r = m" "next' = next_reg" "free' = take_reg vk m free"
      | "r = next_reg" "next' = next_reg + 1" "free' = free"
      | k m where "(m, k) \<in> set (pool_mins free)" "r = m" "next' = next_reg" "free' = take_reg k m free"
    proof (cases "free ! vk = []")
      case False
      then show ?thesis
        using that(1) [of "Min (set (free ! vk))"] assms(1) by (auto simp: pick_reg_def Let_def)
    next
      case True
      show ?thesis
      proof (cases "next_reg < ceiling \<or> pool_mins free = []")
        case True
        then show ?thesis using that(2) \<open>free ! vk = []\<close> assms(1) by (auto simp: pick_reg_def split: if_splits)
      next
        case False
        obtain m k where mk: "Min (set (pool_mins free)) = (m, k)"
          by (cases "Min (set (pool_mins free))")
        have "(m, k) \<in> set (pool_mins free)" using False unfolding mk [symmetric] by simp
        moreover have "r = m" "next' = next_reg" "free' = take_reg k m free"
          using \<open>free ! vk = []\<close> False assms(1) by (auto simp: pick_reg_def mk)
        ultimately show ?thesis by (rule that(3))
      qed
    qed
  then show ?thesis
    by cases (use taken new pool_mins_mem assms(3) len in metis)+
qed

section \<open>The scan\<close>

text \<open>Two intervals meet at a position.\<close>

definition meet :: "liveness \<Rightarrow> val \<Rightarrow> val \<Rightarrow> bool" where
  "meet lv v w \<longleftrightarrow> the (lr_def lv ! v) \<le> lr_end lv ! w \<and> the (lr_def lv ! w) \<le> lr_end lv ! v"

definition scan_inv :: "ssa_func \<Rightarrow> liveness \<Rightarrow> nat \<Rightarrow> nat list \<Rightarrow> val set \<Rightarrow> nat \<Rightarrow> alloc_state \<Rightarrow> bool" where
  "scan_inv f lv lo reg0 P d st \<longleftrightarrow>
     length (al_reg st) = length (f_values f) \<and> lo \<le> al_next st \<and>
     regs_ok lo (al_next st) (al_active st) (al_free st) \<and>
     (\<forall>v \<in> P. the (lr_def lv ! v) \<le> d \<and> lo \<le> al_reg st ! v \<and> al_reg st ! v < al_next st \<and>
        (d \<le> lr_end lv ! v \<longrightarrow> (\<exists>k. (lr_end lv ! v, al_reg st ! v, k) \<in> set (al_active st)))) \<and>
     (\<forall>v \<in> P. \<forall>w \<in> P. v \<noteq> w \<and> meet lv v w \<longrightarrow> al_reg st ! v \<noteq> al_reg st ! w) \<and>
     (\<forall>v < length (f_values f). v \<notin> P \<longrightarrow> al_reg st ! v = reg0 ! v)"

lemma pool_index_less: "pool_index k < pools"
  by (cases k) (simp_all add: pools_def)

lemma assign_one_ok:
  assumes "assign_one f lv ceiling v st = Inr st'" "scan_inv f lv lo reg0 P d st"
    and "d \<le> the (lr_def lv ! v)" "v \<notin> P" "v < length (f_values f)" "P \<subseteq> {..<length (f_values f)}"
    and "the (lr_def lv ! v) \<le> lr_end lv ! v"
  shows "scan_inv f lv lo reg0 (insert v P) (the (lr_def lv ! v)) st'"
proof -
  let ?d = "the (lr_def lv ! v)" and ?vk = "pool_index (slot_kind_of (value_ty f v))"
  obtain active free where e: "expire ?d 0 (al_active st) (al_free st) = (active, free)"
    by (cases "expire ?d 0 (al_active st) (al_free st)")
  obtain r next' free' where p: "pick_reg ceiling ?vk (al_next st) free = (r, next', free')"
    by (cases "pick_reg ceiling ?vk (al_next st) free")
  have st': "st' = \<lparr>al_reg = (al_reg st)[v := r], al_next = next', al_free = free',
      al_active = active @ [(lr_end lv ! v, r, ?vk)]\<rparr>"
    using assms(1) e p by (auto simp: assign_one_def Let_def split: if_splits)
  have len: "length (al_reg st) = length (f_values f)" and lo: "lo \<le> al_next st"
    and ok: "regs_ok lo (al_next st) (al_active st) (al_free st)"
    and P: "\<And>w. w \<in> P \<Longrightarrow> the (lr_def lv ! w) \<le> d \<and> lo \<le> al_reg st ! w \<and> al_reg st ! w < al_next st \<and>
        (d \<le> lr_end lv ! w \<longrightarrow> (\<exists>k. (lr_end lv ! w, al_reg st ! w, k) \<in> set (al_active st)))"
    and apart: "\<And>u w. u \<in> P \<Longrightarrow> w \<in> P \<Longrightarrow> u \<noteq> w \<Longrightarrow> meet lv u w \<Longrightarrow> al_reg st ! u \<noteq> al_reg st ! w"
    and rest: "\<And>w. w < length (f_values f) \<Longrightarrow> w \<notin> P \<Longrightarrow> al_reg st ! w = reg0 ! w"
    using assms(2) unfolding scan_inv_def by blast+
  have ex: "in_play active free = in_play (al_active st) (al_free st)" "length free = pools"
    "\<forall>(e, r, k) \<in> set active. k < pools"
    "\<And>x. x \<in> set (al_active st) \<Longrightarrow> ?d \<le> fst x \<Longrightarrow> x \<in> set active"
    using expire_ok [OF e] ok unfolding regs_ok_def by auto
  have ok1: "regs_ok lo (al_next st) active free"
    using ok ex(1-3) unfolding regs_ok_def by simp
  note pk = pick_reg_ok [OF p ok1 pool_index_less lo, of "lr_end lv ! v"]
  have still: "\<exists>k. (lr_end lv ! w, al_reg st ! w, k) \<in> set active" if "w \<in> P" "?d \<le> lr_end lv ! w" for w
    using P [OF that(1)] that(2) assms(3) ex(4) by fastforce
  have fresh: "al_reg st ! w \<noteq> r" if "w \<in> P" "?d \<le> lr_end lv ! w" for w
    using still [OF that] pk by force
  have old: "(al_reg st)[v := r] ! w = al_reg st ! w" if "w \<in> P" for w
  proof -
    have "v \<noteq> w" using that assms(4) by blast
    then show ?thesis by simp
  qed
  show ?thesis
    unfolding scan_inv_def st' alloc_state.simps
  proof (intro conjI ballI allI impI)
    show "length ((al_reg st)[v := r]) = length (f_values f)" using len by simp
    show "lo \<le> next'" using pk lo by simp
    show "regs_ok lo next' (active @ [(lr_end lv ! v, r, ?vk)]) free'" using pk by blast
  next
    fix w assume w: "w \<in> insert v P"
    show "the (lr_def lv ! w) \<le> ?d" using w P assms(3) by fastforce
    show "lo \<le> (al_reg st)[v := r] ! w" "(al_reg st)[v := r] ! w < next'"
      using w P old pk len assms(5) by (cases "w = v"; fastforce)+
    show "\<exists>k. (lr_end lv ! w, (al_reg st)[v := r] ! w, k) \<in> set (active @ [(lr_end lv ! v, r, ?vk)])"
      if "?d \<le> lr_end lv ! w"
    proof (cases "w = v")
      case True then show ?thesis using len assms(5) by auto
    next
      case False then show ?thesis using w still [of w] that old [of w] by auto
    qed
  next
    fix u w assume *: "u \<in> insert v P" "w \<in> insert v P" "u \<noteq> w \<and> meet lv u w"
    show "(al_reg st)[v := r] ! u \<noteq> (al_reg st)[v := r] ! w"
    proof (cases "u = v \<or> w = v")
      case False
      then show ?thesis using * apart [of u w] old by auto
    next
      case True
      then consider "u = v" "w \<in> P" | "w = v" "u \<in> P" using * by auto
      then show ?thesis
      proof cases
        case 1
        then have "?d \<le> lr_end lv ! w" using * by (simp add: meet_def)
        then show ?thesis using 1 fresh [of w] old [of w] len assms(5) by auto
      next
        case 2
        then have "?d \<le> lr_end lv ! u" using * by (simp add: meet_def)
        then show ?thesis using 2 fresh [of u] old [of u] len assms(5) by auto
      qed
    qed
  next
    fix w assume "w < length (f_values f)" "w \<notin> insert v P"
    then show "(al_reg st)[v := r] ! w = reg0 ! w" using rest by auto
  qed
qed

lemma assign_all_ok:
  assumes "assign_all f lv ceiling vs st = Inr st'" "scan_inv f lv lo reg0 P d st"
    and "sorted (map (\<lambda>v. the (lr_def lv ! v)) vs)" "\<forall>v \<in> set vs. d \<le> the (lr_def lv ! v)"
    and "distinct vs" "set vs \<inter> P = {}" "set vs \<union> P \<subseteq> {..<length (f_values f)}"
    and "\<forall>v \<in> set vs. the (lr_def lv ! v) \<le> lr_end lv ! v"
  shows "\<exists>d'. scan_inv f lv lo reg0 (set vs \<union> P) d' st'"
  using assms
proof (induction vs arbitrary: st P d)
  case (Cons v vs)
  obtain st1 where one: "assign_one f lv ceiling v st = Inr st1"
    and more: "assign_all f lv ceiling vs st1 = Inr st'"
    using Cons.prems(1) by (auto split: sum.splits)
  have inv: "scan_inv f lv lo reg0 (insert v P) (the (lr_def lv ! v)) st1"
    by (rule assign_one_ok [OF one Cons.prems(2)]) (use Cons.prems in auto)
  have "\<exists>d'. scan_inv f lv lo reg0 (set vs \<union> insert v P) d' st'"
    by (rule Cons.IH [OF more inv]) (use Cons.prems in auto)
  then show ?case by simp
qed auto

lemma first_free_ge: "1 + nparams \<le> first_free f nparams"
  and first_free_captured:
    "i \<in> set (all_insts f) \<Longrightarrow> captured_var (i_kind i) = Some var \<Longrightarrow>
     var_reg var nparams < first_free f nparams"
proof -
  let ?step = "\<lambda>i b. case captured_var (i_kind i) of
      Some var \<Rightarrow> max b (var_reg var nparams + 1) | None \<Rightarrow> b"
  have mono: "b \<le> fold ?step is b" for "is" b
  proof (induction "is" arbitrary: b)
    case (Cons x xs)
    have "b \<le> ?step x b" by (simp split: option.splits)
    then show ?case using Cons [of "?step x b"] by simp
  qed simp
  show "1 + nparams \<le> first_free f nparams" unfolding first_free_def by (rule mono)
  have "i \<in> set is \<Longrightarrow> captured_var (i_kind i) = Some var \<Longrightarrow> var_reg var nparams < fold ?step is b" for "is" b
  proof (induction "is" arbitrary: b)
    case (Cons x xs)
    show ?case
    proof (cases "i = x")
      case True
      then have "var_reg var nparams < ?step x b" using Cons.prems by simp
      also have "\<dots> \<le> fold ?step xs (?step x b)" by (rule mono)
      finally show ?thesis by simp
    next
      case False then show ?thesis using Cons by simp
    qed
  qed simp
  then show "i \<in> set (all_insts f) \<Longrightarrow> captured_var (i_kind i) = Some var \<Longrightarrow>
     var_reg var nparams < first_free f nparams" unfolding first_free_def by blast
qed

lemma param_regs_nth:
  assumes "distinct (entry_params f)" "set (entry_params f) \<subseteq> {..<length (f_values f)}"
  shows "length (param_regs f) = length (f_values f)"
    and "i < length (entry_params f) \<Longrightarrow> param_regs f ! (entry_params f ! i) = (1 + i) mod 256"
proof -
  let ?step = "\<lambda>(i, p) reg. reg[p := (1 + i) mod 256]"
  have len: "length (fold ?step xs reg) = length reg" for xs and reg :: "nat list"
    by (induction xs arbitrary: reg) (simp_all add: case_prod_unfold)
  then show "length (param_regs f) = length (f_values f)" by (simp add: param_regs_def)
  have keep: "p \<notin> set ps \<Longrightarrow> fold ?step (List.enumerate k ps) reg ! p = reg ! p" for ps k p reg
    by (induction ps arbitrary: k reg) auto
  have "i < length ps \<Longrightarrow> distinct ps \<Longrightarrow> set ps \<subseteq> {..<length reg} \<Longrightarrow>
      fold ?step (List.enumerate k ps) reg ! (ps ! i) = (1 + (k + i)) mod 256" for ps k i reg
  proof (induction ps arbitrary: k i reg)
    case (Cons p ps)
    show ?case
    proof (cases i)
      case 0
      then show ?thesis using Cons.prems keep [of p ps "Suc k" "reg[p := (1 + k) mod 256]"] by simp
    next
      case (Suc j)
      then show ?thesis using Cons.prems Cons.IH [of j "reg[p := (1 + k) mod 256]" "Suc k"] by simp
    qed
  qed simp
  from this [of i "entry_params f" "replicate (length (f_values f)) 0" 0]
  show "i < length (entry_params f) \<Longrightarrow> param_regs f ! (entry_params f ! i) = (1 + i) mod 256"
    using assms by (simp add: param_regs_def)
qed

text \<open>What a placed value is: a parameter of the entry, or defined by a scanned block.\<close>

definition placed :: "ssa_func \<Rightarrow> liveness \<Rightarrow> val \<Rightarrow> bool" where
  "placed f lv v \<longleftrightarrow> v < length (f_values f) \<and> (v \<in> set (entry_params f) \<or> lr_def lv ! v \<noteq> None)"

lemma allocate_ok:
  assumes "allocate f nparams lv = Inr a" "length (entry_params f) = nparams"
    and "distinct (entry_params f)" "set (entry_params f) \<subseteq> {..<length (f_values f)}"
    and "\<forall>v < length (f_values f). \<forall>p. lr_def lv ! v = Some p \<longrightarrow> p \<le> lr_end lv ! v"
  shows "as_register_count a = as_scratch a + 2 + max_call f" "as_register_count a \<le> 256"
    and "as_null_reg a = as_scratch a + 1"
    and "i < nparams \<Longrightarrow> as_reg a ! (entry_params f ! i) = 1 + i"
    and "placed f lv v \<Longrightarrow> 1 \<le> as_reg a ! v \<and> as_reg a ! v < as_scratch a"
    and "placed f lv v \<Longrightarrow> v \<notin> set (entry_params f) \<Longrightarrow> first_free f nparams \<le> as_reg a ! v"
    and "placed f lv v \<Longrightarrow> placed f lv w \<Longrightarrow> v \<noteq> w \<Longrightarrow> meet lv v w \<Longrightarrow> as_reg a ! v \<noteq> as_reg a ! w"
    and "as_liveness a = lv" and "as_call_base a = (as_scratch a + 2) mod 256"
    and "0 < max_call f \<Longrightarrow> as_call_base a = as_scratch a + 2"
proof -
  let ?lo = "first_free f nparams" and ?vs = "scan_order f lv" and ?n = "length (f_values f)"
  let ?init = "\<lparr>al_reg = param_regs f, al_next = ?lo, al_free = replicate pools [], al_active = []\<rparr>"
  obtain st where st: "assign_all f lv (256 - (2 + max_call f)) ?vs ?init = Inr st"
    and tot: "al_next st + 2 + max_call f \<le> 256"
    and a: "a = \<lparr>as_reg = al_reg st, as_scratch = al_next st mod 256,
        as_null_reg = (al_next st + 1) mod 256, as_call_base = (al_next st + 2) mod 256,
        as_register_count = max (al_next st + 2 + max_call f) 1, as_liveness = lv\<rparr>"
    using assms(1) by (auto simp: allocate_def Let_def max_registers_def split: sum.splits if_splits)
  have vs: "set ?vs = {v. v < ?n \<and> v \<notin> set (entry_params f) \<and> lr_def lv ! v \<noteq> None}"
    by (auto simp: scan_order_def)
  note pr = param_regs_nth [OF assms(3,4)]
  have "concat (replicate pools []) = ([] :: nat list)" by (simp add: concat_replicate_trivial)
  then have "scan_inv f lv ?lo (param_regs f) {} 0 ?init"
    using pr(1) by (simp add: scan_inv_def regs_ok_def in_play_def)
  then obtain d where inv: "scan_inv f lv ?lo (param_regs f) (set ?vs \<union> {}) d st"
    using assign_all_ok [OF st, of ?lo "param_regs f" "{}" 0] assms(5) vs
    by (force simp: scan_order_def)
  have lo: "?lo \<le> al_next st"
    and P: "\<And>v. v \<in> set ?vs \<Longrightarrow> ?lo \<le> al_reg st ! v \<and> al_reg st ! v < al_next st"
    and apart: "\<And>v w. v \<in> set ?vs \<Longrightarrow> w \<in> set ?vs \<Longrightarrow> v \<noteq> w \<Longrightarrow> meet lv v w \<Longrightarrow> al_reg st ! v \<noteq> al_reg st ! w"
    and rest: "\<And>v. v < ?n \<Longrightarrow> v \<notin> set ?vs \<Longrightarrow> al_reg st ! v = param_regs f ! v"
    using inv unfolding scan_inv_def Un_empty_right by blast+
  show "as_register_count a = as_scratch a + 2 + max_call f" "as_register_count a \<le> 256"
    "as_null_reg a = as_scratch a + 1" "as_liveness a = lv" "as_call_base a = (as_scratch a + 2) mod 256"
    "0 < max_call f \<Longrightarrow> as_call_base a = as_scratch a + 2"
    using tot by (simp_all add: a)
  have next': "as_scratch a = al_next st" using tot by (simp add: a)
  have np: "nparams < ?lo" using first_free_ge [of nparams f] by simp
  have params: "as_reg a ! (entry_params f ! i) = 1 + i" if "i < nparams" for i
  proof -
    have mem: "entry_params f ! i \<in> set (entry_params f)" using that assms(2) by simp
    then have "al_reg st ! (entry_params f ! i) = param_regs f ! (entry_params f ! i)"
      using rest vs assms(4) by blast
    also have "\<dots> = (1 + i) mod 256" using pr(2) that assms(2) by simp
    also have "\<dots> = 1 + i" using that np lo tot by (intro mod_less) linarith
    finally show ?thesis by (simp add: a)
  qed
  then show "i < nparams \<Longrightarrow> as_reg a ! (entry_params f ! i) = 1 + i" .
  have split: "v \<in> set ?vs \<or> (\<exists>i < nparams. v = entry_params f ! i)" if "placed f lv v" for v
    using that vs assms(2) by (auto simp: placed_def in_set_conv_nth)
  show "placed f lv v \<Longrightarrow> 1 \<le> as_reg a ! v \<and> as_reg a ! v < as_scratch a"
    using split [of v] P [of v] params np lo unfolding next' by (auto simp: a)
  show "placed f lv v \<Longrightarrow> v \<notin> set (entry_params f) \<Longrightarrow> ?lo \<le> as_reg a ! v"
    using P [of v] vs by (auto simp: a placed_def)
  show "as_reg a ! v \<noteq> as_reg a ! w" if *: "placed f lv v" "placed f lv w" "v \<noteq> w" "meet lv v w"
    using split [OF *(1)] split [OF *(2)]
  proof (elim disjE exE conjE)
    assume "v \<in> set ?vs" "w \<in> set ?vs"
    then show ?thesis using apart *(3,4) by (simp add: a)
  next
    fix i assume "v \<in> set ?vs" "i < nparams" "w = entry_params f ! i"
    then show ?thesis using P [of v] params [of i] np by (simp add: a)
  next
    fix i assume "w \<in> set ?vs" "i < nparams" "v = entry_params f ! i"
    then show ?thesis using P [of w] params [of i] np by (simp add: a)
  next
    fix i j assume "i < nparams" "v = entry_params f ! i" "j < nparams" "w = entry_params f ! j"
    then show ?thesis using params [of i] params [of j] *(3) by auto
  qed
qed

end
