(* ===== verification/Ssa_Form.thy ===== *)
theory Ssa_Form
  imports Ssa_Live_Props
begin

text \<open>
  The SSA discipline: every value has one definition, and the definition of what a reachable
  block reads stands earlier in the block or in a block that dominates it. The verifier
  establishes it, when its dominance queries are sound; its consequence is that the interval of
  a value covers every point where the value is live.
\<close>

definition ssa_form :: "ssa_func \<Rightarrow> bool" where
  "ssa_form f \<longleftrightarrow>
     distinct (defined_values (f_blocks f)) \<and>
     set (defined_values (f_blocks f)) \<subseteq> {..<length (f_values f)} \<and>
     (\<forall>b v k. f_reach f b \<and> use_at (f_blocks f ! b) v k \<longrightarrow>
        (\<exists>b' k'. b' < length (f_blocks f) \<and> def_at (f_blocks f ! b') v k' \<and>
           (b' = b \<and> k' < k \<or> b' \<noteq> b \<and> f_dom f b' b)))"

section \<open>One definition\<close>

lemma distinct_concat_nth:
  "distinct (concat xss) \<Longrightarrow> i < length xss \<Longrightarrow> j < length xss \<Longrightarrow>
   x \<in> set (xss ! i) \<Longrightarrow> x \<in> set (xss ! j) \<Longrightarrow> i = j"
proof (induction xss arbitrary: i j)
  case (Cons ys xss)
  have sub: "set (xss ! m) \<subseteq> set (concat xss)" if "m < length xss" for m
    using that nth_mem by fastforce
  show ?case
  proof (cases i; cases j)
    fix m assume "i = 0" "j = Suc m"
    then show ?thesis using Cons.prems sub [of m] by auto
  next
    fix m assume "i = Suc m" "j = 0"
    then show ?thesis using Cons.prems sub [of m] by auto
  next
    fix m m' assume "i = Suc m" "j = Suc m'"
    then show ?thesis using Cons.prems Cons.IH [of m m'] by simp
  qed simp
qed simp

lemma distinct_map_filter_nth:
  "distinct (List.map_filter g xs) \<Longrightarrow> i < length xs \<Longrightarrow> j < length xs \<Longrightarrow>
   g (xs ! i) = Some y \<Longrightarrow> g (xs ! j) = Some y \<Longrightarrow> i = j"
proof (induction xs arbitrary: i j)
  case (Cons x xs)
  have mem: "y \<in> set (List.map_filter g xs)" if "m < length xs" "g (xs ! m) = Some y" for m
    using that nth_mem by (force simp: List.map_filter_def)
  show ?case
  proof (cases i; cases j)
    fix m assume "i = 0" "j = Suc m"
    then show ?thesis using Cons.prems mem [of m] by (auto simp: List.map_filter_def)
  next
    fix m assume "i = Suc m" "j = 0"
    then show ?thesis using Cons.prems mem [of m] by (auto simp: List.map_filter_def)
  next
    fix m m' assume *: "i = Suc m" "j = Suc m'"
    have "distinct (List.map_filter g xs)"
      using Cons.prems(1) by (auto simp: List.map_filter_def split: option.splits if_splits)
    then show ?thesis using * Cons.prems Cons.IH [of m m'] by simp
  qed simp
qed simp

definition block_values :: "block \<Rightarrow> val list" where
  "block_values blk = bk_params blk @ List.map_filter i_dest (bk_insts blk)"

lemma def_at_block_values: "(\<exists>k. def_at blk v k) \<longleftrightarrow> v \<in> set (block_values blk)"
  using bdefs_iff [of v blk] by (simp add: bdefs_def block_values_def dests_def)

lemma def_at_unique:
  assumes "distinct (block_values blk)" "def_at blk v k" "def_at blk v k'"
  shows "k = k'"
proof -
  have disj: "set (bk_params blk) \<inter> dests (bk_insts blk) = {}"
    and d: "distinct (List.map_filter i_dest (bk_insts blk))"
    using assms(1) by (auto simp: block_values_def dests_def)
  have "v \<in> set (bk_params blk) \<longleftrightarrow> m = 0" if "def_at blk v m" for m
  proof -
    have "v \<in> dests (bk_insts blk)" if "m \<noteq> 0"
      using that \<open>def_at blk v m\<close> by (auto simp: def_at_def dests_iff)
    then show ?thesis using that disj by (auto simp: def_at_def)
  qed
  then have zero: "k = 0 \<longleftrightarrow> k' = 0" using assms(2,3) by blast
  show ?thesis
  proof (cases "k = 0")
    case True then show ?thesis using zero by simp
  next
    case False
    then obtain i j where "i < length (bk_insts blk)" "j < length (bk_insts blk)"
      "i_dest (bk_insts blk ! i) = Some v" "i_dest (bk_insts blk ! j) = Some v" "k = i + 1" "k' = j + 1"
      using zero assms(2,3) by (auto simp: def_at_def)
    then show ?thesis using distinct_map_filter_nth [OF d, of i j v] by simp
  qed
qed

lemma ssa_form_unique:
  assumes "ssa_form f" "b < length (f_blocks f)" "b' < length (f_blocks f)"
    and "def_at (f_blocks f ! b) v k" "def_at (f_blocks f ! b') v k'"
  shows "b = b' \<and> k = k'"
proof -
  let ?xs = "map block_values (f_blocks f)"
  have d: "distinct (concat ?xs)"
    using assms(1) by (simp add: ssa_form_def defined_values_def block_values_def [abs_def])
  have bb: "b = b'"
    using distinct_concat_nth [OF d, of b b' v] assms def_at_block_values by auto
  have "distinct (block_values (f_blocks f ! b))"
    using d assms(2) by (auto simp: distinct_concat_iff)
  then show ?thesis using bb assms(4,5) def_at_unique by blast
qed

lemma def_in_range:
  assumes "ssa_form f" "b < length (f_blocks f)" "def_at (f_blocks f ! b) v k"
  shows "v < length (f_values f)"
proof -
  have "v \<in> set (block_values (f_blocks f ! b))" using assms(3) def_at_block_values by blast
  then have "v \<in> set (defined_values (f_blocks f))"
    using assms(2) nth_mem unfolding defined_values_def block_values_def by fastforce
  then show ?thesis using assms(1) unfolding ssa_form_def by blast
qed

section \<open>Live values and dominance\<close>

lemma ssa_form_use:
  assumes "ssa_form f" "f_reach f b" "use_at (f_blocks f ! b) v k"
  obtains d k' where "d < length (f_blocks f)" "def_at (f_blocks f ! d) v k'"
    "d = b \<and> k' < k \<or> d \<noteq> b \<and> f_dom f d b"
  using assms unfolding ssa_form_def by blast

lemma dominates_step:
  assumes "dominates E e d t" "E b t" "d \<noteq> t"
  shows "dominates E e d b"
  unfolding dominates_def
proof (intro allI impI)
  fix p assume p: "path_to E e p b"
  then have "path_to E e (p @ [t]) t" using assms(2) by (rule path_to_step)
  then have "d \<in> set (p @ [t])" using assms(1) unfolding dominates_def by blast
  then show "d \<in> set p" using assms(3) by simp
qed

text \<open>A value live at the entry of a reachable block is defined in a block that strictly dominates it.\<close>

lemma live_entry_dominated:
  assumes "live_entry f v b" "ssa_form f" "cfg_ok f" "f_reach f b"
  shows "\<exists>d k. d < length (f_blocks f) \<and> def_at (f_blocks f ! d) v k \<and> d \<noteq> b \<and> f_dom f d b"
  using assms
proof (induction rule: live_entry_induct)
  case (use b)
  then obtain k where k: "use_at (f_blocks f ! b) v k" "\<forall>j < k. \<not> def_at (f_blocks f ! b) v j"
    by (auto simp: buses_iff)
  show ?case
    by (rule ssa_form_use [OF \<open>ssa_form f\<close> \<open>f_reach f b\<close> k(1)]) (use k(2) in blast)
next
  case (flow b t)
  then have "f_reach f t" by (blast intro: reaches_step)
  then obtain d k where d: "d < length (f_blocks f)" "def_at (f_blocks f ! d) v k" "d \<noteq> t" "f_dom f d t"
    using flow by blast
  then have "f_dom f d b" using flow(1) by (blast intro: dominates_step)
  moreover have "d \<noteq> b" using d(2) flow.hyps(3) by (auto simp: bdefs_iff)
  ultimately show ?case using d by blast
qed

section \<open>Positions\<close>

lemma start_of_before:
  assumes "distinct order" "before order a b"
  shows "start_of f order a + block_size (f_blocks f ! a) \<le> start_of f order b"
proof -
  obtain us ms vs where o: "order = us @ a # ms @ b # vs" using assms(2) unfolding before_def by blast
  then have "a \<notin> set us" "b \<notin> set (us @ a # ms)" using assms(1) by auto
  then have "start_of f order a = (\<Sum>c\<leftarrow>us. block_size (f_blocks f ! c))"
    "start_of f order b = (\<Sum>c\<leftarrow>us @ a # ms. block_size (f_blocks f ! c))"
    using start_of_new [of a us f "ms @ b # vs"] start_of_new [of b "us @ a # ms" f vs] o by auto
  then show ?thesis by simp
qed

lemma def_at_size: "def_at blk v k \<Longrightarrow> k + 1 < block_size blk"
  by (auto simp: def_at_def block_size_def)

definition dominance_order :: "ssa_func \<Rightarrow> block_id list \<Rightarrow> bool" where
  "dominance_order f order \<longleftrightarrow> block_order f order \<and>
     (\<forall>a b. f_reach f b \<and> f_dom f a b \<and> a \<noteq> b \<longrightarrow> before order a b)"

lemma dominating_def_before:
  assumes "dominance_order f order" "f_reach f b" "f_dom f d b" "d \<noteq> b" "def_at (f_blocks f ! d) v k"
  shows "pos f order d k < start_of f order b"
proof -
  have "before order d b" using assms unfolding dominance_order_def by blast
  then have "start_of f order d + block_size (f_blocks f ! d) \<le> start_of f order b"
    using assms(1) start_of_before unfolding dominance_order_def block_order_def by blast
  then show ?thesis using def_at_size [OF assms(5)] by simp
qed

text \<open>What a point has in scope: the values live past it and those it defines.\<close>

definition in_scope :: "ssa_func \<Rightarrow> val \<Rightarrow> block_id \<Rightarrow> nat \<Rightarrow> bool" where
  "in_scope f v b k \<longleftrightarrow> live_past f v b k \<or> def_at (f_blocks f ! b) v k"

lemma live_past_cases [consumes 1]:
  assumes "live_past f v b k"
  obtains m where "k < m" "use_at (f_blocks f ! b) v m" "\<forall>j. k < j \<and> j < m \<longrightarrow> \<not> def_at (f_blocks f ! b) v j"
    | t where "\<forall>j > k. \<not> def_at (f_blocks f ! b) v j" "flow f b t" "live_entry f v t"
  using assms unfolding live_past_def by blast

lemma live_past_in_scope:
  assumes "live_past f v b k" "ssa_form f" "cfg_ok f" "f_reach f b"
  obtains d k' where "d < length (f_blocks f)" "def_at (f_blocks f ! d) v k'"
    "d = b \<and> k' \<le> k \<or> d \<noteq> b \<and> f_dom f d b"
proof -
  have b: "b < length (f_blocks f)" using assms reaches_in_range by blast
  show ?thesis
    using assms(1)
  proof (cases rule: live_past_cases)
    case (1 m)
    obtain d k' where d: "d < length (f_blocks f)" "def_at (f_blocks f ! d) v k'"
      "d = b \<and> k' < m \<or> d \<noteq> b \<and> f_dom f d b"
      using ssa_form_use [OF assms(2,4) 1(2)] by blast
    then have "d = b \<and> k' \<le> k \<or> d \<noteq> b \<and> f_dom f d b" using 1(3) by (meson not_less)
    with d that show ?thesis by blast
  next
    case (2 t)
    have "f_reach f t" using 2(2) assms(4) by (blast intro: reaches_step)
    then obtain d k' where d: "d < length (f_blocks f)" "def_at (f_blocks f ! d) v k'" "d \<noteq> t" "f_dom f d t"
      using live_entry_dominated [OF 2(3) assms(2,3)] by blast
    have "f_dom f d b" using dominates_step [OF d(4) 2(2) d(3)] .
    moreover have "k' \<le> k" if "d = b" using 2(1) d(2) that by (meson not_less)
    ultimately show ?thesis using d that by blast
  qed
qed

text \<open>At every reachable point the interval of each value in scope is open.\<close>

lemma in_scope_interval:
  assumes "in_scope f v b k" "ssa_form f" "cfg_ok f" "f_reach f b" "k \<le> length (bk_insts (f_blocks f ! b))"
    and "dominance_order f order" "intervals_cover f order lv"
    and "\<And>b. b < length (f_blocks f) \<Longrightarrow> lr_live_out lv ! b = {v. \<exists>t. flow f b t \<and> live_entry f v t}"
  shows "v < length (f_values f) \<and>
         (\<exists>p. lr_def lv ! v = Some p \<and> p \<le> pos f order b k \<and> pos f order b k \<le> lr_end lv ! v)"
proof -
  have b: "b < length (f_blocks f)" using assms reaches_in_range by blast
  obtain d k' where d: "d < length (f_blocks f)" "def_at (f_blocks f ! d) v k'"
    "d = b \<and> k' \<le> k \<or> d \<noteq> b \<and> f_dom f d b"
  proof (cases "live_past f v b k")
    case True
    then show ?thesis using live_past_in_scope [OF True assms(2,3,4)] that by blast
  next
    case False
    then show ?thesis using assms(1) b that [of b k] unfolding in_scope_def by blast
  qed
  have v: "v < length (f_values f)" using def_in_range assms(2) d by blast
  note cover = assms(7) [unfolded intervals_cover_def, THEN conjunct2, THEN conjunct2, rule_format, OF v]
  obtain p where p: "lr_def lv ! v = Some p" using cover d(1,2) by blast
  then obtain d2 k2 where d2: "d2 < length (f_blocks f)" "def_at (f_blocks f ! d2) v k2" "p = pos f order d2 k2"
    using cover by blast
  then have "d2 = d \<and> k2 = k'" using ssa_form_unique [OF assms(2) d2(1) d(1) d2(2) d(2)] by blast
  then have pd: "p = pos f order d k'" using d2(3) by simp
  have "p \<le> pos f order b k"
    using d(3) dominating_def_before [OF assms(6,4) _ _ d(2)] unfolding pd by fastforce
  moreover have "pos f order b k \<le> lr_end lv ! v"
  proof (cases "live_past f v b k")
    case False
    then have "def_at (f_blocks f ! b) v k" using assms(1) unfolding in_scope_def by blast
    then have "p = pos f order b k" using pd ssa_form_unique [OF assms(2) d(1) b d(2)] by blast
    then show ?thesis using cover p by blast
  next
    case True
    then show ?thesis
    proof (cases rule: live_past_cases)
      case (1 m)
      then have "pos f order b m \<le> lr_end lv ! v" using cover b by blast
      then show ?thesis using 1 by simp
    next
      case (2 t)
      then have "v \<in> lr_live_out lv ! b" using assms(8) [OF b] by blast
      then have "pos f order b (length (bk_insts (f_blocks f ! b)) + 1) \<le> lr_end lv ! v"
        using cover b by blast
      then show ?thesis using assms(5) by simp
    qed
  qed
  ultimately show ?thesis using v p by blast
qed

section \<open>What the verifier establishes\<close>

lemma check_uses_ok:
  "check_uses ds dt vs b order = Inr () \<Longrightarrow> v \<in> set vs \<Longrightarrow> check_use ds dt v b order = Inr ()"
  by (induction vs) (auto split: sum.splits)

lemma check_insts_ok:
  "check_insts f ds dt b n body = Inr () \<Longrightarrow> i < length body \<Longrightarrow>
   check_uses ds dt (inst_uses (i_kind (body ! i))) b (n + i + 1) = Inr ()"
proof (induction body arbitrary: n i)
  case (Cons x body)
  show ?case
  proof (cases i)
    case 0 then show ?thesis using Cons.prems by (auto split: sum.splits)
  next
    case (Suc j)
    then have "check_uses ds dt (inst_uses (i_kind (body ! j))) b (n + 1 + j + 1) = Inr ()"
      by (intro Cons.IH) (use Cons.prems in \<open>auto split: sum.splits\<close>)
    then show ?thesis using Suc by simp
  qed
qed simp

lemma check_blocks_ok:
  "check_blocks f ds dt bs = Inr () \<Longrightarrow> b \<in> set bs \<Longrightarrow> check_block f ds dt b = Inr ()"
  by (induction bs) (auto split: sum.splits)

lemma check_use_ok:
  assumes "check_use ds dt v b order = Inr ()"
  obtains site where "v < length ds" "ds ! v = Some site"
    "ds_block site = b \<and> ds_order site < order \<or>
     ds_block site \<noteq> b \<and> dq_dominates dt (ds_block site) b"
  using assms
  by (auto simp: check_use_def list_get_def not_le split: option.splits if_splits)

lemma func_defs_def_at:
  assumes "(v, site) \<in> set (func_defs f)"
  shows "ds_block site < length (f_blocks f) \<and> def_at (f_blocks f ! ds_block site) v (ds_order site)"
proof -
  obtain b where b: "b < length (f_blocks f)" "(v, site) \<in> set (block_defs b (f_blocks f ! b))"
    using assms by (auto simp: func_defs_def in_set_enumerate_eq)
  have "\<exists>i < length body. i_dest (body ! i) = Some v \<and> site = \<lparr>ds_block = b, ds_order = n + i + 1\<rparr>"
    if "(v, site) \<in> set (List.map_filter
          (\<lambda>(n, i). map_option (\<lambda>d. (d, \<lparr>ds_block = b, ds_order = n + 1\<rparr>)) (i_dest i))
          (List.enumerate n body))" for body n
    using that
  proof (induction body arbitrary: n)
    case (Cons x body)
    show ?case
    proof (cases "i_dest x = Some v \<and> site = \<lparr>ds_block = b, ds_order = n + 1\<rparr>")
      case True then show ?thesis by (auto simp: Ex_less_Suc2)
    next
      case False
      then have "(v, site) \<in> set (List.map_filter
          (\<lambda>(n, i). map_option (\<lambda>d. (d, \<lparr>ds_block = b, ds_order = n + 1\<rparr>)) (i_dest i))
          (List.enumerate (Suc n) body))"
        using Cons.prems by (auto simp: List.map_filter_def split: if_splits)
      from Cons.IH [OF this] obtain i where "i < length body" "i_dest (body ! i) = Some v"
        "site = \<lparr>ds_block = b, ds_order = Suc n + i + 1\<rparr>" by blast
      then show ?thesis by (auto simp: Ex_less_Suc2)
    qed
  qed (simp add: List.map_filter_def)
  from this [of 0 "bk_insts (f_blocks f ! b)"] b show ?thesis
    by (auto simp: block_defs_def def_at_def)
qed

lemma verify_cfg_ok:
  assumes "verify dt f = Inr ()" "f_entry f < length (f_blocks f)"
  shows "cfg_ok f"
proof -
  have "check_edges (f_blocks f) [0..<length (f_blocks f)] = Inr ()"
    using assms(1) by (rule verify_parts)
  then show ?thesis
    unfolding cfg_ok_def using assms(2) check_edges_ok [of "f_blocks f" "[0..<length (f_blocks f)]"]
    by (metis atLeast_upt lessThan_iff)
qed

text \<open>The dominance queries answer yes only when every path agrees.\<close>

definition dom_sound :: "ssa_func \<Rightarrow> dom_query \<Rightarrow> bool" where
  "dom_sound f dt \<longleftrightarrow> (\<forall>a b. a < length (f_blocks f) \<and> f_reach f b \<and> dq_dominates dt a b \<longrightarrow> f_dom f a b)"

lemma verify_ssa_form:
  assumes "verify dt f = Inr ()" "f_entry f < length (f_blocks f)" "dom_sound f dt"
  shows "ssa_form f"
proof -
  obtain ds where ds: "verify_defs f = Inr ds"
    and cb: "check_blocks f ds dt [0..<length (f_blocks f)] = Inr ()"
    using assms(1) by (rule verify_parts)
  note da = define_all_ok [OF ds [unfolded verify_defs_def]]
  have rng: "\<forall>v \<in> fst ` set (func_defs f). v < length (f_values f)" using da by simp
  have site: "(v, s) \<in> set (func_defs f)" if "v < length ds" "ds ! v = Some s" for v s
    using da that by (auto split: option.splits dest: map_of_SomeD)
  have uses: "\<exists>b' k'. b' < length (f_blocks f) \<and> def_at (f_blocks f ! b') v k' \<and>
      (b' = b \<and> k' < k \<or> b' \<noteq> b \<and> f_dom f b' b)"
    if r: "f_reach f b" and c: "check_use ds dt v b order = Inr ()"
      and o: "order = k \<or> k = length (bk_insts (f_blocks f ! b)) + 1" for b v order k
  proof -
    obtain s where s: "v < length ds" "ds ! v = Some s"
      "ds_block s = b \<and> ds_order s < order \<or> ds_block s \<noteq> b \<and> dq_dominates dt (ds_block s) b"
      using check_use_ok [OF c] .
    note at = func_defs_def_at [OF site [OF s(1,2)]]
    have "ds_order s < length (bk_insts (f_blocks f ! ds_block s)) + 1" using at by (auto simp: def_at_def)
    then have "ds_block s = b \<and> ds_order s < k \<or> ds_block s \<noteq> b \<and> f_dom f (ds_block s) b"
      using s(3) r o assms(3) at unfolding dom_sound_def by auto
    then show ?thesis using at by blast
  qed
  have "\<exists>b' k'. b' < length (f_blocks f) \<and> def_at (f_blocks f ! b') v k' \<and>
      (b' = b \<and> k' < k \<or> b' \<noteq> b \<and> f_dom f b' b)"
    if r: "f_reach f b" and u: "use_at (f_blocks f ! b) v k" for b v k
  proof -
    let ?blk = "f_blocks f ! b"
    have "b < length (f_blocks f)" using r verify_cfg_ok [OF assms(1,2)] reaches_in_range by blast
    then have c: "check_block f ds dt b = Inr ()" using check_blocks_ok [OF cb] by simp
    then have c1: "check_insts f ds dt b 0 (bk_insts ?blk) = Inr ()"
      and c2: "check_uses ds dt (term_value_uses (bk_term ?blk)) b (length (bk_insts ?blk) + 1) = Inr ()"
      and c3: "check_uses ds dt (concat (map snd (out_edges (bk_term ?blk)))) b edge_order = Inr ()"
      by (auto simp: check_block_def Let_def split: sum.splits)
    from u show ?thesis
      unfolding use_at_def
    proof (elim disjE exE conjE)
      fix i assume i: "i < length (bk_insts ?blk)" "k = i + 1"
        "v \<in> set (inst_uses (i_kind (bk_insts ?blk ! i)))"
      have "check_use ds dt v b (0 + i + 1) = Inr ()"
        by (rule check_uses_ok [OF check_insts_ok [OF c1 i(1)] i(3)])
      then show ?thesis using uses [OF r] i(2) by simp
    next
      assume t: "k = length (bk_insts ?blk) + 1" "v \<in> set (term_uses (bk_term ?blk))"
      then consider "v \<in> set (term_value_uses (bk_term ?blk))"
        | "v \<in> set (concat (map snd (out_edges (bk_term ?blk))))" unfolding set_term_uses by blast
      then show ?thesis
      proof cases
        case 1 then show ?thesis using uses [OF r check_uses_ok [OF c2]] t(1) by blast
      next
        case 2 then show ?thesis using uses [OF r check_uses_ok [OF c3]] t(1) by blast
      qed
    qed
  qed
  then show ?thesis
    unfolding ssa_form_def using verify_defs_distinct [OF ds] rng
    by (auto simp: map_fst_func_defs [symmetric])
qed

end
