(* ===== verification/Reg_Demo.thy ===== *)
theory Reg_Demo
  imports Reg_Assign_Props Ssa_Form
begin

text \<open>
  A function with a protected region of two blocks, run through the analysis and the assignment
  by evaluation. Value 2 is computed before the region and read by its handler; block 1 belongs
  to the region and can throw, but only the block that installs the handler has an edge to it.
\<close>

definition mk_inst :: "val option \<Rightarrow> inst_kind \<Rightarrow> inst" where
  "mk_inst d k = \<lparr>i_dest = d, i_kind = k, i_line = 0, i_scope = 0\<rparr>"

definition try_demo :: ssa_func where
  "try_demo = \<lparr>f_name = ''f'', f_entry = 0,
     f_blocks =
       [empty_block\<lparr>bk_params := [0, 1],
          bk_insts := [mk_inst (Some 2) (I_Binary B_Mul 1 1 Ty_Int), mk_inst (Some 3) (I_Try 2)],
          bk_term := T_Branch 0 1 [] 3 []\<rparr>,
        empty_block\<lparr>bk_insts := [mk_inst (Some 4) (I_Binary B_Add 1 1 Ty_Int),
            mk_inst (Some 5) (I_LoadGlobal ''g''), mk_inst (Some 6) (I_Call 5 [4]),
            mk_inst None I_PopTry],
          bk_term := T_Return (Some 6), bk_preds := [0]\<rparr>,
        empty_block\<lparr>bk_insts := [mk_inst (Some 7) (I_CatchParam 3)],
          bk_term := T_Return (Some 2), bk_preds := [0]\<rparr>,
        empty_block\<lparr>bk_insts := [mk_inst None I_PopTry], bk_term := T_Return (Some 1), bk_preds := [0]\<rparr>],
     f_values = [Ty_Bool, Ty_Int, Ty_Int, Ty_Dynamic D_Boxed, Ty_Int, Ty_Dynamic D_Boxed,
                 Ty_Dynamic D_Boxed, Ty_Dynamic D_Boxed],
     f_is_async = False, f_is_generator = False, f_inline_scopes = []\<rparr>"

section \<open>The blocks\<close>

lemma mk_inst_sel [simp]: "i_dest (mk_inst d k) = d" "i_kind (mk_inst d k) = k"
  by (simp_all add: mk_inst_def)

lemma demo_sizes [simp]: "length (f_blocks try_demo) = 4" "f_entry try_demo = 0" "length (f_values try_demo) = 8"
  by (simp_all add: try_demo_def)

lemma demo_block:
  "f_blocks try_demo ! 0 = empty_block\<lparr>bk_params := [0, 1],
     bk_insts := [mk_inst (Some 2) (I_Binary B_Mul 1 1 Ty_Int), mk_inst (Some 3) (I_Try 2)],
     bk_term := T_Branch 0 1 [] 3 []\<rparr>"
  "f_blocks try_demo ! Suc 0 = empty_block\<lparr>bk_insts := [mk_inst (Some 4) (I_Binary B_Add 1 1 Ty_Int),
     mk_inst (Some 5) (I_LoadGlobal ''g''), mk_inst (Some 6) (I_Call 5 [4]), mk_inst None I_PopTry],
     bk_term := T_Return (Some 6), bk_preds := [0]\<rparr>"
  "f_blocks try_demo ! 2 = empty_block\<lparr>bk_insts := [mk_inst (Some 7) (I_CatchParam 3)],
     bk_term := T_Return (Some 2), bk_preds := [0]\<rparr>"
  "f_blocks try_demo ! 3 = empty_block\<lparr>bk_insts := [mk_inst None I_PopTry],
     bk_term := T_Return (Some 1), bk_preds := [0]\<rparr>"
  by (simp_all add: try_demo_def)

lemmas demo_simps = demo_block empty_block_def List.map_filter_def

lemma demo_succs:
  "func_succs try_demo 0 = [1, 3, 2]" "func_succs try_demo (Suc 0) = []"
  "func_succs try_demo 2 = []" "func_succs try_demo 3 = []"
  "emission_succs try_demo 0 = [3, 1, 2]" "emission_succs try_demo (Suc 0) = []"
  "emission_succs try_demo 2 = []" "emission_succs try_demo 3 = []"
  by (simp_all add: func_succs_def block_successors_def emission_succs_def block_handlers_def demo_simps)

lemma less_4: "(b :: nat) < 4 \<longleftrightarrow> b = 0 \<or> b = Suc 0 \<or> b = 2 \<or> b = 3"
  by auto

lemma demo_cfg: "cfg_ok try_demo" "few_succs try_demo"
  by (auto simp: cfg_ok_def few_succs_def less_4 demo_succs func_succs_def [symmetric])

lemma demo_def_at:
  "def_at (f_blocks try_demo ! 0) v k \<longleftrightarrow> k = 0 \<and> (v = 0 \<or> v = 1) \<or> k = 1 \<and> v = 2 \<or> k = 2 \<and> v = 3"
  by (auto simp: def_at_def demo_simps less_Suc_eq numeral_2_eq_2)

lemma demo_use:
  "use_at (f_blocks try_demo ! 0) v k \<Longrightarrow> v < 2"
  "use_at (f_blocks try_demo ! Suc 0) v k \<Longrightarrow> v = 1 \<or> k = 3 \<and> (v = 4 \<or> v = 5) \<or> k = 5 \<and> v = 6"
  "use_at (f_blocks try_demo ! 2) v k \<Longrightarrow> v = 2 \<or> v = 3"
  "use_at (f_blocks try_demo ! 3) v k \<Longrightarrow> v = 1"
     apply (auto simp: use_at_def demo_simps less_Suc_eq numeral_2_eq_2; fail)
    apply (auto simp: use_at_def demo_simps less_Suc_eq numeral_eq_Suc; fail)
   apply (auto simp: use_at_def demo_simps)
  done

lemma demo_ssa_form: "ssa_form try_demo"
  unfolding ssa_form_def
proof (intro conjI allI impI)
  show "distinct (defined_values (f_blocks try_demo))"
    "set (defined_values (f_blocks try_demo)) \<subseteq> {..<length (f_values try_demo)}"
    by (simp_all add: defined_values_def try_demo_def demo_simps)
  fix b v k assume *: "f_reach try_demo b \<and> use_at (f_blocks try_demo ! b) v k"
  then have b: "b < 4" using reaches_in_range [of try_demo b] demo_cfg(1) by simp
  have outer: "\<exists>b' k'. b' < length (f_blocks try_demo) \<and> def_at (f_blocks try_demo ! b') v k' \<and>
          (b' = b \<and> k' < k \<or> b' \<noteq> b \<and> f_dom try_demo b' b)"
    if "b \<noteq> 0" "v = 1 \<or> v = 2 \<or> v = 3"
  proof -
    obtain k' where "def_at (f_blocks try_demo ! 0) v k'" using \<open>v = 1 \<or> v = 2 \<or> v = 3\<close> by (auto simp: demo_def_at)
    then show ?thesis
      using that(1) entry_dominates [of "flow try_demo" "f_entry try_demo" b] by (intro exI [of _ 0] exI [of _ k']) auto
  qed
  show "\<exists>b' k'. b' < length (f_blocks try_demo) \<and> def_at (f_blocks try_demo ! b') v k' \<and>
          (b' = b \<and> k' < k \<or> b' \<noteq> b \<and> f_dom try_demo b' b)"
  proof (cases "b = 0")
    case True
    then have "v < 2" "0 < k" using * demo_use(1) by (auto simp: use_at_def)
    then have "def_at (f_blocks try_demo ! 0) v 0" by (auto simp: demo_def_at)
    then show ?thesis using True \<open>0 < k\<close> by (intro exI [of _ 0]) auto
  next
    case False
    show ?thesis
    proof (cases "v = 1 \<or> v = 2 \<or> v = 3")
      case True then show ?thesis using outer False by blast
    next
      case other: False
      then have "b = Suc 0" using False b * demo_use unfolding less_4 by blast
      then have "k = 3 \<and> (v = 4 \<or> v = 5) \<or> k = 5 \<and> v = 6" using * demo_use(2) other by blast
      moreover have "def_at (f_blocks try_demo ! Suc 0) 4 1" "def_at (f_blocks try_demo ! Suc 0) 5 2"
        "def_at (f_blocks try_demo ! Suc 0) 6 3"
        by (simp_all add: def_at_def demo_simps)
      moreover have "(1 :: nat) < 3" "(2 :: nat) < 3" "(3 :: nat) < 5" by simp_all
      ultimately obtain k' where "k' < k" "def_at (f_blocks try_demo ! Suc 0) v k'" by blast
      then show ?thesis using \<open>b = Suc 0\<close> by (intro exI [of _ "Suc 0"] exI [of _ k']) simp
    qed
  qed
qed

section \<open>Evaluation\<close>

lemma while_step:
  "b s \<Longrightarrow> while_option b c s = while_option b c (c s)"
  "\<not> b s \<Longrightarrow> while_option b c s = Some s"
  by (subst while_option_unfold, simp)+

lemma emission_step_frame:
  "emission_step f (v, p, (b, k) # rest) =
     (case list_get (emission_succs f b) (unat k) of
        Some s \<Rightarrow> if \<not> v ! s then (v[s := True], p, (s, 0) # (b, k + 1) # rest)
                   else (v, p, (b, k + 1) # rest)
      | None \<Rightarrow> (v, p @ [b], rest))"
  by (simp add: emission_step_def split: option.splits)

lemma stack_live_simps: "stack_live (v, p, x # xs)" "\<not> stack_live (v, p, [])"
  by (simp_all add: stack_live_def)

lemma small_lists:
  "replicate 4 x = [x, x, x, x]" "replicate 6 x = [x, x, x, x, x, x]"
  "replicate 8 x = [x, x, x, x, x, x, x, x]"
  "[0..<4] = [0, 1, 2, 3]" "[0..<8] = [0, 1, 2, 3, 4, 5, 6, 7]"
  by (simp_all add: numeral_eq_Suc upt_rec)

lemma demo_order: "emission_order try_demo = Some [0, 2, Suc 0, 3]"
proof -
  have "while_option stack_live (emission_step try_demo) ((replicate 4 False)[0 := True], [], [(0, 0)]) =
      Some ([True, True, True, True], [3, 1, 2, 0], [])"
    by (simp add: while_step stack_live_simps emission_step_frame demo_succs small_lists)
  then show ?thesis by (simp add: emission_order_def small_lists)
qed

lemmas scan_steps = scan_block_def scan_inst_def Let_def next_idx_def note_def_def note_use_def
  note_succ_def demo_simps

abbreviation "scan_state d l t de u su k \<equiv>
  \<lparr>ls_def = d, ls_last = l, ls_term_idx = t, ls_defs = de, ls_uses = u, ls_succ = su, ls_idx = k, ls_ok = True\<rparr>"

lemma demo_scan:
  "scan_blocks try_demo [0, 2, Suc 0, 3] =
     scan_state [Some 0, Some 0, Some 1, Some 2, Some 8, Some 9, Some 10, Some 5]
       [3, 15, 6, 5, 10, 10, 12, 0] [3, 12, 6, 15] [{0, 1, 2, 3}, {4, 5, 6}, {7}, {}]
       [{}, {1}, {2, 3}, {1}] [[2, 1, 3], [], [], []] 16" (is "_ = ?s")
proof -
  have s0: "scan_init try_demo = scan_state (replicate 8 None) (replicate 8 0) (replicate 4 0)
      (replicate 4 {}) (replicate 4 {}) (replicate 4 []) 0"
    by (simp add: scan_init_def)
  have s1: "scan_block try_demo 0 (scan_init try_demo) =
      scan_state [Some 0, Some 0, Some 1, Some 2, None, None, None, None] [3, 1, 0, 0, 0, 0, 0, 0]
        [3, 0, 0, 0] [{0, 1, 2, 3}, {}, {}, {}] [{}, {}, {}, {}] [[2, 1, 3], [], [], []] 4"
    unfolding s0 by (simp add: scan_steps small_lists insert_commute)
  have s2: "scan_block try_demo 2 (scan_block try_demo 0 (scan_init try_demo)) =
      scan_state [Some 0, Some 0, Some 1, Some 2, None, None, None, Some 5] [3, 1, 6, 5, 0, 0, 0, 0]
        [3, 0, 6, 0] [{0, 1, 2, 3}, {}, {7}, {}] [{}, {}, {2, 3}, {}] [[2, 1, 3], [], [], []] 7"
    unfolding s1 by (simp add: scan_steps insert_commute)
  have s3: "scan_block try_demo (Suc 0) (scan_block try_demo 2 (scan_block try_demo 0 (scan_init try_demo))) =
      scan_state [Some 0, Some 0, Some 1, Some 2, Some 8, Some 9, Some 10, Some 5]
        [3, 8, 6, 5, 10, 10, 12, 0] [3, 12, 6, 0] [{0, 1, 2, 3}, {4, 5, 6}, {7}, {}]
        [{}, {1}, {2, 3}, {}] [[2, 1, 3], [], [], []] 13"
    unfolding s2 by (simp add: scan_steps insert_commute)
  have "scan_blocks try_demo [0, 2, Suc 0, 3] =
      scan_block try_demo 3 (scan_block try_demo (Suc 0) (scan_block try_demo 2
        (scan_block try_demo 0 (scan_init try_demo))))"
    by (simp add: scan_blocks_def)
  also have "\<dots> = ?s" unfolding s3 by (simp add: scan_steps insert_commute)
  finally show ?thesis .
qed

definition demo_live :: liveness where
  "demo_live = \<lparr>lr_def = [Some 0, Some 0, Some 1, Some 2, Some 8, Some 9, Some 10, Some 5],
     lr_end = [3, 15, 6, 5, 10, 10, 12, 5],
     lr_live_out = [{1, 2, 3}, {}, {}, {}], lr_live_in = [{}, {1}, {2, 3}, {1}]\<rparr>"

lemma demo_analysis: "analyze_ordered try_demo [0, 2, Suc 0, 3] = Some demo_live"
proof -
  have "solve (scan_blocks try_demo [0, 2, Suc 0, 3]) 4 =
      Some \<lparr>lv_in = [{}, {1}, {2, 3}, {1}], lv_out = [{1, 2, 3}, {}, {}, {}], lv_changed = False\<rparr>"
    unfolding demo_scan
    by (simp add: solve_def while_step sweep_def sweep_block_def small_lists)
  then show ?thesis
    by (simp add: analyze_ordered_def Let_def)
      (simp add: demo_scan demo_live_def extend_ends_def cover_defs_def raise_to_def)
qed

lemma demo_scan_order: "scan_order try_demo demo_live = [2, 3, 7, 4, 5, 6]"
  by (simp add: scan_order_def demo_live_def entry_params_def small_lists demo_simps)

lemma demo_types:
  "value_ty try_demo 2 = Ty_Int" "value_ty try_demo 3 = Ty_Dynamic D_Boxed"
  "value_ty try_demo 4 = Ty_Int" "value_ty try_demo 5 = Ty_Dynamic D_Boxed"
  "value_ty try_demo 6 = Ty_Dynamic D_Boxed" "value_ty try_demo 7 = Ty_Dynamic D_Boxed"
  by (simp_all add: value_ty_def try_demo_def)

lemma demo_frame: "max_call try_demo = 2" "first_free try_demo 2 = 3"
  "param_regs try_demo = [1, 2, 0, 0, 0, 0, 0, 0]" "entry_params try_demo = [0, 1]"
  by (simp_all add: max_call_def first_free_def all_insts_def try_demo_def call_area_def
      captured_var_def empty_block_def param_regs_def entry_params_def small_lists)

definition demo_assignment :: assignment where
  "demo_assignment = \<lparr>as_reg = [1, 2, 3, 4, 3, 4, 5, 5], as_scratch = 6, as_null_reg = 7,
     as_call_base = 8, as_register_count = 10, as_liveness = demo_live\<rparr>"

lemma demo_assigned: "assign_registers try_demo 2 = Some (Inr demo_assignment)"
proof -
  have "allocate try_demo 2 demo_live = Inr demo_assignment"
    by (simp add: allocate_def Let_def demo_scan_order demo_frame pools_def small_lists)
      (simp add: assign_one_def Let_def demo_live_def demo_types slot_kind_of_def expire.simps
        pick_reg_def swap_remove_def give_back_def take_reg_def max_registers_def demo_assignment_def demo_frame)
  then show ?thesis by (simp add: assign_registers_def demo_order demo_analysis demo_frame)
qed

end
