(* ===== verification/Reg_Safety.thy ===== *)
theory Reg_Safety
  imports Reg_Demo
begin

text \<open>
  The assignment meets its purpose: at every reachable point of a function in SSA form the
  values in scope are in different registers.
\<close>

lemma assign_registers_parts:
  assumes "assign_registers f nparams = Some (Inr a)" "cfg_ok f" "few_succs f" "ssa_form f"
  obtains order lv where "dominance_order f order" "analyze_ordered f order = Some lv"
    "intervals_cover f order lv" "allocate f nparams lv = Inr a" "length (entry_params f) = nparams"
    "\<And>b. b < length (f_blocks f) \<Longrightarrow> lr_live_out lv ! b = {v. \<exists>t. flow f b t \<and> live_entry f v t}"
proof -
  obtain order where o: "emission_order f = Some order" "distinct order"
    "set order = {..<length (f_blocks f)}"
    "\<And>a b. f_reach f b \<Longrightarrow> f_dom f a b \<Longrightarrow> a \<noteq> b \<Longrightarrow> before order a b"
    using emission_order_ok [OF assms(2,3)] by metis
  then have bo: "block_order f order" by (simp add: block_order_def)
  obtain lv where lv: "analyze_ordered f order = Some lv" "intervals_cover f order lv"
    "\<And>b. b < length (f_blocks f) \<Longrightarrow> lr_live_out lv ! b = {v. \<exists>t. flow f b t \<and> live_entry f v t}"
  proof -
    have "analyze_ordered f order \<noteq> None"
      using assms(1) o(1) by (auto simp: assign_registers_def split: if_splits)
    with analyze_panics [OF bo] have "values_ok f" by (cases "values_ok f") simp_all
    from analyze_exact [OF assms(2) bo this] that show ?thesis by metis
  qed
  have "length (entry_params f) = nparams" "allocate f nparams lv = Inr a"
    using assms(1) o(1) lv(1) by (auto simp: assign_registers_def split: if_splits)
  moreover have "dominance_order f order" using bo o(4) by (simp add: dominance_order_def)
  ultimately show ?thesis using that lv by blast
qed

lemma entry_params_ok:
  assumes "ssa_form f" "cfg_ok f"
  shows "distinct (entry_params f)" "set (entry_params f) \<subseteq> {..<length (f_values f)}"
proof -
  let ?blk = "f_blocks f ! f_entry f"
  have e: "f_entry f < length (f_blocks f)" using assms(2) by (simp add: cfg_ok_def)
  have d: "distinct (concat (map block_values (f_blocks f)))"
    using assms(1) by (simp add: ssa_form_def defined_values_def block_values_def [abs_def])
  then have "distinct (block_values ?blk)" using e by (auto simp: distinct_concat_iff)
  then show "distinct (entry_params f)" by (simp add: entry_params_def block_values_def)
  show "set (entry_params f) \<subseteq> {..<length (f_values f)}"
    using def_in_range [OF assms(1) e] def_at_params [of _ ?blk] by (auto simp: entry_params_def)
qed

text \<open>
  C2: when the assignment of a function in SSA form succeeds, then at every point that is
  reachable in the flow graph of the analysis two different values in scope, live past the point
  along that graph or defined by it, are in different registers; so no write of a value destroys
  a value that is still needed on a path of the graph. In that graph only the block that holds a
  \<open>Try\<close> has an edge to the handler: what a handler entered from a later block of its region
  needs is not covered, and \<open>handler_value_overwritten\<close> below shows that the code does not keep it.
\<close>

theorem registers_never_clash:
  assumes "assign_registers f nparams = Some (Inr a)"
    and "cfg_ok f" "few_succs f" "ssa_form f"
    and "f_reach f b" "k \<le> length (bk_insts (f_blocks f ! b))"
    and "in_scope f v b k" "in_scope f w b k" "v \<noteq> w"
  shows "as_reg a ! v \<noteq> as_reg a ! w"
proof -
  obtain order lv where p: "dominance_order f order" "intervals_cover f order lv"
    "allocate f nparams lv = Inr a" "length (entry_params f) = nparams"
    and lout: "\<And>b. b < length (f_blocks f) \<Longrightarrow> lr_live_out lv ! b = {v. \<exists>t. flow f b t \<and> live_entry f v t}"
    using assign_registers_parts [OF assms(1-4)] by metis
  have def_end: "\<forall>v < length (f_values f). \<forall>p. lr_def lv ! v = Some p \<longrightarrow> p \<le> lr_end lv ! v"
    using p(2) unfolding intervals_cover_def by blast
  note iv = in_scope_interval [OF _ assms(4,2,5,6) p(1,2) lout]
  have v: "placed f lv v" and w: "placed f lv w" and "meet lv v w"
    using iv [OF assms(7)] iv [OF assms(8)] by (auto simp: placed_def meet_def)
  then show ?thesis
    using allocate_ok(7) [OF p(3,4) entry_params_ok [OF assms(4,2)] def_end v w assms(9)] by blast
qed

theorem registers_never_clash_witness:
  "as_reg demo_assignment ! 1 \<noteq> as_reg demo_assignment ! 2"
proof -
  have "f_reach try_demo 0" using reaches_refl [of "flow try_demo" "f_entry try_demo"] by simp
  moreover have "use_at (f_blocks try_demo ! Suc 0) 1 1" "\<forall>j < 1. \<not> def_at (f_blocks try_demo ! Suc 0) 1 j"
    by (simp_all add: use_at_def def_at_def demo_simps)
  then have "live_entry try_demo 1 (Suc 0)" by (intro live_entry_use) (auto simp: buses_iff)
  moreover have "flow try_demo 0 (Suc 0)"
    by (simp add: flow_def func_succs_def [symmetric] demo_succs)
  moreover have "\<forall>j > 1. \<not> def_at (f_blocks try_demo ! 0) 1 j" by (simp add: demo_def_at)
  ultimately have "in_scope try_demo 1 0 1" unfolding in_scope_def live_past_def by blast
  moreover have "in_scope try_demo 2 0 1" by (simp add: in_scope_def demo_def_at)
  ultimately show ?thesis
    using registers_never_clash [OF demo_assigned demo_cfg demo_ssa_form \<open>f_reach try_demo 0\<close>, of 1 1 2]
    by (simp add: demo_simps)
qed

text \<open>
  C11: a successful assignment stays within the frame: a value is in a register from 1 to the one
  below the scratch register, above the homes of all captured variables unless it is a parameter,
  which keeps the register it arrives in. The scratch register, the null register and the call
  area follow one another up to the end of the frame, which has at most 256 registers; the base of
  an empty call area may wrap to zero.
\<close>

theorem assignment_fits_frame:
  assumes "assign_registers f nparams = Some (Inr a)"
    and "cfg_ok f" "few_succs f" "ssa_form f"
  shows "as_register_count a = as_scratch a + 2 + max_call f \<and> as_register_count a \<le> 256 \<and>
         as_null_reg a = as_scratch a + 1 \<and> as_call_base a = (as_scratch a + 2) mod 256 \<and>
         (0 < max_call f \<longrightarrow> as_call_base a = as_scratch a + 2 \<and>
            as_call_base a + max_call f = as_register_count a) \<and>
         (\<forall>i < nparams. as_reg a ! (entry_params f ! i) = 1 + i) \<and>
         (\<forall>v \<in> set (defined_values (f_blocks f)).
            1 \<le> as_reg a ! v \<and> as_reg a ! v < as_scratch a \<and>
            (v \<notin> set (entry_params f) \<longrightarrow>
               (\<forall>i \<in> set (all_insts f). \<forall>var. captured_var (i_kind i) = Some var \<longrightarrow>
                  var_reg var nparams < as_reg a ! v)))"
proof -
  obtain order lv where p: "intervals_cover f order lv" "allocate f nparams lv = Inr a"
    "length (entry_params f) = nparams"
    using assign_registers_parts [OF assms] by metis
  have def_end: "\<forall>v < length (f_values f). \<forall>p. lr_def lv ! v = Some p \<longrightarrow> p \<le> lr_end lv ! v"
    using p(1) unfolding intervals_cover_def by blast
  note ok = allocate_ok [OF p(2,3) entry_params_ok [OF assms(4,2)] def_end]
  have placed: "placed f lv v" if v: "v \<in> set (defined_values (f_blocks f))" for v
  proof -
    obtain b where b: "b < length (f_blocks f)" "v \<in> set (block_values (f_blocks f ! b))"
    proof -
      have "v \<in> set (concat (map block_values (f_blocks f)))"
        using v by (simp add: defined_values_def block_values_def [abs_def])
      then obtain blk where "blk \<in> set (f_blocks f)" "v \<in> set (block_values blk)" by auto
      then show ?thesis using that by (metis in_set_conv_nth)
    qed
    then obtain k where k: "def_at (f_blocks f ! b) v k" using def_at_block_values by blast
    have "v < length (f_values f)" using def_in_range [OF assms(4) b(1) k] .
    then show ?thesis using p(1) b(1) k unfolding placed_def intervals_cover_def by blast
  qed
  have above: "var_reg var nparams < as_reg a ! v"
    if "v \<in> set (defined_values (f_blocks f))" "v \<notin> set (entry_params f)" "i \<in> set (all_insts f)"
      "captured_var (i_kind i) = Some var" for v i var
    using ok(6) [OF placed [OF that(1)] that(2)] first_free_captured [OF that(3,4), of nparams] by linarith
  show ?thesis
    using ok(1,2,3,4,9,10) ok(5) [OF placed] above by auto
qed

theorem assignment_fits_frame_witness: "as_register_count demo_assignment \<le> 256"
  using assignment_fits_frame [OF demo_assigned demo_cfg demo_ssa_form] by blast

text \<open>
  The value the handler reads shares its register with a value computed inside the protected
  region, in a block that can throw to the handler: when it does, the handler reads the wrong
  value. The analysis has no edge from that block to the handler.
\<close>

lemma handler_value_overwritten:
  "as_reg demo_assignment ! 2 = as_reg demo_assignment ! 4"
  "live_entry try_demo 2 2" "def_at (f_blocks try_demo ! 1) 4 1" "\<not> flow try_demo 1 2"
proof -
  show "as_reg demo_assignment ! 2 = as_reg demo_assignment ! 4" by (simp add: demo_assignment_def)
  have "use_at (f_blocks try_demo ! 2) 2 2" "\<forall>j. \<not> def_at (f_blocks try_demo ! 2) 2 j"
    by (auto simp: use_at_def def_at_def demo_simps)
  then show "live_entry try_demo 2 2" by (intro live_entry_use) (auto simp: buses_iff)
  show "def_at (f_blocks try_demo ! 1) 4 1" by (simp add: def_at_def demo_simps)
  show "\<not> flow try_demo 1 2" by (simp add: flow_def func_succs_def [symmetric] demo_succs)
qed

end
