(* ===== verification/Ssa_Dom.thy ===== *)
theory Ssa_Dom
  imports Ssa_Form
begin

text \<open>
  The dominator tree of \<open>ssa/dom.rs\<close>: immediate dominators by the iteration of Cooper, Harvey
  and Kennedy over the blocks in reverse postorder, then the preorder and postorder numbers of
  the tree, which answer a dominance query by two comparisons. A block without an immediate
  dominator yet, and a block the numbering has not reached (\<open>u32::MAX\<close> in the source), are
  \<open>None\<close>; a loop that does not return and the panic of \<open>expect\<close> are \<open>None\<close> results.
\<close>

section \<open>Immediate dominators\<close>

type_synonym idoms = "block_id option list"

text \<open>The inner loops of \<open>intersect\<close>: climb from \<open>a\<close> while it comes later than \<open>b\<close>.\<close>

partial_function (option) climb :: "idoms \<Rightarrow> nat list \<Rightarrow> block_id \<Rightarrow> block_id \<Rightarrow> block_id option" where
  "climb idom rpo_index a b =
     (if rpo_index ! b < rpo_index ! a
      then (case idom ! a of None \<Rightarrow> None | Some p \<Rightarrow> climb idom rpo_index p b)
      else Some a)"

partial_function (option) intersect :: "idoms \<Rightarrow> nat list \<Rightarrow> block_id \<Rightarrow> block_id \<Rightarrow> block_id option" where
  "intersect idom rpo_index a b =
     (if a = b then Some a
      else (case climb idom rpo_index a b of
              None \<Rightarrow> None
            | Some a' \<Rightarrow>
                (case climb idom rpo_index b a' of
                   None \<Rightarrow> None
                 | Some b' \<Rightarrow> intersect idom rpo_index a' b')))"

text \<open>The candidate for a block: the meet of its predecessors that have an immediate dominator.\<close>

fun meet_preds :: "idoms \<Rightarrow> nat list \<Rightarrow> block_id list \<Rightarrow> block_id option \<Rightarrow> block_id option option" where
  "meet_preds idom rpo_index [] candidate = Some candidate"
| "meet_preds idom rpo_index (p # ps) candidate =
     (if idom ! p = None then meet_preds idom rpo_index ps candidate
      else (case candidate of
              None \<Rightarrow> meet_preds idom rpo_index ps (Some p)
            | Some current \<Rightarrow>
                (case intersect idom rpo_index p current of
                   None \<Rightarrow> None
                 | Some m \<Rightarrow> meet_preds idom rpo_index ps (Some m))))"

definition idom_block :: "ssa_func \<Rightarrow> nat list \<Rightarrow> block_id \<Rightarrow> idoms \<times> bool \<Rightarrow> (idoms \<times> bool) option" where
  "idom_block f rpo_index b = (\<lambda>(idom, changed).
     if b = f_entry f then Some (idom, changed)
     else (case meet_preds idom rpo_index (bk_preds (f_blocks f ! b)) None of
             None \<Rightarrow> None
           | Some candidate \<Rightarrow>
               if candidate \<noteq> None \<and> idom ! b \<noteq> candidate then Some (idom[b := candidate], True)
               else Some (idom, changed)))"

fun idom_sweep :: "ssa_func \<Rightarrow> nat list \<Rightarrow> block_id list \<Rightarrow> idoms \<times> bool \<Rightarrow> (idoms \<times> bool) option" where
  "idom_sweep f rpo_index [] st = Some st"
| "idom_sweep f rpo_index (b # bs) st =
     (case idom_block f rpo_index b st of
        None \<Rightarrow> None
      | Some st' \<Rightarrow> idom_sweep f rpo_index bs st')"

partial_function (option) idom_loop :: "ssa_func \<Rightarrow> nat list \<Rightarrow> block_id list \<Rightarrow> idoms \<Rightarrow> idoms option" where
  "idom_loop f rpo_index rpo idom =
     (case idom_sweep f rpo_index rpo (idom, False) of
        None \<Rightarrow> None
      | Some (idom', changed) \<Rightarrow>
          if changed then idom_loop f rpo_index rpo idom' else Some idom')"

definition usize_max :: nat where
  "usize_max = 2 ^ 64 - 1"

definition rpo_positions :: "nat \<Rightarrow> block_id list \<Rightarrow> nat list" where
  "rpo_positions n rpo =
     fold (\<lambda>(i, b) index. index[b := i]) (List.enumerate 0 rpo) (replicate n usize_max)"

section \<open>The numbering\<close>

definition tree_children :: "idoms \<Rightarrow> block_id list list" where
  "tree_children idom =
     fold (\<lambda>(b, parent) children.
             case parent of
               Some p \<Rightarrow> if p \<noteq> b then children[p := children ! p @ [b]] else children
             | None \<Rightarrow> children)
       (List.enumerate 0 idom) (replicate (length idom) [])"

record numbering =
  nb_tin :: "nat option list"
  nb_tout :: "nat option list"
  nb_clock :: nat
  nb_stack :: "(block_id \<times> nat) list"

definition number_step :: "block_id list list \<Rightarrow> numbering \<Rightarrow> numbering" where
  "number_step children s =
     (case nb_stack s of
        [] \<Rightarrow> s
      | (b, next_i) # rest \<Rightarrow>
          (case list_get (children ! b) next_i of
             Some child \<Rightarrow>
               s\<lparr>nb_tin := (nb_tin s)[child := Some (nb_clock s)], nb_clock := nb_clock s + 1,
                 nb_stack := (child, 0) # (b, next_i + 1) # rest\<rparr>
           | None \<Rightarrow>
               s\<lparr>nb_tout := (nb_tout s)[b := Some (nb_clock s)], nb_clock := nb_clock s + 1,
                 nb_stack := rest\<rparr>))"

definition number_init :: "nat \<Rightarrow> block_id \<Rightarrow> numbering" where
  "number_init n e =
     \<lparr>nb_tin = (replicate n None)[e := Some 0], nb_tout = replicate n None, nb_clock = 1,
      nb_stack = [(e, 0)]\<rparr>"

record dom_tree =
  dt_tin :: "nat option list"
  dt_tout :: "nat option list"

definition dom_compute :: "ssa_func \<Rightarrow> dom_tree option" where
  "dom_compute f =
     (let n = length (f_blocks f) in
      case reverse_postorder f of
        None \<Rightarrow> None
      | Some rpo \<Rightarrow>
          (case idom_loop f (rpo_positions n rpo) rpo ((replicate n None)[f_entry f := Some (f_entry f)]) of
             None \<Rightarrow> None
           | Some idom \<Rightarrow>
               map_option (\<lambda>s. \<lparr>dt_tin = nb_tin s, dt_tout = nb_tout s\<rparr>)
                 (while_option (\<lambda>s. nb_stack s \<noteq> []) (number_step (tree_children idom))
                   (number_init n (f_entry f)))))"

text \<open>
  The queries. Every block with an entry number has an exit number when the numbering ends; the
  comparison of two numbers is that of the source, where the missing number is the largest.
\<close>

definition le_number :: "nat option \<Rightarrow> nat option \<Rightarrow> bool" where
  "le_number x y = (case y of None \<Rightarrow> True | Some m \<Rightarrow> (case x of None \<Rightarrow> False | Some k \<Rightarrow> k \<le> m))"

definition dom_dominates :: "dom_tree \<Rightarrow> block_id \<Rightarrow> block_id \<Rightarrow> bool" where
  "dom_dominates t a b =
     (if dt_tin t ! b = None then True
      else if dt_tin t ! a = None then False
      else le_number (dt_tin t ! a) (dt_tin t ! b) \<and> le_number (dt_tout t ! b) (dt_tout t ! a))"

definition dom_reachable :: "dom_tree \<Rightarrow> block_id \<Rightarrow> bool" where
  "dom_reachable t b = (dt_tin t ! b \<noteq> None)"

definition dom_query_of :: "dom_tree \<Rightarrow> dom_query" where
  "dom_query_of t = \<lparr>dq_reachable = dom_reachable t, dq_dominates = dom_dominates t\<rparr>"

text \<open>The verifier as the source runs it: the tree is computed once the edges are in range.\<close>

definition verify_func :: "ssa_func \<Rightarrow> (verify_fault + unit) option" where
  "verify_func f =
     (case verify_defs f of
        Inl e \<Rightarrow> Some (Inl e)
      | Inr ds \<Rightarrow>
        (case check_edges (f_blocks f) [0..<length (f_blocks f)] of
           Inl e \<Rightarrow> Some (Inl e)
         | Inr _ \<Rightarrow>
             map_option (\<lambda>t. check_blocks f ds (dom_query_of t) [0..<length (f_blocks f)])
               (dom_compute f)))"

lemma verify_func_ok:
  assumes "verify_func f = Some (Inr ())"
  obtains t where "dom_compute f = Some t" "verify (dom_query_of t) f = Inr ()"
  using assms by (auto simp: verify_func_def verify_def split: sum.splits)

end
