(* ===== verification/Ssa_Dom_Tree.thy ===== *)
theory Ssa_Dom_Tree
  imports Ssa_Dom
begin

text \<open>
  The tree the iteration works on: what \<open>intersect\<close> and the candidate of a block compute is the
  meet in it.
\<close>

section \<open>Ancestors\<close>

definition processed :: "idoms \<Rightarrow> block_id \<Rightarrow> bool" where
  "processed idom b \<longleftrightarrow> b < length idom \<and> idom ! b \<noteq> None"

text \<open>The entry is its own parent; any other parent comes earlier in the order \<open>ix\<close>.\<close>

definition tree_ok :: "nat list \<Rightarrow> block_id \<Rightarrow> idoms \<Rightarrow> bool" where
  "tree_ok ix e idom \<longleftrightarrow>
     e < length idom \<and> idom ! e = Some e \<and>
     (\<forall>a b. processed idom a \<and> processed idom b \<and> a \<noteq> b \<longrightarrow> ix ! a \<noteq> ix ! b) \<and>
     (\<forall>b p. processed idom b \<and> b \<noteq> e \<and> idom ! b = Some p \<longrightarrow> processed idom p \<and> ix ! p < ix ! b)"

inductive anc :: "idoms \<Rightarrow> block_id \<Rightarrow> block_id \<Rightarrow> bool" for idom where
  anc_refl [simp, intro]: "anc idom b b"
| anc_up: "idom ! b = Some p \<Longrightarrow> anc idom a p \<Longrightarrow> anc idom a b"

inductive_cases anc_cases: "anc idom a b"

lemma anc_trans: "anc idom b c \<Longrightarrow> anc idom a b \<Longrightarrow> anc idom a c"
  by (induction rule: anc.induct) (auto intro: anc_up)

lemma anc_chain: "anc idom a b \<Longrightarrow> anc idom c b \<Longrightarrow> anc idom a c \<or> anc idom c a"
proof (induction rule: anc.induct)
  case (anc_up b p a)
  from anc_up.prems show ?case
  proof (cases rule: anc.cases)
    case anc_refl then show ?thesis using anc_up.hyps anc.anc_up by blast
  next
    case (anc_up q) then show ?thesis using anc_up.IH \<open>idom ! b = Some p\<close> by simp
  qed
qed blast


lemma tree_parent:
  assumes tree: "tree_ok ix e idom"
  shows
    "processed idom b \<Longrightarrow> b \<noteq> e \<Longrightarrow> idom ! b = Some p \<Longrightarrow> processed idom p \<and> ix ! p < ix ! b"
  using tree unfolding tree_ok_def by blast

lemma tree_entry:
  assumes tree: "tree_ok ix e idom"
  shows "processed idom e" "idom ! e = Some e"
  using tree by (auto simp: tree_ok_def processed_def)

lemma tree_inj:
  assumes tree: "tree_ok ix e idom"
  shows "processed idom a \<Longrightarrow> processed idom b \<Longrightarrow> ix ! a = ix ! b \<Longrightarrow> a = b"
  using tree unfolding tree_ok_def by blast

lemma anc_less:
  assumes tree: "tree_ok ix e idom"
  shows
    "anc idom a b \<Longrightarrow> processed idom b \<Longrightarrow> processed idom a \<and> (a = b \<or> ix ! a < ix ! b)"
proof (induction rule: anc.induct)
  note tree_parent = tree_parent [OF tree] and tree_entry = tree_entry [OF tree]
  case (anc_up b p a)
  show ?case
  proof (cases "b = e")
    case True then show ?thesis using anc_up tree_entry by auto
  next
    case False
    then have "processed idom p" "ix ! p < ix ! b" using tree_parent anc_up by blast+
    then show ?thesis using anc_up.IH by auto
  qed
qed simp

lemma anc_antisym:
  assumes tree: "tree_ok ix e idom"
  shows "anc idom a b \<Longrightarrow> anc idom b a \<Longrightarrow> processed idom b \<Longrightarrow> a = b"
  using anc_less [OF tree] by (metis less_asym)

lemma anc_entry:
  assumes tree: "tree_ok ix e idom"
  shows "processed idom b \<Longrightarrow> anc idom e b"
proof (induction "ix ! b" arbitrary: b rule: less_induct)
  note tree_parent = tree_parent [OF tree]
  case less
  show ?case
  proof (cases "b = e")
    case False
    obtain p where p: "idom ! b = Some p" using less.prems by (auto simp: processed_def)
    then have "processed idom p" "ix ! p < ix ! b" using tree_parent less.prems False by blast+
    then show ?thesis using less.hyps p anc_up by blast
  qed simp
qed

lemma entry_least:
  assumes tree: "tree_ok ix e idom"
  shows "processed idom b \<Longrightarrow> ix ! e \<le> ix ! b"
  using anc_less [OF tree, OF anc_entry [OF tree]] by fastforce

lemma anc_same_level:
  assumes tree: "tree_ok ix e idom"
  shows "anc idom a c \<Longrightarrow> anc idom b c \<Longrightarrow> processed idom c \<Longrightarrow> ix ! a \<le> ix ! b \<Longrightarrow> anc idom a b"
  using anc_chain [of idom a c b] anc_less [OF tree] by (metis anc_refl leD)

section \<open>The meet of two nodes\<close>

lemma climb_meets:
  assumes tree: "tree_ok ix e idom"
    and "processed idom a" "processed idom b"
  shows "\<exists>a'. climb idom ix a b = Some a' \<and> anc idom a' a \<and> ix ! a' \<le> ix ! b \<and>
           (ix ! a \<le> ix ! b \<longrightarrow> a' = a) \<and>
           (\<forall>x. anc idom x a \<and> ix ! x \<le> ix ! b \<longrightarrow> anc idom x a')"
  using assms(2)
proof (induction "ix ! a" arbitrary: a rule: less_induct)
  note tree_parent = tree_parent [OF tree] and entry_least = entry_least [OF tree]
  case less
  show ?case
  proof (cases "ix ! b < ix ! a")
    case False
    then show ?thesis by (subst climb.simps) auto
  next
    case True
    then have "a \<noteq> e" using entry_least [OF assms(3)] by auto
    obtain p where p: "idom ! a = Some p" using less.prems by (auto simp: processed_def)
    have pp: "processed idom p" "ix ! p < ix ! a" using tree_parent [OF less.prems \<open>a \<noteq> e\<close> p] by auto
    obtain a' where a': "climb idom ix p b = Some a'" "anc idom a' p" "ix ! a' \<le> ix ! b"
      "\<forall>x. anc idom x p \<and> ix ! x \<le> ix ! b \<longrightarrow> anc idom x a'"
      using less.hyps [OF pp(2,1)] by blast
    have "climb idom ix a b = Some a'" using True p a'(1) by (subst climb.simps) simp
    moreover have "anc idom a' a" using a'(2) p by (rule anc_up [rotated])
    moreover have "anc idom x a'" if "anc idom x a" "ix ! x \<le> ix ! b" for x
      using that(1)
    proof (cases rule: anc.cases)
      case anc_refl then show ?thesis using that True by simp
    next
      case (anc_up q) then show ?thesis using a'(4) that(2) p by simp
    qed
    ultimately show ?thesis using a'(3) True by auto
  qed
qed

lemma intersect_meets:
  assumes tree: "tree_ok ix e idom"
    and "processed idom a" "processed idom b"
  shows "\<exists>m. intersect idom ix a b = Some m \<and> (\<forall>x. anc idom x m \<longleftrightarrow> anc idom x a \<and> anc idom x b)"
  using assms(2,3)
proof (induction "ix ! a + ix ! b" arbitrary: a b rule: less_induct)
  note tree_inj = tree_inj [OF tree] and anc_less = anc_less [OF tree] and climb_meets = climb_meets [OF tree]
  case less
  show ?case
  proof (cases "a = b")
    case True then show ?thesis by (subst intersect.simps) auto
  next
    case False
    obtain a' where a': "climb idom ix a b = Some a'" "anc idom a' a" "ix ! a' \<le> ix ! b"
      "ix ! a \<le> ix ! b \<longrightarrow> a' = a" "\<forall>x. anc idom x a \<and> ix ! x \<le> ix ! b \<longrightarrow> anc idom x a'"
      using climb_meets [OF less.prems] by blast
    have pa: "processed idom a'" using anc_less [OF a'(2) less.prems(1)] by blast
    obtain b' where b': "climb idom ix b a' = Some b'" "anc idom b' b" "ix ! b' \<le> ix ! a'"
      "ix ! b \<le> ix ! a' \<longrightarrow> b' = b" "\<forall>x. anc idom x b \<and> ix ! x \<le> ix ! a' \<longrightarrow> anc idom x b'"
      using climb_meets [OF less.prems(2) pa] by blast
    have pb: "processed idom b'" using anc_less [OF b'(2) less.prems(2)] by blast
    have ne: "ix ! a \<noteq> ix ! b" using tree_inj less.prems False by blast
    have la: "ix ! a' \<le> ix ! a" and lb: "ix ! b' \<le> ix ! b"
      using anc_less [OF a'(2) less.prems(1)] anc_less [OF b'(2) less.prems(2)] by auto
    have "ix ! a' + ix ! b' < ix ! a + ix ! b"
    proof (cases "ix ! b < ix ! a")
      case True then show ?thesis using a'(3) lb by linarith
    next
      case False
      then have "a' = a" using a'(4) by simp
      then show ?thesis using b'(3) False ne by simp
    qed
    then obtain m where m: "intersect idom ix a' b' = Some m"
      "\<forall>x. anc idom x m \<longleftrightarrow> anc idom x a' \<and> anc idom x b'"
      using less.hyps [OF _ pa pb] by blast
    have "anc idom x a' \<and> anc idom x b' \<longleftrightarrow> anc idom x a \<and> anc idom x b" for x
    proof
      assume "anc idom x a' \<and> anc idom x b'"
      then show "anc idom x a \<and> anc idom x b" using a'(2) b'(2) anc_trans by blast
    next
      assume *: "anc idom x a \<and> anc idom x b"
      then have "ix ! x \<le> ix ! b" using anc_less [of x b] less.prems(2) by auto
      then have "anc idom x a'" using * a'(5) by blast
      then have "ix ! x \<le> ix ! a'" using anc_less [of x a'] pa by auto
      then show "anc idom x a' \<and> anc idom x b'" using * b'(5) \<open>anc idom x a'\<close> by blast
    qed
    then show ?thesis
      using False a'(1) b'(1) m by (subst intersect.simps) auto
  qed
qed

lemma meet_preds_meets:
  assumes tree: "tree_ok ix e idom"
    and "\<forall>p \<in> set ps. p < length idom" "\<forall>c. candidate = Some c \<longrightarrow> processed idom c"
  shows "\<exists>r. meet_preds idom ix ps candidate = Some r \<and>
           (r = None \<longleftrightarrow> candidate = None \<and> (\<forall>p \<in> set ps. \<not> processed idom p)) \<and>
           (\<forall>m. r = Some m \<longrightarrow> processed idom m \<and>
              (\<forall>x. anc idom x m \<longleftrightarrow> (\<forall>c. candidate = Some c \<longrightarrow> anc idom x c) \<and>
                 (\<forall>p \<in> set ps. processed idom p \<longrightarrow> anc idom x p)))"
  using assms(2,3)
proof (induction ps arbitrary: candidate)
  note anc_less = anc_less [OF tree] and intersect_meets = intersect_meets [OF tree]
  case (Cons p ps)
  have len: "p < length idom" using Cons.prems(1) by simp
  show ?case
  proof (cases "idom ! p = None")
    case True
    then have "\<not> processed idom p" by (simp add: processed_def)
    then show ?thesis using Cons.IH [of candidate] Cons.prems True by simp
  next
    case False
    then have p: "processed idom p" using len by (simp add: processed_def)
    show ?thesis
    proof (cases candidate)
      case None
      then show ?thesis using Cons.IH [of "Some p"] Cons.prems False p by auto
    next
      case (Some c)
      then have c: "processed idom c" using Cons.prems(2) by simp
      obtain m where m: "intersect idom ix p c = Some m"
        "\<forall>x. anc idom x m \<longleftrightarrow> anc idom x p \<and> anc idom x c"
        using intersect_meets [OF p c] by blast
      have "processed idom m" using m(2) anc_less [of m p] p anc_refl by blast
      then show ?thesis using Cons.IH [of "Some m"] Cons.prems Some False p m by auto
    qed
  qed
qed simp

end
