(* ===== verification/Ssa_Dom_Iter.thy ===== *)
theory Ssa_Dom_Iter
  imports Ssa_Dom_Tree
begin

text \<open>
  The iteration for the immediate dominators returns, and the tree it ends with is the dominator
  tree. After \<open>k\<close> sweeps an ancestor of a block lies on every path to it with fewer than \<open>k\<close>
  edges against the order; a simple path has at most as many of those as there are blocks.
\<close>

section \<open>Paths and the order of the blocks\<close>

text \<open>The edges of a path that do not go forward in the order \<open>ix\<close>.\<close>

fun backs :: "nat list \<Rightarrow> nat list \<Rightarrow> nat" where
  "backs ix [] = 0"
| "backs ix [x] = 0"
| "backs ix (x # y # zs) = (if ix ! y \<le> ix ! x then 1 else 0) + backs ix (y # zs)"

lemma backs_snoc: "p \<noteq> [] \<Longrightarrow> backs ix (p @ [b]) = backs ix p + (if ix ! b \<le> ix ! last p then 1 else 0)"
  by (induction ix p rule: backs.induct) auto

lemma backs_prefix: "backs ix p \<le> backs ix (p @ q)"
proof (induction ix p rule: backs.induct)
  case (2 ix x) then show ?case by (cases q) auto
qed auto

lemma backs_length: "backs ix p \<le> length p"
  by (induction ix p rule: backs.induct) auto

lemma forward_path: "backs ix (b # p) = 0 \<Longrightarrow> c \<in> set p \<Longrightarrow> ix ! b < ix ! c"
proof (induction p arbitrary: b)
  case (Cons x p)
  then have "ix ! b < ix ! x" "backs ix (x # p) = 0" by (auto split: if_splits)
  then show ?case using Cons.IH [of x] Cons.prems(2) by fastforce
qed simp

lemma backs_suffix: "backs ix (p @ q) = 0 \<Longrightarrow> backs ix q = 0"
proof (induction ix p rule: backs.induct)
  case (2 ix x) then show ?case by (cases q) auto
next
  case (3 ix x y zs) then show ?case by (auto split: if_splits)
qed auto

lemma path_to_prefix:
  assumes "path_to E e (p @ b # q) c"
  shows "path_to E e (p @ [b]) b"
proof (cases "p = []")
  case True then show ?thesis using assms by (simp add: path_to_def)
next
  case False
  then show ?thesis
    using assms walk_append [of p "b # q" E] walk_snoc [of p E b] by (auto simp: path_to_def hd_append)
qed

lemma path_to_splice:
  assumes "path_to E e (p @ b # q) c" "path_to E e r b"
  shows "path_to E e (r @ q) c"
proof (cases q)
  case Nil then show ?thesis using assms by (simp add: path_to_def)
next
  case (Cons y ys)
  have "walk E (b # q)"
    using assms(1) walk_append [of p "b # q" E] by (cases "p = []") (auto simp: path_to_def)
  then have "E b y" "walk E q" using Cons by auto
  moreover have "walk E r" "last r = b" "hd r = e" "r \<noteq> []" using assms(2) by (auto simp: path_to_def)
  ultimately show ?thesis
    using walk_append [of r q E] assms(1) Cons by (auto simp: path_to_def hd_append)
qed

lemma distinct_path:
  assumes "path_to E e p b"
  shows "\<exists>p'. path_to E e p' b \<and> distinct p' \<and> set p' \<subseteq> set p"
  using assms
proof (induction "length p" arbitrary: p rule: less_induct)
  case less
  show ?case
  proof (cases "distinct p")
    case False
    then obtain xs ys zs y where p: "p = xs @ [y] @ ys @ [y] @ zs"
      using not_distinct_decomp by blast
    have "path_to E e (xs @ [y]) y" using path_to_prefix less.prems p by (metis append_Cons append_Nil)
    moreover have "path_to E e ((xs @ [y] @ ys) @ y # zs) b" using less.prems p by simp
    ultimately have "path_to E e ((xs @ [y]) @ zs) b" by (rule path_to_splice [rotated])
    then obtain p' where "path_to E e p' b" "distinct p'" "set p' \<subseteq> set ((xs @ [y]) @ zs)"
      using less.hyps [of "(xs @ [y]) @ zs"] p by auto
    then show ?thesis using p by auto
  qed (use less.prems in blast)
qed

section \<open>What the order provides\<close>

text \<open>
  The facts the iteration needs of the order: it numbers exactly the reachable blocks, every
  reachable block but the entry has a predecessor before it, and the predecessor lists are
  those of the graph.
\<close>

definition preds_ok :: "ssa_func \<Rightarrow> bool" where
  "preds_ok f \<longleftrightarrow> (\<forall>b < length (f_blocks f).
     set (bk_preds (f_blocks f ! b)) = {p. p < length (f_blocks f) \<and> flow f p b})"

definition order_ok :: "ssa_func \<Rightarrow> block_id list \<Rightarrow> nat list \<Rightarrow> bool" where
  "order_ok f rpo ix \<longleftrightarrow>
     cfg_ok f \<and> preds_ok f \<and> set rpo = {b. f_reach f b} \<and>
     (\<forall>i < length rpo. ix ! (rpo ! i) = i) \<and>
     (\<forall>b. f_reach f b \<and> b \<noteq> f_entry f \<longrightarrow> (\<exists>p. flow f p b \<and> f_reach f p \<and> ix ! p < ix ! b))"

lemma order_index:
  assumes "order_ok f rpo ix" "f_reach f b"
  shows "ix ! b < length rpo" "rpo ! (ix ! b) = b"
proof -
  obtain i where "i < length rpo" "rpo ! i = b"
    using assms unfolding order_ok_def by (metis in_set_conv_nth mem_Collect_eq)
  then show "ix ! b < length rpo" "rpo ! (ix ! b) = b" using assms(1) by (auto simp: order_ok_def)
qed

lemma order_inj: "order_ok f rpo ix \<Longrightarrow> f_reach f a \<Longrightarrow> f_reach f b \<Longrightarrow> ix ! a = ix ! b \<Longrightarrow> a = b"
  using order_index(2) by metis

lemma order_pred:
  "order_ok f rpo ix \<Longrightarrow> f_reach f b \<Longrightarrow> p \<in> set (bk_preds (f_blocks f ! b)) \<longleftrightarrow> p < length (f_blocks f) \<and> flow f p b"
  using reaches_in_range [of f b] unfolding order_ok_def preds_ok_def by auto

lemma order_parent:
  assumes "order_ok f rpo ix" "f_reach f b" "b \<noteq> f_entry f"
  obtains p where "flow f p b" "f_reach f p" "ix ! p < ix ! b"
  using assms unfolding order_ok_def by blast

text \<open>Every reachable block is at the end of a path that only goes forward.\<close>

lemma order_forward:
  assumes "order_ok f rpo ix" "f_reach f b"
  shows "\<exists>p. path_to (flow f) (f_entry f) p b \<and> backs ix p = 0"
  using assms(2)
proof (induction "ix ! b" arbitrary: b rule: less_induct)
  case less
  show ?case
  proof (cases "b = f_entry f")
    case True
    then show ?thesis by (intro exI [of _ "[b]"]) simp
  next
    case False
    obtain q where q: "flow f q b" "f_reach f q" "ix ! q < ix ! b"
      using order_parent [OF assms(1) less.prems False] .
    then obtain p where p: "path_to (flow f) (f_entry f) p q" "backs ix p = 0" using less.hyps by blast
    have "p \<noteq> []" "last p = q" using p(1) by (auto simp: path_to_def)
    then have "backs ix (p @ [b]) = 0" using backs_snoc [of p ix b] p(2) q(3) by simp
    then show ?thesis using path_to_step [OF p(1) q(1)] by blast
  qed
qed

section \<open>The invariant\<close>

definition iter_inv :: "ssa_func \<Rightarrow> nat list \<Rightarrow> nat \<Rightarrow> nat \<Rightarrow> idoms \<Rightarrow> bool" where
  "iter_inv f ix k i idom \<longleftrightarrow>
     length idom = length (f_blocks f) \<and> tree_ok ix (f_entry f) idom \<and>
     (\<forall>b. processed idom b \<longrightarrow> f_reach f b) \<and>
     (\<forall>b. f_reach f b \<and> (ix ! b < i \<or> 0 < k) \<longrightarrow> processed idom b) \<and>
     (\<forall>x p a. processed idom x \<and> path_to (flow f) (f_entry f) p x \<and>
        backs ix p \<le> (if ix ! x < i then k else k - 1) \<and> anc idom a x \<longrightarrow> a \<in> set p) \<and>
     (\<forall>x a. processed idom x \<and> f_dom f a x \<longrightarrow> anc idom a x)"

lemma iter_inv_parts:
  assumes "iter_inv f ix k i idom"
  shows "length idom = length (f_blocks f)" "tree_ok ix (f_entry f) idom"
    and "processed idom b \<Longrightarrow> f_reach f b"
    and "f_reach f b \<Longrightarrow> ix ! b < i \<or> 0 < k \<Longrightarrow> processed idom b"
    and "processed idom x \<Longrightarrow> path_to (flow f) (f_entry f) p x \<Longrightarrow>
           backs ix p \<le> (if ix ! x < i then k else k - 1) \<Longrightarrow> anc idom a x \<Longrightarrow> a \<in> set p"
    and "processed idom x \<Longrightarrow> f_dom f a x \<Longrightarrow> anc idom a x"
  using assms unfolding iter_inv_def by blast+

text \<open>
  A block that lies between a block and one of its dominators, in the tree, is dominated by it.
\<close>

lemma between_dominated:
  assumes "iter_inv f ix k i idom" "order_ok f rpo ix"
    and "anc idom b x" "processed idom x" "f_dom f a x" "ix ! a < ix ! b"
  shows "f_dom f a b"
proof (rule ccontr)
  assume "\<not> f_dom f a b"
  then obtain r where r: "path_to (flow f) (f_entry f) r b" "a \<notin> set r" unfolding dominates_def by blast
  have x: "f_reach f x" using iter_inv_parts(3) [OF assms(1)] assms(4) .
  obtain p where p: "path_to (flow f) (f_entry f) p x" "backs ix p = 0"
    using order_forward [OF assms(2) x] by blast
  have "b \<in> set p" using iter_inv_parts(5) [OF assms(1,4) p(1) _ assms(3)] p(2) by simp
  then obtain p1 p2 where split: "p = p1 @ b # p2" by (auto simp: in_set_conv_decomp)
  then have "path_to (flow f) (f_entry f) (r @ p2) x"
    using path_to_splice [of "flow f" "f_entry f" p1 b p2 x r] p(1) r(1) by simp
  then have "a \<in> set p2" using assms(5) r(2) unfolding dominates_def by auto
  moreover have "backs ix (b # p2) = 0" using backs_suffix p(2) split by blast
  ultimately have "ix ! b < ix ! a" by (rule forward_path [rotated])
  then show False using assms(6) by simp
qed

section \<open>One block\<close>

text \<open>How the ancestors change when one block gets another parent.\<close>

lemma anc_update_to:
  assumes "b < length idom"
  shows "anc (idom[b := Some m]) a x \<Longrightarrow> anc idom a x \<or> anc idom b x \<and> anc (idom[b := Some m]) a b"
proof (induction rule: anc.induct)
  case (anc_up x p a)
  show ?case
  proof (cases "x = b")
    case True then show ?thesis using anc_up.hyps anc.anc_up by blast
  next
    case False
    then have "idom ! x = Some p" using anc_up.hyps(1) by simp
    then show ?thesis using anc_up.IH anc.anc_up by blast
  qed
qed blast

lemma anc_update_from:
  "anc idom a x \<Longrightarrow> anc (idom[b := Some m]) a x \<or> anc idom b x \<and> b \<noteq> a \<and> anc idom a b"
proof (induction rule: anc.induct)
  case (anc_up x p a)
  show ?case
  proof (cases "x = b")
    case True
    then show ?thesis using anc_up.hyps anc.anc_up by (metis anc_refl)
  next
    case False
    then have "(idom[b := Some m]) ! x = Some p" using anc_up.hyps(1) by simp
    then show ?thesis using anc_up.IH anc_up.hyps(1) anc.anc_up by metis
  qed
qed blast

lemma anc_update_below: "anc idom b x \<Longrightarrow> anc (idom[b := Some m]) b x"
  by (induction rule: anc.induct) (metis anc.simps nth_list_update_neq)+

text \<open>The step for one block: the new parent is the meet of its processed predecessors.\<close>

lemma iter_candidate:
  assumes inv: "iter_inv f ix k i idom" and ord: "order_ok f rpo ix"
    and b: "f_reach f b" "ix ! b = i" "b \<noteq> f_entry f"
  obtains m where "meet_preds idom ix (bk_preds (f_blocks f ! b)) None = Some (Some m)"
    "processed idom m" "ix ! m < ix ! b"
    "\<And>x. anc idom x m \<longleftrightarrow> (\<forall>p. flow f p b \<and> processed idom p \<longrightarrow> anc idom x p)"
proof -
  let ?ps = "bk_preds (f_blocks f ! b)"
  note parts = iter_inv_parts [OF inv]
  obtain q where q: "flow f q b" "f_reach f q" "ix ! q < ix ! b"
    using order_parent [OF ord b(1,3)] .
  have pq: "processed idom q" using parts(4) [OF q(2)] q(3) b(2) by blast
  have lens: "\<forall>p \<in> set ?ps. p < length idom" using order_pred [OF ord b(1)] parts(1) by auto
  have mem: "p \<in> set ?ps \<longleftrightarrow> flow f p b" if "processed idom p" for p
    using order_pred [OF ord b(1), of p] that parts(1) by (auto simp: processed_def)
  obtain r where r: "meet_preds idom ix ?ps None = Some r"
    "r = None \<longleftrightarrow> (\<forall>p \<in> set ?ps. \<not> processed idom p)"
    "\<forall>m. r = Some m \<longrightarrow> processed idom m \<and> (\<forall>x. anc idom x m \<longleftrightarrow> (\<forall>p \<in> set ?ps. processed idom p \<longrightarrow> anc idom x p))"
    using meet_preds_meets [OF parts(2) lens, of None] by auto
  have "r \<noteq> None" using r(2) mem pq q(1) by blast
  then obtain m where m: "r = Some m" by blast
  have eq: "anc idom x m \<longleftrightarrow> (\<forall>p. flow f p b \<and> processed idom p \<longrightarrow> anc idom x p)" for x
    using r(3) m mem by blast
  have "anc idom m q" using eq [of m] q(1) pq by blast
  then have "ix ! m \<le> ix ! q" using anc_less [OF parts(2)] pq by fastforce
  then show ?thesis using that r(1,3) m eq q(3) by fastforce
qed

lemma iter_update:
  assumes inv: "iter_inv f ix k i idom" and ord: "order_ok f rpo ix"
    and b: "f_reach f b" "ix ! b = i" "b \<noteq> f_entry f"
    and m: "processed idom m" "ix ! m < ix ! b"
      "\<And>x. anc idom x m \<longleftrightarrow> (\<forall>p. flow f p b \<and> processed idom p \<longrightarrow> anc idom x p)"
  shows "iter_inv f ix k (i + 1) (idom[b := Some m])"
proof -
  let ?new = "idom[b := Some m]" and ?E = "flow f" and ?e = "f_entry f"
  note parts = iter_inv_parts [OF inv]
  have bl: "b < length idom" using reaches_in_range [OF b(1)] ord parts(1) by (simp add: order_ok_def)
  have proc: "processed ?new x \<longleftrightarrow> x = b \<or> processed idom x" for x
    using bl by (auto simp: processed_def nth_list_update)
  have reach: "f_reach f x" if "processed ?new x" for x
    using that parts(3) b(1) unfolding proc by auto
  have not_above: "\<not> anc idom b m" using anc_less [OF parts(2), of b m] m(1,2) by auto
  have anc_m: "anc ?new x m \<longleftrightarrow> anc idom x m" for x
    using anc_update_to [OF bl, of m x m] anc_update_from [of idom x m b m] not_above by blast
  have anc_b: "anc ?new x b \<longleftrightarrow> x = b \<or> anc idom x m" for x
  proof
    assume "anc ?new x b"
    then show "x = b \<or> anc idom x m"
    proof (cases rule: anc.cases)
      case (anc_up p) then show ?thesis using bl anc_m by simp
    qed simp
  next
    assume "x = b \<or> anc idom x m"
    then show "anc ?new x b" using anc_up [of ?new b m x] bl anc_m by auto
  qed
  have mb: "m \<noteq> b" using m(2) by auto
  have tree: "tree_ok ix ?e ?new"
    unfolding tree_ok_def
  proof (intro conjI allI impI)
    show "?e < length ?new" "?new ! ?e = Some ?e"
      using parts(2) b(3) by (simp_all add: tree_ok_def)
    fix x y assume "processed ?new x \<and> processed ?new y \<and> x \<noteq> y"
    then show "ix ! x \<noteq> ix ! y" using order_inj [OF ord reach reach] by blast
  next
    fix x p assume x: "processed ?new x \<and> x \<noteq> ?e \<and> ?new ! x = Some p"
    show "processed ?new p"
    proof (cases "x = b")
      case True then show ?thesis using x m(1) bl proc by simp
    next
      case False then show ?thesis using x proc tree_parent [OF parts(2), of x p] by simp
    qed
    show "ix ! p < ix ! x"
    proof (cases "x = b")
      case True then show ?thesis using x m(2) bl by simp
    next
      case False then show ?thesis using x proc tree_parent [OF parts(2), of x p] by simp
    qed
  qed
  have on_path_b: "a \<in> set p" if p: "path_to ?E ?e p b" "backs ix p \<le> k" and a: "anc ?new a b" for p a
  proof (cases "a = b")
    case True then show ?thesis using p(1) by (auto simp: path_to_def)
  next
    case False
    then have am: "anc idom a m" using a anc_b by blast
    obtain p' where p': "p = p' @ [b]" using p(1) by (metis path_to_def append_butlast_last_id walk_nonempty)
    have ne: "p' \<noteq> []"
    proof
      assume "p' = []"
      then show False using p(1) p' b(3) by (simp add: path_to_def)
    qed
    let ?q = "last p'"
    have q: "path_to ?E ?e p' ?q" "flow f ?q b"
      using p(1) walk_snoc [OF ne, of ?E b] ne unfolding p' path_to_def by (auto simp: hd_append)
    have rq: "f_reach f ?q" using q(1) unfolding reaches_def by blast
    have bk: "backs ix p = backs ix p' + (if ix ! b \<le> ix ! ?q then 1 else 0)"
      unfolding p' by (rule backs_snoc [OF ne])
    have pq: "processed idom ?q"
    proof (cases "ix ! ?q < i")
      case True then show ?thesis using parts(4) [OF rq] by blast
    next
      case False
      then have "0 < k" using bk p(2) b(2) by (simp split: if_splits)
      then show ?thesis using parts(4) [OF rq] by blast
    qed
    have "backs ix p' \<le> (if ix ! ?q < i then k else k - 1)"
      using bk p(2) b(2) by (auto split: if_splits)
    moreover have "anc idom a ?q" using m(3) am q(2) pq by blast
    ultimately have "a \<in> set p'" using parts(5) [OF pq q(1)] by blast
    then show ?thesis unfolding p' by simp
  qed
  have dom_b: "anc ?new a b" if "f_dom f a b" for a
  proof (cases "a = b")
    case False
    have "anc idom a p" if "flow f p b" "processed idom p" for p
      using parts(6) [OF that(2)] dominates_step [OF \<open>f_dom f a b\<close> that(1) False] by blast
    then show ?thesis using anc_b m(3) by blast
  qed simp
  show ?thesis
    unfolding iter_inv_def
  proof (intro conjI allI impI)
    show "length ?new = length (f_blocks f)" using parts(1) by simp
    show "tree_ok ix ?e ?new" by (rule tree)
    show "f_reach f x" if "processed ?new x" for x using reach that .
  next
    fix x assume x: "f_reach f x \<and> (ix ! x < i + 1 \<or> 0 < k)"
    show "processed ?new x"
    proof (cases "ix ! x = i")
      case True
      then have "x = b" using order_inj [OF ord] x b(1,2) by blast
      then show ?thesis using proc by blast
    next
      case False then show ?thesis using x parts(4) proc by auto
    qed
  next
    fix x p a
    assume *: "processed ?new x \<and> path_to ?E ?e p x \<and> backs ix p \<le> (if ix ! x < i + 1 then k else k - 1) \<and> anc ?new a x"
    show "a \<in> set p"
    proof (cases "x = b")
      case True then show ?thesis using * on_path_b b(2) by simp
    next
      case False
      then have px: "processed idom x" using * proc by blast
      have "ix ! x \<noteq> i"
      proof
        assume "ix ! x = i"
        then have "ix ! x = ix ! b" using b(2) by simp
        then show False using order_inj [OF ord reach b(1)] * False by blast
      qed
      then have bk: "backs ix p \<le> (if ix ! x < i then k else k - 1)" using * by auto
      have on: "c \<in> set p" if "anc idom c x" for c using parts(5) [OF px _ bk that] * by blast
      from anc_update_to [OF bl] * have "anc idom a x \<or> anc idom b x \<and> anc ?new a b" by blast
      then show ?thesis
      proof
        assume "anc idom b x \<and> anc ?new a b"
        then obtain p1 p2 where split: "p = p1 @ b # p2" using on by (metis in_set_conv_decomp)
        then have "path_to ?E ?e (p1 @ [b]) b" using path_to_prefix [of ?E ?e p1 b p2 x] * by simp
        moreover have "backs ix (p1 @ [b]) \<le> k"
        proof -
          have "backs ix (p1 @ [b]) \<le> backs ix p"
            using backs_prefix [of ix "p1 @ [b]" p2] split by simp
          also have "\<dots> \<le> k" using bk by (auto split: if_splits)
          finally show ?thesis .
        qed
        ultimately have "a \<in> set (p1 @ [b])" using on_path_b \<open>anc idom b x \<and> anc ?new a b\<close> by blast
        then show ?thesis using split by auto
      qed (rule on)
    qed
  next
    fix x a assume *: "processed ?new x \<and> f_dom f a x"
    show "anc ?new a x"
    proof (cases "x = b")
      case True then show ?thesis using * dom_b by blast
    next
      case False
      then have px: "processed idom x" using * proc by blast
      then have "anc idom a x" using parts(6) * by blast
      then have "anc ?new a x \<or> anc idom b x \<and> b \<noteq> a \<and> anc idom a b" by (rule anc_update_from)
      then show ?thesis
      proof
        assume **: "anc idom b x \<and> b \<noteq> a \<and> anc idom a b"
        then have "ix ! a < ix ! b" using anc_less [OF parts(2)] px by metis
        then have "f_dom f a b" using between_dominated [OF inv ord] ** px * by blast
        then show ?thesis using dom_b anc_update_below ** anc_trans by blast
      qed
    qed
  qed
qed

lemma iter_entry:
  assumes inv: "iter_inv f ix k i idom" and ord: "order_ok f rpo ix" and "ix ! f_entry f = i"
  shows "iter_inv f ix k (i + 1) idom"
proof -
  note parts = iter_inv_parts [OF inv]
  have e: "processed idom (f_entry f)" using tree_entry [OF parts(2)] by blast
  have only: "x = f_entry f" if "f_reach f x" "ix ! x = i" for x
    by (rule order_inj [OF ord that(1) reaches_refl]) (simp add: that(2) assms(3))
  show ?thesis
    unfolding iter_inv_def
  proof (intro conjI allI impI)
    fix x assume "f_reach f x \<and> (ix ! x < i + 1 \<or> 0 < k)"
    then show "processed idom x" using parts(4) [of x] only e by (cases "ix ! x = i") auto
  next
    fix x p a
    assume *: "processed idom x \<and> path_to (flow f) (f_entry f) p x \<and>
      backs ix p \<le> (if ix ! x < i + 1 then k else k - 1) \<and> anc idom a x"
    show "a \<in> set p"
    proof (cases "ix ! x = i")
      case True
      then have "x = f_entry f" using only parts(3) * by blast
      then have "a = x" using * anc_antisym [OF parts(2)] anc_entry [OF parts(2)] anc_less [OF parts(2)] by metis
      then show ?thesis using * by (auto simp: path_to_def)
    next
      case False
      then show ?thesis using * parts(5) [of x p a] by (auto split: if_splits)
    qed
  qed (use parts in auto)
qed

lemma idom_block_step:
  assumes inv: "iter_inv f ix k i idom" and ord: "order_ok f rpo ix" and b: "f_reach f b" "ix ! b = i"
  shows "\<exists>idom' c'. idom_block f ix b (idom, c) = Some (idom', c') \<and> iter_inv f ix k (i + 1) idom' \<and>
           (idom' = idom \<and> c' = c \<or> idom' ! b \<noteq> idom ! b \<and> c' \<and> b \<noteq> f_entry f)"
proof (cases "b = f_entry f")
  case True
  then show ?thesis using iter_entry [OF inv ord] b(2) by (simp add: idom_block_def)
next
  case False
  obtain m where m: "meet_preds idom ix (bk_preds (f_blocks f ! b)) None = Some (Some m)"
    "processed idom m" "ix ! m < ix ! b"
    "\<And>x. anc idom x m \<longleftrightarrow> (\<forall>p. flow f p b \<and> processed idom p \<longrightarrow> anc idom x p)"
    using iter_candidate [OF inv ord b False] by blast
  note new = iter_update [OF inv ord b False m(2-4)]
  have bl: "b < length idom"
    using reaches_in_range [OF b(1)] ord iter_inv_parts(1) [OF inv] by (simp add: order_ok_def)
  show ?thesis
  proof (cases "idom ! b = Some m")
    case True
    then have "idom[b := Some m] = idom" by (metis list_update_id)
    then show ?thesis using m(1) False True new by (simp add: idom_block_def)
  next
    case neq: False
    then show ?thesis using m(1) False new bl by (auto simp: idom_block_def)
  qed
qed

lemma idom_sweep_step:
  assumes "order_ok f rpo ix"
  shows "iter_inv f ix k i idom \<Longrightarrow> i \<le> length rpo \<Longrightarrow>
    \<exists>idom' c'. idom_sweep f ix (drop i rpo) (idom, c) = Some (idom', c') \<and>
       iter_inv f ix k (length rpo) idom' \<and> (c' \<or> idom' = idom \<and> \<not> c)"
proof (induction "length rpo - i" arbitrary: i idom c)
  case 0
  then show ?case by auto
next
  case (Suc d)
  then have i: "i < length rpo" by simp
  let ?b = "rpo ! i"
  have "?b \<in> set rpo" using i by simp
  then have b: "f_reach f ?b" "ix ! ?b = i" using assms i unfolding order_ok_def by blast+
  have dr: "drop i rpo = ?b # drop (i + 1) rpo" using i by (simp add: Cons_nth_drop_Suc)
  obtain idom1 c1 where one: "idom_block f ix ?b (idom, c) = Some (idom1, c1)"
    "iter_inv f ix k (i + 1) idom1" "idom1 = idom \<and> c1 = c \<or> c1"
    using idom_block_step [OF Suc.prems(1) assms b] by blast
  obtain idom' c' where more: "idom_sweep f ix (drop (i + 1) rpo) (idom1, c1) = Some (idom', c')"
    "iter_inv f ix k (length rpo) idom'" "c' \<or> idom' = idom1 \<and> \<not> c1"
  proof -
    have "d = length rpo - (i + 1)" using Suc.hyps(2) by simp
    from Suc.hyps(1) [OF this one(2), of c1] i show ?thesis using that by auto
  qed
  have "c' \<or> idom' = idom \<and> \<not> c" using one(3) more(3) by blast
  then show ?case using dr one(1) more(1,2) by auto
qed

lemma next_sweep:
  assumes "iter_inv f ix k (length rpo) idom" "order_ok f rpo ix"
  shows "iter_inv f ix (k + 1) 0 idom"
proof -
  note parts = iter_inv_parts [OF assms(1)]
  have less: "ix ! x < length rpo" if "f_reach f x" for x using order_index [OF assms(2) that] by blast
  show ?thesis
    unfolding iter_inv_def
  proof (intro conjI allI impI)
    fix x assume "f_reach f x \<and> (ix ! x < 0 \<or> 0 < k + 1)"
    then show "processed idom x" using parts(4) less by blast
  next
    fix x p a
    assume *: "processed idom x \<and> path_to (flow f) (f_entry f) p x \<and>
      backs ix p \<le> (if ix ! x < 0 then k + 1 else k + 1 - 1) \<and> anc idom a x"
    then have "ix ! x < length rpo" using less parts(3) by blast
    then show "a \<in> set p" using * parts(5) [of x p a] by simp
  qed (use parts in auto)
qed

section \<open>The result\<close>

definition dom_tree_of :: "ssa_func \<Rightarrow> idoms \<Rightarrow> bool" where
  "dom_tree_of f idom \<longleftrightarrow> length idom = length (f_blocks f) \<and>
     (\<forall>b. processed idom b \<longleftrightarrow> f_reach f b) \<and>
     (\<forall>a b. f_reach f b \<longrightarrow> (anc idom a b \<longleftrightarrow> f_dom f a b))"

lemma iter_exact:
  assumes inv: "iter_inv f ix k i idom" and ord: "order_ok f rpo ix" and k: "length (f_blocks f) < k"
  shows "dom_tree_of f idom"
proof -
  note parts = iter_inv_parts [OF inv]
  have proc: "processed idom b \<longleftrightarrow> f_reach f b" for b using parts(3,4) k by auto
  have "f_dom f a b" if "f_reach f b" "anc idom a b" for a b
    unfolding dominates_def
  proof (intro allI impI)
    fix p assume p: "path_to (flow f) (f_entry f) p b"
    obtain p' where p': "path_to (flow f) (f_entry f) p' b" "distinct p'" "set p' \<subseteq> set p"
      using distinct_path [OF p] by blast
    have "set p' \<subseteq> {..<length (f_blocks f)}"
    proof
      fix c assume "c \<in> set p'"
      then obtain q r where "p' = q @ c # r" by (auto simp: in_set_conv_decomp)
      then have "path_to (flow f) (f_entry f) (q @ [c]) c" using path_to_prefix [of _ _ q c r] p'(1) by simp
      then have "f_reach f c" unfolding reaches_def by blast
      then show "c \<in> {..<length (f_blocks f)}" using reaches_in_range ord by (auto simp: order_ok_def)
    qed
    then have "length p' \<le> length (f_blocks f)"
      using p'(2) by (metis card_lessThan card_mono distinct_card finite_lessThan)
    then have "backs ix p' \<le> (if ix ! b < i then k else k - 1)" using backs_length [of ix p'] k by auto
    then have "a \<in> set p'" using parts(5) [OF _ p'(1) _ that(2)] proc that(1) by blast
    then show "a \<in> set p" using p'(3) by blast
  qed
  then show ?thesis using parts(1,6) proc unfolding dom_tree_of_def by blast
qed

lemma dom_tree_unique:
  assumes "dom_tree_of f idom" "dom_tree_of f idom'" "tree_ok ix (f_entry f) idom" "tree_ok ix (f_entry f) idom'"
    and "f_reach f b"
  shows "idom' ! b = idom ! b"
proof (cases "b = f_entry f")
  case True then show ?thesis using tree_entry(2) assms(3,4) by metis
next
  case False
  have proc: "processed idom b" "processed idom' b" using assms unfolding dom_tree_of_def by blast+
  then obtain p p' where p: "idom ! b = Some p" "idom' ! b = Some p'" by (auto simp: processed_def)
  have par: "processed idom p" "p \<noteq> b" "processed idom' p'" "p' \<noteq> b"
    using tree_parent [OF assms(3) proc(1) False p(1)] tree_parent [OF assms(4) proc(2) False p(2)] by auto
  have same: "anc idom x y \<longleftrightarrow> anc idom' x y" if "processed idom y" for x y
    using that assms(1,2) unfolding dom_tree_of_def by blast
  have "anc idom' p b" using same [OF proc(1)] p(1) anc_up [of idom b p p] by blast
  then have "anc idom' p p'" using p(2) par(2) by (cases rule: anc.cases) auto
  moreover have "anc idom p' b" using same [OF proc(1)] p(2) anc_up [of idom' b p' p'] by blast
  then have "anc idom p' p" using p(1) par(4) by (cases rule: anc.cases) auto
  moreover have "processed idom p'" using par(3) assms(1,2) unfolding dom_tree_of_def by blast
  ultimately have "p = p'" using same anc_antisym [OF assms(3)] by blast
  then show ?thesis using p by simp
qed

text \<open>A sweep that starts from the dominator tree changes nothing.\<close>

lemma sweep_stable:
  assumes ord: "order_ok f rpo ix" and k: "length (f_blocks f) < k"
  shows "iter_inv f ix k i idom \<Longrightarrow> i \<le> length rpo \<Longrightarrow>
    idom_sweep f ix (drop i rpo) (idom, c) = Some (idom, c)"
proof (induction "length rpo - i" arbitrary: i)
  case 0 then show ?case by simp
next
  case (Suc d)
  then have i: "i < length rpo" by simp
  let ?b = "rpo ! i"
  have "?b \<in> set rpo" using i by simp
  then have b: "f_reach f ?b" "ix ! ?b = i" using ord i unfolding order_ok_def by blast+
  have dr: "drop i rpo = ?b # drop (i + 1) rpo" using i by (simp add: Cons_nth_drop_Suc)
  obtain idom1 c1 where one: "idom_block f ix ?b (idom, c) = Some (idom1, c1)"
    "iter_inv f ix k (i + 1) idom1"
    "idom1 = idom \<and> c1 = c \<or> idom1 ! ?b \<noteq> idom ! ?b \<and> c1 \<and> ?b \<noteq> f_entry f"
    using idom_block_step [OF Suc.prems(1) ord b] by blast
  have "idom1 ! ?b = idom ! ?b"
    using dom_tree_unique [OF iter_exact [OF Suc.prems(1) ord k] iter_exact [OF one(2) ord k]
        iter_inv_parts(2) [OF Suc.prems(1)] iter_inv_parts(2) [OF one(2)] b(1)] .
  then have "idom1 = idom" "c1 = c" using one(3) by auto
  then show ?case using Suc.hyps(1) [of "i + 1"] Suc.hyps(2) one(1,2) dr i by simp
qed

lemma idom_loop_returns:
  assumes ord: "order_ok f rpo ix" and "iter_inv f ix k 0 idom"
  shows "\<exists>idom'. idom_loop f ix rpo idom = Some idom' \<and> tree_ok ix (f_entry f) idom' \<and> dom_tree_of f idom'"
  using assms(2)
proof (induction "length (f_blocks f) + 1 - k" arbitrary: k idom rule: less_induct)
  case less
  obtain idom1 c1 where sw: "idom_sweep f ix rpo (idom, False) = Some (idom1, c1)"
    "iter_inv f ix k (length rpo) idom1" "c1 \<or> idom1 = idom"
    using idom_sweep_step [OF ord less.prems, of False] by auto
  note nxt = next_sweep [OF sw(2) ord]
  show ?case
  proof (cases c1)
    case True
    then have "\<not> length (f_blocks f) < k"
      using sweep_stable [OF ord _ less.prems, of False] sw(1) by auto
    then have "\<exists>idom'. idom_loop f ix rpo idom1 = Some idom' \<and> tree_ok ix (f_entry f) idom' \<and> dom_tree_of f idom'"
      using less.hyps [OF _ nxt] by simp
    then show ?thesis using sw(1) True by (subst idom_loop.simps) simp
  next
    case False
    have keep: "iter_inv f ix (k + j) 0 idom" for j
    proof (induction j)
      case 0 then show ?case using less.prems by simp
    next
      case (Suc j)
      obtain i2 c2 where "idom_sweep f ix rpo (idom, False) = Some (i2, c2)"
        "iter_inv f ix (k + j) (length rpo) i2"
        using idom_sweep_step [OF ord Suc, of False] by auto
      then have "iter_inv f ix (k + j) (length rpo) idom" using sw(1,3) False by auto
      then show ?case using next_sweep [OF _ ord] by fastforce
    qed
    have "dom_tree_of f idom"
      by (rule iter_exact [OF keep [of "length (f_blocks f) + 1"] ord]) simp
    then show ?thesis
      using sw(1,3) False iter_inv_parts(2) [OF less.prems] by (subst idom_loop.simps) simp
  qed
qed

end
