(* ===== verification/Ssa_Dom_Num.thy ===== *)
theory Ssa_Dom_Num
  imports Ssa_Dom_Iter
begin

text \<open>
  The numbering of the dominator tree: it returns, numbers exactly the nodes of the tree, and
  two numbers of each node decide ancestry.
\<close>

section \<open>The children\<close>

lemma fold_children:
  fixes idom :: idoms
  defines "step \<equiv> \<lambda>(b, parent) children. case parent of
      Some p \<Rightarrow> if p \<noteq> b then children[p := children ! p @ [b]] else children | None \<Rightarrow> children"
  shows "length (fold step (List.enumerate k idom) ch) = length ch"
    and "p < length ch \<Longrightarrow> set (fold step (List.enumerate k idom) ch ! p) =
           set (ch ! p) \<union> {k + i | i. i < length idom \<and> idom ! i = Some p \<and> p \<noteq> k + i}"
    and "p < length ch \<Longrightarrow> distinct (ch ! p) \<Longrightarrow> (\<forall>c \<in> set (ch ! p). c < k) \<Longrightarrow>
           distinct (fold step (List.enumerate k idom) ch ! p)"
proof -
  show "length (fold step (List.enumerate k idom) ch) = length ch"
    by (induction idom arbitrary: k ch) (auto simp: step_def split: option.splits)
  show "p < length ch \<Longrightarrow> set (fold step (List.enumerate k idom) ch ! p) =
           set (ch ! p) \<union> {k + i | i. i < length idom \<and> idom ! i = Some p \<and> p \<noteq> k + i}"
  proof (induction idom arbitrary: k ch)
    case (Cons x idom)
    let ?ch = "step (k, x) ch"
    have len: "p < length ?ch" using Cons.prems by (auto simp: step_def split: option.splits)
    have one: "set (?ch ! p) = set (ch ! p) \<union> (if x = Some p \<and> p \<noteq> k then {k} else {})"
      using Cons.prems by (auto simp: step_def nth_list_update split: option.splits)
    have shift: "{k + i | i. i < length (x # idom) \<and> (x # idom) ! i = Some p \<and> p \<noteq> k + i} =
        (if x = Some p \<and> p \<noteq> k then {k} else {}) \<union>
        {Suc k + i | i. i < length idom \<and> idom ! i = Some p \<and> p \<noteq> Suc k + i}" (is "?l = ?r")
    proof (intro equalityI subsetI)
      fix c assume "c \<in> ?l"
      then obtain i where i: "c = k + i" "i < length (x # idom)" "(x # idom) ! i = Some p" "p \<noteq> k + i"
        by blast
      then show "c \<in> ?r" by (cases i) auto
    next
      fix c assume "c \<in> ?r"
      then consider "x = Some p" "p \<noteq> k" "c = k"
        | i where "c = Suc k + i" "i < length idom" "idom ! i = Some p" "p \<noteq> Suc k + i"
        by (auto split: if_splits)
      then show "c \<in> ?l"
      proof cases
        case 1 then show ?thesis by (auto intro!: exI [of _ 0])
      next
        case (2 i) then show ?thesis by (auto intro!: exI [of _ "Suc i"])
      qed
    qed
    show ?case using Cons.IH [OF len, of "Suc k"] one unfolding shift by auto
  qed simp
  show "p < length ch \<Longrightarrow> distinct (ch ! p) \<Longrightarrow> (\<forall>c \<in> set (ch ! p). c < k) \<Longrightarrow>
           distinct (fold step (List.enumerate k idom) ch ! p)"
  proof (induction idom arbitrary: k ch)
    case (Cons x idom)
    let ?ch = "step (k, x) ch"
    have len: "p < length ?ch" using Cons.prems by (auto simp: step_def split: option.splits)
    have "?ch ! p = (if x = Some p \<and> p \<noteq> k then ch ! p @ [k] else ch ! p)"
      using Cons.prems by (auto simp: step_def nth_list_update split: option.splits)
    then have "distinct (?ch ! p)" "\<forall>c \<in> set (?ch ! p). c < Suc k"
      using Cons.prems by auto
    note len this
    then show ?case using Cons.IH [of ?ch "Suc k"] by simp
  qed simp
qed

lemma tree_children_ok:
  assumes "p < length idom"
  shows "set (tree_children idom ! p) = {b. b < length idom \<and> idom ! b = Some p \<and> b \<noteq> p}"
    and "distinct (tree_children idom ! p)"
  using fold_children(2) [of p "replicate (length idom) []" 0 idom]
    fold_children(3) [of p "replicate (length idom) []" 0 idom] assms
  by (auto simp: tree_children_def)

section \<open>The subtrees\<close>

definition desc :: "idoms \<Rightarrow> block_id \<Rightarrow> block_id set" where
  "desc idom b = {x. processed idom x \<and> anc idom b x}"

definition forest :: "idoms \<Rightarrow> block_id list \<Rightarrow> block_id set" where
  "forest idom cs = (\<Union>c \<in> set cs. desc idom c)"

lemma forest_simps [simp]:
  "forest idom [] = {}" "forest idom (c # cs) = desc idom c \<union> forest idom cs"
  by (auto simp: forest_def)

lemma desc_closed: "x \<in> desc idom b \<Longrightarrow> anc idom x y \<Longrightarrow> processed idom y \<Longrightarrow> y \<in> desc idom b"
  by (auto simp: desc_def intro: anc_trans)

lemma forest_closed: "x \<in> forest idom cs \<Longrightarrow> anc idom x y \<Longrightarrow> processed idom y \<Longrightarrow> y \<in> forest idom cs"
  by (auto simp: forest_def intro: desc_closed)

lemma child_parent:
  assumes tree: "tree_ok ix e idom" and "processed idom b" "c \<in> set (tree_children idom ! b)"
  shows "idom ! c = Some b" "processed idom c" "ix ! b < ix ! c" "c \<noteq> e" "\<not> anc idom c b"
proof -
  have b: "b < length idom" using assms(2) by (simp add: processed_def)
  show c: "idom ! c = Some b" "processed idom c"
    using assms(3) unfolding tree_children_ok(1) [OF b] by (auto simp: processed_def)
  have ne: "c \<noteq> b" using assms(3) unfolding tree_children_ok(1) [OF b] by auto
  show e: "c \<noteq> e" using tree_entry [OF tree] c(1) ne by auto
  show lt: "ix ! b < ix ! c" using tree_parent [OF tree c(2) e c(1)] by simp
  show "\<not> anc idom c b" using anc_less [OF tree _ assms(2)] lt ne by (meson less_asym)
qed

lemma desc_children:
  assumes tree: "tree_ok ix e idom" and b: "processed idom b"
  shows "desc idom b = insert b (forest idom (tree_children idom ! b))"
proof (intro equalityI subsetI)
  fix x assume x: "x \<in> desc idom b"
  have "anc idom b x \<Longrightarrow> processed idom x \<Longrightarrow> x = b \<or> x \<in> forest idom (tree_children idom ! b)"
  proof (induction rule: anc.induct)
    case (anc_up x p b)
    show ?case
    proof (cases "x = e")
      case True
      then show ?thesis using anc_up tree_entry [OF tree] by auto
    next
      case False
      then have p: "processed idom p" "ix ! p < ix ! x"
        using tree_parent [OF tree anc_up.prems _ anc_up.hyps(1)] by auto
      have "x \<in> set (tree_children idom ! p)"
        using p anc_up by (auto simp: tree_children_ok(1) processed_def)
      then show ?thesis
        using anc_up.IH [OF p(1)] anc_up.prems anc_up.hyps forest_closed [of p idom _ x]
        by (auto simp: forest_def desc_def intro: anc.anc_up)
    qed
  qed simp
  then show "x \<in> insert b (forest idom (tree_children idom ! b))" using x by (auto simp: desc_def)
next
  fix x assume "x \<in> insert b (forest idom (tree_children idom ! b))"
  then show "x \<in> desc idom b"
    using b child_parent [OF tree b] anc_trans anc_up [OF _ anc_refl]
    by (auto simp: forest_def desc_def)
qed

lemma siblings_apart:
  assumes tree: "tree_ok ix e idom" and b: "processed idom b"
    and c: "c \<in> set (tree_children idom ! b)" and d: "d \<in> set (tree_children idom ! b)" and "c \<noteq> d"
  shows "desc idom c \<inter> desc idom d = {}"
proof -
  have no: "\<not> anc idom x y" if "x \<in> set (tree_children idom ! b)" "y \<in> set (tree_children idom ! b)" "x \<noteq> y"
    for x y
  proof
    assume "anc idom x y"
    then show False
      using child_parent [OF tree b that(1)] child_parent [OF tree b that(2)] that(3)
      by (cases rule: anc.cases) auto
  qed
  show ?thesis using anc_chain no [OF c d] no [OF d c] assms(5) by (fastforce simp: desc_def)
qed

lemma forest_apart:
  assumes tree: "tree_ok ix e idom" and b: "processed idom b" and "tree_children idom ! b = cs @ c # ds"
  shows "desc idom c \<inter> forest idom ds = {}"
proof -
  have "distinct (tree_children idom ! b)" using b tree_children_ok(2) by (simp add: processed_def)
  then have "\<forall>d \<in> set ds. c \<noteq> d" using assms(3) by auto
  then show ?thesis using siblings_apart [OF tree b, of c] assms(3) by (fastforce simp: forest_def)
qed

section \<open>What a run of the numbering adds\<close>

definition numbered :: "idoms \<Rightarrow> numbering \<Rightarrow> numbering \<Rightarrow> block_id set \<Rightarrow> bool" where
  "numbered idom s s' D \<longleftrightarrow>
     length (nb_tin s') = length (nb_tin s) \<and> length (nb_tout s') = length (nb_tout s) \<and>
     nb_clock s \<le> nb_clock s' \<and>
     (\<forall>x. x \<notin> D \<longrightarrow> nb_tin s' ! x = nb_tin s ! x \<and> nb_tout s' ! x = nb_tout s ! x) \<and>
     (\<forall>x \<in> D. \<exists>i j. nb_tin s' ! x = Some i \<and> nb_tout s' ! x = Some j \<and>
        nb_clock s \<le> i \<and> i < j \<and> j < nb_clock s') \<and>
     (\<forall>x \<in> D. \<forall>y \<in> D. anc idom x y \<longleftrightarrow>
        the (nb_tin s' ! x) \<le> the (nb_tin s' ! y) \<and> the (nb_tout s' ! y) \<le> the (nb_tout s' ! x))"

lemma numbered_parts:
  assumes "numbered idom s s' D"
  shows "length (nb_tin s') = length (nb_tin s)" "length (nb_tout s') = length (nb_tout s)"
    and "nb_clock s \<le> nb_clock s'"
    and "x \<notin> D \<Longrightarrow> nb_tin s' ! x = nb_tin s ! x" "x \<notin> D \<Longrightarrow> nb_tout s' ! x = nb_tout s ! x"
    and "x \<in> D \<Longrightarrow> \<exists>i j. nb_tin s' ! x = Some i \<and> nb_tout s' ! x = Some j \<and>
        nb_clock s \<le> i \<and> i < j \<and> j < nb_clock s'"
    and "x \<in> D \<Longrightarrow> y \<in> D \<Longrightarrow> anc idom x y \<longleftrightarrow>
        the (nb_tin s' ! x) \<le> the (nb_tin s' ! y) \<and> the (nb_tout s' ! y) \<le> the (nb_tout s' ! x)"
  using assms unfolding numbered_def by simp_all

lemma numbered_none: "numbered idom s (s\<lparr>nb_stack := st\<rparr>) {}"
  by (simp add: numbered_def)

lemma numbered_union:
  assumes one: "numbered idom s s1 D" and two: "numbered idom s1 s2 D'" and apart: "D \<inter> D' = {}"
    and cross: "\<And>x y. x \<in> D \<Longrightarrow> y \<in> D' \<Longrightarrow> \<not> anc idom x y \<and> \<not> anc idom y x"
  shows "numbered idom s s2 (D \<union> D')"
  unfolding numbered_def
proof (intro conjI ballI allI impI)
  note o = numbered_parts [OF one] and t = numbered_parts [OF two]
  show "length (nb_tin s2) = length (nb_tin s)" "length (nb_tout s2) = length (nb_tout s)"
    "nb_clock s \<le> nb_clock s2"
    using o(1-3) t(1-3) by auto
  fix x assume "x \<notin> D \<union> D'"
  then show "nb_tin s2 ! x = nb_tin s ! x" "nb_tout s2 ! x = nb_tout s ! x"
    using o(4,5) t(4,5) by auto
next
  note o = numbered_parts [OF one] and t = numbered_parts [OF two]
  have D: "\<exists>i j. nb_tin s2 ! x = Some i \<and> nb_tout s2 ! x = Some j \<and> nb_clock s \<le> i \<and> i < j \<and> j < nb_clock s1"
    if x: "x \<in> D" for x
  proof -
    have "x \<notin> D'" using x apart by auto
    then show ?thesis using o(6) [OF x] t(4,5) by simp
  qed
  have D': "\<exists>i j. nb_tin s2 ! x = Some i \<and> nb_tout s2 ! x = Some j \<and> nb_clock s1 \<le> i \<and> i < j \<and> j < nb_clock s2"
    if x: "x \<in> D'" for x
    using t(6) [OF x] .
  fix x assume x: "x \<in> D \<union> D'"
  then show "\<exists>i j. nb_tin s2 ! x = Some i \<and> nb_tout s2 ! x = Some j \<and> nb_clock s \<le> i \<and> i < j \<and> j < nb_clock s2"
    using D [of x] D' [of x] o(3) t(3) by fastforce
  fix y assume y: "y \<in> D \<union> D'"
  consider "x \<in> D" "y \<in> D" | "x \<in> D'" "y \<in> D'" | "x \<in> D" "y \<in> D'" | "x \<in> D'" "y \<in> D"
    using x y by blast
  then show "anc idom x y \<longleftrightarrow>
      the (nb_tin s2 ! x) \<le> the (nb_tin s2 ! y) \<and> the (nb_tout s2 ! y) \<le> the (nb_tout s2 ! x)"
  proof cases
    case 1
    then have "x \<notin> D'" "y \<notin> D'" using apart by auto
    then show ?thesis using o(7) [OF 1] t(4,5) by simp
  next
    case 2 then show ?thesis using t(7) by simp
  next
    case 3 then show ?thesis using cross D [OF 3(1)] D' [OF 3(2)] by fastforce
  next
    case 4 then show ?thesis using cross D' [OF 4(1)] D [OF 4(2)] by fastforce
  qed
qed

lemma numbered_node:
  assumes inner: "numbered idom (s\<lparr>nb_tin := (nb_tin s)[b := Some (nb_clock s)], nb_clock := nb_clock s + 1,
      nb_stack := st\<rparr>) s1 D"
    and b: "b < length (nb_tin s)" "b < length (nb_tout s)" "b \<notin> D"
    and below: "\<And>x. x \<in> D \<Longrightarrow> anc idom b x \<and> \<not> anc idom x b"
  shows "numbered idom s (s1\<lparr>nb_tout := (nb_tout s1)[b := Some (nb_clock s1)], nb_clock := nb_clock s1 + 1,
      nb_stack := st'\<rparr>) (insert b D)"
proof -
  note i = numbered_parts [OF inner, simplified]
  have bt: "nb_tin s1 ! b = Some (nb_clock s)" using i(4) [OF b(3)] b(1) by simp
  have bl: "b < length (nb_tout s1)" using i(2) b(2) by simp
  have D: "\<exists>k j. nb_tin s1 ! x = Some k \<and> nb_tout s1 ! x = Some j \<and> nb_clock s < k \<and> k < j \<and> j < nb_clock s1 \<and> x \<noteq> b"
    if x: "x \<in> D" for x
    using i(6) [OF x] x b(3) by auto
  show ?thesis
    unfolding numbered_def
  proof (intro conjI ballI allI impI)
    fix x y assume x: "x \<in> insert b D" and y: "y \<in> insert b D"
    consider "x = b" "y = b" | "x = b" "y \<in> D" | "x \<in> D" "y = b" | "x \<in> D" "y \<in> D" using x y by blast
    then show "anc idom x y \<longleftrightarrow>
        the (nb_tin (s1\<lparr>nb_tout := (nb_tout s1)[b := Some (nb_clock s1)], nb_clock := nb_clock s1 + 1, nb_stack := st'\<rparr>) ! x)
        \<le> the (nb_tin (s1\<lparr>nb_tout := (nb_tout s1)[b := Some (nb_clock s1)], nb_clock := nb_clock s1 + 1, nb_stack := st'\<rparr>) ! y) \<and>
        the (nb_tout (s1\<lparr>nb_tout := (nb_tout s1)[b := Some (nb_clock s1)], nb_clock := nb_clock s1 + 1, nb_stack := st'\<rparr>) ! y)
        \<le> the (nb_tout (s1\<lparr>nb_tout := (nb_tout s1)[b := Some (nb_clock s1)], nb_clock := nb_clock s1 + 1, nb_stack := st'\<rparr>) ! x)"
    proof cases
      case 1 then show ?thesis by simp
    next
      case 2 then show ?thesis using D [OF 2(2)] below bt bl by fastforce
    next
      case 3 then show ?thesis using D [OF 3(1)] below bt bl by fastforce
    next
      case 4 then show ?thesis using D [OF 4(1)] D [OF 4(2)] i(7) [OF 4] by fastforce
    qed
  next
    fix x assume "x \<in> insert b D"
    then show "\<exists>i j. nb_tin (s1\<lparr>nb_tout := (nb_tout s1)[b := Some (nb_clock s1)], nb_clock := nb_clock s1 + 1, nb_stack := st'\<rparr>) ! x = Some i \<and>
        nb_tout (s1\<lparr>nb_tout := (nb_tout s1)[b := Some (nb_clock s1)], nb_clock := nb_clock s1 + 1, nb_stack := st'\<rparr>) ! x = Some j \<and>
        nb_clock s \<le> i \<and> i < j \<and>
        j < nb_clock (s1\<lparr>nb_tout := (nb_tout s1)[b := Some (nb_clock s1)], nb_clock := nb_clock s1 + 1, nb_stack := st'\<rparr>)"
      using D [of x] bt bl i(3) by fastforce
  qed (use i(1-5) in auto)
qed

section \<open>The run\<close>

lemma number_push:
  assumes "nb_stack s = (b, k) # rest" "k < length (children ! b)"
  shows "number_step children s =
           s\<lparr>nb_tin := (nb_tin s)[children ! b ! k := Some (nb_clock s)], nb_clock := nb_clock s + 1,
             nb_stack := (children ! b ! k, 0) # (b, k + 1) # rest\<rparr>"
  using assms by (simp add: number_step_def list_get_def)

lemma number_pop:
  assumes "nb_stack s = (b, length (children ! b)) # rest"
  shows "number_step children s =
           s\<lparr>nb_tout := (nb_tout s)[b := Some (nb_clock s)], nb_clock := nb_clock s + 1, nb_stack := rest\<rparr>"
  using assms by (simp add: number_step_def list_get_def)

lemma number_run:
  assumes tree: "tree_ok ix e idom"
  defines "ch \<equiv> tree_children idom" and "hi \<equiv> (\<Sum>x < length idom. ix ! x)"
  shows "processed idom b \<Longrightarrow> nb_stack s = (b, k) # rest \<Longrightarrow> k \<le> length (ch ! b) \<Longrightarrow>
    length (nb_tin s) = length idom \<Longrightarrow> length (nb_tout s) = length idom \<Longrightarrow>
    \<exists>n s'. (number_step ch ^^ n) s = s' \<and> nb_stack s' = (b, length (ch ! b)) # rest \<and>
      numbered idom s s' (forest idom (drop k (ch ! b)))"
proof (induction "(hi - ix ! b, length (ch ! b) - k)" arbitrary: b k s rest
    rule: wf_induct_rule [OF wf_lex_prod [OF wf_less_than wf_less_than]])
  case (1 b k s rest)
  note tr = child_parent [OF tree 1(2), folded ch_def]
  show ?case
  proof (cases "k = length (ch ! b)")
    case True
    have "numbered idom s s {}" by (simp add: numbered_def)
    then have "(number_step ch ^^ 0) s = s \<and> nb_stack s = (b, length (ch ! b)) # rest \<and>
        numbered idom s s (forest idom (drop k (ch ! b)))"
      using True 1(3) by simp
    then show ?thesis by blast
  next
    case False
    then have k: "k < length (ch ! b)" using 1(4) by simp
    define c where "c = ch ! b ! k"
    have cb: "c \<in> set (ch ! b)" using k by (simp add: c_def)
    have c: "processed idom c" "ix ! b < ix ! c" using tr(2,3) [OF cb] by auto
    have cl: "c < length idom" using c(1) by (simp add: processed_def)
    have cut: "ch ! b = take k (ch ! b) @ c # drop (Suc k) (ch ! b)"
      using k by (simp add: c_def id_take_nth_drop)
    have dr: "drop k (ch ! b) = c # drop (Suc k) (ch ! b)" using k by (simp add: c_def Cons_nth_drop_Suc)
    have le: "ix ! c \<le> hi" unfolding hi_def
      using cl by (intro member_le_sum) auto
    let ?push = "s\<lparr>nb_tin := (nb_tin s)[c := Some (nb_clock s)], nb_clock := nb_clock s + 1,
        nb_stack := (c, 0) # (b, k + 1) # rest\<rparr>"
    have push: "number_step ch s = ?push" using number_push [OF 1(3) k] by (simp add: c_def)
    have m1: "((hi - ix ! c, length (ch ! c) - 0), (hi - ix ! b, length (ch ! b) - k)) \<in> less_than <*lex*> less_than"
      using c(2) le by auto
    obtain n1 s1 where s1: "(number_step ch ^^ n1) ?push = s1" "nb_stack s1 = (c, length (ch ! c)) # (b, k + 1) # rest"
      "numbered idom ?push s1 (forest idom (ch ! c))"
      using 1(1) [OF m1 c(1), of ?push "(b, k + 1) # rest"] 1(5,6) by auto
    let ?pop = "s1\<lparr>nb_tout := (nb_tout s1)[c := Some (nb_clock s1)], nb_clock := nb_clock s1 + 1,
        nb_stack := (b, k + 1) # rest\<rparr>"
    have pop: "number_step ch s1 = ?pop" using number_pop [OF s1(2)] .
    have dc: "desc idom c = insert c (forest idom (ch ! c))" unfolding ch_def by (rule desc_children [OF tree c(1)])
    have below: "anc idom c x \<and> \<not> anc idom x c" if x: "x \<in> forest idom (ch ! c)" for x
    proof -
      obtain d where d: "d \<in> set (ch ! c)" "anc idom d x" using x by (auto simp: forest_def desc_def)
      have "\<not> anc idom d c" using child_parent(5) [OF tree c(1), folded ch_def, OF d(1)] .
      moreover have "anc idom c x" using x dc by (auto simp: desc_def)
      ultimately show ?thesis using d(2) anc_trans by blast
    qed
    have cn: "c \<notin> forest idom (ch ! c)" using below [of c] by auto
    have pop_ok: "numbered idom s ?pop (desc idom c)"
      unfolding dc by (rule numbered_node [OF s1(3)]) (use cl cn below 1(5,6) in auto)
    have m2: "((hi - ix ! b, length (ch ! b) - (k + 1)), (hi - ix ! b, length (ch ! b) - k)) \<in> less_than <*lex*> less_than"
      using k by auto
    obtain n2 s2 where s2: "(number_step ch ^^ n2) ?pop = s2" "nb_stack s2 = (b, length (ch ! b)) # rest"
      "numbered idom ?pop s2 (forest idom (drop (k + 1) (ch ! b)))"
      using 1(1) [OF m2 1(2), of ?pop rest] k numbered_parts(1,2) [OF pop_ok] 1(5,6) by auto
    have apart: "desc idom c \<inter> forest idom (drop (k + 1) (ch ! b)) = {}"
      using forest_apart [OF tree 1(2), folded ch_def, OF cut] by simp
    have cross: "\<not> anc idom x y \<and> \<not> anc idom y x"
      if "x \<in> desc idom c" "y \<in> forest idom (drop (k + 1) (ch ! b))" for x y
      using that apart desc_closed [of x idom c y] forest_closed [of y idom _ x]
      by (auto simp: forest_def desc_def)
    have all: "numbered idom s s2 (forest idom (drop k (ch ! b)))"
      unfolding dr forest_simps using numbered_union [OF pop_ok s2(3) apart cross] by simp
    have "(number_step ch ^^ (n2 + (1 + (n1 + 1)))) s = s2"
      unfolding funpow_add comp_apply using push s1(1) pop s2(1) by simp
    then show ?thesis using s2(2) all by blast
  qed
qed

end
