(* ===== verification/Ssa_Dom_Props.thy ===== *)
theory Ssa_Dom_Props
  imports Ssa_Dom_Num Reg_Safety
begin

text \<open>
  The dominator tree is exact, and the verifier that runs on it accepts only functions in SSA
  form; so the registers assigned to a verified function never clash.
\<close>

section \<open>The numbering returns\<close>

lemma while_of_run:
  assumes "\<not> p ((c ^^ n) s)" "\<And>x. \<not> p x \<Longrightarrow> c x = x"
  shows "while_option p c s = Some ((c ^^ n) s)"
proof -
  let ?k = "LEAST k. \<not> p ((c ^^ k) s)"
  have k: "\<not> p ((c ^^ ?k) s)" by (rule LeastI [of "\<lambda>k. \<not> p ((c ^^ k) s)", OF assms(1)])
  have "?k \<le> n" by (rule Least_le [of "\<lambda>k. \<not> p ((c ^^ k) s)", OF assms(1)])
  then obtain m where m: "n = m + ?k" by (metis le_iff_add add.commute)
  have "(c ^^ j) ((c ^^ ?k) s) = (c ^^ ?k) s" for j
    using assms(2) [OF k] by (induction j) simp_all
  then have "(c ^^ n) s = (c ^^ ?k) s" using m by (metis funpow_add comp_apply)
  then show ?thesis using assms(1) by (auto simp: while_option_def)
qed

lemma number_returns:
  assumes tree: "tree_ok ix e idom"
  shows "\<exists>s. while_option (\<lambda>s. nb_stack s \<noteq> []) (number_step (tree_children idom))
               (number_init (length idom) e) = Some s \<and>
    (\<forall>b < length idom. nb_tin s ! b \<noteq> None \<longleftrightarrow> processed idom b) \<and>
    (\<forall>b < length idom. nb_tout s ! b \<noteq> None \<longleftrightarrow> processed idom b) \<and>
    (\<forall>a b. processed idom a \<and> processed idom b \<longrightarrow>
       (anc idom a b \<longleftrightarrow> the (nb_tin s ! a) \<le> the (nb_tin s ! b) \<and> the (nb_tout s ! b) \<le> the (nb_tout s ! a)))"
proof -
  let ?n = "length idom" and ?ch = "tree_children idom"
  define s0 where "s0 = \<lparr>nb_tin = replicate ?n None, nb_tout = replicate ?n None, nb_clock = 0, nb_stack = []\<rparr>"
  have e: "processed idom e" "e < ?n" using tree_entry [OF tree] by (auto simp: processed_def)
  have init: "s0\<lparr>nb_tin := (nb_tin s0)[e := Some (nb_clock s0)], nb_clock := nb_clock s0 + 1,
      nb_stack := [(e, 0)]\<rparr> = number_init ?n e"
    by (simp add: s0_def number_init_def)
  obtain n s1 where s1: "(number_step ?ch ^^ n) (number_init ?n e) = s1"
    "nb_stack s1 = [(e, length (?ch ! e))]" "numbered idom (number_init ?n e) s1 (forest idom (?ch ! e))"
    using number_run [OF tree e(1), of "number_init ?n e" 0 "[]"] by (auto simp: number_init_def)
  define s2 where "s2 = s1\<lparr>nb_tout := (nb_tout s1)[e := Some (nb_clock s1)], nb_clock := nb_clock s1 + 1,
      nb_stack := []\<rparr>"
  have pop: "number_step ?ch s1 = s2" unfolding s2_def by (rule number_pop [OF s1(2)])
  have run: "(number_step ?ch ^^ Suc n) (number_init ?n e) = s2" using s1(1) pop by simp
  have below: "anc idom e x \<and> \<not> anc idom x e" if x: "x \<in> forest idom (?ch ! e)" for x
  proof -
    obtain d where d: "d \<in> set (?ch ! e)" "anc idom d x" "processed idom x"
      using x by (auto simp: forest_def desc_def)
    have "\<not> anc idom d e" using child_parent(5) [OF tree e(1) d(1)] .
    then show ?thesis using d anc_trans anc_entry [OF tree d(3)] by blast
  qed
  have "numbered idom s0 s2 (insert e (forest idom (?ch ! e)))"
    unfolding s2_def
    by (rule numbered_node [OF s1(3) [folded init]]) (use e below in \<open>auto simp: s0_def\<close>)
  moreover have "insert e (forest idom (?ch ! e)) = {b. processed idom b}"
    using desc_children [OF tree e(1)] anc_entry [OF tree] by (auto simp: desc_def)
  ultimately have all: "numbered idom s0 s2 {b. processed idom b}" by simp
  note parts = numbered_parts [OF all, unfolded mem_Collect_eq]
  have "while_option (\<lambda>s. nb_stack s \<noteq> []) (number_step ?ch) (number_init ?n e) = Some s2"
    using while_of_run [where p = "\<lambda>s. nb_stack s \<noteq> []" and c = "number_step ?ch" and n = "Suc n" and s = "number_init ?n e"]
    unfolding run by (simp add: s2_def number_step_def)
  moreover have "nb_tin s2 ! b \<noteq> None \<longleftrightarrow> processed idom b" "nb_tout s2 ! b \<noteq> None \<longleftrightarrow> processed idom b"
    if "b < ?n" for b
    using parts(4,5,6) [of b] that by (cases "processed idom b"; auto simp: s0_def)+
  ultimately show ?thesis using parts(7) by blast
qed

section \<open>The positions\<close>

lemma fold_positions:
  "distinct rpo \<Longrightarrow> (\<forall>b \<in> set rpo. b < length ix) \<Longrightarrow>
     length (fold (\<lambda>(i, b) ix. ix[b := i]) (List.enumerate k rpo) ix) = length ix \<and>
     (\<forall>b. b \<notin> set rpo \<longrightarrow> fold (\<lambda>(i, b) ix. ix[b := i]) (List.enumerate k rpo) ix ! b = ix ! b) \<and>
     (\<forall>i < length rpo. fold (\<lambda>(i, b) ix. ix[b := i]) (List.enumerate k rpo) ix ! (rpo ! i) = k + i)"
proof (induction rpo arbitrary: k ix)
  case (Cons r rpo)
  have "\<forall>b \<in> set rpo. b < length (ix[r := k])" using Cons.prems by simp
  note ih = Cons.IH [OF _ this, of "Suc k"]
  show ?case
  proof (intro conjI allI impI)
    fix i assume i: "i < length (r # rpo)"
    show "fold (\<lambda>(i, b) ix. ix[b := i]) (List.enumerate k (r # rpo)) ix ! ((r # rpo) ! i) = k + i"
      using ih Cons.prems i by (cases i) auto
  qed (use ih Cons.prems in auto)
qed simp

lemma rpo_positions_ok:
  assumes "distinct rpo" "\<forall>b \<in> set rpo. b < n" "i < length rpo"
  shows "rpo_positions n rpo ! (rpo ! i) = i"
  using fold_positions [of rpo "replicate n usize_max" 0] assms by (simp add: rpo_positions_def)

lemma before_position:
  assumes "distinct rpo" "\<forall>b \<in> set rpo. b < n" "before rpo a b"
  shows "rpo_positions n rpo ! a < rpo_positions n rpo ! b"
proof -
  obtain us ms vs where r: "rpo = us @ a # ms @ b # vs" using assms(3) by (auto simp: before_def)
  have "rpo_positions n rpo ! (rpo ! length us) = length us"
    "rpo_positions n rpo ! (rpo ! (length us + 1 + length ms)) = length us + 1 + length ms"
    by (rule rpo_positions_ok [OF assms(1,2)], simp add: r)+
  then show ?thesis by (simp add: r nth_append)
qed

lemma reverse_postorder_order:
  assumes "cfg_ok f" "preds_ok f"
  obtains rpo where "reverse_postorder f = Some rpo" "order_ok f rpo (rpo_positions (length (f_blocks f)) rpo)"
proof -
  obtain rpo where r: "reverse_postorder f = Some rpo" "distinct rpo" "set rpo = {b. f_reach f b}"
    "\<And>b. f_reach f b \<Longrightarrow> b \<noteq> f_entry f \<Longrightarrow> \<exists>p. flow f p b \<and> before rpo p b"
    by (rule reverse_postorder_ok [OF assms(1)]) blast
  have rng: "\<forall>b \<in> set rpo. b < length (f_blocks f)"
    using r(3) reaches_in_range [OF _ assms(1)] by blast
  have "\<exists>p. flow f p b \<and> f_reach f p \<and>
      rpo_positions (length (f_blocks f)) rpo ! p < rpo_positions (length (f_blocks f)) rpo ! b"
    if b: "f_reach f b" "b \<noteq> f_entry f" for b
  proof -
    obtain p where p: "flow f p b" "before rpo p b" using r(4) [OF b] by blast
    have "p \<in> set rpo" using p(2) by (auto simp: before_def)
    then show ?thesis using p before_position [OF r(2) rng p(2)] r(3) by blast
  qed
  then have "order_ok f rpo (rpo_positions (length (f_blocks f)) rpo)"
    unfolding order_ok_def using assms r(3) rpo_positions_ok [OF r(2) rng] by blast
  then show ?thesis using that r(1) by blast
qed

lemma first_idoms:
  assumes "cfg_ok f"
  shows "iter_inv f ix 0 0 ((replicate (length (f_blocks f)) None)[f_entry f := Some (f_entry f)])"
proof -
  let ?idom = "(replicate (length (f_blocks f)) None)[f_entry f := Some (f_entry f)]"
  have e: "f_entry f < length (f_blocks f)" using assms by (simp add: cfg_ok_def)
  have p: "processed ?idom b \<longleftrightarrow> b = f_entry f" for b
    using e by (auto simp: processed_def nth_list_update)
  have one: "anc ?idom a x \<Longrightarrow> x = f_entry f \<Longrightarrow> a = f_entry f" for a x
    by (induction rule: anc.induct) (use e in auto)
  have tree: "tree_ok ix (f_entry f) ?idom"
    unfolding tree_ok_def p using e by simp
  show ?thesis
    unfolding iter_inv_def p
  proof (intro conjI allI impI tree)
    fix x pth a
    assume *: "x = f_entry f \<and> path_to (flow f) (f_entry f) pth x \<and>
      backs ix pth \<le> (if ix ! x < 0 then 0 else 0 - 1) \<and> anc ?idom a x"
    then have "a = f_entry f" using one by blast
    moreover have "f_entry f \<in> set pth"
      using * unfolding path_to_def by (metis hd_in_set walk_nonempty)
    ultimately show "a \<in> set pth" by simp
  qed (use dominates_entry [of "flow f" "f_entry f"] in auto)
qed

section \<open>The tree is exact\<close>

lemma unreachable_dominated: "\<not> f_reach f b \<Longrightarrow> f_dom f a b"
  by (auto simp: dominates_def reaches_def)

lemma dominator_reachable:
  assumes "f_dom f a b" "f_reach f b"
  shows "f_reach f a"
proof -
  obtain p where p: "path_to (flow f) (f_entry f) p b" using assms(2) by (auto simp: reaches_def)
  then have "a \<in> set p" using assms(1) by (simp add: dominates_def)
  then obtain q r where "p = q @ a # r" by (auto simp: in_set_conv_decomp)
  then show ?thesis using path_to_prefix [of "flow f" "f_entry f" q a r b] p by (auto simp: reaches_def)
qed

lemma dom_tree_exact:
  assumes "cfg_ok f" and "preds_ok f"
  shows "\<exists>t. dom_compute f = Some t \<and>
           (\<forall>b < length (f_blocks f).
              (dom_reachable t b \<longleftrightarrow> f_reach f b) \<and>
              (\<forall>a < length (f_blocks f). dom_dominates t a b \<longleftrightarrow> f_dom f a b))"
proof -
  let ?n = "length (f_blocks f)"
  obtain rpo where rpo: "reverse_postorder f = Some rpo" "order_ok f rpo (rpo_positions ?n rpo)"
    by (rule reverse_postorder_order [OF assms])
  obtain idom where idom:
    "idom_loop f (rpo_positions ?n rpo) rpo ((replicate ?n None)[f_entry f := Some (f_entry f)]) = Some idom"
    "tree_ok (rpo_positions ?n rpo) (f_entry f) idom" "dom_tree_of f idom"
    using idom_loop_returns [OF rpo(2) first_idoms [OF assms(1)]] by blast
  have len: "length idom = ?n" and pr: "processed idom b \<longleftrightarrow> f_reach f b"
    and an: "f_reach f b \<Longrightarrow> anc idom a b \<longleftrightarrow> f_dom f a b" for a b
    using idom(3) unfolding dom_tree_of_def by blast+
  obtain s where s: "while_option (\<lambda>s. nb_stack s \<noteq> []) (number_step (tree_children idom))
      (number_init ?n (f_entry f)) = Some s"
    and tin: "\<And>b. b < ?n \<Longrightarrow> nb_tin s ! b \<noteq> None \<longleftrightarrow> f_reach f b"
    and tout: "\<And>b. b < ?n \<Longrightarrow> nb_tout s ! b \<noteq> None \<longleftrightarrow> f_reach f b"
    and cmp: "\<And>a b. f_reach f a \<Longrightarrow> f_reach f b \<Longrightarrow> anc idom a b \<longleftrightarrow>
      the (nb_tin s ! a) \<le> the (nb_tin s ! b) \<and> the (nb_tout s ! b) \<le> the (nb_tout s ! a)"
    using number_returns [OF idom(2)] unfolding len pr by blast
  let ?t = "\<lparr>dt_tin = nb_tin s, dt_tout = nb_tout s\<rparr>"
  have "dom_dominates ?t a b \<longleftrightarrow> f_dom f a b" if ab: "a < ?n" "b < ?n" for a b
  proof (cases "f_reach f a \<and> f_reach f b")
    case True
    then obtain i j k l where "nb_tin s ! a = Some i" "nb_tout s ! a = Some j"
      "nb_tin s ! b = Some k" "nb_tout s ! b = Some l"
      using tin [OF ab(1)] tout [OF ab(1)] tin [OF ab(2)] tout [OF ab(2)] by auto
    then show ?thesis using cmp [of a b] an [of b a] True by (simp add: dom_dominates_def le_number_def)
  next
    case False
    show ?thesis
    proof (cases "f_reach f b")
      case True
      then have "\<not> f_dom f a b" using False dominator_reachable by blast
      then show ?thesis using True False tin [OF ab(1)] tin [OF ab(2)] by (simp add: dom_dominates_def)
    next
      case False
      then show ?thesis using unreachable_dominated [OF False] tin [OF ab(2)]
        by (simp add: dom_dominates_def)
    qed
  qed
  moreover have "dom_reachable ?t b \<longleftrightarrow> f_reach f b" if "b < ?n" for b
    using tin [OF that] by (simp add: dom_reachable_def)
  moreover have "dom_compute f = Some ?t" by (simp add: dom_compute_def rpo(1) idom(1) s)
  ultimately show ?thesis by blast
qed

lemma demo_preds: "preds_ok try_demo"
proof -
  have "set (bk_preds (f_blocks try_demo ! b)) = {p. p < 4 \<and> b \<in> set (func_succs try_demo p)}"
    if "b < 4" for b
    using that unfolding less_4 by (auto simp: demo_succs demo_simps less_4)
  then show ?thesis by (simp add: preds_ok_def flow_def func_succs_def)
qed

text \<open>
  C7: the construction of the dominator tree returns for every function whose edges are in range
  and whose predecessor lists are those of the graph, and its queries are exact: a block is
  reported reachable precisely when a path from the entry leads to it, and one block is reported
  to dominate another precisely when every path from the entry to the other passes through it.
\<close>

theorem dom_compute_exact:
  assumes "cfg_ok f" and "preds_ok f"
  shows "\<exists>t. dom_compute f = Some t \<and>
           (\<forall>b < length (f_blocks f).
              (dom_reachable t b \<longleftrightarrow> f_reach f b) \<and>
              (\<forall>a < length (f_blocks f). dom_dominates t a b \<longleftrightarrow> f_dom f a b))"
  by (rule dom_tree_exact [OF assms])

theorem dom_compute_exact_witness:
  "\<exists>t. dom_compute try_demo = Some t \<and> dom_dominates t 0 1"
proof -
  have "f_dom try_demo 0 1" by simp
  then show ?thesis using dom_compute_exact [OF demo_cfg(1) demo_preds] by auto
qed

section \<open>Verified functions\<close>

definition preds_complete :: "ssa_func \<Rightarrow> bool" where
  "preds_complete f \<longleftrightarrow>
     (\<forall>b < length (f_blocks f). \<forall>s \<in> set (block_successors (f_blocks f ! b)).
        b \<in> set (bk_preds (f_blocks f ! s)))"

lemma edge_arg_count_flow:
  assumes "edge_arg_count (f_blocks f) p b = Inr k"
  shows "flow f p b"
  using assms
  by (cases "bk_term (f_blocks f ! p)")
    (auto simp: edge_arg_count_def flow_def block_successors_def split: if_splits)

lemma verify_preds_ok:
  assumes "verify dt f = Inr ()" "preds_complete f"
  shows "preds_ok f"
proof -
  have e: "check_edges (f_blocks f) [0..<length (f_blocks f)] = Inr ()"
    using assms(1) by (rule verify_parts)
  show ?thesis
    unfolding preds_ok_def
  proof (intro allI impI equalityI subsetI)
    fix b p assume b: "b < length (f_blocks f)" and "p \<in> set (bk_preds (f_blocks f ! b))"
    then have "p < length (f_blocks f) \<and>
        edge_arg_count (f_blocks f) p b = Inr (length (bk_params (f_blocks f ! b)))"
      using check_edges_ok [OF e, of b, THEN conjunct2] by simp
    then show "p \<in> {p. p < length (f_blocks f) \<and> flow f p b}" using edge_arg_count_flow by blast
  next
    fix b p assume "p \<in> {p. p < length (f_blocks f) \<and> flow f p b}"
    then show "p \<in> set (bk_preds (f_blocks f ! b))"
      using assms(2) by (auto simp: preds_complete_def flow_def)
  qed
qed

text \<open>
  C6: a function that the verifier accepts, with the dominator tree it computes itself, is in SSA
  form and its edges are in range: every value has one definition, and every use in a reachable
  block comes after the definition in the same block or has its definition in a block on every
  path from the entry. The verifier checks the predecessors listed; that none is missing is the
  duty of the construction.
\<close>

theorem verified_ssa_form:
  assumes "verify_func f = Some (Inr ())" "preds_complete f" "f_entry f < length (f_blocks f)"
  shows "cfg_ok f \<and> ssa_form f"
proof -
  obtain t where t: "dom_compute f = Some t" "verify (dom_query_of t) f = Inr ()"
    by (rule verify_func_ok [OF assms(1)])
  have cfg: "cfg_ok f" by (rule verify_cfg_ok [OF t(2) assms(3)])
  have "dom_sound f (dom_query_of t)"
    using dom_tree_exact [OF cfg verify_preds_ok [OF t(2) assms(2)]] t(1) reaches_in_range [OF _ cfg]
    by (auto simp: dom_sound_def dom_query_of_def)
  then show ?thesis using verify_ssa_form [OF t(2) assms(3)] cfg by blast
qed

definition demo_sites :: defs where
  "demo_sites = map (\<lambda>(b, k). Some \<lparr>ds_block = b, ds_order = k\<rparr>)
     [(0, 0), (0, 0), (0, 1), (0, 2), (Suc 0, 1), (Suc 0, 2), (Suc 0, 3), (2, 1)]"

lemma demo_defs: "verify_defs try_demo = Inr demo_sites"
proof -
  have "func_defs try_demo =
      [(0, \<lparr>ds_block = 0, ds_order = 0\<rparr>), (1, \<lparr>ds_block = 0, ds_order = 0\<rparr>),
       (2, \<lparr>ds_block = 0, ds_order = 1\<rparr>), (3, \<lparr>ds_block = 0, ds_order = 2\<rparr>),
       (4, \<lparr>ds_block = 1, ds_order = 1\<rparr>), (5, \<lparr>ds_block = 1, ds_order = 2\<rparr>),
       (6, \<lparr>ds_block = 1, ds_order = 3\<rparr>), (7, \<lparr>ds_block = 2, ds_order = 1\<rparr>)]"
    unfolding func_defs_def
    by (simp add: try_demo_def block_defs_def empty_block_def List.map_filter_def)
  then show ?thesis
    by (simp add: verify_defs_def demo_sites_def small_lists define_value_def list_get_def)
qed

lemma demo_verified: "verify_func try_demo = Some (Inr ())"
proof -
  obtain t where t: "dom_compute try_demo = Some t"
    "\<And>b. b < 4 \<Longrightarrow> dom_reachable t b \<longleftrightarrow> f_reach try_demo b"
    "\<And>a b. a < 4 \<Longrightarrow> b < 4 \<Longrightarrow> dom_dominates t a b \<longleftrightarrow> f_dom try_demo a b"
    using dom_tree_exact [OF demo_cfg(1) demo_preds] by auto
  have "f_dom try_demo 0 b" for b
    by simp
  then have d: "dom_dominates t 0 0" "dom_dominates t 0 (Suc 0)" "dom_dominates t 0 2" "dom_dominates t 0 3"
    by (simp_all add: t(3))
  have r: "dom_reachable t 0" "dom_reachable t (Suc 0)" "dom_reachable t 2" "dom_reachable t 3"
    using reaches_step [OF reaches_refl, of "flow try_demo" 0]
    by (simp_all add: t(2) flow_def func_succs_def [symmetric] demo_succs)
  have edges: "check_edges (f_blocks try_demo) [0..<4] = Inr ()"
    unfolding small_lists
    by (simp add: edge_arg_count_def demo_succs [unfolded func_succs_def] demo_simps block_handlers_def
        block_successors_def)
  have one: "value_ty try_demo (Suc 0) = Ty_Int" by (simp add: value_ty_def try_demo_def)
  have blocks: "check_blocks try_demo demo_sites (dom_query_of t) [0..<4] = Inr ()"
    unfolding small_lists
    by (simp add: check_block_def Let_def demo_simps check_use_def list_get_def d r dom_query_of_def demo_sites_def
        check_inst_types_def check_binary_def expect_dest_def demo_types one edge_order_def)
  show ?thesis
    unfolding verify_func_def t(1)
    by (simp add: demo_defs edges blocks)
qed

theorem verified_ssa_form_witness: "ssa_form try_demo"
proof -
  have "preds_complete try_demo"
    using demo_preds demo_cfg(1) by (auto simp: preds_complete_def preds_ok_def flow_def cfg_ok_def)
  then show ?thesis using verified_ssa_form [OF demo_verified] by simp
qed

end
