(* ===== verification/Spec2Isabelle.thy ===== *)
theory Spec2Isabelle
  imports Class_Layout Vm_Array Disasm Const_Fold_Pass Task_Props Gc_Props Reg_Safety Ssa_Dom_Props
begin

text \<open>
  Verification development of the Varn compiler and virtual machine.
\<close>

end
